(* ===== verification/Prelude.thy ===== *)
theory Prelude
  imports Main "HOL-Library.Word"
begin

text \<open>
  Shared vocabulary of the development: bytes and big-endian fields of the wire formats,
  \<^verbatim>\<open>size_t\<close> arithmetic with its wrap-around, the characters of C strings, and
  the lemmas on lists, options and words that the component theories use.  The collections
  \<open>wire_simps\<close> (field encodings), \<open>size_simps\<close> (unsigned arithmetic) and
  \<open>op_defs\<close> (definitions of straight-line operations) are filled by the components.
\<close>

named_theorems wire_simps \<open>lengths and inverses of wire field encodings\<close>
named_theorems size_simps \<open>unsigned 64-bit arithmetic that does not wrap\<close>
named_theorems op_defs \<open>definitions of straight-line operations\<close>

section \<open>Bytes\<close>

type_synonym byte = "8 word"
type_synonym bytes = "8 word list"

text \<open>The bytes of a C string, without its terminator.\<close>

definition text_bytes :: "string \<Rightarrow> bytes" where
  "text_bytes s = map of_char s"

text \<open>
  \<^verbatim>\<open>(uint8_t)(n >> 8), (uint8_t)n\<close>: the two bytes of a big-endian 16-bit field,
  truncated as the casts truncate.
\<close>

definition be16 :: "nat \<Rightarrow> bytes" where
  "be16 n = [of_nat (n div 256), of_nat n]"

definition be24 :: "nat \<Rightarrow> bytes" where
  "be24 n = [of_nat (n div 65536), of_nat (n div 256), of_nat n]"

definition be32 :: "nat \<Rightarrow> bytes" where
  "be32 n = [of_nat (n div 16777216), of_nat (n div 65536), of_nat (n div 256), of_nat n]"

text \<open>\<^verbatim>\<open>((unsigned)a << 8) | b\<close> and its longer variants.\<close>

definition word16 :: "byte \<Rightarrow> byte \<Rightarrow> nat" where
  "word16 a b = unat a * 256 + unat b"

definition word24 :: "byte \<Rightarrow> byte \<Rightarrow> byte \<Rightarrow> nat" where
  "word24 a b c = unat a * 65536 + unat b * 256 + unat c"

definition word32 :: "byte \<Rightarrow> byte \<Rightarrow> byte \<Rightarrow> byte \<Rightarrow> nat" where
  "word32 a b c d = unat a * 16777216 + unat b * 65536 + unat c * 256 + unat d"

lemma unat_byte_less [simp]: "unat (b :: byte) < 256"
  using unsigned_less [of b, where 'a = nat] by simp

lemma unat_byte_le [simp]: "unat (b :: byte) \<le> 255"
  using unat_byte_less [of b] by linarith

lemma unat_of_nat_byte [wire_simps]: "unat (of_nat n :: byte) = n mod 256"
  by (simp add: unat_of_nat)

lemma of_nat_unat_byte [simp]: "(of_nat (unat b) :: byte) = b"
  by simp

lemma length_be16 [simp]: "length (be16 n) = 2"
  by (simp add: be16_def)

lemma length_be24 [simp]: "length (be24 n) = 3"
  by (simp add: be24_def)

lemma length_be32 [simp]: "length (be32 n) = 4"
  by (simp add: be32_def)

lemma length_text_bytes [simp]: "length (text_bytes s) = length s"
  by (simp add: text_bytes_def)

lemma word16_less [simp]: "word16 a b < 65536"
  using unat_byte_less [of a] unat_byte_less [of b] unfolding word16_def by linarith

lemma word16_le [simp]: "word16 a b \<le> 65535"
  using word16_less [of a b] by linarith

lemma word16_be16 [wire_simps]:
  "n < 65536 \<Longrightarrow> word16 (of_nat (n div 256)) (of_nat n) = n"
proof -
  assume "n < 65536"
  then have "n div 256 < 256" by auto
  then show ?thesis by (simp add: word16_def wire_simps)
qed

lemma be16_word16 [wire_simps]: "be16 (word16 a b) = [a, b]"
proof -
  have "word16 a b div 256 = unat a" by (simp add: word16_def)
  moreover have "(of_nat (word16 a b) :: byte) = b"
    by (rule word_unat_eq_iff [THEN iffD2]) (simp only: unat_of_nat_byte word16_def, simp)
  ultimately show ?thesis by (simp add: be16_def)
qed

lemma word24_less: "word24 a b c < 16777216"
  using unat_byte_less [of a] unat_byte_less [of b] unat_byte_less [of c]
  unfolding word24_def by linarith

lemma word32_less: "word32 a b c d < 4294967296"
  using unat_byte_less [of a] unat_byte_less [of b] unat_byte_less [of c] unat_byte_less [of d]
  unfolding word32_def by linarith

section \<open>Unsigned 64-bit sizes\<close>

text \<open>
  \<^verbatim>\<open>size_t\<close> values are natural numbers below \<^verbatim>\<open>2^64\<close>; addition and
  subtraction wrap, as the C operators do.
\<close>

definition SIZE_MAX :: nat where
  "SIZE_MAX = 2 ^ 64 - 1"

definition szadd :: "nat \<Rightarrow> nat \<Rightarrow> nat" where
  "szadd a b = (a + b) mod 2 ^ 64"

definition szsub :: "nat \<Rightarrow> nat \<Rightarrow> nat" where
  "szsub a b = (a + (2 ^ 64 - b)) mod 2 ^ 64"

lemma szadd_exact [size_simps]: "a + b \<le> SIZE_MAX \<Longrightarrow> szadd a b = a + b"
  by (simp add: szadd_def SIZE_MAX_def)

lemma szsub_exact [size_simps]:
  assumes "b \<le> a" and "a \<le> SIZE_MAX"
  shows "szsub a b = a - b"
proof -
  have "a + (2 ^ 64 - b) = (a - b) + 2 ^ 64" using assms by (simp add: SIZE_MAX_def)
  moreover have "a - b < 2 ^ 64" using assms by (simp add: SIZE_MAX_def)
  ultimately show ?thesis by (simp add: szsub_def)
qed

lemma szadd_bound [simp]: "szadd a b \<le> SIZE_MAX"
  by (simp add: szadd_def SIZE_MAX_def)

lemma szsub_bound [simp]: "szsub a b \<le> SIZE_MAX"
  by (simp add: szsub_def SIZE_MAX_def)

section \<open>Lists\<close>

lemma tl_dropWhile_shorter: "dropWhile P xs \<noteq> [] \<Longrightarrow> length (tl (dropWhile P xs)) < length xs"
  using length_dropWhile_le [of P xs] by (simp only: length_tl length_greater_0_conv [symmetric])

section \<open>Error numbers\<close>

text \<open>The values of \<^verbatim>\<open>errno\<close> the program sets or tells apart.\<close>

datatype errno = EINVAL | EOVERFLOW | ENOBUFS | ENOMEM | EMSGSIZE | EIO | EPROTO | ETIMEDOUT | EAGAIN | EINTR
  | EACCES | EPERM | ENETUNREACH | ENETDOWN | EHOSTUNREACH | EHOSTDOWN | ECONNREFUSED | EAFNOSUPPORT | EBADF

end
