(* ===== verification/Buffer_Budget.thy ===== *)
theory Buffer_Budget
  imports Prelude
begin

text \<open>
  The buffer accounting of \<^verbatim>\<open>src/src/buffer_budget.c\<close>: every buffer of the process is
  charged to a budget, every budget to one of three directions, and a direction never charges
  more than 16 MiB.  Budgets live in a store indexed by their address, since two parameters of
  an operation may point to the same budget; a null pointer is an address that holds none.
  Each operation runs under the module's lock, so one operation is one step.
\<close>

unbundle bit_operations_syntax

section \<open>State\<close>

record budget =
  minimum :: nat
  allocated :: nat
  charged :: nat
  direction :: nat

record waiter =
  waiter_fd :: int
  registered :: bool
  directions :: "32 word"

text \<open>What a release tells the outside: a socket is woken, or the relay waiters are.\<close>

datatype notice = Notify_Socket int | Relay_Released

record budget_state =
  g_charged :: "nat \<Rightarrow> nat"
  g_allocated :: "nat \<Rightarrow> nat"
  budgets :: "nat \<rightharpoonup> budget"
  waiters :: "nat list"
  waiter_at :: "nat \<Rightarrow> waiter"
  notices :: "notice list"

definition CORE_BUFFER_TOTAL_LIMIT :: nat where
  "CORE_BUFFER_TOTAL_LIMIT = 16 * 1024 * 1024"

definition CORE_BUFFER_UPLOAD :: nat where "CORE_BUFFER_UPLOAD = 0"
definition CORE_BUFFER_DOWNLOAD :: nat where "CORE_BUFFER_DOWNLOAD = 1"
definition CORE_BUFFER_RELAY :: nat where "CORE_BUFFER_RELAY = 2"
definition CORE_BUFFER_DIRECTIONS :: nat where "CORE_BUFFER_DIRECTIONS = 3"

definition zero_budget :: budget where
  "zero_budget = \<lparr>minimum = 0, allocated = 0, charged = 0, direction = 0\<rparr>"

definition initial_state :: budget_state where
  "initial_state = \<lparr>g_charged = (\<lambda>_. 0), g_allocated = (\<lambda>_. 0), budgets = Map.empty,
     waiters = [], waiter_at = (\<lambda>_. \<lparr>waiter_fd = 0, registered = False, directions = 0\<rparr>),
     notices = []\<rparr>"

section \<open>Waiters\<close>

definition core_buffer_watch :: "budget_state \<Rightarrow> nat \<Rightarrow> int \<Rightarrow> 32 word \<Rightarrow> budget_state" where
  "core_buffer_watch s w fd dirs =
     (let old = waiter_at s w;
          new = \<lparr>waiter_fd = fd, registered = True, directions = dirs\<rparr>
      in s\<lparr>waiter_at := (waiter_at s)(w := new),
           waiters := (if registered old then waiters s else w # waiters s)\<rparr>)"

definition core_buffer_unwatch :: "budget_state \<Rightarrow> nat \<Rightarrow> budget_state" where
  "core_buffer_unwatch s w =
     s\<lparr>waiters := remove1 w (waiters s),
       waiter_at := (waiter_at s)(w := (waiter_at s w)\<lparr>registered := False, directions := 0\<rparr>)\<rparr>"

definition notify_released :: "budget_state \<Rightarrow> nat \<Rightarrow> budget_state" where
  "notify_released s dir =
     (if dir = CORE_BUFFER_RELAY then s\<lparr>notices := notices s @ [Relay_Released]\<rparr>
      else s\<lparr>notices := notices s @
        map (\<lambda>w. Notify_Socket (waiter_fd (waiter_at s w)))
          (filter (\<lambda>w. bit (directions (waiter_at s w)) dir) (waiters s))\<rparr>)"

section \<open>Charging\<close>

definition claim :: "budget_state \<Rightarrow> nat \<Rightarrow> nat \<Rightarrow> errno option \<times> budget_state" where
  "claim s p sz =
     (case budgets s p of
        None \<Rightarrow> (Some EINVAL, s)
      | Some b \<Rightarrow>
          if direction b \<ge> CORE_BUFFER_DIRECTIONS then (Some EINVAL, s)
          else if sz > szsub SIZE_MAX (allocated b) then (Some EOVERFLOW, s)
          else
            let d = direction b;
                total = szadd (allocated b) sz;
                increase = (if total > charged b then szsub total (charged b) else 0)
            in if increase > szsub CORE_BUFFER_TOTAL_LIMIT (g_charged s d) then (Some ENOBUFS, s)
               else (None, s\<lparr>g_charged := (g_charged s)(d := szadd (g_charged s d) increase),
                             g_allocated := (g_allocated s)(d := szadd (g_allocated s d) sz),
                             budgets := (budgets s)(p \<mapsto>
                               b\<lparr>charged := szadd (charged b) increase, allocated := total\<rparr>)\<rparr>))"

definition release :: "budget_state \<Rightarrow> nat \<Rightarrow> nat \<Rightarrow> budget_state" where
  "release s p sz =
     (case budgets s p of
        None \<Rightarrow> s
      | Some b \<Rightarrow>
          let d = direction b;
              left = szsub (allocated b) sz;
              remaining = (if left > minimum b then left else minimum b);
              released = szsub (charged b) remaining;
              t = s\<lparr>g_charged := (g_charged s)(d := szsub (g_charged s d) (szsub (charged b) remaining)),
                    g_allocated := (g_allocated s)(d := szsub (g_allocated s d) sz),
                    budgets := (budgets s)(p \<mapsto> b\<lparr>charged := remaining, allocated := left\<rparr>)\<rparr>
          in if released \<noteq> 0 then notify_released t d else t)"

definition core_buffer_budget_init ::
  "budget_state \<Rightarrow> nat \<Rightarrow> nat \<Rightarrow> nat \<Rightarrow> errno option \<times> budget_state" where
  "core_buffer_budget_init s p dir least =
     (case budgets s p of
        None \<Rightarrow> (Some EINVAL, s)
      | Some b \<Rightarrow>
          if dir \<ge> CORE_BUFFER_DIRECTIONS \<or> least > CORE_BUFFER_TOTAL_LIMIT \<or>
             ((charged b \<noteq> 0 \<or> allocated b \<noteq> 0) \<and> direction b \<noteq> dir) then (Some EINVAL, s)
          else
            let required = (if least > allocated b then least else allocated b);
                released = (if required < charged b then szsub (charged b) required else 0);
                increase = (if required > charged b then szsub required (charged b) else 0)
            in if increase > szsub CORE_BUFFER_TOTAL_LIMIT (g_charged s dir) then (Some ENOBUFS, s)
               else
                 let up = szadd (g_charged s dir) increase;
                     net = (if required < charged b then szsub up (szsub (charged b) required) else up);
                     t = s\<lparr>g_charged := (g_charged s)(dir := net),
                           budgets := (budgets s)(p \<mapsto>
                             b\<lparr>direction := dir, minimum := least, charged := required\<rparr>)\<rparr>
                 in (None, if released \<noteq> 0 then notify_released t dir else t))"

definition core_buffer_budget_clear :: "budget_state \<Rightarrow> nat \<Rightarrow> errno option \<times> budget_state" where
  "core_buffer_budget_clear s p =
     (case budgets s p of
        None \<Rightarrow> (Some EINVAL, s)
      | Some b \<Rightarrow> if allocated b \<noteq> 0 then (Some EINVAL, s)
                  else core_buffer_budget_init s p (direction b) 0)"

definition core_buffer_hold :: "budget_state \<Rightarrow> nat \<Rightarrow> nat \<Rightarrow> errno option \<times> budget_state" where
  "core_buffer_hold s p sz = claim s p sz"

definition core_buffer_drop :: "budget_state \<Rightarrow> nat \<Rightarrow> nat \<Rightarrow> budget_state" where
  "core_buffer_drop s p sz = release s p sz"

text \<open>
  The allocating operations take the answer of \<^verbatim>\<open>malloc\<close>/\<^verbatim>\<open>realloc\<close> as a
  parameter and return whether the caller gets memory; a null data pointer is \<open>False\<close>.
\<close>

definition core_buffer_alloc :: "bool \<Rightarrow> budget_state \<Rightarrow> nat \<Rightarrow> nat \<Rightarrow> bool \<times> budget_state" where
  "core_buffer_alloc got s p sz =
     (if sz = 0 then (False, s)
      else case claim s p sz of
             (Some e, t) \<Rightarrow> (False, t)
           | (None, t) \<Rightarrow> if got then (True, t) else (False, release t p sz))"

definition core_buffer_free :: "budget_state \<Rightarrow> nat \<Rightarrow> bool \<Rightarrow> nat \<Rightarrow> budget_state" where
  "core_buffer_free s p data sz = (if \<not> data then s else release s p sz)"

definition core_buffer_realloc ::
  "bool \<Rightarrow> budget_state \<Rightarrow> nat \<Rightarrow> bool \<Rightarrow> nat \<Rightarrow> nat \<Rightarrow> errno option \<times> bool \<times> budget_state" where
  "core_buffer_realloc got s p data previous sz =
     (if sz = 0 then (None, False, core_buffer_free s p data previous)
      else case claim s p sz of
             (Some e, t) \<Rightarrow> (Some e, False, t)
           | (None, t) \<Rightarrow>
               if \<not> got then (Some ENOMEM, False, release t p sz)
               else (None, True, if previous \<noteq> 0 then release t p previous else t))"

definition core_buffer_transfer ::
  "budget_state \<Rightarrow> nat \<Rightarrow> nat \<Rightarrow> nat \<Rightarrow> errno option \<times> budget_state" where
  "core_buffer_transfer s src dst sz =
     (case (budgets s src, budgets s dst) of
        (Some f, Some t) \<Rightarrow>
          if direction f \<ge> CORE_BUFFER_DIRECTIONS \<or> direction f \<noteq> direction t then (Some EINVAL, s)
          else if src = dst then (None, s)
          else if sz > allocated f \<or> sz > szsub SIZE_MAX (allocated t) then (Some EINVAL, s)
          else
            let d = direction f;
                source0 = szsub (allocated f) sz;
                source = (if source0 < minimum f then minimum f else source0);
                dest0 = szadd (allocated t) sz;
                dest = (if dest0 < minimum t then minimum t else dest0);
                current = szadd (charged f) (charged t);
                future = szadd source dest
            in if future > current \<and>
                  szsub future current > szsub CORE_BUFFER_TOTAL_LIMIT (g_charged s d)
               then (Some ENOBUFS, s)
               else
                 let u = s\<lparr>g_charged := (g_charged s)(d := szadd (szsub (g_charged s d) current) future),
                           budgets := (budgets s)
                             (src \<mapsto> f\<lparr>allocated := source0, charged := source\<rparr>,
                              dst \<mapsto> t\<lparr>allocated := dest0, charged := dest\<rparr>)\<rparr>
                 in (None, if future < current then notify_released u d else u)
      | _ \<Rightarrow> (Some EINVAL, s))"

definition core_buffer_snapshot :: "budget_state \<Rightarrow> nat \<Rightarrow> nat \<times> nat" where
  "core_buffer_snapshot s d =
     ((if d < CORE_BUFFER_DIRECTIONS then g_allocated s d else 0),
      (if d < CORE_BUFFER_DIRECTIONS then szsub (g_charged s d) (g_allocated s d) else 0))"

definition core_buffer_available :: "budget_state \<Rightarrow> nat \<Rightarrow> nat" where
  "core_buffer_available s d =
     (if d < CORE_BUFFER_DIRECTIONS then szsub CORE_BUFFER_TOTAL_LIMIT (g_charged s d) else 0)"

section \<open>The accounting invariant\<close>

text \<open>
  A budget is charged for what it holds or for what it reserved, whichever is more; the totals
  of a direction are the sums over its budgets; and no direction is charged beyond the limit.
\<close>

definition budget_wf :: "budget \<Rightarrow> bool" where
  "budget_wf b \<longleftrightarrow> direction b < CORE_BUFFER_DIRECTIONS \<and> minimum b \<le> CORE_BUFFER_TOTAL_LIMIT \<and>
     charged b = max (minimum b) (allocated b)"

definition charge_in :: "nat \<Rightarrow> budget \<Rightarrow> nat" where
  "charge_in d b = (if direction b = d then charged b else 0)"

definition alloc_in :: "nat \<Rightarrow> budget \<Rightarrow> nat" where
  "alloc_in d b = (if direction b = d then allocated b else 0)"

definition total :: "(budget \<Rightarrow> nat) \<Rightarrow> (nat \<rightharpoonup> budget) \<Rightarrow> nat" where
  "total f m = (\<Sum>p\<in>dom m. f (the (m p)))"

definition budget_inv :: "budget_state \<Rightarrow> bool" where
  "budget_inv s \<longleftrightarrow> finite (dom (budgets s)) \<and>
     (\<forall>p b. budgets s p = Some b \<longrightarrow> budget_wf b) \<and>
     (\<forall>d. g_charged s d = total (charge_in d) (budgets s) \<and>
          g_allocated s d = total (alloc_in d) (budgets s) \<and>
          g_charged s d \<le> CORE_BUFFER_TOTAL_LIMIT)"

lemmas direction_defs = CORE_BUFFER_UPLOAD_def CORE_BUFFER_DOWNLOAD_def CORE_BUFFER_RELAY_def
  CORE_BUFFER_DIRECTIONS_def

lemma limit_le_SIZE_MAX: "CORE_BUFFER_TOTAL_LIMIT \<le> SIZE_MAX"
  by (simp add: CORE_BUFFER_TOTAL_LIMIT_def SIZE_MAX_def)

lemma limit_twice: "CORE_BUFFER_TOTAL_LIMIT + CORE_BUFFER_TOTAL_LIMIT \<le> SIZE_MAX"
  by (simp add: CORE_BUFFER_TOTAL_LIMIT_def SIZE_MAX_def)

lemma total_upd:
  assumes "finite (dom m)" and "m p = Some b"
  shows "total f (m(p \<mapsto> b')) + f b = total f m + f b'"
proof -
  have dom: "dom (m(p \<mapsto> b')) = dom m" using assms by auto
  have p: "p \<in> dom m" using assms by auto
  have rest: "(\<Sum>q\<in>dom m - {p}. f (the ((m(p \<mapsto> b')) q))) = (\<Sum>q\<in>dom m - {p}. f (the (m q)))"
    by (rule sum.cong) auto
  have "total f (m(p \<mapsto> b')) = f b' + (\<Sum>q\<in>dom m - {p}. f (the (m q)))"
    unfolding total_def dom by (subst sum.remove [OF assms(1) p]) (simp add: rest)
  moreover have "total f m = f b + (\<Sum>q\<in>dom m - {p}. f (the (m q)))"
    unfolding total_def by (subst sum.remove [OF assms(1) p]) (simp add: assms)
  ultimately show ?thesis by simp
qed

lemma total_new:
  "finite (dom m) \<Longrightarrow> m p = None \<Longrightarrow> total f (m(p \<mapsto> b)) = f b + total f m"
proof -
  assume fin: "finite (dom m)" and fresh: "m p = None"
  then have "p \<notin> dom m" by auto
  moreover have "(\<Sum>q\<in>dom m. f (the ((m(p \<mapsto> b)) q))) = (\<Sum>q\<in>dom m. f (the (m q)))"
    using fresh by (intro sum.cong) auto
  ultimately show ?thesis using fin by (simp add: total_def)
qed

lemma total_ge: "finite (dom m) \<Longrightarrow> m p = Some b \<Longrightarrow> f b \<le> total f m"
proof -
  assume "finite (dom m)" and m: "m p = Some b"
  then have "f (the (m p)) \<le> (\<Sum>q\<in>dom m. f (the (m q)))"
    by (intro member_le_sum) auto
  then show ?thesis using m by (simp add: total_def)
qed

lemma budget_invD:
  assumes "budget_inv s"
  shows "finite (dom (budgets s))"
    and "budgets s p = Some b \<Longrightarrow> budget_wf b"
    and "g_charged s d = total (charge_in d) (budgets s)"
    and "g_allocated s d = total (alloc_in d) (budgets s)"
    and "g_charged s d \<le> CORE_BUFFER_TOTAL_LIMIT"
  using assms unfolding budget_inv_def by blast+

lemma budget_inv_bounds:
  assumes inv: "budget_inv s" and b: "budgets s p = Some b"
  shows "charged b \<le> g_charged s (direction b)"
    and "allocated b \<le> g_allocated s (direction b)"
    and "allocated b \<le> charged b" and "minimum b \<le> charged b"
    and "charged b \<le> CORE_BUFFER_TOTAL_LIMIT"
    and "charged b = max (minimum b) (allocated b)"
    and "direction b < CORE_BUFFER_DIRECTIONS"
proof -
  note fin = budget_invD(1) [OF inv]
  show ch: "charged b \<le> g_charged s (direction b)"
    using total_ge [OF fin b, of "charge_in (direction b)"] budget_invD(3) [OF inv]
    by (simp add: charge_in_def)
  show "allocated b \<le> g_allocated s (direction b)"
    using total_ge [OF fin b, of "alloc_in (direction b)"] budget_invD(4) [OF inv]
    by (simp add: alloc_in_def)
  show "charged b \<le> CORE_BUFFER_TOTAL_LIMIT"
    using ch budget_invD(5) [OF inv] le_trans by blast
qed (use budget_invD(2) [OF inv b] in \<open>auto simp: budget_wf_def\<close>)

lemma g_allocated_le:
  assumes inv: "budget_inv s"
  shows "g_allocated s d \<le> g_charged s d"
  unfolding budget_invD(3,4) [OF inv] total_def
proof (rule sum_mono)
  fix p assume "p \<in> dom (budgets s)"
  then obtain b where b: "budgets s p = Some b" by auto
  then show "alloc_in d (the (budgets s p)) \<le> charge_in d (the (budgets s p))"
    using budget_inv_bounds(3) [OF inv b] by (simp add: alloc_in_def charge_in_def)
qed

text \<open>
  The one lemma behind every operation on a single budget: replacing a well-formed budget by
  another while moving the totals of its direction by the same amounts keeps the invariant.
\<close>

lemma budget_inv_replace:
  assumes inv: "budget_inv s" and b: "budgets s p = Some b" and wf: "budget_wf b'"
    and d: "direction b' = d" "direction b = d \<or> charged b = 0 \<and> allocated b = 0"
    and c: "c + charged b = g_charged s d + charged b'" "c \<le> CORE_BUFFER_TOTAL_LIMIT"
    and a: "a + allocated b = g_allocated s d + allocated b'"
  shows "budget_inv (s\<lparr>g_charged := (g_charged s)(d := c), g_allocated := (g_allocated s)(d := a),
           budgets := (budgets s)(p \<mapsto> b')\<rparr>)"
proof -
  note fin = budget_invD(1) [OF inv]
  note up = total_upd [OF fin b]
  have charge: "((g_charged s)(d := c)) k = total (charge_in k) ((budgets s)(p \<mapsto> b'))" for k
    using up [of "charge_in k" b'] budget_invD(3) [OF inv, of k] d c
    by (auto simp: charge_in_def split: if_splits)
  have alloc: "((g_allocated s)(d := a)) k = total (alloc_in k) ((budgets s)(p \<mapsto> b'))" for k
    using up [of "alloc_in k" b'] budget_invD(4) [OF inv, of k] d a
    by (auto simp: alloc_in_def split: if_splits)
  have lim: "((g_charged s)(d := c)) k \<le> CORE_BUFFER_TOTAL_LIMIT" for k
    using c(2) budget_invD(5) [OF inv] by simp
  have wfs: "((budgets s)(p \<mapsto> b')) q = Some x \<Longrightarrow> budget_wf x" for q x
    using wf budget_invD(2) [OF inv] by (auto split: if_splits)
  show ?thesis
    unfolding budget_inv_def
  proof (intro conjI allI impI)
    fix q x assume "budgets (s\<lparr>g_charged := (g_charged s)(d := c), g_allocated := (g_allocated s)(d := a),
           budgets := (budgets s)(p \<mapsto> b')\<rparr>) q = Some x"
    then show "budget_wf x" using wfs [of q x] by simp
  next
    fix k
    show "g_charged (s\<lparr>g_charged := (g_charged s)(d := c), g_allocated := (g_allocated s)(d := a),
           budgets := (budgets s)(p \<mapsto> b')\<rparr>) k \<le> CORE_BUFFER_TOTAL_LIMIT"
      using lim [of k] by simp
  qed (use fin charge alloc in simp_all)
qed

section \<open>Every operation keeps the invariant\<close>

lemma notify_released_frame [simp]:
  "g_charged (notify_released s d) = g_charged s"
  "g_allocated (notify_released s d) = g_allocated s"
  "budgets (notify_released s d) = budgets s"
  "waiters (notify_released s d) = waiters s"
  "budget_inv (notify_released s d) = budget_inv s"
  by (simp_all add: notify_released_def budget_inv_def)

lemma notify_if_inv: "budget_inv (if c then notify_released t d else t) = budget_inv t"
  by simp

lemma watch_inv [simp]:
  "budget_inv (core_buffer_watch s w fd dirs) = budget_inv s"
  "budget_inv (core_buffer_unwatch s w) = budget_inv s"
  by (simp_all add: core_buffer_watch_def core_buffer_unwatch_def Let_def budget_inv_def)

text \<open>
  Under the invariant no size computation wraps, so claiming is: if the growth of the charge
  fits under the limit, add it.
\<close>

lemma claim_eq:
  assumes inv: "budget_inv s" and b: "budgets s p = Some b"
  shows "claim s p sz =
    (if sz > SIZE_MAX - allocated b then (Some EOVERFLOW, s)
     else if max (charged b) (allocated b + sz) - charged b > CORE_BUFFER_TOTAL_LIMIT - g_charged s (direction b)
     then (Some ENOBUFS, s)
     else (None, s\<lparr>
       g_charged := (g_charged s)(direction b :=
         g_charged s (direction b) + (max (charged b) (allocated b + sz) - charged b)),
       g_allocated := (g_allocated s)(direction b := g_allocated s (direction b) + sz),
       budgets := (budgets s)(p \<mapsto>
         b\<lparr>charged := max (charged b) (allocated b + sz), allocated := allocated b + sz\<rparr>)\<rparr>))"
proof -
  let ?d = "direction b"
  note bd = budget_inv_bounds(1-5,7) [OF inv b]
  have lim: "g_charged s ?d \<le> CORE_BUFFER_TOTAL_LIMIT" by (rule budget_invD(5) [OF inv])
  have al: "g_allocated s ?d \<le> g_charged s ?d" by (rule g_allocated_le [OF inv])
  have room: "szsub CORE_BUFFER_TOTAL_LIMIT (g_charged s ?d) = CORE_BUFFER_TOTAL_LIMIT - g_charged s ?d"
    using lim limit_le_SIZE_MAX by (simp add: size_simps)
  have sm: "szsub SIZE_MAX (allocated b) = SIZE_MAX - allocated b"
    using bd limit_le_SIZE_MAX by (intro szsub_exact) linarith+
  show ?thesis
  proof (cases "sz > SIZE_MAX - allocated b")
    case True
    then show ?thesis using b bd by (simp add: claim_def sm)
  next
    case False
    then have tot: "szadd (allocated b) sz = allocated b + sz"
      using bd limit_le_SIZE_MAX by (intro szadd_exact) linarith
    have bound: "allocated b + sz \<le> SIZE_MAX"
      using False bd limit_le_SIZE_MAX by linarith
    have inc: "(if allocated b + sz > charged b then szsub (allocated b + sz) (charged b) else 0)
               = max (charged b) (allocated b + sz) - charged b"
      using bound by (simp add: size_simps max_def)
    show ?thesis
    proof (cases "max (charged b) (allocated b + sz) - charged b > CORE_BUFFER_TOTAL_LIMIT - g_charged s ?d")
      case True
      then show ?thesis using False b bd by (simp add: claim_def sm tot inc room Let_def)
    next
      case fits: False
      then have small: "allocated b + sz \<le> CORE_BUFFER_TOTAL_LIMIT"
        using bd lim by (auto simp: max_def split: if_splits)
      have "szadd (g_charged s ?d) (max (charged b) (allocated b + sz) - charged b) =
            g_charged s ?d + (max (charged b) (allocated b + sz) - charged b)"
        and "szadd (charged b) (max (charged b) (allocated b + sz) - charged b) =
            max (charged b) (allocated b + sz)"
        and "szadd (g_allocated s ?d) sz = g_allocated s ?d + sz"
        using fits lim small bd al limit_twice
        by (auto simp: szadd_exact max_def)
      then show ?thesis using False fits b bd by (simp add: claim_def sm tot inc room Let_def)
    qed
  qed
qed

lemma claim_inv:
  assumes inv: "budget_inv s"
  shows "budget_inv (snd (claim s p sz))"
proof (cases "budgets s p")
  case None
  then show ?thesis using inv by (simp add: claim_def)
next
  case (Some b)
  note bd = budget_inv_bounds(1-5) [OF inv Some] and wf = budget_invD(2) [OF inv Some]
  have lim: "g_charged s (direction b) \<le> CORE_BUFFER_TOTAL_LIMIT" by (rule budget_invD(5) [OF inv])
  show ?thesis
    unfolding claim_eq [OF inv Some]
    using inv bd lim wf
    by (auto intro!: budget_inv_replace [OF inv Some] simp: budget_wf_def) arith+
qed

lemma release_eq:
  assumes inv: "budget_inv s" and b: "budgets s p = Some b" and sz: "sz \<le> allocated b"
  shows "release s p sz =
    (let keep = max (minimum b) (allocated b - sz);
         t = s\<lparr>g_charged := (g_charged s)(direction b := g_charged s (direction b) - (charged b - keep)),
               g_allocated := (g_allocated s)(direction b := g_allocated s (direction b) - sz),
               budgets := (budgets s)(p \<mapsto> b\<lparr>charged := keep, allocated := allocated b - sz\<rparr>)\<rparr>
     in if charged b \<noteq> keep then notify_released t (direction b) else t)"
proof -
  let ?d = "direction b"
  define keep where "keep = (if allocated b - sz > minimum b then allocated b - sz else minimum b)"
  note bd = budget_inv_bounds [OF inv b]
  have lim: "g_charged s ?d \<le> CORE_BUFFER_TOTAL_LIMIT" by (rule budget_invD(5) [OF inv])
  have al: "g_allocated s ?d \<le> g_charged s ?d" by (rule g_allocated_le [OF inv])
  have keep: "max (minimum b) (allocated b - sz) = keep" "keep \<le> charged b"
    using bd(3,4) by (auto simp: keep_def)
  have bounds: "allocated b \<le> SIZE_MAX" "charged b \<le> SIZE_MAX" "g_charged s ?d \<le> SIZE_MAX"
    "g_allocated s ?d \<le> SIZE_MAX" "sz \<le> g_allocated s ?d" "charged b - keep \<le> g_charged s ?d"
    using bd(1-5) lim al sz limit_le_SIZE_MAX by linarith+
  have left: "szsub (allocated b) sz = allocated b - sz"
    and rel: "szsub (charged b) keep = charged b - keep"
    and ga: "szsub (g_allocated s ?d) sz = g_allocated s ?d - sz"
    and gc: "szsub (g_charged s ?d) (charged b - keep) = g_charged s ?d - (charged b - keep)"
    using bounds keep sz by (intro szsub_exact; simp)+
  have some: "charged b - keep \<noteq> 0 \<longleftrightarrow> charged b \<noteq> keep" using keep by linarith
  show ?thesis
    unfolding release_def b option.case Let_def left keep(1) keep_def [symmetric] rel ga gc some
    by (rule refl)
qed

lemma release_inv:
  assumes inv: "budget_inv s" and b: "budgets s p = Some b" and sz: "sz \<le> allocated b"
  shows "budget_inv (release s p sz)"
proof -
  note bd = budget_inv_bounds [OF inv b] and wf = budget_invD(2) [OF inv b]
  have lim: "g_charged s (direction b) \<le> CORE_BUFFER_TOTAL_LIMIT" by (rule budget_invD(5) [OF inv])
  have "budget_inv (s\<lparr>
      g_charged := (g_charged s)(direction b :=
        g_charged s (direction b) - (charged b - max (minimum b) (allocated b - sz))),
      g_allocated := (g_allocated s)(direction b := g_allocated s (direction b) - sz),
      budgets := (budgets s)(p \<mapsto>
        b\<lparr>charged := max (minimum b) (allocated b - sz), allocated := allocated b - sz\<rparr>)\<rparr>)"
    using bd wf lim sz
    by (intro budget_inv_replace [OF inv b]) (auto simp: budget_wf_def)
  then show ?thesis by (simp only: release_eq [OF inv b sz] Let_def notify_if_inv)
qed

lemma init_inv:
  assumes inv: "budget_inv s"
  shows "budget_inv (snd (core_buffer_budget_init s p dir least))"
proof (cases "budgets s p")
  case None
  then show ?thesis using inv by (simp add: core_buffer_budget_init_def)
next
  case (Some b)
  define r where "r = (if least > allocated b then least else allocated b)"
  note bd = budget_inv_bounds [OF inv Some]
  have lim: "g_charged s dir \<le> CORE_BUFFER_TOTAL_LIMIT" by (rule budget_invD(5) [OF inv])
  show ?thesis
  proof (cases "dir \<ge> CORE_BUFFER_DIRECTIONS \<or> least > CORE_BUFFER_TOTAL_LIMIT \<or>
             ((charged b \<noteq> 0 \<or> allocated b \<noteq> 0) \<and> direction b \<noteq> dir)")
    case True
    then show ?thesis using Some inv by (simp add: core_buffer_budget_init_def)
  next
    case ok: False
    then have own: "charged b \<le> g_charged s dir" using bd(1) by (cases "direction b = dir") auto
    have r: "r \<le> CORE_BUFFER_TOTAL_LIMIT" "r = max least (allocated b)"
      using ok bd(3,5) by (simp_all add: r_def)
    have room: "szsub CORE_BUFFER_TOTAL_LIMIT (g_charged s dir) = CORE_BUFFER_TOTAL_LIMIT - g_charged s dir"
      using lim limit_le_SIZE_MAX by (simp add: size_simps)
    have sub: "r < charged b \<Longrightarrow> szsub (charged b) r = charged b - r"
      "r > charged b \<Longrightarrow> szsub r (charged b) = r - charged b"
      using r(1) bd(5) limit_le_SIZE_MAX by (intro szsub_exact; linarith)+
    have moved: "g_charged s dir \<le> SIZE_MAX"
      "r > charged b \<Longrightarrow> r - charged b \<le> CORE_BUFFER_TOTAL_LIMIT - g_charged s dir \<Longrightarrow>
         szadd (g_charged s dir) (r - charged b) = g_charged s dir + r - charged b"
      "szadd (g_charged s dir) 0 = g_charged s dir"
      "r < charged b \<Longrightarrow> szsub (g_charged s dir) (charged b - r) = g_charged s dir + r - charged b"
      using lim own r(1) limit_le_SIZE_MAX by (auto simp: szadd_exact szsub_exact)
    have keep: "budget_inv (s\<lparr>g_charged := (g_charged s)(dir := g_charged s dir + r - charged b),
        budgets := (budgets s)(p \<mapsto> b\<lparr>direction := dir, minimum := least, charged := r\<rparr>)\<rparr>)"
      if "r - charged b \<le> CORE_BUFFER_TOTAL_LIMIT - g_charged s dir"
      using budget_inv_replace [OF inv Some, of "b\<lparr>direction := dir, minimum := least, charged := r\<rparr>"
          dir "g_charged s dir + r - charged b" "g_allocated s dir"] ok that own lim r(2)
      by (simp add: budget_wf_def) linarith
    consider (up) "r > charged b" | (down) "r < charged b" | (same) "r = charged b" by linarith
    then show ?thesis
    proof cases
      case up
      then show ?thesis using inv Some ok keep sub moved
        by (auto simp: core_buffer_budget_init_def r_def [symmetric] room Let_def)
    next
      case down
      then show ?thesis using inv Some ok keep sub moved
        by (auto simp: core_buffer_budget_init_def r_def [symmetric] room Let_def)
    next
      case same
      then show ?thesis using inv Some ok keep moved
        by (auto simp: core_buffer_budget_init_def r_def [symmetric] room Let_def)
    qed
  qed
qed

lemma clear_inv: "budget_inv s \<Longrightarrow> budget_inv (snd (core_buffer_budget_clear s p))"
  by (simp add: core_buffer_budget_clear_def init_inv split: option.splits)

text \<open>What a successful claim leaves behind for its own budget.\<close>

lemma claim_success:
  assumes "budget_inv s" and "claim s p sz = (None, t)"
  obtains b where "budgets s p = Some b" and "budget_inv t"
    and "budgets t p = Some (b\<lparr>charged := max (charged b) (allocated b + sz), allocated := allocated b + sz\<rparr>)"
proof (cases "budgets s p")
  case None
  then show thesis using assms by (simp add: claim_def)
next
  case (Some b)
  show thesis
  proof (rule that [OF Some])
    show "budget_inv t" using claim_inv [OF assms(1), of p sz] assms(2) by simp
    show "budgets t p = Some (b\<lparr>charged := max (charged b) (allocated b + sz), allocated := allocated b + sz\<rparr>)"
      using assms(2) unfolding claim_eq [OF assms(1) Some] by (auto split: if_splits)
  qed
qed

lemma claim_failure: "claim s p sz = (Some e, t) \<Longrightarrow> t = s"
  by (auto simp: claim_def Let_def split: option.splits if_splits)

lemma alloc_inv:
  assumes "budget_inv s"
  shows "budget_inv (snd (core_buffer_alloc got s p sz))"
proof (cases "claim s p sz")
  case (Pair e t)
  show ?thesis
  proof (cases e)
    case None
    then obtain b where "budget_inv t" "budgets t p =
        Some (b\<lparr>charged := max (charged b) (allocated b + sz), allocated := allocated b + sz\<rparr>)"
      using claim_success [OF assms] Pair by metis
    then show ?thesis using assms Pair None by (simp add: core_buffer_alloc_def release_inv)
  next
    case (Some e')
    then show ?thesis using assms Pair by (auto simp: core_buffer_alloc_def dest: claim_failure)
  qed
qed

lemma free_inv:
  assumes "budget_inv s" and "budgets s p = Some b" and "sz \<le> allocated b"
  shows "budget_inv (core_buffer_free s p data sz)"
  using assms by (simp add: core_buffer_free_def release_inv)

lemma realloc_inv:
  assumes inv: "budget_inv s" and b: "budgets s p = Some b" and prev: "previous \<le> allocated b"
  shows "budget_inv (snd (snd (core_buffer_realloc got s p data previous sz)))"
proof (cases "claim s p sz")
  case (Pair e t)
  show ?thesis
  proof (cases e)
    case None
    have "budget_inv t" "budgets t p =
        Some (b\<lparr>charged := max (charged b) (allocated b + sz), allocated := allocated b + sz\<rparr>)"
      using claim_success [OF inv, of p sz t] Pair None b by fastforce+
    then show ?thesis using inv b prev Pair None
      by (simp add: core_buffer_realloc_def release_inv free_inv)
  next
    case (Some e')
    then show ?thesis using inv b prev Pair
      by (auto simp: core_buffer_realloc_def free_inv dest: claim_failure)
  qed
qed

text \<open>
  A transfer moves a holding between two budgets of one direction.  Three facts carry it: the
  two charges are part of the direction's total, the arithmetic does not wrap, and the two
  updates, one after the other, keep the invariant.
\<close>

definition moved_out :: "budget \<Rightarrow> nat \<Rightarrow> nat" where
  "moved_out f sz = max (minimum f) (allocated f - sz)"

definition moved_in :: "budget \<Rightarrow> nat \<Rightarrow> nat" where
  "moved_in t sz = max (minimum t) (allocated t + sz)"

lemma two_charges:
  assumes inv: "budget_inv s" and f: "budgets s src = Some f" and t: "budgets s dst = Some t"
    and ne: "src \<noteq> dst" and d: "direction t = direction f"
  shows "charged f + charged t \<le> g_charged s (direction f)"
proof -
  have "charge_in (direction f) (the (budgets s src)) + charge_in (direction f) (the (budgets s dst))
      = (\<Sum>q\<in>{src, dst}. charge_in (direction f) (the (budgets s q)))" using ne by simp
  also have "\<dots> \<le> (\<Sum>q\<in>dom (budgets s). charge_in (direction f) (the (budgets s q)))"
    using budget_invD(1) [OF inv] f t by (intro sum_mono2) auto
  finally show ?thesis
    using f t d budget_invD(3) [OF inv, of "direction f"] by (simp add: charge_in_def total_def)
qed

lemma transfer_store_inv:
  assumes inv: "budget_inv s" and f: "budgets s src = Some f" and t: "budgets s dst = Some t"
    and ne: "src \<noteq> dst" and d: "direction t = direction f" and sz: "sz \<le> allocated f"
    and net: "net + (charged f + charged t) = g_charged s (direction f) + (moved_out f sz + moved_in t sz)"
      "net \<le> CORE_BUFFER_TOTAL_LIMIT"
  shows "budget_inv (s\<lparr>g_charged := (g_charged s)(direction f := net), budgets := (budgets s)
      (src \<mapsto> f\<lparr>allocated := allocated f - sz, charged := moved_out f sz\<rparr>,
       dst \<mapsto> t\<lparr>allocated := allocated t + sz, charged := moved_in t sz\<rparr>)\<rparr>)"
proof -
  let ?d = "direction f"
  note fb = budget_inv_bounds [OF inv f] and tb = budget_inv_bounds [OF inv t, unfolded d]
  have lim: "g_charged s ?d \<le> CORE_BUFFER_TOTAL_LIMIT" by (rule budget_invD(5) [OF inv])
  have both: "charged f + charged t \<le> g_charged s ?d" by (rule two_charges [OF inv f t ne d])
  have src: "moved_out f sz \<le> charged f" using fb(3,4) by (auto simp: moved_out_def)
  define s1 where "s1 = s\<lparr>g_charged := (g_charged s)(?d := g_charged s ?d - (charged f - moved_out f sz)),
    g_allocated := (g_allocated s)(?d := g_allocated s ?d - sz),
    budgets := (budgets s)(src \<mapsto> f\<lparr>allocated := allocated f - sz, charged := moved_out f sz\<rparr>)\<rparr>"
  have s1: "budget_inv s1"
    unfolding s1_def using fb lim sz src budget_invD(2) [OF inv f]
    by (intro budget_inv_replace [OF inv f]) (auto simp: budget_wf_def moved_out_def)
  have t1: "budgets s1 dst = Some t" using t ne by (simp add: s1_def)
  have "budget_inv (s1\<lparr>g_charged := (g_charged s1)(?d := net),
      g_allocated := (g_allocated s1)(?d := g_allocated s ?d),
      budgets := (budgets s1)(dst \<mapsto> t\<lparr>allocated := allocated t + sz, charged := moved_in t sz\<rparr>)\<rparr>)"
    using tb net src both d fb(2) sz budget_invD(2) [OF inv t]
    by (intro budget_inv_replace [OF s1 t1]) (auto simp: budget_wf_def moved_in_def s1_def)
  then show ?thesis by (simp add: s1_def)
qed

lemma transfer_eq:
  assumes inv: "budget_inv s" and f: "budgets s src = Some f" and t: "budgets s dst = Some t"
    and ne: "src \<noteq> dst" and d: "direction t = direction f" and sz: "sz \<le> allocated f"
  shows "core_buffer_transfer s src dst sz =
    (let future = moved_out f sz + moved_in t sz; current = charged f + charged t;
         net = g_charged s (direction f) - current + future;
         u = s\<lparr>g_charged := (g_charged s)(direction f := net), budgets := (budgets s)
           (src \<mapsto> f\<lparr>allocated := allocated f - sz, charged := moved_out f sz\<rparr>,
            dst \<mapsto> t\<lparr>allocated := allocated t + sz, charged := moved_in t sz\<rparr>)\<rparr>
     in if future > current \<and> future - current > CORE_BUFFER_TOTAL_LIMIT - g_charged s (direction f)
        then (Some ENOBUFS, s)
        else (None, if future < current then notify_released u (direction f) else u))"
proof -
  let ?d = "direction f"
  note fb = budget_inv_bounds [OF inv f] and tb = budget_inv_bounds [OF inv t, unfolded d]
  have lim: "g_charged s ?d \<le> CORE_BUFFER_TOTAL_LIMIT" by (rule budget_invD(5) [OF inv])
  have both: "charged f + charged t \<le> g_charged s ?d" by (rule two_charges [OF inv f t ne d])
  have src: "moved_out f sz \<le> charged f" using fb(3,4) by (auto simp: moved_out_def)
  have big: "moved_in t sz \<le> 2 * CORE_BUFFER_TOTAL_LIMIT"
    using tb(3-5) fb(3,5) sz by (auto simp: moved_in_def)
  have quad: "4 * CORE_BUFFER_TOTAL_LIMIT \<le> SIZE_MAX"
    by (simp add: CORE_BUFFER_TOTAL_LIMIT_def SIZE_MAX_def)
  have exact: "szsub (allocated f) sz = allocated f - sz" "szadd (allocated t) sz = allocated t + sz"
    "szadd (charged f) (charged t) = charged f + charged t"
    "szadd (moved_out f sz) (moved_in t sz) = moved_out f sz + moved_in t sz"
    "szsub (g_charged s ?d) (charged f + charged t) = g_charged s ?d - (charged f + charged t)"
    "szsub CORE_BUFFER_TOTAL_LIMIT (g_charged s ?d) = CORE_BUFFER_TOTAL_LIMIT - g_charged s ?d"
    "szsub SIZE_MAX (allocated t) = SIZE_MAX - allocated t"
    using fb(1-5) tb(1-5) lim both src big sz quad by (auto intro!: szsub_exact szadd_exact)
  have net: "szadd (g_charged s ?d - (charged f + charged t)) (moved_out f sz + moved_in t sz) =
      g_charged s ?d - (charged f + charged t) + (moved_out f sz + moved_in t sz)"
    using lim src big fb(5) quad by (intro szadd_exact) linarith
  have diff: "moved_out f sz + moved_in t sz > charged f + charged t \<Longrightarrow>
      szsub (moved_out f sz + moved_in t sz) (charged f + charged t) =
      moved_out f sz + moved_in t sz - (charged f + charged t)"
    using src big fb(5) quad by (intro szsub_exact) linarith+
  have mx: "(if allocated f - sz < minimum f then minimum f else allocated f - sz) = moved_out f sz"
    "(if allocated t + sz < minimum t then minimum t else allocated t + sz) = moved_in t sz"
    by (simp_all add: moved_out_def moved_in_def)
  have fits: "\<not> (sz > allocated f \<or> sz > SIZE_MAX - allocated t)"
    using sz fb(3,5) tb(3,5) quad by linarith
  show ?thesis
    using f t d ne fb(7) exact net fits diff by (auto simp: core_buffer_transfer_def mx Let_def)
qed

lemma transfer_inv:
  assumes inv: "budget_inv s"
  shows "budget_inv (snd (core_buffer_transfer s src dst sz))"
proof (cases "\<exists>f t. budgets s src = Some f \<and> budgets s dst = Some t \<and>
    direction t = direction f \<and> src \<noteq> dst \<and> sz \<le> allocated f")
  case False
  then show ?thesis using inv
    by (auto simp: core_buffer_transfer_def Let_def not_less split: option.splits if_splits)
next
  case True
  then obtain f t where f: "budgets s src = Some f" and t: "budgets s dst = Some t"
    and d: "direction t = direction f" and ne: "src \<noteq> dst" and sz: "sz \<le> allocated f"
    by auto
  have both: "charged f + charged t \<le> g_charged s (direction f)"
    by (rule two_charges [OF inv f t ne d])
  have lim: "g_charged s (direction f) \<le> CORE_BUFFER_TOTAL_LIMIT" by (rule budget_invD(5) [OF inv])
  show ?thesis
    unfolding transfer_eq [OF inv f t ne d sz] Let_def
    using inv both lim
    by (auto intro!: transfer_store_inv [OF inv f t ne d sz])
qed

section \<open>Steps of the process\<close>

text \<open>
  Threads call the operations in any order, each under the lock.  A caller gives back only what
  it holds: the sizes of a drop, a free and the previous size of a reallocation are part of the
  budget's allocation.
\<close>

inductive budget_step :: "budget_state \<Rightarrow> budget_state \<Rightarrow> bool" where
  new_budget: "budgets s p = None \<Longrightarrow> budget_step s (s\<lparr>budgets := (budgets s)(p \<mapsto> zero_budget)\<rparr>)"
| init: "budget_step s (snd (core_buffer_budget_init s p dir least))"
| clear: "budget_step s (snd (core_buffer_budget_clear s p))"
| hold: "budget_step s (snd (core_buffer_hold s p sz))"
| drop: "budgets s p = Some b \<Longrightarrow> sz \<le> allocated b \<Longrightarrow> budget_step s (core_buffer_drop s p sz)"
| alloc: "budget_step s (snd (core_buffer_alloc got s p sz))"
| realloc: "budgets s p = Some b \<Longrightarrow> previous \<le> allocated b \<Longrightarrow>
     budget_step s (snd (snd (core_buffer_realloc got s p data previous sz)))"
| free: "budgets s p = Some b \<Longrightarrow> sz \<le> allocated b \<Longrightarrow> budget_step s (core_buffer_free s p data sz)"
| transfer: "budget_step s (snd (core_buffer_transfer s src dst sz))"
| watch: "budget_step s (core_buffer_watch s w fd dirs)"
| unwatch: "budget_step s (core_buffer_unwatch s w)"

inductive budget_reachable :: "budget_state \<Rightarrow> bool" where
  start: "budget_reachable initial_state"
| step: "budget_reachable s \<Longrightarrow> budget_step s t \<Longrightarrow> budget_reachable t"

lemma budget_inv_initial [simp]: "budget_inv initial_state"
  by (simp add: budget_inv_def initial_state_def total_def)

lemma new_budget_inv:
  assumes inv: "budget_inv s" and fresh: "budgets s p = None"
  shows "budget_inv (s\<lparr>budgets := (budgets s)(p \<mapsto> zero_budget)\<rparr>)"
proof -
  have "total f ((budgets s)(p \<mapsto> zero_budget)) = total f (budgets s)" if "f zero_budget = 0" for f
    using total_new [of "budgets s" p f zero_budget] budget_invD(1) [OF inv] fresh that by simp
  then have "total (charge_in d) ((budgets s)(p \<mapsto> zero_budget)) = total (charge_in d) (budgets s)"
    and "total (alloc_in d) ((budgets s)(p \<mapsto> zero_budget)) = total (alloc_in d) (budgets s)" for d
    by (simp_all add: charge_in_def alloc_in_def zero_budget_def)
  moreover have "budget_wf zero_budget"
    by (simp add: budget_wf_def zero_budget_def direction_defs)
  ultimately show ?thesis
    using budget_invD [OF inv] by (simp add: budget_inv_def del: fun_upd_apply) (simp split: if_splits)
qed

lemma budget_step_inv: "budget_step s t \<Longrightarrow> budget_inv s \<Longrightarrow> budget_inv t"
  by (induction rule: budget_step.induct)
    (auto simp: core_buffer_hold_def core_buffer_drop_def
      intro: new_budget_inv init_inv clear_inv claim_inv release_inv alloc_inv realloc_inv free_inv
        transfer_inv)

lemma budget_reachable_inv: "budget_reachable s \<Longrightarrow> budget_inv s"
  by (induction rule: budget_reachable.induct) (auto intro: budget_step_inv)

section \<open>The interface the buffers rely on\<close>

text \<open>
  The relay buffers, the HTTP/2 queues and the HPACK table use a budget only through holding
  and dropping sizes.  The contract: a successful hold adds to what is held, a failed one
  changes nothing, a drop of something held takes it off.
\<close>

locale ledger =
  fixes hold :: "'s \<Rightarrow> nat \<Rightarrow> errno option \<times> 's"
    and give_back :: "'s \<Rightarrow> nat \<Rightarrow> 's"
    and held :: "'s \<Rightarrow> nat"
    and invar :: "'s \<Rightarrow> bool"
  assumes hold_ok: "invar s \<Longrightarrow> hold s n = (None, t) \<Longrightarrow> invar t \<and> held t = held s + n"
    and hold_failed: "hold s n = (Some e, t) \<Longrightarrow> t = s"
    and give_back_ok: "invar s \<Longrightarrow> n \<le> held s \<Longrightarrow>
      invar (give_back s n) \<and> held (give_back s n) = held s - n"
begin

text \<open>Growing a buffer: hold the new size, then drop the old one.\<close>

lemma grow:
  assumes "invar s" and "old \<le> held s" and "hold s new = (None, t)"
  shows "invar (give_back t old) \<and> held (give_back t old) + old = held s + new"
proof -
  have "invar t" "held t = held s + new" using hold_ok assms by auto
  then show ?thesis using give_back_ok [of t old] assms(2) by auto
qed

text \<open>Holding and giving back is neutral.\<close>

lemma undo: "invar s \<Longrightarrow> hold s n = (None, t) \<Longrightarrow> invar (give_back t n) \<and> held (give_back t n) = held s"
  using hold_ok [of s n t] give_back_ok [of t n] by auto

end

definition held_by :: "nat \<Rightarrow> budget_state \<Rightarrow> nat" where
  "held_by p s = (case budgets s p of None \<Rightarrow> 0 | Some b \<Rightarrow> allocated b)"

definition valid_account :: "nat \<Rightarrow> budget_state \<Rightarrow> bool" where
  "valid_account p s \<longleftrightarrow> budget_inv s \<and> budgets s p \<noteq> None"

lemma release_held:
  assumes "budget_inv s" and "budgets s p = Some b" and "sz \<le> allocated b"
  shows "held_by p (release s p sz) = allocated b - sz" and "budgets (release s p sz) p \<noteq> None"
  by (simp_all add: held_by_def release_eq [OF assms] Let_def)

interpretation account: ledger "\<lambda>s n. core_buffer_hold s p n" "\<lambda>s n. core_buffer_drop s p n"
  "held_by p" "valid_account p" for p
proof unfold_locales
  fix s n t assume v: "valid_account p s" and h: "core_buffer_hold s p n = (None, t)"
  from v have "budget_inv s" by (simp add: valid_account_def)
  from this h [unfolded core_buffer_hold_def] obtain b where "budgets s p = Some b" and "budget_inv t"
    and "budgets t p = Some (b\<lparr>charged := max (charged b) (allocated b + n), allocated := allocated b + n\<rparr>)"
    by (rule claim_success)
  then show "valid_account p t \<and> held_by p t = held_by p s + n"
    by (simp add: valid_account_def held_by_def)
next
  fix s n e t assume "core_buffer_hold s p n = (Some e, t)"
  then show "t = s" by (auto simp: core_buffer_hold_def dest: claim_failure)
next
  fix s n assume "valid_account p s" and n: "n \<le> held_by p s"
  then obtain b where inv: "budget_inv s" and b: "budgets s p = Some b"
    by (auto simp: valid_account_def)
  with n have "n \<le> allocated b" by (simp add: held_by_def)
  with inv b show "valid_account p (core_buffer_drop s p n) \<and> held_by p (core_buffer_drop s p n) = held_by p s - n"
    using release_held [of s p b n] release_inv [of s p b n]
    by (simp add: valid_account_def held_by_def [of p s] core_buffer_drop_def)
qed

section \<open>Waiters are never lost\<close>

definition waiter_inv :: "budget_state \<Rightarrow> bool" where
  "waiter_inv s \<longleftrightarrow> distinct (waiters s) \<and> (\<forall>w. registered (waiter_at s w) \<longleftrightarrow> w \<in> set (waiters s))"

definition same_waiters :: "budget_state \<Rightarrow> budget_state \<Rightarrow> bool" where
  "same_waiters s t \<longleftrightarrow> waiters t = waiters s \<and> waiter_at t = waiter_at s"

lemma same_waiters_inv: "same_waiters s t \<Longrightarrow> waiter_inv s \<Longrightarrow> waiter_inv t"
  by (simp add: same_waiters_def waiter_inv_def)

lemma notify_waiters: "same_waiters s (notify_released s d)"
  by (simp add: same_waiters_def notify_released_def)

lemma claim_waiters: "same_waiters s (snd (claim s p sz))"
  by (auto simp: same_waiters_def claim_def Let_def split: option.splits)

lemma release_waiters: "same_waiters s (release s p sz)"
  by (auto simp: same_waiters_def release_def notify_released_def Let_def split: option.splits)

lemma same_waiters_trans: "same_waiters s t \<Longrightarrow> same_waiters t u \<Longrightarrow> same_waiters s u"
  by (simp add: same_waiters_def)

lemma init_waiters: "same_waiters s (snd (core_buffer_budget_init s p dir least))"
  by (auto simp: same_waiters_def core_buffer_budget_init_def notify_released_def Let_def
      split: option.splits)

lemma transfer_waiters: "same_waiters s (snd (core_buffer_transfer s src dst sz))"
  by (auto simp: same_waiters_def core_buffer_transfer_def notify_released_def Let_def
      split: option.splits)

lemma alloc_waiters: "same_waiters s (snd (core_buffer_alloc got s p sz))"
  using claim_waiters [of s p sz] release_waiters
  by (auto simp: core_buffer_alloc_def same_waiters_def split: prod.splits option.splits)

lemma realloc_waiters: "same_waiters s (snd (snd (core_buffer_realloc got s p data previous sz)))"
  using claim_waiters [of s p sz] release_waiters
  by (auto simp: core_buffer_realloc_def core_buffer_free_def same_waiters_def
      split: prod.splits option.splits)

lemma watch_waiter_inv: "waiter_inv s \<Longrightarrow> waiter_inv (core_buffer_watch s w fd dirs)"
  by (auto simp: waiter_inv_def core_buffer_watch_def Let_def)

lemma unwatch_waiter_inv: "waiter_inv s \<Longrightarrow> waiter_inv (core_buffer_unwatch s w)"
  by (auto simp: waiter_inv_def core_buffer_unwatch_def)

lemma budget_step_waiters: "budget_step s t \<Longrightarrow> waiter_inv s \<Longrightarrow> waiter_inv t"
proof (induction rule: budget_step.induct)
  case (new_budget s p)
  then show ?case by (simp add: waiter_inv_def)
next
  case (clear s p)
  then show ?case
    by (auto simp: core_buffer_budget_clear_def split: option.splits
        intro: same_waiters_inv [OF init_waiters])
qed (auto simp: core_buffer_hold_def core_buffer_drop_def core_buffer_free_def
    intro: watch_waiter_inv unwatch_waiter_inv same_waiters_inv [OF init_waiters]
      same_waiters_inv [OF claim_waiters] same_waiters_inv [OF release_waiters]
      same_waiters_inv [OF alloc_waiters] same_waiters_inv [OF realloc_waiters]
      same_waiters_inv [OF transfer_waiters])

lemma budget_reachable_waiters: "budget_reachable s \<Longrightarrow> waiter_inv s"
proof (induction rule: budget_reachable.induct)
  case start
  show ?case by (simp add: waiter_inv_def initial_state_def)
qed (auto intro: budget_step_waiters)

section \<open>Properties\<close>

text \<open>
  Property C5.  Whatever the threads do, the charge of a direction is the sum of what its budgets
  hold or reserve, it never exceeds the 16 MiB limit, and the bytes in use never exceed the charge.
\<close>

theorem budget_limit_respected:
  assumes "budget_reachable s"
  shows "g_charged s d = (\<Sum>p\<in>dom (budgets s). charge_in d (the (budgets s p))) \<and>
    g_charged s d \<le> CORE_BUFFER_TOTAL_LIMIT \<and>
    g_allocated s d = (\<Sum>p\<in>dom (budgets s). alloc_in d (the (budgets s p))) \<and>
    g_allocated s d \<le> g_charged s d"
proof -
  have inv: "budget_inv s" using assms by (rule budget_reachable_inv)
  show ?thesis
    using budget_invD(3-5) [OF inv] g_allocated_le [OF inv] by (simp add: total_def)
qed

text \<open>A state with one download budget that reserved 4096 bytes, used by the witnesses.\<close>

abbreviation reserved_state :: budget_state where
  "reserved_state \<equiv> snd (core_buffer_budget_init
     (initial_state\<lparr>budgets := (budgets initial_state)(7 \<mapsto> zero_budget)\<rparr>) 7 1 4096)"

lemma reserved_reachable: "budget_reachable reserved_state"
proof -
  have "budget_step initial_state (initial_state\<lparr>budgets := (budgets initial_state)(7 \<mapsto> zero_budget)\<rparr>)"
    by (rule budget_step.new_budget) (simp add: initial_state_def)
  then have "budget_reachable (initial_state\<lparr>budgets := (budgets initial_state)(7 \<mapsto> zero_budget)\<rparr>)"
    by (rule budget_reachable.step [OF budget_reachable.start])
  then show ?thesis by (rule budget_reachable.step) (rule budget_step.init)
qed

lemma reserved_budget:
  "budgets reserved_state 7 = Some \<lparr>minimum = 4096, allocated = 0, charged = 4096, direction = 1\<rparr>"
  by (simp add: core_buffer_budget_init_def initial_state_def zero_budget_def direction_defs
      CORE_BUFFER_TOTAL_LIMIT_def szsub_def szadd_def Let_def)

theorem budget_limit_respected_witness:
  "budget_reachable reserved_state \<and> g_charged reserved_state 1 \<le> CORE_BUFFER_TOTAL_LIMIT"
  using reserved_reachable budget_limit_respected [OF reserved_reachable, of 1] by simp

text \<open>
  Property C38.  A reservation is a guarantee: as long as a budget stays within its minimum, holding
  more succeeds whatever the other budgets of the direction have taken.
\<close>

theorem reserve_guarantees_hold:
  assumes "budget_reachable s" and "budgets s p = Some b" and "allocated b + sz \<le> minimum b"
  shows "fst (core_buffer_hold s p sz) = None"
proof -
  have inv: "budget_inv s" using assms(1) by (rule budget_reachable_inv)
  note bd = budget_inv_bounds [OF inv assms(2)]
  have "sz \<le> SIZE_MAX - allocated b" and "max (charged b) (allocated b + sz) - charged b = 0"
    using bd(3-5) assms(3) limit_le_SIZE_MAX by linarith+
  then show ?thesis by (simp add: core_buffer_hold_def claim_eq [OF inv assms(2)])
qed

theorem reserve_guarantees_hold_witness: "fst (core_buffer_hold reserved_state 7 4096) = None"
  using reserve_guarantees_hold [OF reserved_reachable reserved_budget, of 4096] by simp

lemma transfer_failure:
  "fst (core_buffer_transfer s src dst sz) = None \<or> snd (core_buffer_transfer s src dst sz) = s"
  by (simp add: core_buffer_transfer_def Let_def split: option.split)

lemma transfer_success:
  assumes "core_buffer_transfer s src dst sz = (None, t)" and "src \<noteq> dst"
  shows "\<exists>f u. budgets s src = Some f \<and> budgets s dst = Some u \<and> direction u = direction f \<and> sz \<le> allocated f"
proof (rule ccontr)
  assume "\<not> ?thesis"
  then have "fst (core_buffer_transfer s src dst sz) \<noteq> None"
    using assms(2) by (auto simp: core_buffer_transfer_def not_less split: option.splits)
  then show False using assms(1) by simp
qed

text \<open>
  A successful transfer between two budgets moves exactly the given size and leaves
  the direction's bytes in use unchanged; a failed transfer changes nothing.
\<close>

lemma transfer_moves_exactly:
  assumes "budget_reachable s" and "core_buffer_transfer s src dst sz = (r, t)"
  shows "(r \<noteq> None \<longrightarrow> t = s) \<and>
    (r = None \<and> src \<noteq> dst \<longrightarrow> held_by src t + sz = held_by src s \<and>
      held_by dst t = held_by dst s + sz \<and> g_allocated t = g_allocated s \<and> budget_inv t)"
proof (intro conjI impI)
  assume "r \<noteq> None"
  then show "t = s" using transfer_failure [of s src dst sz] assms(2) by auto
next
  assume ok: "r = None \<and> src \<noteq> dst"
  have inv: "budget_inv s" using assms(1) by (rule budget_reachable_inv)
  obtain f u where f: "budgets s src = Some f" and u: "budgets s dst = Some u"
    and d: "direction u = direction f" and sz: "sz \<le> allocated f"
    using transfer_success [of s src dst sz t] assms(2) ok by auto
  have ne: "src \<noteq> dst" using ok by simp
  note eq = transfer_eq [OF inv f u ne d sz]
  have bt: "budgets t = (budgets s)
        (src \<mapsto> f\<lparr>allocated := allocated f - sz, charged := moved_out f sz\<rparr>,
         dst \<mapsto> u\<lparr>allocated := allocated u + sz, charged := moved_in u sz\<rparr>)"
    and ga: "g_allocated t = g_allocated s"
    using assms(2) ok unfolding eq by (auto simp: Let_def split: if_splits)
  show "held_by src t + sz = held_by src s" "held_by dst t = held_by dst s + sz"
    using f u ne sz bt by (simp_all add: held_by_def)
  show "g_allocated t = g_allocated s" by (rule ga)
  show "budget_inv t" using transfer_inv [OF inv, of src dst sz] assms(2) by simp
qed

text \<open>Budget 7 holds 100 bytes; budget 8 of the same direction is empty.\<close>

abbreviation two_budget_state :: budget_state where
  "two_budget_state \<equiv> snd (core_buffer_hold (snd (core_buffer_budget_init
     (reserved_state\<lparr>budgets := (budgets reserved_state)(8 \<mapsto> zero_budget)\<rparr>) 8 1 0)) 7 100)"

lemma two_budget_reachable: "budget_reachable two_budget_state"
proof -
  have "budget_step reserved_state (reserved_state\<lparr>budgets := (budgets reserved_state)(8 \<mapsto> zero_budget)\<rparr>)"
    by (rule budget_step.new_budget)
      (simp add: core_buffer_budget_init_def initial_state_def zero_budget_def direction_defs
        CORE_BUFFER_TOTAL_LIMIT_def szsub_def szadd_def Let_def)
  from budget_reachable.step [OF reserved_reachable this]
  show ?thesis
    by (rule budget_reachable.step [OF budget_reachable.step [OF _ budget_step.init] budget_step.hold])
qed

lemmas budget_eval = core_buffer_budget_init_def core_buffer_hold_def core_buffer_transfer_def claim_def
  initial_state_def zero_budget_def direction_defs CORE_BUFFER_TOTAL_LIMIT_def SIZE_MAX_def
  szsub_def szadd_def Let_def held_by_def

lemma transfer_moves_exactly_witness:
  "\<exists>t. core_buffer_transfer two_budget_state 7 8 40 = (None, t) \<and> held_by 7 t + 40 = held_by 7 two_budget_state \<and>
     held_by 8 t = held_by 8 two_budget_state + 40 \<and> held_by 7 two_budget_state = 100"
proof -
  have "fst (core_buffer_transfer two_budget_state 7 8 40) = None" and "held_by 7 two_budget_state = 100"
    by (simp_all add: budget_eval)
  then obtain t where "core_buffer_transfer two_budget_state 7 8 40 = (None, t)"
    and "held_by 7 two_budget_state = 100"
    by (cases "core_buffer_transfer two_budget_state 7 8 40") auto
  then show ?thesis using transfer_moves_exactly [OF two_budget_reachable, of 7 8 40 None t] by auto
qed

text \<open>
  No wake-up is lost: a release that lowers the charge of the upload or download
  direction notifies the socket of every registered waiter that watches that direction.
\<close>

lemma release_wakes_waiters:
  assumes "budget_reachable s" and "budgets s p = Some b" and "sz \<le> allocated b"
    and "charged (the (budgets (core_buffer_drop s p sz) p)) < charged b"
    and "registered (waiter_at s w)" and "bit (directions (waiter_at s w)) (direction b)"
    and "direction b \<noteq> CORE_BUFFER_RELAY"
  shows "Notify_Socket (waiter_fd (waiter_at s w)) \<in>
    set (drop (length (notices s)) (notices (core_buffer_drop s p sz)))"
proof -
  have inv: "budget_inv s" and "waiter_inv s"
    using assms(1) by (rule budget_reachable_inv, rule budget_reachable_waiters)
  then have "w \<in> set (waiters s)" using assms(5) by (simp add: waiter_inv_def)
  moreover have "charged b \<noteq> max (minimum b) (allocated b - sz)"
    using assms(4) by (auto simp: core_buffer_drop_def release_eq [OF inv assms(2,3)] Let_def)
  ultimately show ?thesis using assms(6,7)
    by (simp add: core_buffer_drop_def release_eq [OF inv assms(2,3)] notify_released_def Let_def)
qed

abbreviation watched_state :: budget_state where
  "watched_state \<equiv> snd (core_buffer_hold (core_buffer_watch reserved_state 3 11 2) 7 5000)"

lemma release_wakes_waiters_witness:
  "Notify_Socket 11 \<in> set (drop (length (notices watched_state)) (notices (core_buffer_drop watched_state 7 5000)))"
proof -
  have r: "budget_reachable watched_state"
    by (rule budget_reachable.step [OF budget_reachable.step [OF reserved_reachable budget_step.watch]
        budget_step.hold])
  let ?b = "\<lparr>minimum = 4096, allocated = 5000, charged = 5000, direction = 1\<rparr>"
  have b: "budgets watched_state 7 = Some ?b"
    and c: "charged (the (budgets (core_buffer_drop watched_state 7 5000) 7)) < charged ?b"
    and w: "registered (waiter_at watched_state 3)" "waiter_fd (waiter_at watched_state 3) = 11"
      "bit (directions (waiter_at watched_state 3)) (direction ?b)" "direction ?b \<noteq> CORE_BUFFER_RELAY"
    by (simp_all add: budget_eval core_buffer_watch_def core_buffer_drop_def release_def notify_released_def)
  show ?thesis using release_wakes_waiters [OF r b _ c w(1,3,4)] w(2) by simp
qed

end
