(* ===== verification/C_Text.thy ===== *)
theory C_Text
  imports Prelude
begin

text \<open>
  The part of the C library that works on text: the character classes of the C locale, the case
  mapping, \<^verbatim>\<open>strtol\<close> in base ten, and tokenising with \<^verbatim>\<open>strtok_r\<close>.  A C string
  is the list of its characters before the terminating NUL.
\<close>

section \<open>Characters\<close>

abbreviation code :: "char \<Rightarrow> nat" where
  "code c \<equiv> of_char c"

definition isdigit :: "char \<Rightarrow> bool" where
  "isdigit c \<longleftrightarrow> 48 \<le> code c \<and> code c \<le> 57"

definition isalpha :: "char \<Rightarrow> bool" where
  "isalpha c \<longleftrightarrow> 65 \<le> code c \<and> code c \<le> 90 \<or> 97 \<le> code c \<and> code c \<le> 122"

definition isalnum :: "char \<Rightarrow> bool" where
  "isalnum c \<longleftrightarrow> isdigit c \<or> isalpha c"

definition isxdigit :: "char \<Rightarrow> bool" where
  "isxdigit c \<longleftrightarrow> isdigit c \<or> 65 \<le> code c \<and> code c \<le> 70 \<or> 97 \<le> code c \<and> code c \<le> 102"

definition isspace :: "char \<Rightarrow> bool" where
  "isspace c \<longleftrightarrow> code c = 32 \<or> 9 \<le> code c \<and> code c \<le> 13"

definition tolower :: "char \<Rightarrow> char" where
  "tolower c = (if 65 \<le> code c \<and> code c \<le> 90 then char_of (code c + 32) else c)"

lemma char_eq_code: "c = d \<longleftrightarrow> code c = code d"
  by simp

lemma code_char_of: "n < 256 \<Longrightarrow> code (char_of n) = n"
  by simp

lemma code_tolower: "code (tolower c) = (if 65 \<le> code c \<and> code c \<le> 90 then code c + 32 else code c)"
  by (simp add: tolower_def)

lemma tolower_idem [simp]: "tolower (tolower c) = tolower c"
  by (subst char_eq_code) (simp add: code_tolower del: of_char_eq_iff)

lemma tolower_same: "\<not> isalpha d \<Longrightarrow> tolower c = d \<longleftrightarrow> c = d"
  by (subst (1 2) char_eq_code) (auto simp: code_tolower isalpha_def simp del: of_char_eq_iff)

section \<open>Searching and tokenising\<close>

text \<open>
  \<^verbatim>\<open>strchr(s, d)\<close>: what stands before the first \<open>d\<close> and what stands after it, if there
  is one.
\<close>

definition split_first :: "char \<Rightarrow> string \<Rightarrow> (string \<times> string) option" where
  "split_first d s =
     (case dropWhile (\<lambda>c. c \<noteq> d) s of
        [] \<Rightarrow> None
      | _ # rest \<Rightarrow> Some (takeWhile (\<lambda>c. c \<noteq> d) s, rest))"

text \<open>
  The fields between delimiters, and the tokens \<^verbatim>\<open>strtok_r\<close> yields for a single
  delimiter: the fields that are not empty.
\<close>

fun text_fields :: "char \<Rightarrow> string \<Rightarrow> string list" where
  "text_fields d [] = [[]]"
| "text_fields d (c # s) =
     (if c = d then [] # text_fields d s
      else case text_fields d s of [] \<Rightarrow> [[c]] | f # fs \<Rightarrow> (c # f) # fs)"

definition strtok_all :: "char \<Rightarrow> string \<Rightarrow> string list" where
  "strtok_all d s = filter (\<lambda>t. t \<noteq> []) (text_fields d s)"

lemma split_first_SomeD:
  "split_first d s = Some (a, b) \<Longrightarrow> s = a @ d # b \<and> d \<notin> set a"
proof (cases "dropWhile (\<lambda>c. c \<noteq> d) s")
  case (Cons x xs)
  assume h: "split_first d s = Some (a, b)"
  have "x = d" using hd_dropWhile [of "\<lambda>c. c \<noteq> d" s] Cons by simp
  moreover have "s = takeWhile (\<lambda>c. c \<noteq> d) s @ dropWhile (\<lambda>c. c \<noteq> d) s" by simp
  ultimately have "s = a @ d # b" using h Cons by (simp add: split_first_def)
  moreover have "d \<notin> set a" using h Cons by (auto simp: split_first_def dest: set_takeWhileD)
  ultimately show ?thesis by blast
qed (simp add: split_first_def)

lemma split_first_append [simp]:
  "d \<notin> set a \<Longrightarrow> split_first d (a @ d # b) = Some (a, b)"
proof -
  assume "d \<notin> set a"
  then have "dropWhile (\<lambda>c. c \<noteq> d) (a @ d # b) = d # b" and "takeWhile (\<lambda>c. c \<noteq> d) (a @ d # b) = a"
    by (induction a) auto
  then show ?thesis by (simp add: split_first_def)
qed

lemma split_first_None: "split_first d s = None \<longleftrightarrow> d \<notin> set s"
proof -
  have "dropWhile (\<lambda>c. c \<noteq> d) s = [] \<longleftrightarrow> d \<notin> set s" by (induction s) auto
  then show ?thesis 
    by (cases "dropWhile (\<lambda>c. c \<noteq> d) s") (simp_all add: split_first_def del: dropWhile_eq_Nil_conv)
qed

lemma text_fields_neq_Nil [simp]: "text_fields d s \<noteq> []"
  by (cases s) (auto split: list.split)

lemma text_fields_append: "d \<notin> set t \<Longrightarrow> text_fields d (t @ d # s) = t # text_fields d s"
  by (induction t) auto

lemma text_fields_last: "d \<notin> set t \<Longrightarrow> text_fields d t = [t]"
  by (induction t) auto

lemma text_fields_free: "t \<in> set (text_fields d s) \<Longrightarrow> d \<notin> set t"
proof (induction s arbitrary: t)
  case (Cons c s)
  then show ?case by (cases "text_fields d s") (auto split: if_splits)
qed simp

lemma text_fields_length: "length (text_fields d s) + sum_list (map length (text_fields d s)) = length s + 1"
proof (induction s)
  case (Cons c s)
  then show ?case by (cases "text_fields d s") auto
qed simp

lemma strtok_all_token: "t \<noteq> [] \<Longrightarrow> d \<notin> set t \<Longrightarrow> strtok_all d (t @ d # s) = t # strtok_all d s"
  by (simp add: strtok_all_def text_fields_append)

lemma strtok_all_last: "t \<noteq> [] \<Longrightarrow> d \<notin> set t \<Longrightarrow> strtok_all d t = [t]"
  by (simp add: strtok_all_def text_fields_last)

text \<open>A token is not empty and free of the delimiter; the tokens are not longer than the text.\<close>

lemma strtok_all_tokens: "t \<in> set (strtok_all d s) \<Longrightarrow> t \<noteq> [] \<and> d \<notin> set t"
  by (auto simp: strtok_all_def dest: text_fields_free)

lemma strtok_all_length:
  "length (strtok_all d s) + sum_list (map length (strtok_all d s)) \<le> length s + 1"
proof -
  have "length (filter (\<lambda>t. t \<noteq> []) xs) + sum_list (map length (filter (\<lambda>t. t \<noteq> []) xs))
      \<le> length xs + sum_list (map length xs)" for xs :: "string list"
    by (induction xs) auto
  from this [of "text_fields d s"] show ?thesis by (simp add: strtok_all_def text_fields_length)
qed

section \<open>Numbers\<close>

fun digits_value :: "nat \<Rightarrow> string \<Rightarrow> nat" where
  "digits_value n [] = n"
| "digits_value n (c # s) = digits_value (n * 10 + (code c - 48)) s"

text \<open>
  \<^verbatim>\<open>strtol(s, &end, 10)\<close>: the number that is written, and the text at \<^verbatim>\<open>end\<close>
  (with no digits \<^verbatim>\<open>end\<close> is the start); the value is saturated to the range of
  \<^verbatim>\<open>long\<close>, and a number outside it sets \<^verbatim>\<open>errno\<close>.
\<close>

definition strtol_number :: "string \<Rightarrow> int \<times> string" where
  "strtol_number s =
     (let t = dropWhile isspace s;
          neg = (t \<noteq> [] \<and> hd t = CHR ''-'');
          u = (if t \<noteq> [] \<and> (hd t = CHR ''-'' \<or> hd t = CHR ''+'') then tl t else t);
          ds = takeWhile isdigit u;
          v = int (digits_value 0 ds)
      in if ds = [] then (0, s) else ((if neg then - v else v), dropWhile isdigit u))"

definition strtol :: "string \<Rightarrow> int \<times> string" where
  "strtol s = (case strtol_number s of (w, rest) \<Rightarrow> (max (- (2 ^ 63)) (min (2 ^ 63 - 1) w), rest))"

definition strtol_range_error :: "string \<Rightarrow> bool" where
  "strtol_range_error s \<longleftrightarrow> fst (strtol_number s) > 2 ^ 63 - 1 \<or> fst (strtol_number s) < - (2 ^ 63)"

end
