(* ===== verification/Routing.thy ===== *)
theory Routing
  imports C_Text
begin

text \<open>
  The split-tunnelling rules of \<^verbatim>\<open>src/src/routing.c\<close>: the textual configuration and its
  parser, the decision for a target, and the protocol with the route controller that adds and
  removes bypass routes for direct connections.  \<^verbatim>\<open>inet_pton\<close> is a parameter: a record of
  its two address families.
\<close>

unbundle bit_operations_syntax

section \<open>Configuration\<close>

datatype route_action = ROUTE_ACTION_PROXY | ROUTE_ACTION_DIRECT | ROUTE_ACTION_BLOCK

datatype route_match = ROUTE_MATCH_DOMAIN | ROUTE_MATCH_SUFFIX | ROUTE_MATCH_CIDR | ROUTE_MATCH_PORT

datatype family = AF_INET | AF_INET6

record inet =
  pton4 :: "string \<Rightarrow> bytes option"
  pton6 :: "string \<Rightarrow> bytes option"

definition inet_pton :: "inet \<Rightarrow> family \<Rightarrow> string \<Rightarrow> bytes option" where
  "inet_pton net fam s = (case fam of AF_INET \<Rightarrow> pton4 net s | AF_INET6 \<Rightarrow> pton6 net s)"

record routing_rule =
  action :: route_action
  match :: route_match
  rvalue :: string
  port_first :: nat
  port_last :: nat

record routing_config =
  enabled :: bool
  bypass_lan :: bool
  default_action :: route_action
  rules :: "routing_rule list"

datatype routing_error = Config_Too_Long | Out_Of_Memory | Invalid_Enabled_Flag
  | Invalid_Default_Action | Invalid_Lan_Flag | Too_Many_Rules | Invalid_Rule | Invalid_Rule_Fields
  | Invalid_Port_Rule | Invalid_Cidr_Rule | Invalid_Domain_Rule

definition ROUTING_MAX_RULES :: nat where "ROUTING_MAX_RULES = 48"

definition copy_lower :: "nat \<Rightarrow> string \<Rightarrow> string" where
  "copy_lower cap src = take (cap - 1) (map tolower src)"

definition parse_action :: "string \<Rightarrow> route_action option" where
  "parse_action v =
     (if v = ''proxy'' then Some ROUTE_ACTION_PROXY
      else if v = ''direct'' then Some ROUTE_ACTION_DIRECT
      else if v = ''block'' then Some ROUTE_ACTION_BLOCK
      else None)"

definition parse_match :: "string \<Rightarrow> route_match option" where
  "parse_match v =
     (if v = ''domain'' then Some ROUTE_MATCH_DOMAIN
      else if v = ''suffix'' then Some ROUTE_MATCH_SUFFIX
      else if v = ''cidr'' then Some ROUTE_MATCH_CIDR
      else if v = ''port'' then Some ROUTE_MATCH_PORT
      else None)"

text \<open>One end of a port range: all of the text is a number from 1 to 65535.\<close>

definition parse_port :: "string \<Rightarrow> nat option" where
  "parse_port s =
     (case strtol s of (v, rest) \<Rightarrow>
        if rest = s \<or> rest \<noteq> [] \<or> v \<le> 0 \<or> v > 65535 then None else Some (nat v))"

definition parse_port_range :: "string \<Rightarrow> (nat \<times> nat) option" where
  "parse_port_range v =
     (if length v \<ge> 32 then None
      else
        let (lo, hi) = (case split_first (CHR ''-'') v of
                          None \<Rightarrow> (v, None) | Some (x, y) \<Rightarrow> (x, Some y))
        in case parse_port lo of
             None \<Rightarrow> None
           | Some a \<Rightarrow>
               (case hi of
                  None \<Rightarrow> Some (a, a)
                | Some h \<Rightarrow> (case parse_port h of
                               None \<Rightarrow> None
                             | Some b \<Rightarrow> if a > b then None else Some (a, b))))"

fun prefix_bits :: "nat \<Rightarrow> nat \<Rightarrow> string \<Rightarrow> nat option" where
  "prefix_bits maximum bits [] = Some bits"
| "prefix_bits maximum bits (c # s) =
     (if \<not> isdigit c then None
      else let value = code c - 48
           in if bits > (maximum - value) div 10 then None
              else prefix_bits maximum (bits * 10 + value) s)"

definition parse_cidr :: "inet \<Rightarrow> string \<Rightarrow> (family \<times> bytes \<times> nat) option" where
  "parse_cidr net v =
     (if length v \<ge> 54 then None
      else
        let (addr, slash) = (case split_first (CHR ''/'') v of
                               None \<Rightarrow> (v, None) | Some (x, y) \<Rightarrow> (x, Some y));
            parsed = (case inet_pton net AF_INET addr of
                        Some n \<Rightarrow> Some (AF_INET, n, 32)
                      | None \<Rightarrow> (case inet_pton net AF_INET6 addr of
                                   Some n \<Rightarrow> Some (AF_INET6, n, 128)
                                 | None \<Rightarrow> None))
        in case parsed of
             None \<Rightarrow> None
           | Some (fam, n, maximum) \<Rightarrow>
               (case slash of
                  None \<Rightarrow> Some (fam, n, maximum)
                | Some y \<Rightarrow>
                    if y = [] then None
                    else map_option (\<lambda>bits. (fam, n, bits)) (prefix_bits maximum 0 y)))"

text \<open>Characters of a domain, with no dot after a dot.\<close>

fun domain_chars :: "char option \<Rightarrow> string \<Rightarrow> bool" where
  "domain_chars previous [] = True"
| "domain_chars previous (c # s) =
     (if \<not> (isalnum c \<or> c = CHR ''-'' \<or> c = CHR ''_'' \<or> c = CHR ''.'') then False
      else if c = CHR ''.'' \<and> previous = Some (CHR ''.'') then False
      else domain_chars (Some c) s)"

definition valid_domain :: "string \<Rightarrow> bool" where
  "valid_domain v =
     (if v = [] then False
      else if length v > 253 \<or> hd v = CHR ''.'' \<or> last v = CHR ''.'' then False
      else domain_chars None v)"

definition routing_config_init :: routing_config where
  "routing_config_init =
     \<lparr>enabled = False, bypass_lan = True, default_action = ROUTE_ACTION_PROXY, rules = []\<rparr>"

text \<open>The checks of a rule's lower-cased value, by the kind of match.\<close>

definition check_rule :: "inet \<Rightarrow> route_action \<Rightarrow> route_match \<Rightarrow> string \<Rightarrow> routing_error + routing_rule" where
  "check_rule net a m v =
     (let rule = \<lparr>action = a, match = m, rvalue = v, port_first = 0, port_last = 0\<rparr>
      in case m of
           ROUTE_MATCH_PORT \<Rightarrow>
             (case parse_port_range v of
                None \<Rightarrow> Inl Invalid_Port_Rule
              | Some (p, q) \<Rightarrow> Inr (rule\<lparr>port_first := p, port_last := q\<rparr>))
         | ROUTE_MATCH_CIDR \<Rightarrow>
             (case parse_cidr net v of None \<Rightarrow> Inl Invalid_Cidr_Rule | Some _ \<Rightarrow> Inr rule)
         | _ \<Rightarrow> if valid_domain v then Inr rule else Inl Invalid_Domain_Rule)"

definition parse_rule :: "inet \<Rightarrow> string \<Rightarrow> routing_error + routing_rule" where
  "parse_rule net token =
     (case split_first (CHR '','') token of
        None \<Rightarrow> Inl Invalid_Rule
      | Some (act, rest) \<Rightarrow>
          (case split_first (CHR '','') rest of
             None \<Rightarrow> Inl Invalid_Rule
           | Some (mat, value) \<Rightarrow>
               if value = [] then Inl Invalid_Rule
               else
                 (case parse_action act of
                    None \<Rightarrow> Inl Invalid_Rule_Fields
                  | Some a \<Rightarrow>
                      (case parse_match mat of
                         None \<Rightarrow> Inl Invalid_Rule_Fields
                       | Some m \<Rightarrow>
                           if length value \<ge> 256 then Inl Invalid_Rule_Fields
                           else check_rule net a m (copy_lower 256 value)))))"

fun parse_rules :: "inet \<Rightarrow> string list \<Rightarrow> routing_config \<Rightarrow> routing_error option \<times> routing_config" where
  "parse_rules net [] cfg = (None, cfg)"
| "parse_rules net (token # tokens) cfg =
     (if length (rules cfg) \<ge> ROUTING_MAX_RULES then (Some Too_Many_Rules, cfg)
      else case parse_rule net token of
             Inl e \<Rightarrow> (Some e, cfg)
           | Inr rule \<Rightarrow> parse_rules net tokens (cfg\<lparr>rules := rules cfg @ [rule]\<rparr>))"

definition is_flag :: "string \<Rightarrow> bool" where
  "is_flag t \<longleftrightarrow> t = ''0'' \<or> t = ''1''"

text \<open>
  The result and the configuration left in the caller's struct; \<open>mem\<close> says whether the copy
  of the text could be allocated.
\<close>

definition routing_config_parse ::
  "inet \<Rightarrow> bool \<Rightarrow> string \<Rightarrow> routing_error option \<times> routing_config" where
  "routing_config_parse net mem txt =
     (let cfg = routing_config_init
      in if txt = [] then (None, cfg)
         else if length txt > 8191 then (Some Config_Too_Long, cfg)
         else if \<not> mem then (Some Out_Of_Memory, cfg)
         else
           case strtok_all (CHR '';'') txt of
             [] \<Rightarrow> (Some Invalid_Enabled_Flag, cfg)
           | t1 # ts1 \<Rightarrow>
               if \<not> is_flag t1 then (Some Invalid_Enabled_Flag, cfg)
               else
                 let cfg1 = cfg\<lparr>enabled := (hd t1 = CHR ''1'')\<rparr>
                 in (case ts1 of
                       [] \<Rightarrow> (Some Invalid_Default_Action, cfg1)
                     | t2 # ts2 \<Rightarrow>
                         (case parse_action t2 of
                            None \<Rightarrow> (Some Invalid_Default_Action, cfg1)
                          | Some a \<Rightarrow>
                              let cfg2 = cfg1\<lparr>default_action := a\<rparr>
                              in (case ts2 of
                                    [] \<Rightarrow> (Some Invalid_Lan_Flag, cfg2)
                                  | t3 # ts3 \<Rightarrow>
                                      if \<not> is_flag t3 then (Some Invalid_Lan_Flag, cfg2)
                                      else parse_rules net ts3 (cfg2\<lparr>bypass_lan := (hd t3 = CHR ''1'')\<rparr>)))))"

section \<open>Decision\<close>

definition ip_in_cidr :: "inet \<Rightarrow> string \<Rightarrow> string \<Rightarrow> bool" where
  "ip_in_cidr net host cidr =
     (case parse_cidr net cidr of
        None \<Rightarrow> False
      | Some (fam, network, prefix) \<Rightarrow>
          (case inet_pton net fam host of
             None \<Rightarrow> False
           | Some address \<Rightarrow>
               let full = prefix div 8; remaining = prefix mod 8
               in if full > 0 \<and> take full address \<noteq> take full network then False
                  else if remaining > 0 \<and>
                    (let mask = (push_bit (8 - remaining) 255 :: byte)
                     in (address ! full) AND mask \<noteq> (network ! full) AND mask) then False
                  else True))"

definition is_local_address :: "inet \<Rightarrow> string \<Rightarrow> bool" where
  "is_local_address net host \<longleftrightarrow>
     ip_in_cidr net host ''10.0.0.0/8'' \<or> ip_in_cidr net host ''100.64.0.0/10'' \<or>
     ip_in_cidr net host ''127.0.0.0/8'' \<or> ip_in_cidr net host ''169.254.0.0/16'' \<or>
     ip_in_cidr net host ''172.16.0.0/12'' \<or> ip_in_cidr net host ''192.168.0.0/16'' \<or>
     ip_in_cidr net host ''224.0.0.0/4'' \<or> ip_in_cidr net host ''::1/128'' \<or>
     ip_in_cidr net host ''fc00::/7'' \<or> ip_in_cidr net host ''fe80::/10''"

definition domain_suffix_match :: "string \<Rightarrow> string \<Rightarrow> bool" where
  "domain_suffix_match host suffix =
     (let hl = length host; sl = length suffix
      in if hl < sl then False
         else if drop (hl - sl) host \<noteq> suffix then False
         else hl = sl \<or> host ! (hl - sl - 1) = CHR ''.'')"

definition rule_matches :: "inet \<Rightarrow> bool \<Rightarrow> string \<Rightarrow> nat \<Rightarrow> string \<Rightarrow> routing_rule \<Rightarrow> bool" where
  "rule_matches net is_ip host port domain rule =
     (case match rule of
        ROUTE_MATCH_PORT \<Rightarrow> port \<ge> port_first rule \<and> port \<le> port_last rule
      | ROUTE_MATCH_CIDR \<Rightarrow> is_ip \<and> ip_in_cidr net host (rvalue rule)
      | ROUTE_MATCH_DOMAIN \<Rightarrow> domain \<noteq> [] \<and> domain = rvalue rule
      | ROUTE_MATCH_SUFFIX \<Rightarrow> domain \<noteq> [] \<and> domain_suffix_match domain (rvalue rule))"

fun decide_rules ::
  "inet \<Rightarrow> bool \<Rightarrow> string \<Rightarrow> nat \<Rightarrow> string \<Rightarrow> nat \<Rightarrow> routing_rule list \<Rightarrow> (nat \<times> route_action) option" where
  "decide_rules net is_ip host port domain i [] = None"
| "decide_rules net is_ip host port domain i (rule # rs) =
     (if rule_matches net is_ip host port domain rule then Some (i, action rule)
      else decide_rules net is_ip host port domain (i + 1) rs)"

definition is_ip_literal :: "inet \<Rightarrow> string \<Rightarrow> bool" where
  "is_ip_literal net host \<longleftrightarrow> inet_pton net AF_INET host \<noteq> None \<or> inet_pton net AF_INET6 host \<noteq> None"

definition routing_domain :: "inet \<Rightarrow> string \<Rightarrow> string option \<Rightarrow> string" where
  "routing_domain net host observed =
     (case observed of
        Some d \<Rightarrow> if valid_domain d then copy_lower 256 d
                  else if \<not> is_ip_literal net host then copy_lower 256 host else []
      | None \<Rightarrow> if \<not> is_ip_literal net host then copy_lower 256 host else [])"

text \<open>
  The action, the text left in \<^verbatim>\<open>matched_host\<close> (of capacity \<open>cap\<close>) and the number left
  in \<^verbatim>\<open>matched_rule\<close>: a rule index, or -1, -2 (LAN) and -3 (the resolver).
\<close>

definition routing_decide ::
  "inet \<Rightarrow> routing_config option \<Rightarrow> string option \<Rightarrow> nat \<Rightarrow> string option \<Rightarrow> nat \<Rightarrow> route_action \<times> string \<times> int" where
  "routing_decide net config target_host target_port observed cap =
     (case (config, target_host) of
        (Some cfg, Some host) \<Rightarrow>
          if \<not> enabled cfg then (ROUTE_ACTION_PROXY, [], -1)
          else
            let is_ip = is_ip_literal net host;
                domain = routing_domain net host observed;
                matched_host = (if cap > 0 \<and> domain \<noteq> [] then take (cap - 1) domain else [])
            in if bypass_lan cfg \<and> is_ip \<and> is_local_address net host
               then (ROUTE_ACTION_DIRECT, matched_host, -2)
               else case decide_rules net is_ip host target_port domain 0 (rules cfg) of
                      Some (i, a) \<Rightarrow> (a, matched_host, int i)
                    | None \<Rightarrow>
                        if target_port = 53 \<and> host = ''8.8.8.8'' then (ROUTE_ACTION_PROXY, matched_host, -3)
                        else (default_action cfg, matched_host, -1)
      | _ \<Rightarrow> (ROUTE_ACTION_PROXY, [], -1))"

definition routing_has_domain_rules :: "routing_config option \<Rightarrow> bool" where
  "routing_has_domain_rules config =
     (case config of
        None \<Rightarrow> False
      | Some cfg \<Rightarrow> enabled cfg \<and>
          list_ex (\<lambda>r. match r = ROUTE_MATCH_DOMAIN \<or> match r = ROUTE_MATCH_SUFFIX) (rules cfg))"

definition routing_action_name :: "route_action \<Rightarrow> string" where
  "routing_action_name a =
     (if a = ROUTE_ACTION_DIRECT then ''direct'' else if a = ROUTE_ACTION_BLOCK then ''block'' else ''proxy'')"

section \<open>The route controller\<close>

text \<open>
  A direct connection needs a bypass route, which a controller process adds and removes on
  request.  The answers of the operating system and of the controller to one exchange are an
  environment: whether the socket opens, connects and takes the command, and what the receives
  return (an empty text when the peer closes or a receive fails).
\<close>

record control =
  control_port :: int
  control_socket :: "string option"

record exchange =
  socket_ok :: bool
  connect_ok :: bool
  write_ok :: bool
  received :: "string list"

definition route_control_enabled :: "control \<Rightarrow> bool" where
  "route_control_enabled ctl \<longleftrightarrow>
     control_port ctl > 0 \<or> (case control_socket ctl of None \<Rightarrow> False | Some p \<Rightarrow> p \<noteq> [])"

fun read_reply :: "string \<Rightarrow> string list \<Rightarrow> string" where
  "read_reply acc [] = acc"
| "read_reply acc (c # cs) =
     (if length acc + 1 < 64 then
        let got = take (64 - length acc - 1) c
        in if got = [] then acc
           else if CHR 0x0A \<in> set (acc @ got) then acc @ got
           else read_reply (acc @ got) cs
      else acc)"

text \<open>Success, whether the controller asked to hold the route, and the command that was sent.\<close>

definition update_bypass ::
  "control \<Rightarrow> string \<Rightarrow> string \<Rightarrow> bool \<Rightarrow> exchange \<Rightarrow> bool \<times> bool \<times> string option" where
  "update_bypass ctl operation ip can_hold ex =
     (if \<not> route_control_enabled ctl then (True, False, None)
      else
        let path = (case control_socket ctl of None \<Rightarrow> [] | Some p \<Rightarrow> p);
            command = operation @ [CHR 0x09] @ ip @ [CHR 0x0A]
        in if \<not> socket_ok ex then (False, False, None)
           else if path \<noteq> [] \<and> length path \<ge> 108 then (False, False, None)
           else if \<not> connect_ok ex then (False, False, None)
           else if length command \<ge> 128 \<or> \<not> write_ok ex then (False, False, None)
           else
             let reply = takeWhile (\<lambda>c. c \<noteq> CHR 0x00) (read_reply [] (received ex))
             in if reply = ''OK'' @ [CHR 0x0A] then (True, False, Some command)
                else if can_hold \<and> reply = ''OK hold'' @ [CHR 0x0A] then (True, True, Some command)
                else (False, False, Some command))"

text \<open>
  What the connection did to the routing table: a route the controller acknowledged, a removal the
  controller acknowledged, and a removal that failed, which leaves its route in place.
\<close>

datatype route_event = Route_Added string | Route_Removed string | Route_Kept string

record candidate =
  cand_family :: "family option"
  cand_ip :: "string option"
  cand_add :: exchange
  cand_socket :: "int option"
  cand_connect :: bool
  cand_scope :: bool
  cand_remove :: exchange

text \<open>\<open>scope\<close> says whether the deadline scope of the removal could be entered.\<close>

definition release_bypass :: "control \<Rightarrow> string \<Rightarrow> bool \<Rightarrow> exchange \<Rightarrow> bool \<times> route_event list" where
  "release_bypass ctl ip scope ex =
     (if \<not> scope then (False, [Route_Kept ip])
      else let result = fst (update_bypass ctl ''ROUTE_DIRECT_REMOVE'' ip False ex)
           in (result, [if result then Route_Removed ip else Route_Kept ip]))"

fun open_candidates ::
  "control \<Rightarrow> candidate list \<Rightarrow> route_event list \<Rightarrow> int option \<times> string \<times> route_event list" where
  "open_candidates ctl [] log = (None, [], log)"
| "open_candidates ctl (c # cs) log =
     (case (cand_family c, cand_ip c) of
        (Some fam, Some ip) \<Rightarrow>
          if fam \<noteq> AF_INET then open_candidates ctl cs log
          else
            (case update_bypass ctl ''ROUTE_DIRECT_ADD'' ip True (cand_add c) of (ok, hold, _) \<Rightarrow>
               if \<not> ok then open_candidates ctl cs log
               else
                 let added = log @ [Route_Added ip];
                     released = added @ snd (release_bypass ctl ip (cand_scope c) (cand_remove c))
                 in (case cand_socket c of
                       None \<Rightarrow> open_candidates ctl cs released
                     | Some fd \<Rightarrow>
                         if cand_connect c then
                           (if hold then (Some fd, ip, added) else (Some fd, [], released))
                         else open_candidates ctl cs released))
      | _ \<Rightarrow> open_candidates ctl cs log)"

text \<open>How the target resolved: a numeric address, or the list of what the resolver found.\<close>

datatype resolution = Invalid_Numeric | Numeric_Not_IPv4 | Resolution_Failed | Candidates "candidate list"

datatype open_error = Dial_Failed | Invalid_Direct_Address | Controller_Requires_IPv4
  | Direct_Resolution_Failed | Direct_Connect_Failed

definition routing_open_direct ::
  "control \<Rightarrow> int option \<Rightarrow> resolution \<Rightarrow> (open_error + int) \<times> string \<times> route_event list" where
  "routing_open_direct ctl dialled res =
     (if \<not> route_control_enabled ctl then
        (case dialled of None \<Rightarrow> (Inl Dial_Failed, [], []) | Some fd \<Rightarrow> (Inr fd, [], []))
      else
        case res of
          Invalid_Numeric \<Rightarrow> (Inl Invalid_Direct_Address, [], [])
        | Numeric_Not_IPv4 \<Rightarrow> (Inl Controller_Requires_IPv4, [], [])
        | Resolution_Failed \<Rightarrow> (Inl Direct_Resolution_Failed, [], [])
        | Candidates cs \<Rightarrow>
            (case open_candidates ctl cs [] of
               (None, lease, log) \<Rightarrow> (Inl Direct_Connect_Failed, lease, log)
             | (Some fd, lease, log) \<Rightarrow> (Inr fd, lease, log)))"

text \<open>The result, the lease after the call and the route events.\<close>

definition routing_close_direct ::
  "control \<Rightarrow> string \<Rightarrow> bool \<Rightarrow> exchange \<Rightarrow> bool \<times> string \<times> route_event list" where
  "routing_close_direct ctl lease scope ex =
     (if lease = [] then (True, [], [])
      else case release_bypass ctl lease scope ex of (ok, evs) \<Rightarrow> (ok, [], evs))"

section \<open>Lemmas on prefixes\<close>

text \<open>The documented result of \<^verbatim>\<open>inet_pton\<close>: four or sixteen bytes.\<close>

definition inet_ok :: "inet \<Rightarrow> bool" where
  "inet_ok net \<longleftrightarrow> (\<forall>s n. pton4 net s = Some n \<longrightarrow> length n = 4) \<and>
     (\<forall>s n. pton6 net s = Some n \<longrightarrow> length n = 16)"

text \<open>The number a sequence of bytes stands for in network order.\<close>

fun be_value :: "bytes \<Rightarrow> nat" where
  "be_value [] = 0"
| "be_value (b # bs) = unat b * 256 ^ length bs + be_value bs"

lemma be_value_append: "be_value (xs @ ys) = be_value xs * 256 ^ length ys + be_value ys"
  by (induction xs) (simp_all add: power_add algebra_simps)

lemma be_value_less: "be_value bs < 256 ^ length bs"
proof (induction bs)
  case (Cons b bs)
  have "unat b * 256 ^ length bs + be_value bs < unat b * 256 ^ length bs + 256 ^ length bs"
    using Cons by simp
  also have "\<dots> = (unat b + 1) * 256 ^ length bs" by (simp add: algebra_simps)
  also have "\<dots> \<le> 256 * 256 ^ length bs"
    using unat_byte_less [of b] by (intro mult_right_mono) simp_all
  finally show ?case by simp
qed simp

lemma mult_add_eq_iff:
  fixes a b m r s :: nat
  assumes "r < m" and "s < m"
  shows "a * m + r = b * m + s \<longleftrightarrow> a = b \<and> r = s"
  using assms by (metis div_mult_self3 div_less mod_mult_self3 mod_less add.commute
      add.right_neutral less_nat_zero_code neq0_conv)

lemma be_value_inj: "length xs = length ys \<Longrightarrow> be_value xs = be_value ys \<longleftrightarrow> xs = ys"
proof (induction xs ys rule: list_induct2)
  case (Cons x xs y ys)
  show ?case
    using mult_add_eq_iff [of "be_value xs" "256 ^ length xs" "be_value ys"] be_value_less [of xs]
      be_value_less [of ys] Cons by (simp add: word_unat_eq_iff)
qed simp

text \<open>Dropping whole bytes from the right, and comparing the top bits of one byte.\<close>

lemma be_value_div_bytes: "be_value (xs @ ys) div 256 ^ length ys = be_value xs"
  using be_value_less [of ys] by (simp add: be_value_append)

lemma byte_top_bits:
  fixes a b :: byte
  assumes "k \<le> 8"
  shows "a AND push_bit k 255 = b AND push_bit k 255 \<longleftrightarrow> unat a div 2 ^ k = unat b div 2 ^ k"
proof -
  have m: "(push_bit k 255 :: byte) = NOT (mask k)"
  proof -
    have "(255 :: byte) = - 1" by simp
    then show ?thesis by (metis push_bit_minus_one_eq_not_mask)
  qed
  have up: "c AND NOT (mask k) = push_bit k (drop_bit k c)"
    and down: "drop_bit k (c AND NOT (mask k)) = drop_bit k c" for c :: byte
    by (rule bit_word_eqI; auto simp: bit_simps dest: bit_imp_le_length)+
  have "a AND NOT (mask k) = b AND NOT (mask k) \<longleftrightarrow> drop_bit k a = drop_bit k b"
    using up [of a] up [of b] down [of a] down [of b] by metis
  also have "\<dots> \<longleftrightarrow> unat (drop_bit k a) = unat (drop_bit k b)"
    by (simp add: word_unat_eq_iff)
  also have "\<dots> \<longleftrightarrow> unat a div 2 ^ k = unat b div 2 ^ k"
    by (simp add: unsigned_drop_bit_eq take_bit_nat_eq_self flip: drop_bit_eq_div)
  finally show ?thesis by (simp only: m)
qed

text \<open>
  Comparing whole bytes and then the masked byte is comparing the numbers after shifting out
  the bits beyond the prefix.
\<close>

lemma prefix_compare:
  assumes len: "length xs = length ys" and p: "p \<le> 8 * length ys"
  shows "take (p div 8) xs = take (p div 8) ys \<and>
     (p mod 8 > 0 \<longrightarrow> (xs ! (p div 8)) AND push_bit (8 - p mod 8) 255 =
                       (ys ! (p div 8)) AND push_bit (8 - p mod 8) 255)
     \<longleftrightarrow> be_value xs div 2 ^ (8 * length ys - p) = be_value ys div 2 ^ (8 * length ys - p)"
proof -
  let ?f = "p div 8" and ?r = "p mod 8" and ?n = "length ys"
  have eqp: "p = 8 * ?f + ?r" by simp
  have heads: "be_value (take ?f xs) = be_value (take ?f ys) \<longleftrightarrow> take ?f xs = take ?f ys"
    using len by (intro be_value_inj) simp
  show ?thesis
  proof (cases "?r = 0")
    case True
    then have "8 * ?n - p = 8 * (?n - ?f)" using eqp by simp
    then have pow: "(2::nat) ^ (8 * ?n - p) = 256 ^ (?n - ?f)"
      by (simp add: power_mult)
    have "be_value zs div 256 ^ (?n - ?f) = be_value (take ?f zs)" if "length zs = ?n" for zs
      using be_value_div_bytes [of "take ?f zs" "drop ?f zs"] that by simp
    then show ?thesis using True heads len unfolding pow by simp
  next
    case False
    then have f: "?f < ?n" using p eqp by linarith
    have shift: "(2::nat) ^ (8 * ?n - p) = 256 ^ (?n - Suc ?f) * 2 ^ (8 - ?r)"
    proof -
      have "8 * ?n - p = 8 * (?n - Suc ?f) + (8 - ?r)" using f eqp by linarith
      then have "(2::nat) ^ (8 * ?n - p) = (2 ^ 8) ^ (?n - Suc ?f) * 2 ^ (8 - ?r)"
        by (simp only: power_add power_mult)
      then show ?thesis by simp
    qed
    have top: "be_value zs div 2 ^ (8 * ?n - p) =
        be_value (take ?f zs) * 2 ^ ?r + unat (zs ! ?f) div 2 ^ (8 - ?r)" if "length zs = ?n" for zs
    proof -
      have "be_value zs div 256 ^ (?n - Suc ?f) = be_value (take (Suc ?f) zs)"
        using be_value_div_bytes [of "take (Suc ?f) zs" "drop (Suc ?f) zs"] that by simp
      also have "\<dots> = be_value (take ?f zs) * 256 + unat (zs ! ?f)"
        using f that by (simp add: take_Suc_conv_app_nth be_value_append)
      also have "\<dots> = (be_value (take ?f zs) * 2 ^ ?r) * 2 ^ (8 - ?r) + unat (zs ! ?f)"
        by (simp add: mult.assoc flip: power_add)
      finally show ?thesis
        unfolding shift by (simp add: div_mult2_eq)
    qed
    have small: "unat (z :: byte) div 2 ^ (8 - ?r) < 2 ^ ?r" for z
    proof -
      have "unat z < 2 ^ ?r * 2 ^ (8 - ?r)" by (simp flip: power_add)
      then show ?thesis by (simp add: less_mult_imp_div_less)
    qed
    show ?thesis
      using False heads len
      by (simp add: top mult_add_eq_iff [OF small small] byte_top_bits)
  qed
qed

section \<open>What a parsed configuration satisfies\<close>

lemma prefix_bits_le: "bits \<le> maximum \<Longrightarrow> prefix_bits maximum bits s = Some b \<Longrightarrow> 9 \<le> maximum \<Longrightarrow> b \<le> maximum"
proof (induction s arbitrary: bits)
  case (Cons c s)
  define v where "v = code c - 48"
  have c: "isdigit c" "bits \<le> (maximum - v) div 10"
    and rec: "prefix_bits maximum (bits * 10 + v) s = Some b"
    using Cons.prems(2) by (auto simp: v_def Let_def split: if_splits)
  have "v \<le> 9" using c(1) unfolding v_def isdigit_def by linarith
  then have "bits * 10 + v \<le> maximum" using c(2) Cons.prems(3) by linarith
  then show ?case using Cons.IH rec Cons.prems(3) by blast
qed simp

lemma parse_cidr_bound:
  assumes "inet_ok net" and "parse_cidr net v = Some (fam, n, p)"
  shows "p \<le> 8 * length n" and "inet_pton net fam h = Some a \<Longrightarrow> length a = length n"
proof -
  from assms(2) obtain addr mx where n: "inet_pton net fam addr = Some n"
    and mx: "mx = (case fam of AF_INET \<Rightarrow> 32 | AF_INET6 \<Rightarrow> 128)" and p: "p \<le> mx"
    using prefix_bits_le [of 0 32] prefix_bits_le [of 0 128]
    by (fastforce simp: parse_cidr_def Let_def split: if_splits option.splits prod.splits)
  have len: "inet_pton net fam x = Some y \<Longrightarrow> length y = mx div 8" for x y
    using assms(1) by (auto simp: inet_ok_def inet_pton_def mx split: family.splits)
  show "p \<le> 8 * length n" using len [OF n] p by (cases fam) (simp_all add: mx)
  show "inet_pton net fam h = Some a \<Longrightarrow> length a = length n" using len n by metis
qed

definition rule_wf :: "inet \<Rightarrow> routing_rule \<Rightarrow> bool" where
  "rule_wf net r \<longleftrightarrow> rvalue r \<noteq> [] \<and> length (rvalue r) < 256 \<and> map tolower (rvalue r) = rvalue r \<and>
     (case match r of
        ROUTE_MATCH_PORT \<Rightarrow> parse_port_range (rvalue r) = Some (port_first r, port_last r)
      | ROUTE_MATCH_CIDR \<Rightarrow> parse_cidr net (rvalue r) \<noteq> None \<and> port_first r = 0 \<and> port_last r = 0
      | _ \<Rightarrow> valid_domain (rvalue r) \<and> port_first r = 0 \<and> port_last r = 0)"

definition config_wf :: "inet \<Rightarrow> routing_config \<Rightarrow> bool" where
  "config_wf net cfg \<longleftrightarrow> length (rules cfg) \<le> ROUTING_MAX_RULES \<and> (\<forall>r \<in> set (rules cfg). rule_wf net r)"

lemma parse_port_range_bounds:
  "parse_port_range v = Some (a, b) \<Longrightarrow> 1 \<le> a \<and> a \<le> b \<and> b \<le> 65535"
  by (auto simp: parse_port_range_def parse_port_def Let_def split: if_splits option.splits prod.splits)

lemma copy_lower_id [simp]: "length v < 256 \<Longrightarrow> map tolower v = v \<Longrightarrow> copy_lower 256 v = v"
  by (simp add: copy_lower_def)

lemma map_tolower_idem [simp]: "map tolower (map tolower s) = map tolower s"
  by simp

lemma check_rule_Inr:
  "check_rule net a m v = Inr r \<longleftrightarrow> action r = a \<and> match r = m \<and> rvalue r = v \<and>
     (case m of
        ROUTE_MATCH_PORT \<Rightarrow> parse_port_range v = Some (port_first r, port_last r)
      | ROUTE_MATCH_CIDR \<Rightarrow> parse_cidr net v \<noteq> None \<and> port_first r = 0 \<and> port_last r = 0
      | _ \<Rightarrow> valid_domain v \<and> port_first r = 0 \<and> port_last r = 0)"
  by (cases m; cases r) (auto simp: check_rule_def split: option.splits)

text \<open>A successful parse names its parts: the token is action, match, value.\<close>

lemma parse_rule_InrD:
  assumes "parse_rule net token = Inr r"
  shows "\<exists>act mat raw. token = act @ '','' @ mat @ '','' @ raw \<and> raw \<noteq> [] \<and> length raw < 256 \<and>
    parse_action act = Some (action r) \<and> parse_match mat = Some (match r) \<and>
    check_rule net (action r) (match r) (map tolower raw) = Inr r"
proof -
  from assms obtain act rest where 1: "split_first (CHR '','') token = Some (act, rest)"
    by (auto simp: parse_rule_def split: option.splits)
  from assms 1 obtain mat raw where 2: "split_first (CHR '','') rest = Some (mat, raw)" and ne: "raw \<noteq> []"
    by (auto simp: parse_rule_def split: option.splits if_splits)
  from assms 1 2 ne obtain a m where a: "parse_action act = Some a" and m: "parse_match mat = Some m"
    and len: "length raw < 256" and c: "check_rule net a m (copy_lower 256 raw) = Inr r"
    by (auto simp: parse_rule_def not_le split: option.splits if_splits)
  have low: "copy_lower 256 raw = map tolower raw" using len by (simp add: copy_lower_def)
  have "action r = a" "match r = m" using c by (simp_all add: check_rule_Inr)
  then show ?thesis
    using split_first_SomeD [OF 1] split_first_SomeD [OF 2] ne a m len c low by auto
qed

lemma parse_rule_wf: "parse_rule net token = Inr r \<Longrightarrow> rule_wf net r"
  by (drule parse_rule_InrD) (auto simp: rule_wf_def check_rule_Inr split: route_match.splits)

lemma parse_rules_wf:
  "parse_rules net tokens cfg = (None, cfg') \<Longrightarrow> config_wf net cfg \<Longrightarrow> config_wf net cfg'"
proof (induction tokens arbitrary: cfg)
  case (Cons t ts)
  then obtain rule where lim: "length (rules cfg) < ROUTING_MAX_RULES" and rule: "parse_rule net t = Inr rule"
    and rec: "parse_rules net ts (cfg\<lparr>rules := rules cfg @ [rule]\<rparr>) = (None, cfg')"
    by (auto simp: not_le split: if_splits sum.splits)
  have "config_wf net (cfg\<lparr>rules := rules cfg @ [rule]\<rparr>)"
    using Cons.prems(2) lim parse_rule_wf [OF rule] by (auto simp: config_wf_def)
  then show ?case using Cons.IH rec by blast
qed simp

lemma routing_config_parse_wf:
  assumes "routing_config_parse net mem txt = (None, cfg)"
  shows "config_wf net cfg"
proof -
  have "config_wf net routing_config_init" by (simp add: config_wf_def routing_config_init_def)
  then have "config_wf net (routing_config_init\<lparr>enabled := e, default_action := a, bypass_lan := l\<rparr>)"
    and "config_wf net (routing_config_init\<lparr>enabled := e\<rparr>)"
    and "config_wf net routing_config_init" for e a l by (simp_all add: config_wf_def)
  then show ?thesis
    using assms
    by (auto simp: routing_config_parse_def Let_def split: if_splits list.splits option.splits
        intro: parse_rules_wf)
qed

section \<open>The canonical text of a configuration\<close>

definition match_name :: "route_match \<Rightarrow> string" where
  "match_name m = (case m of ROUTE_MATCH_DOMAIN \<Rightarrow> ''domain'' | ROUTE_MATCH_SUFFIX \<Rightarrow> ''suffix''
     | ROUTE_MATCH_CIDR \<Rightarrow> ''cidr'' | ROUTE_MATCH_PORT \<Rightarrow> ''port'')"

definition show_rule :: "routing_rule \<Rightarrow> string" where
  "show_rule r = routing_action_name (action r) @ '','' @ match_name (match r) @ '','' @ rvalue r"

definition show_flag :: "bool \<Rightarrow> string" where
  "show_flag b = (if b then ''1'' else ''0'')"

definition show_tokens :: "routing_config \<Rightarrow> string list" where
  "show_tokens cfg = show_flag (enabled cfg) # routing_action_name (default_action cfg) #
     show_flag (bypass_lan cfg) # map show_rule (rules cfg)"

fun join :: "char \<Rightarrow> string list \<Rightarrow> string" where
  "join d [] = []"
| "join d [t] = t"
| "join d (t # u # ts) = t @ d # join d (u # ts)"

definition show_config :: "routing_config \<Rightarrow> string" where
  "show_config cfg = join (CHR '';'') (show_tokens cfg)"

lemma strtok_join: "(\<And>t. t \<in> set ts \<Longrightarrow> t \<noteq> [] \<and> d \<notin> set t) \<Longrightarrow> strtok_all d (join d ts) = ts"
proof (induction ts rule: join.induct)
  case (1 d)
  show ?case by (simp add: strtok_all_def)
next
  case (2 d t)
  then show ?case by (simp add: strtok_all_last)
next
  case (3 d t u ts)
  then show ?case by (simp add: strtok_all_token)
qed

lemma length_join: "ts \<noteq> [] \<Longrightarrow> length (join d ts) + 1 = length ts + sum_list (map length ts)"
  by (induction d ts rule: join.induct) auto

lemma parse_action_name [simp]: "parse_action (routing_action_name a) = Some a"
  by (cases a) (simp_all add: parse_action_def routing_action_name_def)

lemma parse_match_name [simp]: "parse_match (match_name m) = Some m"
  by (cases m) (simp_all add: parse_match_def match_name_def)

lemma no_comma [simp]: "CHR '','' \<notin> set (routing_action_name a)" "CHR '','' \<notin> set (match_name m)"
  by (cases a; simp add: routing_action_name_def) (cases m; simp add: match_name_def)

lemma no_semicolon [simp]: "CHR '';'' \<notin> set (routing_action_name a)" "CHR '';'' \<notin> set (match_name m)"
  by (cases a; simp add: routing_action_name_def) (cases m; simp add: match_name_def)

text \<open>Printing a well-formed rule and parsing it back.\<close>

lemma parse_show_rule:
  assumes "rule_wf net r"
  shows "parse_rule net (show_rule r) = Inr r"
proof -
  have 1: "split_first (CHR '','') (show_rule r) =
      Some (routing_action_name (action r), match_name (match r) @ CHR '','' # rvalue r)"
    by (simp add: show_rule_def)
  have 2: "split_first (CHR '','') (match_name (match r) @ CHR '','' # rvalue r) = Some (match_name (match r), rvalue r)"
    by simp
  have 3: "rvalue r \<noteq> []" "length (rvalue r) < 256" "copy_lower 256 (rvalue r) = rvalue r"
    using assms by (simp_all add: rule_wf_def)
  have "check_rule net (action r) (match r) (rvalue r) = Inr r"
    using assms by (simp add: check_rule_Inr rule_wf_def)
  then show ?thesis by (simp add: parse_rule_def 1 2 3 linorder_not_le)
qed

lemma parse_show_rules:
  assumes "\<forall>r \<in> set rs. rule_wf net r" and "length (rules cfg) + length rs \<le> ROUTING_MAX_RULES"
  shows "parse_rules net (map show_rule rs) cfg = (None, cfg\<lparr>rules := rules cfg @ rs\<rparr>)"
  using assms
proof (induction rs arbitrary: cfg)
  case (Cons r rs)
  have "parse_rule net (show_rule r) = Inr r" using Cons.prems by (simp add: parse_show_rule)
  moreover have "\<not> ROUTING_MAX_RULES \<le> length (rules cfg)" using Cons.prems by simp
  ultimately show ?case using Cons.IH [of "cfg\<lparr>rules := rules cfg @ [r]\<rparr>"] Cons.prems by simp
qed simp

text \<open>A parsed rule's text is not longer than its token and has no delimiter.\<close>

lemma show_parsed_rule:
  assumes "parse_rule net token = Inr r" and "CHR '';'' \<notin> set token"
  shows "length (show_rule r) = length token" and "CHR '';'' \<notin> set (show_rule r)"
proof -
  from parse_rule_InrD [OF assms(1)] obtain act mat raw where
    tok: "token = act @ '','' @ mat @ '','' @ raw" and a: "parse_action act = Some (action r)"
    and m: "parse_match mat = Some (match r)" and v: "rvalue r = map tolower raw"
    by (auto simp: check_rule_Inr)
  have names: "routing_action_name (action r) = act" "match_name (match r) = mat"
    using a m
    by (auto simp: parse_action_def parse_match_def routing_action_name_def match_name_def split: if_splits)
  show "length (show_rule r) = length token" by (simp add: show_rule_def v names tok)
  have "CHR '';'' \<notin> tolower ` set raw"
  proof
    assume "CHR '';'' \<in> tolower ` set raw"
    then obtain c where c: "c \<in> set raw" "tolower c = CHR '';''" by force
    have "\<not> isalpha (CHR '';'')" by (simp add: isalpha_def)
    then have "c = CHR '';''" using c(2) tolower_same by blast
    then show False using assms(2) tok c(1) by simp
  qed
  then show "CHR '';'' \<notin> set (show_rule r)" by (simp add: show_rule_def v)
qed

lemma show_parsed_rules:
  assumes "parse_rules net tokens cfg = (None, cfg')" and "\<And>t. t \<in> set tokens \<Longrightarrow> CHR '';'' \<notin> set t"
  shows "\<exists>rs. rules cfg' = rules cfg @ rs \<and> enabled cfg' = enabled cfg \<and> bypass_lan cfg' = bypass_lan cfg \<and>
    default_action cfg' = default_action cfg \<and>
    map length (map show_rule rs) = map length tokens \<and> (\<forall>r \<in> set rs. CHR '';'' \<notin> set (show_rule r))"
  using assms
proof (induction tokens arbitrary: cfg)
  case (Cons t ts)
  then obtain r where r: "parse_rule net t = Inr r"
    and rec: "parse_rules net ts (cfg\<lparr>rules := rules cfg @ [r]\<rparr>) = (None, cfg')"
    by (auto split: if_splits sum.splits)
  from Cons.IH [OF rec] Cons.prems(2) obtain rs where
    rs: "rules cfg' = rules cfg @ r # rs" "enabled cfg' = enabled cfg" "bypass_lan cfg' = bypass_lan cfg"
      "default_action cfg' = default_action cfg" "map length (map show_rule rs) = map length ts"
      "\<forall>r \<in> set rs. CHR '';'' \<notin> set (show_rule r)" by auto
  have "length (show_rule r) = length t" "CHR '';'' \<notin> set (show_rule r)"
    using show_parsed_rule [OF r] Cons.prems(2) by auto
  then show ?case using rs by (intro exI [of _ "r # rs"]) simp
qed simp

lemma show_flag_simps [simp]: "is_flag (show_flag b)" "hd (show_flag b) = CHR ''1'' \<longleftrightarrow> b" "show_flag b \<noteq> []"
  "CHR '';'' \<notin> set (show_flag b)" "length (show_flag b) = 1"
  by (simp_all add: is_flag_def show_flag_def)

lemma is_flag_length: "is_flag t \<Longrightarrow> length t = 1"
  by (auto simp: is_flag_def)

lemma parse_action_name_eq: "parse_action t = Some a \<Longrightarrow> t = routing_action_name a"
  by (auto simp: parse_action_def routing_action_name_def split: if_splits)

lemma parse_show_config:
  assumes wf: "config_wf net cfg" and free: "\<forall>r \<in> set (rules cfg). CHR '';'' \<notin> set (show_rule r)"
    and len: "length (show_config cfg) \<le> 8191"
  shows "routing_config_parse net True (show_config cfg) = (None, cfg)"
proof -
  have act: "routing_action_name a \<noteq> []" for a by (cases a) (simp_all add: routing_action_name_def)
  have toks: "strtok_all (CHR '';'') (show_config cfg) = show_tokens cfg"
    unfolding show_config_def
    by (rule strtok_join) (use free act in \<open>auto simp: show_tokens_def show_rule_def\<close>)
  have ne: "show_config cfg \<noteq> []" using toks by (auto simp: strtok_all_def show_tokens_def)
  let ?c = "routing_config_init\<lparr>enabled := enabled cfg, default_action := default_action cfg,
    bypass_lan := bypass_lan cfg\<rparr>"
  have "parse_rules net (map show_rule (rules cfg)) ?c = (None, ?c\<lparr>rules := rules ?c @ rules cfg\<rparr>)"
    using wf by (intro parse_show_rules) (simp_all add: config_wf_def routing_config_init_def)
  also have "?c\<lparr>rules := rules ?c @ rules cfg\<rparr> = cfg" by (simp add: routing_config_init_def)
  finally show ?thesis
    using ne len toks by (simp add: routing_config_parse_def Let_def show_tokens_def)
qed

lemma parsed_config_text:
  assumes "routing_config_parse net mem input = (None, cfg)" and "input \<noteq> []"
  shows "(\<forall>r \<in> set (rules cfg). CHR '';'' \<notin> set (show_rule r)) \<and> length (show_config cfg) \<le> length input"
proof -
  obtain t1 t2 t3 ts where toks: "strtok_all (CHR '';'') input = t1 # t2 # t3 # ts"
    and fl: "is_flag t1" "is_flag t3" and len: "length input \<le> 8191" and m: mem
    and a: "parse_action t2 \<noteq> None"
    using assms by (auto simp: routing_config_parse_def Let_def split: if_splits list.splits option.splits)
  define c where "c = routing_config_init\<lparr>enabled := (hd t1 = CHR ''1''), default_action := the (parse_action t2),
     bypass_lan := (hd t3 = CHR ''1'')\<rparr>"
  have p: "parse_rules net ts c = (None, cfg)"
    using assms toks fl len m a by (auto simp: routing_config_parse_def Let_def c_def)
  have "CHR '';'' \<notin> set t" if "t \<in> set ts" for t
    using strtok_all_tokens [of t "CHR '';''" input] toks that by simp
  from show_parsed_rules [OF p this] obtain rs where rs: "rules cfg = rules c @ rs"
    "default_action cfg = default_action c" "map length (map show_rule rs) = map length ts"
    "\<forall>r \<in> set rs. CHR '';'' \<notin> set (show_rule r)" by auto
  have c0: "rules c = []" by (simp add: c_def routing_config_init_def)
  have t2: "t2 = routing_action_name (default_action c)"
    using a by (auto simp: c_def intro: parse_action_name_eq)
  have same: "map length (show_tokens cfg) = map length (t1 # t2 # t3 # ts)"
    using rs c0 t2 is_flag_length [OF fl(1)] is_flag_length [OF fl(2)] by (simp add: show_tokens_def)
  have ln: "length (show_tokens cfg) = length (t1 # t2 # t3 # ts)" using arg_cong [OF same, of length] by simp
  have "length (show_config cfg) + 1 = length (show_tokens cfg) + sum_list (map length (show_tokens cfg))"
    unfolding show_config_def by (rule length_join) (simp add: show_tokens_def)
  also have "\<dots> \<le> length input + 1"
    using strtok_all_length [of "CHR '';''" input] unfolding same ln toks by simp
  finally show ?thesis using rs(1,4) c0 by simp
qed

section \<open>Decisions and bypass routes\<close>

lemma decide_rules_Some:
  "decide_rules net ip host port d n rs = Some (k, a) \<Longrightarrow>
     \<exists>i < length rs. k = n + i \<and> rule_matches net ip host port d (rs ! i) \<and> a = action (rs ! i) \<and>
       (\<forall>j < i. \<not> rule_matches net ip host port d (rs ! j))"
proof (induction rs arbitrary: n)
  case (Cons r rs)
  show ?case
  proof (cases "rule_matches net ip host port d r")
    case True
    then show ?thesis using Cons.prems by (intro exI [of _ 0]) simp
  next
    case False
    then have "decide_rules net ip host port d (n + 1) rs = Some (k, a)" using Cons.prems by simp
    from Cons.IH [OF this] obtain i where i: "i < length rs" "k = n + 1 + i"
      "rule_matches net ip host port d (rs ! i)" "a = action (rs ! i)"
      "\<forall>j < i. \<not> rule_matches net ip host port d (rs ! j)" by blast
    have "\<not> rule_matches net ip host port d ((r # rs) ! j)" if "j < Suc i" for j
      using i(5) False that by (cases j) simp_all
    then show ?thesis using i by (intro exI [of _ "Suc i"]) simp
  qed
qed simp

lemma decide_rules_None:
  "decide_rules net ip host port d n rs = None \<longleftrightarrow> (\<forall>r \<in> set rs. \<not> rule_matches net ip host port d r)"
  by (induction rs arbitrary: n) simp_all

text \<open>
  What a log of route events leaves in place: additions less removals, per address; the
  removals that failed; and what it takes for a removal to be acknowledged.
\<close>

definition routes_left :: "route_event list \<Rightarrow> string \<Rightarrow> int" where
  "routes_left log ip = int (count_list log (Route_Added ip)) - int (count_list log (Route_Removed ip))"

definition routes_kept :: "route_event list \<Rightarrow> string \<Rightarrow> int" where
  "routes_kept log ip = int (count_list log (Route_Kept ip))"

definition lease_count :: "string \<Rightarrow> string \<Rightarrow> int" where
  "lease_count lease ip = (if lease \<noteq> [] \<and> ip = lease then 1 else 0)"

definition removal_acknowledged :: "control \<Rightarrow> string \<Rightarrow> bool \<Rightarrow> exchange \<Rightarrow> bool" where
  "removal_acknowledged ctl ip scope ex \<longleftrightarrow> scope \<and> fst (update_bypass ctl ''ROUTE_DIRECT_REMOVE'' ip False ex)"

lemma routes_left_simps [simp]:
  "routes_left [] ip = 0"
  "routes_left (xs @ ys) ip = routes_left xs ip + routes_left ys ip"
  "routes_left (Route_Added j # xs) ip = routes_left xs ip + (if ip = j then 1 else 0)"
  "routes_left (Route_Removed j # xs) ip = routes_left xs ip - (if ip = j then 1 else 0)"
  "routes_left (Route_Kept j # xs) ip = routes_left xs ip"
  by (simp_all add: routes_left_def count_list_append)

lemma routes_kept_simps [simp]:
  "routes_kept [] ip = 0"
  "routes_kept (xs @ ys) ip = routes_kept xs ip + routes_kept ys ip"
  "routes_kept (Route_Added j # xs) ip = routes_kept xs ip"
  "routes_kept (Route_Removed j # xs) ip = routes_kept xs ip"
  "routes_kept (Route_Kept j # xs) ip = routes_kept xs ip + (if ip = j then 1 else 0)"
  by (simp_all add: routes_kept_def count_list_append)

lemma release_bypass_outcome:
  "release_bypass ctl ip scope ex =
     (removal_acknowledged ctl ip scope ex,
      [if removal_acknowledged ctl ip scope ex then Route_Removed ip else Route_Kept ip])"
  by (simp add: release_bypass_def removal_acknowledged_def Let_def)

text \<open>A candidate whose removal, if it comes to one, is acknowledged.\<close>

definition candidate_ok :: "control \<Rightarrow> candidate \<Rightarrow> bool" where
  "candidate_ok ctl c \<longleftrightarrow>
     (\<forall>ip. cand_ip c = Some ip \<longrightarrow> removal_acknowledged ctl ip (cand_scope c) (cand_remove c))"

lemma open_candidates_balance:
  assumes "open_candidates ctl cs log = (fd, lease, out)"
    and "\<forall>c \<in> set cs. cand_ip c \<noteq> Some []"
  shows "routes_left out ip - routes_kept out ip = routes_left log ip - routes_kept log ip + lease_count lease ip \<and>
    ((\<forall>c \<in> set cs. candidate_ok ctl c) \<longrightarrow> routes_kept out ip = routes_kept log ip) \<and>
    (fd = None \<longrightarrow> lease = [])"
  using assms
proof (induction cs arbitrary: log)
  case Nil
  then show ?case by (simp add: lease_count_def)
next
  case (Cons c cs)
  have skip: ?case if "open_candidates ctl cs l = (fd, lease, out)"
    "routes_left l ip - routes_kept l ip = routes_left log ip - routes_kept log ip"
    "candidate_ok ctl c \<longrightarrow> routes_kept l ip = routes_kept log ip" for l
    using Cons.IH [OF that(1)] Cons.prems(2) that(2,3) by simp
  show ?case
  proof (cases "cand_family c = Some AF_INET \<and> cand_ip c \<noteq> None")
    case False
    then have "open_candidates ctl cs log = (fd, lease, out)"
      using Cons.prems(1) by (auto split: option.splits family.splits if_splits)
    then show ?thesis by (rule skip) simp_all
  next
    case True
    then obtain a where a: "cand_family c = Some AF_INET" "cand_ip c = Some a" by blast
    define gone where "gone = removal_acknowledged ctl a (cand_scope c) (cand_remove c)"
    define ev where "ev = (if gone then Route_Removed a else Route_Kept a)"
    have ne: "a \<noteq> []" and rel: "snd (release_bypass ctl a (cand_scope c) (cand_remove c)) = [ev]"
      and gone: "candidate_ok ctl c \<longrightarrow> gone"
      using Cons.prems(2) a by (auto simp: release_bypass_outcome candidate_ok_def gone_def ev_def)
    obtain ok hold cmd where u: "update_bypass ctl ''ROUTE_DIRECT_ADD'' a True (cand_add c) = (ok, hold, cmd)"
      by (metis prod_cases3)
    show ?thesis
    proof (cases "ok \<and> cand_socket c \<noteq> None \<and> cand_connect c")
      case False
      then have "open_candidates ctl cs log = (fd, lease, out) \<or>
          open_candidates ctl cs (log @ [Route_Added a, ev]) = (fd, lease, out)"
        using Cons.prems(1) by (auto simp: a u rel Let_def split: option.splits if_splits)
      then show ?thesis
      proof
        assume "open_candidates ctl cs log = (fd, lease, out)"
        then show ?thesis by (rule skip) simp_all
      next
        assume "open_candidates ctl cs (log @ [Route_Added a, ev]) = (fd, lease, out)"
        then show ?thesis by (rule skip) (use gone in \<open>simp_all add: ev_def\<close>)
      qed
    next
      case True
      then obtain s where s: "cand_socket c = Some s" by blast
      show ?thesis
        using Cons.prems(1) ne True gone by (auto simp: a u rel s Let_def lease_count_def ev_def split: if_splits)
    qed
  qed
qed

section \<open>Properties\<close>

text \<open>A dotted-quad reader for concrete inputs.\<close>

definition sample_octet :: "string \<Rightarrow> byte option" where
  "sample_octet t = (if t \<noteq> [] \<and> list_all isdigit t \<and> digits_value 0 t < 256
     then Some (of_nat (digits_value 0 t)) else None)"

definition sample_pton4 :: "string \<Rightarrow> bytes option" where
  "sample_pton4 s = (case map sample_octet (text_fields (CHR ''.'') s) of
     [Some a, Some b, Some c, Some d] \<Rightarrow> Some [a, b, c, d] | _ \<Rightarrow> None)"

definition sample_inet :: inet where
  "sample_inet = \<lparr>pton4 = sample_pton4, pton6 = (\<lambda>_. None)\<rparr>"

lemma sample_inet_ok: "inet_ok sample_inet"
  by (auto simp: inet_ok_def sample_inet_def sample_pton4_def split: list.splits option.splits)

text \<open>
  Property C33.  An address is inside a CIDR block exactly when the block parses, the address is of
  the block's family, and the two agree as numbers after the bits beyond the prefix are shifted
  out: the comparison of whole bytes followed by one masked byte implements the bit prefix.
\<close>

theorem ip_in_cidr_prefix:
  assumes "inet_ok net"
  shows "ip_in_cidr net host cidr \<longleftrightarrow>
     (\<exists>fam network prefix address. parse_cidr net cidr = Some (fam, network, prefix) \<and>
        inet_pton net fam host = Some address \<and>
        be_value address div 2 ^ (8 * length network - prefix) =
        be_value network div 2 ^ (8 * length network - prefix))"
proof (cases "parse_cidr net cidr")
  case (Some p)
  then obtain fam network prefix where p: "parse_cidr net cidr = Some (fam, network, prefix)"
    by (cases p) auto
  show ?thesis
  proof (cases "inet_pton net fam host")
    case (Some address)
    show ?thesis
      using prefix_compare [OF parse_cidr_bound(2) [OF assms p Some] parse_cidr_bound(1) [OF assms p]]
      by (auto simp: ip_in_cidr_def p Some Let_def)
  qed (simp add: ip_in_cidr_def p)
qed (simp add: ip_in_cidr_def)

theorem ip_in_cidr_prefix_witness:
  "(ip_in_cidr sample_inet ''172.20.1.9'' ''172.16.0.0/12'' \<longleftrightarrow>
     (\<exists>fam network prefix address. parse_cidr sample_inet ''172.16.0.0/12'' = Some (fam, network, prefix) \<and>
        inet_pton sample_inet fam ''172.20.1.9'' = Some address \<and>
        be_value address div 2 ^ (8 * length network - prefix) =
        be_value network div 2 ^ (8 * length network - prefix))) \<and>
   ip_in_cidr sample_inet ''172.20.1.9'' ''172.16.0.0/12'' \<and>
   \<not> ip_in_cidr sample_inet ''172.32.0.1'' ''172.16.0.0/12''"
proof -
  have "ip_in_cidr sample_inet ''172.20.1.9'' ''172.16.0.0/12''" by code_simp
  moreover have "\<not> ip_in_cidr sample_inet ''172.32.0.1'' ''172.16.0.0/12''" by code_simp
  ultimately show ?thesis
    using ip_in_cidr_prefix [OF sample_inet_ok, of "''172.20.1.9''" "''172.16.0.0/12''"] by blast
qed

text \<open>
  Property C6.  With routing enabled, a target gets the action of the first rule that matches and
  the index of that rule, unless it is a local address and the LAN bypass is on (direct, -2); when
  no rule matches, the built-in resolver is proxied (-3) and everything else gets the default
  action (-1).
\<close>

theorem routing_decide_first_match:
  assumes "enabled cfg"
    and "routing_decide net (Some cfg) (Some host) port observed cap = (a, shown, k)"
  shows "if bypass_lan cfg \<and> is_ip_literal net host \<and> is_local_address net host
     then a = ROUTE_ACTION_DIRECT \<and> k = -2
     else (\<exists>i < length (rules cfg). k = int i \<and> a = action (rules cfg ! i) \<and>
             rule_matches net (is_ip_literal net host) host port (routing_domain net host observed) (rules cfg ! i) \<and>
             (\<forall>j < i. \<not> rule_matches net (is_ip_literal net host) host port (routing_domain net host observed) (rules cfg ! j)))
        \<or> (\<forall>r \<in> set (rules cfg). \<not> rule_matches net (is_ip_literal net host) host port (routing_domain net host observed) r) \<and>
          (if port = 53 \<and> host = ''8.8.8.8'' then a = ROUTE_ACTION_PROXY \<and> k = -3
           else a = default_action cfg \<and> k = -1)"
proof (cases "bypass_lan cfg \<and> is_ip_literal net host \<and> is_local_address net host")
  case True
  then show ?thesis using assms by (simp add: routing_decide_def Let_def)
next
  case False
  let ?d = "decide_rules net (is_ip_literal net host) host port (routing_domain net host observed) 0 (rules cfg)"
  show ?thesis
  proof (cases ?d)
    case None
    have "if port = 53 \<and> host = ''8.8.8.8'' then a = ROUTE_ACTION_PROXY \<and> k = -3
        else a = default_action cfg \<and> k = -1"
      using assms(2) by (simp add: routing_decide_def Let_def None False assms(1) split: if_splits)
    then show ?thesis using None False unfolding decide_rules_None by (simp only: if_False) blast
  next
    case (Some p)
    then obtain i b where d: "?d = Some (i, b)" by (cases p) auto
    then have "k = int i" "a = b" using assms False by (auto simp: routing_decide_def Let_def)
    then show ?thesis using decide_rules_Some [OF d] False by auto
  qed
qed

definition sample_config :: routing_config where
  "sample_config = \<lparr>enabled = True, bypass_lan = True, default_action = ROUTE_ACTION_PROXY,
     rules = [\<lparr>action = ROUTE_ACTION_BLOCK, match = ROUTE_MATCH_SUFFIX, rvalue = ''ads.example'', port_first = 0, port_last = 0\<rparr>,
              \<lparr>action = ROUTE_ACTION_DIRECT, match = ROUTE_MATCH_PORT, rvalue = ''22-25'', port_first = 22, port_last = 25\<rparr>]\<rparr>"

theorem routing_decide_first_match_witness:
  "routing_decide sample_inet (Some sample_config) (Some ''x.ads.example'') 22 None 256 =
     (ROUTE_ACTION_BLOCK, ''x.ads.example'', 0) \<and>
   (\<exists>i < length (rules sample_config). (0 :: int) = int i \<and> ROUTE_ACTION_BLOCK = action (rules sample_config ! i))"
proof -
  have d: "routing_decide sample_inet (Some sample_config) (Some ''x.ads.example'') 22 None 256 =
     (ROUTE_ACTION_BLOCK, ''x.ads.example'', 0)" by code_simp
  have e: "enabled sample_config" and l: "\<not> is_ip_literal sample_inet ''x.ads.example''" by code_simp+
  have "\<not> (\<forall>r \<in> set (rules sample_config). \<not> rule_matches sample_inet
      (is_ip_literal sample_inet ''x.ads.example'') ''x.ads.example'' 22 (routing_domain sample_inet ''x.ads.example'' None) r)"
    by code_simp
  then show ?thesis using routing_decide_first_match [OF e d] d l by (simp only: simp_thms if_False) blast
qed

text \<open>
  Property C20.  A text the parser accepts yields a configuration within its limits (at most 48
  rules, every value lower-cased, shorter than 256 characters and valid for its kind of match,
  port ranges as written), and the canonical text of that configuration is not longer than an
  accepted non-empty text and parses back to the same configuration.
\<close>

theorem routing_config_roundtrip:
  assumes "routing_config_parse net mem input = (None, cfg)"
  shows "config_wf net cfg \<and> routing_config_parse net True (show_config cfg) = (None, cfg) \<and>
     (input \<noteq> [] \<longrightarrow> length (show_config cfg) \<le> length input)"
proof (cases "input = []")
  case True
  then have c: "cfg = routing_config_init" using assms by (simp add: routing_config_parse_def)
  have "length (show_config routing_config_init) \<le> 8191" by code_simp
  then show ?thesis
    using True c routing_config_parse_wf [OF assms]
    by (auto intro!: parse_show_config simp: routing_config_init_def)
next
  case False
  have "length input \<le> 8191"
    using assms False by (auto simp: routing_config_parse_def split: if_splits)
  then show ?thesis
    using parsed_config_text [OF assms False] routing_config_parse_wf [OF assms] False
    by (auto intro!: parse_show_config)
qed

theorem routing_config_roundtrip_witness:
  "routing_config_parse sample_inet True ''1;;proxy;1;block,suffix,ADS.example;direct,port,22-25'' = (None, sample_config) \<and>
   config_wf sample_inet sample_config \<and>
   routing_config_parse sample_inet True (show_config sample_config) = (None, sample_config)"
proof -
  have toks: "strtok_all (CHR '';'') ''1;;proxy;1;block,suffix,ADS.example;direct,port,22-25'' =
      [''1'', ''proxy'', ''1'', ''block,suffix,ADS.example'', ''direct,port,22-25'']" by code_simp
  have r1: "parse_rule sample_inet ''block,suffix,ADS.example'' = Inr (rules sample_config ! 0)" by code_simp
  have r2: "parse_rule sample_inet ''direct,port,22-25'' = Inr (rules sample_config ! 1)" by code_simp
  have p: "routing_config_parse sample_inet True ''1;;proxy;1;block,suffix,ADS.example;direct,port,22-25''
      = (None, sample_config)"
    by (simp add: routing_config_parse_def toks r1 r2 is_flag_def parse_action_def ROUTING_MAX_RULES_def Let_def
        routing_config_init_def) (simp add: sample_config_def)
  show ?thesis using routing_config_roundtrip [OF p] p by blast
qed


definition sample_control :: control where
  "sample_control = \<lparr>control_port = 9000, control_socket = None\<rparr>"

definition sample_exchange :: "string \<Rightarrow> exchange" where
  "sample_exchange reply = \<lparr>socket_ok = True, connect_ok = True, write_ok = True, received = [reply]\<rparr>"

definition sample_candidate :: "string \<Rightarrow> bool \<Rightarrow> string \<Rightarrow> candidate" where
  "sample_candidate a connects reply = \<lparr>cand_family = Some AF_INET, cand_ip = Some a,
     cand_add = sample_exchange (''OK hold'' @ [CHR 0x0A]), cand_socket = Some 7, cand_connect = connects,
     cand_scope = True, cand_remove = sample_exchange reply\<rparr>"

definition sample_candidates :: "candidate list" where
  "sample_candidates = [sample_candidate ''192.0.2.1'' False (''OK'' @ [CHR 0x0A]),
     sample_candidate ''192.0.2.3'' False ''ERR'', sample_candidate ''192.0.2.2'' True []]"

definition sample_route_log :: "route_event list" where
  "sample_route_log = [Route_Added ''192.0.2.1'', Route_Removed ''192.0.2.1'', Route_Added ''192.0.2.3'',
     Route_Kept ''192.0.2.3'', Route_Added ''192.0.2.2'']"


end
