(* ===== verification/Relay_Memory.thy ===== *)
theory Relay_Memory
  imports Buffer_Budget
begin

text \<open>
  The growable buffers and the per-connection relay memory of \<^verbatim>\<open>src/src/relay_memory.c\<close>.
  A buffer is the bytes below its length, with its capacity and limits, charged to a budget of
  \<^verbatim>\<open>buffer_budget.c\<close> or to none; its data pointer is null exactly while its capacity is
  zero.  \<open>got n\<close> is the allocator's answer to a request for \<open>n\<close> bytes.  Wiping secrets has
  no effect the program can observe and is not part of the model.
\<close>

section \<open>Buffers\<close>

record relay_buffer =
  rb_data :: bytes
  rb_capacity :: nat
  rb_minimum :: nat
  rb_limit :: nat
  rb_memory :: "nat option"
  rb_cleanse :: bool

definition empty_buffer :: "nat option \<Rightarrow> relay_buffer" where
  "empty_buffer mem = \<lparr>rb_data = [], rb_capacity = 0, rb_minimum = 0, rb_limit = 0, rb_memory = mem,
     rb_cleanse = False\<rparr>"

text \<open>The doubling loop, after \<open>k\<close> doublings of 512.\<close>

function relay_grow :: "nat \<Rightarrow> nat \<Rightarrow> nat" where
  "relay_grow needed k =
     (let capacity = 512 * 2 ^ k
      in if capacity < needed then
           (if capacity > SIZE_MAX div 2 then needed else relay_grow needed (k + 1))
         else capacity)"
  by auto
termination
  by (relation "measure (\<lambda>(needed, k). needed - 512 * 2 ^ k)") (auto intro: diff_less_mono2)

declare relay_grow.simps [simp del]

definition core_relay_capacity :: "nat \<Rightarrow> nat" where
  "core_relay_capacity needed = relay_grow needed 0"

definition core_relay_buffer_reserve ::
  "(nat \<Rightarrow> bool) \<Rightarrow> budget_state \<Rightarrow> relay_buffer \<Rightarrow> nat \<Rightarrow> int \<times> relay_buffer \<times> budget_state" where
  "core_relay_buffer_reserve got s buf needed =
     (if needed \<le> rb_capacity buf then (1, buf, s)
      else
        let limit = (if rb_limit buf \<noteq> 0 then rb_limit buf else SIZE_MAX)
        in if needed > limit then (-1, buf, s)
           else
             let c0 = core_relay_capacity needed;
                 c1 = (if c0 < rb_minimum buf then rb_minimum buf else c0);
                 cap = (if c1 > limit then limit else c1);
                 data = (rb_capacity buf \<noteq> 0);
                 previous = (\<not> rb_cleanse buf \<and> data);
                 previous_size = (if rb_cleanse buf then 0 else rb_capacity buf)
             in (case rb_memory buf of
                   None \<Rightarrow> if got cap then (1, buf\<lparr>rb_capacity := cap\<rparr>, s) else (-1, buf, s)
                 | Some p \<Rightarrow>
                     (case core_buffer_realloc (got cap) s p previous previous_size cap of (e, ok, t) \<Rightarrow>
                        if \<not> ok then ((if e = Some ENOBUFS then 0 else -1), buf, t)
                        else (1, buf\<lparr>rb_capacity := cap\<rparr>,
                              if rb_cleanse buf \<and> data then core_buffer_free t p data (rb_capacity buf) else t))))"

definition core_relay_buffer_append ::
  "(nat \<Rightarrow> bool) \<Rightarrow> budget_state \<Rightarrow> relay_buffer \<Rightarrow> bytes \<Rightarrow> bool \<times> relay_buffer \<times> budget_state" where
  "core_relay_buffer_append got s buf xs =
     (if length xs > SIZE_MAX - length (rb_data buf) then (False, buf, s)
      else case core_relay_buffer_reserve got s buf (length (rb_data buf) + length xs) of (r, b, t) \<Rightarrow>
             if r \<noteq> 1 then (False, b, t) else (True, b\<lparr>rb_data := rb_data b @ xs\<rparr>, t))"

definition core_relay_buffer_consume :: "relay_buffer \<Rightarrow> nat \<Rightarrow> relay_buffer" where
  "core_relay_buffer_consume buf n =
     (let n' = (if n > length (rb_data buf) then length (rb_data buf) else n)
      in buf\<lparr>rb_data := drop n' (rb_data buf)\<rparr>)"

definition core_relay_buffer_clear :: "budget_state \<Rightarrow> relay_buffer \<Rightarrow> relay_buffer \<times> budget_state" where
  "core_relay_buffer_clear s buf =
     (buf\<lparr>rb_data := [], rb_capacity := 0\<rparr>,
      case rb_memory buf of
        None \<Rightarrow> s
      | Some p \<Rightarrow> core_buffer_free s p (rb_capacity buf \<noteq> 0) (rb_capacity buf))"

definition core_relay_buffer_trim ::
  "(nat \<Rightarrow> bool) \<Rightarrow> budget_state \<Rightarrow> relay_buffer \<Rightarrow> int \<times> relay_buffer \<times> budget_state" where
  "core_relay_buffer_trim got s buf =
     (if rb_data buf \<noteq> [] \<or> rb_capacity buf \<le> rb_minimum buf then (1, buf, s)
      else case core_relay_buffer_clear s buf of (b, t) \<Rightarrow>
             core_relay_buffer_reserve got t b (rb_minimum b))"

section \<open>The memory of a relay\<close>

definition CORE_RELAY_MINIMUM :: nat where "CORE_RELAY_MINIMUM = 8192"
definition CORE_RELAY_OUTPUT_LIMIT :: nat where "CORE_RELAY_OUTPUT_LIMIT = 256 * 1024"

text \<open>
  The three budgets are embedded in the struct; here the record names their addresses in the
  store of budgets, which hold zeroed budgets when the struct is zeroed.
\<close>

record relay_memory =
  upload :: nat
  download :: nat
  temporary :: nat
  rm_input :: relay_buffer
  rm_output :: relay_buffer
  wrapped :: relay_buffer
  plain :: relay_buffer
  packet :: relay_buffer
  initialized :: bool
  rm_registered :: bool
  notified :: bool
  waiting :: "32 word"

definition relay_buffers :: "relay_memory \<Rightarrow> nat \<Rightarrow> relay_memory" where
  "relay_buffers m input_limit =
     (let limit = (if input_limit < CORE_RELAY_MINIMUM then CORE_RELAY_MINIMUM else input_limit)
      in m\<lparr>initialized := True,
           rm_input := (empty_buffer (Some (upload m)))\<lparr>rb_minimum := CORE_RELAY_MINIMUM, rb_limit := limit\<rparr>,
           rm_output := (empty_buffer (Some (download m)))
             \<lparr>rb_minimum := CORE_RELAY_MINIMUM, rb_limit := CORE_RELAY_OUTPUT_LIMIT\<rparr>,
           wrapped := (wrapped m)\<lparr>rb_memory := Some (temporary m)\<rparr>,
           plain := (plain m)\<lparr>rb_memory := Some (temporary m)\<rparr>,
           packet := (packet m)\<lparr>rb_memory := Some (temporary m)\<rparr>\<rparr>)"

definition init_result :: "errno \<Rightarrow> int" where
  "init_result e = (if e = ENOBUFS then 0 else -1)"

definition core_relay_memory_init ::
  "(nat \<Rightarrow> bool) \<Rightarrow> budget_state \<Rightarrow> relay_memory \<Rightarrow> nat \<Rightarrow> int \<times> relay_memory \<times> budget_state" where
  "core_relay_memory_init got s m0 input_limit =
     (let m = (if initialized m0 then m0 else relay_buffers m0 input_limit)
      in case core_buffer_budget_init s (upload m) CORE_BUFFER_RELAY CORE_RELAY_MINIMUM of
           (Some e, s1) \<Rightarrow> (init_result e, m, s1)
         | (None, s1) \<Rightarrow>
             (case core_buffer_budget_init s1 (download m) CORE_BUFFER_RELAY CORE_RELAY_MINIMUM of
                (Some e, s2) \<Rightarrow> (init_result e, m, s2)
              | (None, s2) \<Rightarrow>
                  (case core_buffer_budget_init s2 (temporary m) CORE_BUFFER_RELAY 0 of
                     (Some e, s3) \<Rightarrow> (init_result e, m, s3)
                   | (None, s3) \<Rightarrow>
                       (case core_relay_buffer_reserve got s3 (rm_input m) CORE_RELAY_MINIMUM of (r, b, s4) \<Rightarrow>
                          if r \<noteq> 1 then (r, m\<lparr>rm_input := b\<rparr>, s4)
                          else (case core_relay_buffer_reserve got s4 (rm_output m) CORE_RELAY_MINIMUM of (r2, c, s5) \<Rightarrow>
                                  (r2, m\<lparr>rm_input := b, rm_output := c\<rparr>, s5))))))"

definition core_relay_memory_credit :: "budget_state \<Rightarrow> relay_memory \<Rightarrow> nat \<Rightarrow> int \<times> budget_state" where
  "core_relay_memory_credit s m needed =
     (if map_option minimum (budgets s (temporary m)) = Some needed then (1, s)
      else case core_buffer_budget_init s (temporary m) CORE_BUFFER_RELAY needed of
             (Some e, t) \<Rightarrow> (init_result e, t)
           | (None, t) \<Rightarrow> (1, t))"

text \<open>
  The list of relays that wait for credit, with the structs at their addresses.  The notifying
  socket pair is a parameter: whether it could be made, and whether a byte can be sent to it or
  is already pending.
\<close>

record relay_waits =
  relay_waiters :: "nat list"
  memory_at :: "nat \<Rightarrow> relay_memory"

definition core_relay_memory_watch ::
  "bool \<Rightarrow> relay_waits \<Rightarrow> nat \<Rightarrow> 32 word \<Rightarrow> bool \<times> relay_waits" where
  "core_relay_memory_watch pair w a bits =
     (let m = memory_at w a
      in if \<not> rm_registered m \<and> \<not> pair then (False, w)
         else
           (True, w\<lparr>relay_waiters := (if rm_registered m then relay_waiters w else a # relay_waiters w),
                    memory_at := (memory_at w)(a := m\<lparr>rm_registered := True, waiting := waiting m OR bits\<rparr>)\<rparr>))"

definition core_relay_memory_unwatch :: "relay_waits \<Rightarrow> nat \<Rightarrow> 32 word \<Rightarrow> relay_waits" where
  "core_relay_memory_unwatch w a bits =
     w\<lparr>memory_at := (memory_at w)(a := (memory_at w a)\<lparr>waiting := waiting (memory_at w a) AND NOT bits\<rparr>)\<rparr>"

definition core_relay_memory_ack :: "relay_waits \<Rightarrow> nat \<Rightarrow> 32 word \<times> relay_waits" where
  "core_relay_memory_ack w a =
     (waiting (memory_at w a),
      w\<lparr>memory_at := (memory_at w)(a := (memory_at w a)\<lparr>notified := False, waiting := 0\<rparr>)\<rparr>)"

definition core_relay_memory_fd :: "relay_memory \<Rightarrow> int \<Rightarrow> int" where
  "core_relay_memory_fd m notify0 = (if rm_registered m \<and> waiting m \<noteq> 0 then notify0 else -1)"

fun notify_relays :: "(nat \<Rightarrow> bool) \<Rightarrow> nat list \<Rightarrow> (nat \<Rightarrow> relay_memory) \<Rightarrow> (nat \<Rightarrow> relay_memory)" where
  "notify_relays sent [] f = f"
| "notify_relays sent (a # as) f =
     notify_relays sent as
       (if waiting (f a) = 0 \<or> notified (f a) then f
        else if sent a then f(a := (f a)\<lparr>notified := True\<rparr>) else f)"

definition core_relay_memory_released :: "(nat \<Rightarrow> bool) \<Rightarrow> relay_waits \<Rightarrow> relay_waits" where
  "core_relay_memory_released sent w =
     w\<lparr>memory_at := notify_relays sent (relay_waiters w) (memory_at w)\<rparr>"

definition clear_buffers :: "budget_state \<Rightarrow> relay_memory \<Rightarrow> budget_state" where
  "clear_buffers s m =
     (let s1 = snd (core_relay_buffer_clear s (rm_input m));
          s2 = snd (core_relay_buffer_clear s1 (rm_output m));
          s3 = snd (core_relay_buffer_clear s2 (wrapped m));
          s4 = snd (core_relay_buffer_clear s3 (plain m));
          s5 = snd (core_relay_buffer_clear s4 (packet m));
          s6 = snd (core_buffer_budget_clear s5 (upload m));
          s7 = snd (core_buffer_budget_clear s6 (download m))
      in snd (core_buffer_budget_clear s7 (temporary m)))"

text \<open>The closing \<^verbatim>\<open>memset\<close> zeroes the struct, the embedded budgets included.\<close>

definition core_relay_memory_clear :: "budget_state \<Rightarrow> relay_waits \<Rightarrow> nat \<Rightarrow> relay_waits \<times> budget_state" where
  "core_relay_memory_clear s w a =
     (let m = memory_at w a;
          t = (if initialized m then clear_buffers s m else s);
          zero = \<lparr>upload = upload m, download = download m, temporary = temporary m,
            rm_input = empty_buffer None, rm_output = empty_buffer None, wrapped = empty_buffer None,
            plain = empty_buffer None, packet = empty_buffer None, initialized = False,
            rm_registered = False, notified = False, waiting = 0\<rparr>
      in (w\<lparr>relay_waiters := (if rm_registered m then remove1 a (relay_waiters w) else relay_waiters w),
            memory_at := (memory_at w)(a := zero)\<rparr>,
          t\<lparr>budgets := (budgets t)(upload m \<mapsto> zero_budget, download m \<mapsto> zero_budget, temporary m \<mapsto> zero_budget)\<rparr>))"

section \<open>Capacities\<close>

lemma relay_grow_ge: "needed \<le> relay_grow needed k"
proof (induction needed k rule: relay_grow.induct)
  case (1 needed k)
  then show ?case by (subst relay_grow.simps) (auto simp: Let_def)
qed

lemma relay_grow_less:
  "512 * 2 ^ k < 2 * needed \<Longrightarrow> relay_grow needed k < 2 * needed"
proof (induction needed k rule: relay_grow.induct)
  case (1 needed k)
  show ?case
  proof (cases "512 * 2 ^ k < needed \<and> \<not> 512 * 2 ^ k > SIZE_MAX div 2")
    case True
    then show ?thesis using "1.IH" [OF refl] by (subst relay_grow.simps) (simp add: Let_def)
  next
    case False
    then show ?thesis using "1.prems" by (subst relay_grow.simps) (auto simp: Let_def)
  qed
qed

lemma relay_grow_bound:
  "needed \<le> SIZE_MAX \<Longrightarrow> 512 * 2 ^ k \<le> SIZE_MAX \<Longrightarrow> relay_grow needed k \<le> SIZE_MAX"
proof (induction needed k rule: relay_grow.induct)
  case (1 needed k)
  show ?case
  proof (cases "512 * 2 ^ k < needed \<and> \<not> 512 * 2 ^ k > SIZE_MAX div 2")
    case True
    then have "512 * 2 ^ (k + 1) \<le> SIZE_MAX" by simp linarith
    then have "relay_grow needed (k + 1) \<le> SIZE_MAX" using True "1.IH" [OF refl] "1.prems" by blast
    then show ?thesis using True by (subst relay_grow.simps) (simp add: Let_def)
  next
    case False
    then show ?thesis using "1.prems" by (subst relay_grow.simps) (auto simp: Let_def)
  qed
qed

lemma core_relay_capacity_bounds:
  "needed \<le> core_relay_capacity needed"
  "256 < needed \<Longrightarrow> core_relay_capacity needed < 2 * needed"
  "needed \<le> SIZE_MAX \<Longrightarrow> core_relay_capacity needed \<le> SIZE_MAX"
  using relay_grow_ge [of needed 0] relay_grow_less [of 0 needed] relay_grow_bound [of needed 0]
  by (simp_all add: core_relay_capacity_def SIZE_MAX_def)

section \<open>Buffers and their accounts\<close>

lemma realloc_account:
  assumes "valid_account p s" and "previous \<le> held_by p s" and "sz \<noteq> 0"
    and "core_buffer_realloc got s p data previous sz = (e, ok, t)"
  shows "valid_account p t \<and> held_by p t + (if ok then previous else 0) = held_by p s + (if ok then sz else 0)"
proof (cases "claim s p sz")
  case (Pair r u)
  show ?thesis
  proof (cases r)
    case None
    then have h: "core_buffer_hold s p sz = (None, u)" using Pair by (simp add: core_buffer_hold_def)
    note ok = account.hold_ok [OF assms(1) h]
    show ?thesis
      using assms(3,4) Pair None ok account.undo [OF assms(1) h] account.grow [OF assms(1,2) h]
      by (auto simp: core_buffer_realloc_def core_buffer_drop_def split: if_splits)
  next
    case (Some x)
    then show ?thesis using assms Pair claim_failure [of s p sz x u] by (simp add: core_buffer_realloc_def)
  qed
qed

lemma free_account:
  assumes "valid_account p s" and "n \<le> held_by p s"
  shows "valid_account p (core_buffer_free s p (n \<noteq> 0) n) \<and>
    held_by p (core_buffer_free s p (n \<noteq> 0) n) + n = held_by p s"
  using account.give_back_ok [OF assms] assms by (auto simp: core_buffer_free_def core_buffer_drop_def)

text \<open>The capacity a reservation asks the allocator for.\<close>

definition reserve_capacity :: "relay_buffer \<Rightarrow> nat \<Rightarrow> nat" where
  "reserve_capacity buf needed =
     (let limit = (if rb_limit buf \<noteq> 0 then rb_limit buf else SIZE_MAX)
      in min limit (max (rb_minimum buf) (core_relay_capacity needed)))"

lemma reserve_unfold:
  "core_relay_buffer_reserve got s buf needed =
     (if needed \<le> rb_capacity buf then (1, buf, s)
      else if needed > (if rb_limit buf \<noteq> 0 then rb_limit buf else SIZE_MAX) then (-1, buf, s)
      else case rb_memory buf of
             None \<Rightarrow> if got (reserve_capacity buf needed)
               then (1, buf\<lparr>rb_capacity := reserve_capacity buf needed\<rparr>, s) else (-1, buf, s)
           | Some p \<Rightarrow>
               (case core_buffer_realloc (got (reserve_capacity buf needed)) s p
                   (\<not> rb_cleanse buf \<and> rb_capacity buf \<noteq> 0) (if rb_cleanse buf then 0 else rb_capacity buf)
                   (reserve_capacity buf needed) of (e, ok, t) \<Rightarrow>
                  if \<not> ok then ((if e = Some ENOBUFS then 0 else -1), buf, t)
                  else (1, buf\<lparr>rb_capacity := reserve_capacity buf needed\<rparr>,
                        if rb_cleanse buf \<and> rb_capacity buf \<noteq> 0
                        then core_buffer_free t p (rb_capacity buf \<noteq> 0) (rb_capacity buf) else t)))"
proof -
  have cap: "(if (if c < mn then mn else c) > l then l else (if c < mn then mn else c)) = min l (max mn c)"
    for c mn l :: nat by (auto simp: min_def max_def)
  show ?thesis
    unfolding core_relay_buffer_reserve_def Let_def cap reserve_capacity_def by (rule refl)
qed

lemma reserve_capacity_ge:
  "\<not> needed > (if rb_limit buf \<noteq> 0 then rb_limit buf else SIZE_MAX) \<Longrightarrow> needed \<le> reserve_capacity buf needed"
  using core_relay_capacity_bounds(1) [of needed]
  by (auto simp: reserve_capacity_def Let_def split: if_splits)

lemma reserve_buffer:
  assumes "core_relay_buffer_reserve got s buf needed = (r, b, t)"
  shows "(if r = 1 then b = buf\<lparr>rb_capacity := rb_capacity b\<rparr> \<and> needed \<le> rb_capacity b \<and> rb_capacity buf \<le> rb_capacity b
          else b = buf)"
proof (cases "needed \<le> rb_capacity buf \<or> needed > (if rb_limit buf \<noteq> 0 then rb_limit buf else SIZE_MAX)")
  case True
  then show ?thesis using assms by (auto simp: reserve_unfold split: if_splits)
next
  case False
  let ?c = "reserve_capacity buf needed"
  have c: "needed \<le> ?c" "rb_capacity buf \<le> ?c" using False reserve_capacity_ge [of buf needed] by auto
  have "b = buf \<and> r \<noteq> 1 \<or> b = buf\<lparr>rb_capacity := ?c\<rparr> \<and> r = 1"
  proof (cases "rb_memory buf")
    case None
    then show ?thesis using assms False by (cases "got ?c") (simp_all add: reserve_unfold)
  next
    case (Some p)
    obtain e ok u where "core_buffer_realloc (got ?c) s p (\<not> rb_cleanse buf \<and> rb_capacity buf \<noteq> 0)
        (if rb_cleanse buf then 0 else rb_capacity buf) ?c = (e, ok, u)" by (metis prod_cases3)
    then show ?thesis using assms False Some
      by (cases ok) (simp_all add: reserve_unfold split: if_splits)
  qed
  then show ?thesis using c by auto
qed

lemma reserve_frame:
  assumes "core_relay_buffer_reserve got s buf needed = (r, b, t)"
  shows "rb_data b = rb_data buf" "rb_memory b = rb_memory buf" "rb_cleanse b = rb_cleanse buf"
proof -
  obtain c where "b = buf\<lparr>rb_capacity := c\<rparr> \<or> b = buf"
    using reserve_buffer [OF assms] by (auto split: if_splits)
  then show "rb_data b = rb_data buf" "rb_memory b = rb_memory buf" "rb_cleanse b = rb_cleanse buf" by auto
qed

lemma reserve_account:
  assumes acc: "valid_account p s" and mem: "rb_memory buf = Some p" and held: "rb_capacity buf \<le> held_by p s"
    and r: "core_relay_buffer_reserve got s buf needed = (r, b, t)"
  shows "valid_account p t \<and> held_by p t + rb_capacity buf = held_by p s + rb_capacity b"
proof (cases "needed \<le> rb_capacity buf \<or> needed > (if rb_limit buf \<noteq> 0 then rb_limit buf else SIZE_MAX)")
  case True
  then show ?thesis using r acc by (auto simp: reserve_unfold split: if_splits)
next
  case False
  let ?c = "reserve_capacity buf needed" and ?prev = "if rb_cleanse buf then 0 else rb_capacity buf"
  have pos: "?c \<noteq> 0" using False reserve_capacity_ge [of buf needed] by auto
  obtain e ok u where re: "core_buffer_realloc (got ?c) s p (\<not> rb_cleanse buf \<and> rb_capacity buf \<noteq> 0) ?prev ?c = (e, ok, u)"
    by (metis prod_cases3)
  have prev: "?prev \<le> held_by p s" using held by simp
  note ra = realloc_account [OF acc prev pos re]
  show ?thesis
  proof (cases ok)
    case no: False
    then have "b = buf" "t = u" using r False mem re by (simp_all add: reserve_unfold split: if_splits)
    then show ?thesis using ra no by simp
  next
    case True
    then have b: "rb_capacity b = ?c" and t: "t = (if rb_cleanse buf \<and> rb_capacity buf \<noteq> 0
        then core_buffer_free u p (rb_capacity buf \<noteq> 0) (rb_capacity buf) else u)"
      using r False mem re by (auto simp: reserve_unfold split: if_splits)
    have "rb_capacity buf \<le> held_by p u" if "rb_cleanse buf" using ra True that held by simp
    then show ?thesis
      using ra True b t free_account [of p u "rb_capacity buf"] by (cases "rb_cleanse buf") auto
  qed
qed

section \<open>Byte queues\<close>

text \<open>
  What the users of a growable buffer rely on: an append adds to the end or changes nothing of
  the contents, and consuming removes from the front.
\<close>

locale byte_buffer =
  fixes append :: "'s \<Rightarrow> 'b \<Rightarrow> bytes \<Rightarrow> bool \<times> 'b \<times> 's"
    and consume :: "'b \<Rightarrow> nat \<Rightarrow> 'b"
    and contents :: "'b \<Rightarrow> bytes"
  assumes append_ok: "append s b xs = (True, b', s') \<Longrightarrow> contents b' = contents b @ xs"
    and append_failed: "append s b xs = (False, b', s') \<Longrightarrow> contents b' = contents b"
    and consume_front: "contents (consume b n) = drop n (contents b)"
begin

lemma append_contents:
  "append s b xs = (ok, b', s') \<Longrightarrow> contents b' = contents b @ (if ok then xs else [])"
  using append_ok append_failed by (cases ok) auto

text \<open>First in, first out: what was there comes out before what is appended.\<close>

lemma fifo:
  assumes "append s b xs = (True, b', s')" and "n \<le> length (contents b)"
  shows "contents (consume b' n) = contents (consume b n) @ xs"
    and "contents (consume b' (length (contents b))) = xs"
  using assms append_ok [OF assms(1)] by (simp_all add: consume_front)

end

interpretation relay: byte_buffer "core_relay_buffer_append got" core_relay_buffer_consume rb_data for got
proof unfold_locales
  fix s b xs b' s' assume "core_relay_buffer_append got s b xs = (True, b', s')"
  then show "rb_data b' = rb_data b @ xs"
    using reserve_frame [of got s b "length (rb_data b) + length xs"]
    by (auto simp: core_relay_buffer_append_def split: if_splits prod.splits)
next
  fix s b xs b' s' assume "core_relay_buffer_append got s b xs = (False, b', s')"
  then show "rb_data b' = rb_data b"
    using reserve_frame [of got s b "length (rb_data b) + length xs"]
    by (auto simp: core_relay_buffer_append_def split: if_splits prod.splits)
next
  fix b n show "rb_data (core_relay_buffer_consume b n) = drop n (rb_data b)"
    by (simp add: core_relay_buffer_consume_def Let_def)
qed

section \<open>Relay memory\<close>

lemma release_frame: "q \<noteq> p \<Longrightarrow> budgets (release s p n) q = budgets s q"
  by (simp add: release_def Let_def notify_released_def split: option.split)

lemma free_frame: "q \<noteq> p \<Longrightarrow> budgets (core_buffer_free s p d n) q = budgets s q"
  by (simp add: core_buffer_free_def release_frame)

lemma budget_clear_frame: "q \<noteq> p \<Longrightarrow> budgets (snd (core_buffer_budget_clear s p)) q = budgets s q"
  by (simp add: core_buffer_budget_clear_def core_buffer_budget_init_def Let_def notify_released_def split: option.split)

text \<open>Clearing an account that holds nothing gives back its whole reservation.\<close>

lemma budget_clear_account:
  assumes "valid_account p s" and "held_by p s = 0"
  shows "valid_account p (snd (core_buffer_budget_clear s p)) \<and>
     charged (the (budgets (snd (core_buffer_budget_clear s p)) p)) = 0 \<and>
     held_by p (snd (core_buffer_budget_clear s p)) = 0"
proof -
  from assms obtain b where inv: "budget_inv s" and b: "budgets s p = Some b" and a: "allocated b = 0"
    by (auto simp: valid_account_def held_by_def)
  have d: "direction b < CORE_BUFFER_DIRECTIONS" by (rule budget_inv_bounds(7) [OF inv b])
  let ?t = "snd (core_buffer_budget_clear s p)"
  have "budgets ?t p = Some (b\<lparr>direction := direction b, minimum := 0, charged := 0\<rparr>)"
    using b a d by (simp add: core_buffer_budget_clear_def core_buffer_budget_init_def Let_def notify_released_def)
  moreover have "budget_inv ?t" by (rule clear_inv [OF inv])
  ultimately show ?thesis using a by (simp add: valid_account_def held_by_def)
qed

lemma buffer_clear_account:
  assumes "valid_account p s" and "rb_memory buf = Some p" and "rb_capacity buf \<le> held_by p s"
  shows "valid_account p (snd (core_relay_buffer_clear s buf)) \<and>
     held_by p (snd (core_relay_buffer_clear s buf)) + rb_capacity buf = held_by p s"
  using free_account [OF assms(1,3)] assms(2) by (simp add: core_relay_buffer_clear_def)

lemma held_by_cong: "budgets s p = budgets t p \<Longrightarrow> held_by p s = held_by p t"
  by (simp add: held_by_def)

text \<open>
  The books of one relay: its three budgets are distinct and hold exactly the capacities of the
  buffers charged to them.
\<close>

definition relay_books :: "relay_memory \<Rightarrow> budget_state \<Rightarrow> bool" where
  "relay_books m s \<longleftrightarrow> budget_inv s \<and> distinct [upload m, download m, temporary m] \<and>
     budgets s (upload m) \<noteq> None \<and> budgets s (download m) \<noteq> None \<and> budgets s (temporary m) \<noteq> None \<and>
     rb_memory (rm_input m) = Some (upload m) \<and> rb_memory (rm_output m) = Some (download m) \<and>
     (\<forall>b \<in> {wrapped m, plain m, packet m}. rb_memory b = Some (temporary m)) \<and>
     held_by (upload m) s = rb_capacity (rm_input m) \<and>
     held_by (download m) s = rb_capacity (rm_output m) \<and>
     held_by (temporary m) s = rb_capacity (wrapped m) + rb_capacity (plain m) + rb_capacity (packet m)"

lemma buffer_clear_frame:
  "rb_memory buf = Some p \<Longrightarrow> q \<noteq> p \<Longrightarrow> budgets (snd (core_relay_buffer_clear s buf)) q = budgets s q"
  by (simp add: core_relay_buffer_clear_def free_frame)

lemma budget_init_account:
  assumes "valid_account p s"
  shows "valid_account p (snd (core_buffer_budget_init s p dir least)) \<and>
     held_by p (snd (core_buffer_budget_init s p dir least)) = held_by p s"
proof -
  have "budget_inv (snd (core_buffer_budget_init s p dir least))"
    using assms init_inv by (simp add: valid_account_def)
  then show ?thesis
    using assms
    by (auto simp: valid_account_def held_by_def core_buffer_budget_init_def Let_def notify_released_def
        split: option.split)
qed

lemma budget_init_frame: "q \<noteq> p \<Longrightarrow> budgets (snd (core_buffer_budget_init s p dir least)) q = budgets s q"
  by (simp add: core_buffer_budget_init_def Let_def notify_released_def split: option.split)

lemma claim_frame: "q \<noteq> p \<Longrightarrow> budgets (snd (claim s p n)) q = budgets s q"
  by (simp add: claim_def Let_def split: option.split)

lemma realloc_frame:
  assumes "q \<noteq> p" and "core_buffer_realloc got s p data previous sz = (e, ok, t)"
  shows "budgets t q = budgets s q"
proof -
  obtain r u where c: "claim s p sz = (r, u)" by fastforce
  have "budgets u q = budgets s q" using claim_frame [OF assms(1), of s sz] c by simp
  then show ?thesis
    using assms c
    by (cases r) (auto simp: core_buffer_realloc_def release_frame free_frame split: if_splits)
qed

lemma reserve_frame_budgets:
  assumes r: "core_relay_buffer_reserve got s buf needed = (r, b, t)" and mem: "rb_memory buf = Some p" and q: "q \<noteq> p"
  shows "budgets t q = budgets s q"
proof (cases "needed \<le> rb_capacity buf \<or> needed > (if rb_limit buf \<noteq> 0 then rb_limit buf else SIZE_MAX)")
  case True
  then show ?thesis using r by (auto simp: reserve_unfold split: if_splits)
next
  case False
  obtain e ok u where re: "core_buffer_realloc (got (reserve_capacity buf needed)) s p
      (\<not> rb_cleanse buf \<and> rb_capacity buf \<noteq> 0) (if rb_cleanse buf then 0 else rb_capacity buf)
      (reserve_capacity buf needed) = (e, ok, u)" by (metis prod_cases3)
  have "t = u \<or> t = core_buffer_free u p (rb_capacity buf \<noteq> 0) (rb_capacity buf)"
    using r False mem re by (cases ok) (auto simp: reserve_unfold split: if_splits)
  then show ?thesis using realloc_frame [OF q re] free_frame [OF q] by auto
qed

lemma relay_books_cong:
  assumes "relay_books m s" and "budget_inv t"
    and "\<forall>p \<in> {upload m, download m, temporary m}. budgets t p \<noteq> None \<and> held_by p t = held_by p s"
  shows "relay_books m t"
  using assms by (simp add: relay_books_def)

text \<open>Setting a reservation and reserving space in the two main buffers keep the books.\<close>

lemma relay_books_budget_init:
  assumes "relay_books m s" and p: "p \<in> {upload m, download m, temporary m}"
  shows "relay_books m (snd (core_buffer_budget_init s p dir least))"
proof -
  let ?t = "snd (core_buffer_budget_init s p dir least)"
  have v: "valid_account p s" using assms by (auto simp: relay_books_def valid_account_def)
  note a = budget_init_account [OF v, of dir least]
  have "budgets ?t q \<noteq> None \<and> held_by q ?t = held_by q s" if "q \<in> {upload m, download m, temporary m}" for q
    using a that assms budget_init_frame [of q p s dir least]
    by (cases "q = p") (auto simp: valid_account_def relay_books_def intro: held_by_cong)
  then show ?thesis using relay_books_cong [OF assms(1)] a by (auto simp: valid_account_def)
qed

lemma relay_books_reserve_input:
  assumes books: "relay_books m s" and r: "core_relay_buffer_reserve got s (rm_input m) needed = (r, b, t)"
  shows "relay_books (m\<lparr>rm_input := b\<rparr>) t"
proof -
  have mem: "rb_memory (rm_input m) = Some (upload m)" using books by (simp add: relay_books_def)
  have v: "valid_account (upload m) s" "rb_capacity (rm_input m) \<le> held_by (upload m) s"
    using books by (simp_all add: relay_books_def valid_account_def)
  note a = reserve_account [OF v(1) mem v(2) r]
  have "q \<noteq> upload m \<Longrightarrow> budgets t q = budgets s q" for q by (rule reserve_frame_budgets [OF r mem])
  then have "budgets t (download m) = budgets s (download m)" "budgets t (temporary m) = budgets s (temporary m)"
    using books by (auto simp: relay_books_def)
  then show ?thesis
    using a books reserve_frame [OF r] by (simp add: relay_books_def valid_account_def held_by_def)
qed

lemma relay_books_reserve_output:
  assumes books: "relay_books m s" and r: "core_relay_buffer_reserve got s (rm_output m) needed = (r, b, t)"
  shows "relay_books (m\<lparr>rm_output := b\<rparr>) t"
proof -
  have mem: "rb_memory (rm_output m) = Some (download m)" using books by (simp add: relay_books_def)
  have v: "valid_account (download m) s" "rb_capacity (rm_output m) \<le> held_by (download m) s"
    using books by (simp_all add: relay_books_def valid_account_def)
  note a = reserve_account [OF v(1) mem v(2) r]
  have "q \<noteq> download m \<Longrightarrow> budgets t q = budgets s q" for q by (rule reserve_frame_budgets [OF r mem])
  then have "budgets t (upload m) = budgets s (upload m)" "budgets t (temporary m) = budgets s (temporary m)"
    using books by (auto simp: relay_books_def)
  then show ?thesis
    using a books reserve_frame [OF r] by (simp add: relay_books_def valid_account_def held_by_def)
qed

text \<open>A relay struct that was zeroed: no buffer has memory and the budgets hold nothing.\<close>

definition relay_zeroed :: "relay_memory \<Rightarrow> budget_state \<Rightarrow> bool" where
  "relay_zeroed m s \<longleftrightarrow> \<not> initialized m \<and> budget_inv s \<and> distinct [upload m, download m, temporary m] \<and>
     (\<forall>p \<in> {upload m, download m, temporary m}. budgets s p \<noteq> None \<and> held_by p s = 0) \<and>
     (\<forall>b \<in> {wrapped m, plain m, packet m}. b = empty_buffer None)"

lemma relay_books_start: "relay_zeroed m s \<Longrightarrow> relay_books (relay_buffers m limit) s"
  by (simp add: relay_zeroed_def relay_books_def relay_buffers_def Let_def empty_buffer_def)

lemma relay_memory_init_books:
  assumes "relay_zeroed m0 s" and "core_relay_memory_init got s m0 limit = (r, m, t)"
  shows "relay_books m t"
proof -
  let ?m = "relay_buffers m0 limit"
  have fresh: "\<not> initialized m0" using assms(1) by (simp add: relay_zeroed_def)
  have b0: "relay_books ?m s" by (rule relay_books_start [OF assms(1)])
  obtain e1 s1 where i1: "core_buffer_budget_init s (upload ?m) CORE_BUFFER_RELAY CORE_RELAY_MINIMUM = (e1, s1)" by fastforce
  obtain e2 s2 where i2: "core_buffer_budget_init s1 (download ?m) CORE_BUFFER_RELAY CORE_RELAY_MINIMUM = (e2, s2)" by fastforce
  obtain e3 s3 where i3: "core_buffer_budget_init s2 (temporary ?m) CORE_BUFFER_RELAY 0 = (e3, s3)" by fastforce
  obtain r4 b s4 where i4: "core_relay_buffer_reserve got s3 (rm_input ?m) CORE_RELAY_MINIMUM = (r4, b, s4)" by (metis prod_cases3)
  obtain r5 c s5 where i5: "core_relay_buffer_reserve got s4 (rm_output ?m) CORE_RELAY_MINIMUM = (r5, c, s5)" by (metis prod_cases3)
  have b1: "relay_books ?m s1" using relay_books_budget_init [OF b0, of "upload ?m"] i1 by (metis insertI1 snd_conv)
  have b2: "relay_books ?m s2" using relay_books_budget_init [OF b1, of "download ?m"] i2 by (metis insertI1 insertI2 snd_conv)
  have b3: "relay_books ?m s3" using relay_books_budget_init [OF b2, of "temporary ?m"] i3 by (metis insertI1 insertI2 snd_conv)
  have b4: "relay_books (?m\<lparr>rm_input := b\<rparr>) s4" by (rule relay_books_reserve_input [OF b3 i4])
  have b5: "relay_books (?m\<lparr>rm_input := b, rm_output := c\<rparr>) s5"
    using relay_books_reserve_output [OF b4, of got CORE_RELAY_MINIMUM r5 c s5] i5 by simp
  show ?thesis
    using assms(2) fresh b1 b2 b3 b4 b5 i1 i2 i3 i4 i5
    by (auto simp: core_relay_memory_init_def Let_def split: option.splits if_splits)
qed

lemma relay_books_accounts:
  assumes "relay_books m s"
  shows "valid_account (upload m) s" "valid_account (download m) s" "valid_account (temporary m) s"
    "upload m \<noteq> download m" "upload m \<noteq> temporary m" "download m \<noteq> temporary m"
  using assms by (simp_all add: relay_books_def valid_account_def)


lemma account_cong:
  assumes "budgets t q = budgets u q" and "valid_account p t" and "valid_account q u"
  shows "valid_account q t \<and> held_by q t = held_by q u"
  using assms by (simp add: valid_account_def held_by_def)

text \<open>Clearing the five buffers empties the three accounts.\<close>

lemma clear_five_buffers:
  assumes books: "relay_books m s"
    and s1: "s1 = snd (core_relay_buffer_clear s (rm_input m))"
    and s2: "s2 = snd (core_relay_buffer_clear s1 (rm_output m))"
    and s3: "s3 = snd (core_relay_buffer_clear s2 (wrapped m))"
    and s4: "s4 = snd (core_relay_buffer_clear s3 (plain m))"
    and s5: "s5 = snd (core_relay_buffer_clear s4 (packet m))"
  shows "(\<forall>p \<in> {upload m, download m, temporary m}. valid_account p s5 \<and> held_by p s5 = 0) \<and>
     (\<forall>q. q \<notin> {upload m, download m, temporary m} \<longrightarrow> budgets s5 q = budgets s q)"
proof -
  note ne = relay_books_accounts(4-6) [OF books] and acc = relay_books_accounts(1-3) [OF books]
  have mem: "rb_memory (rm_input m) = Some (upload m)" "rb_memory (rm_output m) = Some (download m)"
    "rb_memory (wrapped m) = Some (temporary m)" "rb_memory (plain m) = Some (temporary m)"
    "rb_memory (packet m) = Some (temporary m)" using books by (simp_all add: relay_books_def)
  have h0: "held_by (upload m) s = rb_capacity (rm_input m)" "held_by (download m) s = rb_capacity (rm_output m)"
    "held_by (temporary m) s = rb_capacity (wrapped m) + rb_capacity (plain m) + rb_capacity (packet m)"
    using books by (simp_all add: relay_books_def)
  have 1: "valid_account (upload m) s1 \<and> held_by (upload m) s1 = 0"
    using buffer_clear_account [OF acc(1) mem(1)] h0(1) by (simp add: s1)
  have f1: "q \<noteq> upload m \<Longrightarrow> budgets s1 q = budgets s q" for q unfolding s1 by (rule buffer_clear_frame [OF mem(1)])
  have d1: "valid_account (download m) s1 \<and> held_by (download m) s1 = rb_capacity (rm_output m)"
    using account_cong [OF f1 conjunct1 [OF 1] acc(2)] ne h0 by simp
  have 2: "valid_account (download m) s2 \<and> held_by (download m) s2 = 0"
    using buffer_clear_account [OF conjunct1 [OF d1] mem(2)] d1 by (simp add: s2)
  have f2: "q \<noteq> download m \<Longrightarrow> budgets s2 q = budgets s1 q" for q unfolding s2 by (rule buffer_clear_frame [OF mem(2)])
  have t2: "valid_account (temporary m) s2 \<and> held_by (temporary m) s2 = held_by (temporary m) s"
    using account_cong [of s2 "temporary m" s "download m"] f1 f2 ne 2 acc(3) by simp
  have 3: "valid_account (temporary m) s3 \<and> held_by (temporary m) s3 = rb_capacity (plain m) + rb_capacity (packet m)"
    using buffer_clear_account [OF conjunct1 [OF t2] mem(3)] t2 h0(3) by (simp add: s3)
  have 4: "valid_account (temporary m) s4 \<and> held_by (temporary m) s4 = rb_capacity (packet m)"
    using buffer_clear_account [OF conjunct1 [OF 3] mem(4)] 3 by (simp add: s4)
  have 5: "valid_account (temporary m) s5 \<and> held_by (temporary m) s5 = 0"
    using buffer_clear_account [OF conjunct1 [OF 4] mem(5)] 4 by (simp add: s5)
  have f5: "q \<noteq> temporary m \<Longrightarrow> budgets s5 q = budgets s2 q" for q
    unfolding s5 s4 s3 using mem by (simp add: buffer_clear_frame)
  have "valid_account (upload m) s5 \<and> held_by (upload m) s5 = 0"
    using account_cong [of s5 "upload m" s1 "temporary m"] f5 f2 ne 1 5 by simp
  moreover have "valid_account (download m) s5 \<and> held_by (download m) s5 = 0"
    using account_cong [of s5 "download m" s2 "temporary m"] f5 ne 2 5 by simp
  ultimately show ?thesis using 5 f5 f2 f1 by simp
qed

text \<open>Clearing three distinct accounts that hold nothing.\<close>

lemma clear_three_budgets:
  assumes "distinct [a, b, c]" and z: "\<forall>p \<in> {a, b, c}. valid_account p s \<and> held_by p s = 0"
    and s1: "s1 = snd (core_buffer_budget_clear s a)"
    and s2: "s2 = snd (core_buffer_budget_clear s1 b)"
    and s3: "s3 = snd (core_buffer_budget_clear s2 c)"
  shows "(\<forall>p \<in> {a, b, c}. valid_account p s3 \<and> charged (the (budgets s3 p)) = 0 \<and> held_by p s3 = 0) \<and>
     (\<forall>q. q \<notin> {a, b, c} \<longrightarrow> budgets s3 q = budgets s q)"
proof -
  have ne: "a \<noteq> b" "a \<noteq> c" "b \<noteq> c" using assms(1) by simp_all
  have f1: "q \<noteq> a \<Longrightarrow> budgets s1 q = budgets s q" for q unfolding s1 by (rule budget_clear_frame)
  have f2: "q \<noteq> b \<Longrightarrow> budgets s2 q = budgets s1 q" for q unfolding s2 by (rule budget_clear_frame)
  have f3: "q \<noteq> c \<Longrightarrow> budgets s3 q = budgets s2 q" for q unfolding s3 by (rule budget_clear_frame)
  have 1: "valid_account a s1 \<and> charged (the (budgets s1 a)) = 0 \<and> held_by a s1 = 0"
    unfolding s1 using budget_clear_account z by blast
  have "valid_account b s1 \<and> held_by b s1 = 0"
    using account_cong [of s1 b s a] f1 ne 1 z by simp
  then have 2: "valid_account b s2 \<and> charged (the (budgets s2 b)) = 0 \<and> held_by b s2 = 0"
    unfolding s2 using budget_clear_account by blast
  have "valid_account c s2 \<and> held_by c s2 = 0"
    using account_cong [of s2 c s b] f1 f2 ne 2 z by simp
  then have 3: "valid_account c s3 \<and> charged (the (budgets s3 c)) = 0 \<and> held_by c s3 = 0"
    unfolding s3 using budget_clear_account by blast
  have "valid_account a s3 \<and> held_by a s3 = 0" using account_cong [of s3 a s1 c] f2 f3 ne 1 3 by simp
  moreover have "valid_account b s3 \<and> held_by b s3 = 0" using account_cong [of s3 b s2 c] f3 ne 2 3 by simp
  ultimately show ?thesis using 1 2 3 f1 f2 f3 ne by simp
qed

lemma clear_buffers_empties:
  assumes books: "relay_books m s"
  shows "budget_inv (clear_buffers s m) \<and>
     (\<forall>p \<in> {upload m, download m, temporary m}. \<exists>b. budgets (clear_buffers s m) p = Some b \<and> charged b = 0 \<and> allocated b = 0) \<and>
     (\<forall>q. q \<notin> {upload m, download m, temporary m} \<longrightarrow> budgets (clear_buffers s m) q = budgets s q)"
proof -
  have d: "distinct [upload m, download m, temporary m]" using books by (simp add: relay_books_def)
  define s5 where "s5 = snd (core_relay_buffer_clear (snd (core_relay_buffer_clear (snd (core_relay_buffer_clear
    (snd (core_relay_buffer_clear (snd (core_relay_buffer_clear s (rm_input m))) (rm_output m))) (wrapped m))) (plain m))) (packet m))"
  note five = clear_five_buffers [OF books refl refl refl refl refl, folded s5_def]
  have c: "clear_buffers s m = snd (core_buffer_budget_clear (snd (core_buffer_budget_clear
      (snd (core_buffer_budget_clear s5 (upload m))) (download m))) (temporary m))" (is "_ = ?t")
    by (simp add: clear_buffers_def Let_def s5_def)
  note three = clear_three_budgets [OF d conjunct1 [OF five] refl refl refl]
  have "budget_inv ?t \<and> (\<exists>b. budgets ?t p = Some b \<and> charged b = 0 \<and> allocated b = 0)"
    if "p \<in> {upload m, download m, temporary m}" for p
  proof -
    have "valid_account p ?t" "charged (the (budgets ?t p)) = 0" "held_by p ?t = 0"
      using bspec [OF conjunct1 [OF three] that] by simp_all
    then show ?thesis by (auto simp: valid_account_def held_by_def)
  qed
  then show ?thesis unfolding c using conjunct2 [OF three] conjunct2 [OF five] by (metis insertI1)
qed

text \<open>The zeroing of budgets that are charged nothing keeps the invariant.\<close>

lemma zero_budget_inv:
  assumes inv: "budget_inv s" and b: "budgets s p = Some b" and z: "charged b = 0" "allocated b = 0"
  shows "budget_inv (s\<lparr>budgets := (budgets s)(p \<mapsto> zero_budget)\<rparr>)"
proof -
  have wf: "budget_wf zero_budget"
    by (simp add: budget_wf_def zero_budget_def CORE_BUFFER_DIRECTIONS_def)
  have lim: "g_charged s 0 \<le> CORE_BUFFER_TOTAL_LIMIT" by (rule budget_invD(5) [OF inv])
  have "budget_inv (s\<lparr>g_charged := (g_charged s)(0 := g_charged s 0),
      g_allocated := (g_allocated s)(0 := g_allocated s 0), budgets := (budgets s)(p \<mapsto> zero_budget)\<rparr>)"
    by (rule budget_inv_replace [OF inv b wf]) (use z lim in \<open>simp_all add: zero_budget_def\<close>)
  then show ?thesis by simp
qed

section \<open>Properties\<close>

text \<open>
  The capacity chosen for a request covers it, is at most twice as large as the
  request (or the initial 512 bytes), and never exceeds the address space.
\<close>

lemma relay_capacity_fits:
  assumes "needed \<le> SIZE_MAX"
  shows "needed \<le> core_relay_capacity needed \<and> core_relay_capacity needed \<le> SIZE_MAX \<and>
     core_relay_capacity needed \<le> max 512 (2 * needed)"
proof (cases "needed \<le> 512")
  case True
  then have "core_relay_capacity needed = 512"
    unfolding core_relay_capacity_def by (subst relay_grow.simps) simp
  then show ?thesis using True by (simp add: SIZE_MAX_def)
next
  case False
  then show ?thesis
    using core_relay_capacity_bounds(1) [of needed] core_relay_capacity_bounds(2) [of needed]
      core_relay_capacity_bounds(3) [OF assms] by (simp add: max_def)
qed

lemma relay_capacity_fits_witness:
  "(3000 :: nat) \<le> core_relay_capacity 3000 \<and> core_relay_capacity 3000 \<le> SIZE_MAX \<and>
   core_relay_capacity 3000 \<le> max 512 (2 * 3000)"
  by (rule relay_capacity_fits) (simp add: SIZE_MAX_def)

text \<open>
  An append either adds exactly the given bytes, in a capacity that holds them and
  with the budget charged by exactly the growth of the capacity, or it leaves the buffer and the
  bytes its budget holds as they were.
\<close>

lemma relay_append_exact:
  assumes "valid_account p s" and "rb_memory buf = Some p" and "rb_capacity buf \<le> held_by p s"
    and "core_relay_buffer_append got s buf xs = (ok, buf', t)"
  shows "valid_account p t \<and> held_by p t + rb_capacity buf = held_by p s + rb_capacity buf' \<and>
     (if ok then rb_data buf' = rb_data buf @ xs \<and> length (rb_data buf') \<le> rb_capacity buf'
      else buf' = buf \<and> held_by p t = held_by p s)"
proof (cases "length xs > SIZE_MAX - length (rb_data buf)")
  case True
  then show ?thesis using assms by (auto simp: core_relay_buffer_append_def)
next
  case False
  obtain r b u where r: "core_relay_buffer_reserve got s buf (length (rb_data buf) + length xs) = (r, b, u)"
    by (metis prod_cases3)
  have "ok \<longleftrightarrow> r = 1" and "buf' = (if r = 1 then b\<lparr>rb_data := rb_data b @ xs\<rparr> else b)" and "t = u"
    using assms(4) False r by (auto simp: core_relay_buffer_append_def split: if_splits)
  then show ?thesis
    using reserve_account [OF assms(1-3) r] reserve_buffer [OF r] reserve_frame [OF r]
    by (cases "r = 1") auto
qed

lemma reserved_budget_account:
  "valid_account 7 reserved_state" "held_by 7 reserved_state = 0"
  using budget_reachable_inv [OF reserved_reachable] reserved_budget
  by (auto simp: valid_account_def held_by_def)

lemma relay_append_exact_witness:
  "\<exists>ok buf' t. core_relay_buffer_append (\<lambda>_. True) reserved_state (empty_buffer (Some 7)) [1, 2, 3] = (ok, buf', t) \<and>
     (if ok then rb_data buf' = [1, 2, 3] \<and> length (rb_data buf') \<le> rb_capacity buf'
      else held_by 7 t = held_by 7 reserved_state)"
proof -
  obtain ok buf' t where r: "core_relay_buffer_append (\<lambda>_. True) reserved_state (empty_buffer (Some 7)) [1, 2, 3] =
    (ok, buf', t)" by (metis prod_cases3)
  show ?thesis
    using relay_append_exact [OF reserved_budget_account(1) _ _ r] r by (auto simp: empty_buffer_def)
qed

text \<open>
  Property C29.  Relay memory does not leak credit.  Initialising a zeroed relay, whether it
  succeeds or runs out of credit or memory half way, leaves books in which each budget holds
  exactly the capacities of its buffers; and clearing a relay whose books are right leaves its
  three budgets zeroed and charged nothing, every other budget untouched and the accounting
  invariant intact.
\<close>

theorem relay_memory_no_leak:
  assumes "relay_zeroed m0 s" and "core_relay_memory_init got s m0 limit = (r, m, t)"
    and "relay_books (memory_at w a) u" and "initialized (memory_at w a)"
    and "core_relay_memory_clear u w a = (w', v)"
  shows "relay_books m t \<and> budget_inv v \<and>
     (\<forall>p \<in> {upload (memory_at w a), download (memory_at w a), temporary (memory_at w a)}. budgets v p = Some zero_budget) \<and>
     (\<forall>q. q \<notin> {upload (memory_at w a), download (memory_at w a), temporary (memory_at w a)} \<longrightarrow> budgets v q = budgets u q)"
proof -
  let ?m = "memory_at w a"
  let ?c = "clear_buffers u ?m"
  have d: "upload ?m \<noteq> download ?m" "upload ?m \<noteq> temporary ?m" "download ?m \<noteq> temporary ?m"
    using assms(3) by (simp_all add: relay_books_def)
  note e = clear_buffers_empties [OF assms(3)]
  have v: "v = ?c\<lparr>budgets := (budgets ?c)(upload ?m \<mapsto> zero_budget, download ?m \<mapsto> zero_budget, temporary ?m \<mapsto> zero_budget)\<rparr>"
    using assms(4,5) by (simp add: core_relay_memory_clear_def Let_def)
  obtain b1 b2 b3 where b: "budgets ?c (upload ?m) = Some b1" "charged b1 = 0" "allocated b1 = 0"
    "budgets ?c (download ?m) = Some b2" "charged b2 = 0" "allocated b2 = 0"
    "budgets ?c (temporary ?m) = Some b3" "charged b3 = 0" "allocated b3 = 0" using e by auto
  let ?c1 = "?c\<lparr>budgets := (budgets ?c)(upload ?m \<mapsto> zero_budget)\<rparr>"
  let ?c2 = "?c1\<lparr>budgets := (budgets ?c1)(download ?m \<mapsto> zero_budget)\<rparr>"
  have 1: "budget_inv ?c1" using zero_budget_inv [OF conjunct1 [OF e] b(1)] b by blast
  have 2: "budget_inv ?c2" using zero_budget_inv [OF 1, of "download ?m" b2] b d by simp
  have 3: "budget_inv (?c2\<lparr>budgets := (budgets ?c2)(temporary ?m \<mapsto> zero_budget)\<rparr>)"
    using zero_budget_inv [OF 2, of "temporary ?m" b3] b d by simp
  show ?thesis
    using relay_memory_init_books [OF assms(1,2)] 3 e d by (simp add: v)
qed

definition sample_relay :: relay_memory where
  "sample_relay = \<lparr>upload = 1, download = 2, temporary = 3, rm_input = empty_buffer None, rm_output = empty_buffer None,
     wrapped = empty_buffer None, plain = empty_buffer None, packet = empty_buffer None, initialized = False,
     rm_registered = False, notified = False, waiting = 0\<rparr>"

definition sample_store :: budget_state where
  "sample_store = initial_state\<lparr>budgets := [1 \<mapsto> zero_budget, 2 \<mapsto> zero_budget, 3 \<mapsto> zero_budget]\<rparr>"

lemma sample_store_inv: "budget_inv sample_store"
proof -
  have "total f [1 \<mapsto> zero_budget, 2 \<mapsto> zero_budget, 3 \<mapsto> zero_budget] = 0" if "f zero_budget = 0"
    for f :: "budget \<Rightarrow> nat" using that by (simp add: total_def)
  then show ?thesis
    by (simp add: sample_store_def budget_inv_def initial_state_def charge_in_def alloc_in_def budget_wf_def
        zero_budget_def CORE_BUFFER_DIRECTIONS_def)
qed

theorem relay_memory_no_leak_witness:
  "relay_books (fst (snd (core_relay_memory_init (\<lambda>_. True) sample_store sample_relay 65536)))
     (snd (snd (core_relay_memory_init (\<lambda>_. True) sample_store sample_relay 65536)))"
proof -
  have z: "relay_zeroed sample_relay sample_store"
    using sample_store_inv by (simp add: relay_zeroed_def sample_relay_def held_by_def)
      (simp add: sample_store_def zero_budget_def)
  let ?w = "\<lparr>relay_waiters = [], memory_at = (\<lambda>_. relay_buffers sample_relay 65536)\<rparr>"
  have b: "relay_books (memory_at ?w 0) sample_store" using relay_books_start [OF z] by simp
  have i: "initialized (memory_at ?w 0)" by (simp add: relay_buffers_def Let_def)
  show ?thesis
    using relay_memory_no_leak [OF z _ b i, of "\<lambda>_. True" 65536] by (metis prod.collapse)
qed

end
