(* ===== verification/Core_Random.thy ===== *)
theory Core_Random
  imports Prelude
begin

text \<open>
  Random bytes and numbers, \<^verbatim>\<open>src/src/core_random.c\<close>.  OpenSSL's \<^verbatim>\<open>RAND_bytes\<close> is a
  parameter: the bytes of the k-th call for a given length, or a failure; so is whether an active
  deadline has run out at that call.  The number of calls made so far is the state.
\<close>

record random =
  rand_bytes :: "nat \<Rightarrow> nat \<Rightarrow> bytes option"
  deadline_over :: "nat \<Rightarrow> bool"

text \<open>The documented behaviour of \<^verbatim>\<open>RAND_bytes\<close>: it fills what it was given.\<close>

definition random_ok :: "random \<Rightarrow> bool" where
  "random_ok rnd \<longleftrightarrow> (\<forall>k n bs. rand_bytes rnd k n = Some bs \<longrightarrow> length bs = n)"

definition core_random_fill :: "random \<Rightarrow> nat \<Rightarrow> nat \<Rightarrow> bytes option \<times> nat" where
  "core_random_fill rnd k n =
     (if n = 0 then (Some [], k)
      else if n > 2147483647 then (None, k)
      else if deadline_over rnd k then (None, k)
      else (rand_bytes rnd k n, k + 1))"

text \<open>The four bytes of a \<^verbatim>\<open>uint32_t\<close> in memory, least significant first.\<close>

definition le_value :: "bytes \<Rightarrow> nat" where
  "le_value bs = foldr (\<lambda>b n. unat b + 256 * n) (take 4 bs) 0"

definition random_threshold :: "nat \<Rightarrow> nat" where
  "random_threshold span = (if span \<noteq> 0 then ((2 ^ 32 - span) mod 2 ^ 32) mod span else 0)"

definition random_pick :: "nat \<Rightarrow> nat \<Rightarrow> nat \<Rightarrow> nat" where
  "random_pick least span v = (least + (if span \<noteq> 0 then v mod span else v)) mod 2 ^ 32"

definition CORE_RANDOM_MAX_ATTEMPTS :: nat where "CORE_RANDOM_MAX_ATTEMPTS = 128"

fun random_attempts :: "random \<Rightarrow> nat \<Rightarrow> nat \<Rightarrow> nat \<Rightarrow> nat \<Rightarrow> nat option \<times> nat" where
  "random_attempts rnd 0 k least span = (None, k)"
| "random_attempts rnd (Suc attempts) k least span =
     (case core_random_fill rnd k 4 of
        (None, k') \<Rightarrow> (None, k')
      | (Some bs, k') \<Rightarrow>
          let v = le_value bs
          in if v < random_threshold span then random_attempts rnd attempts k' least span
             else (Some (random_pick least span v), k'))"

definition core_random_range :: "random \<Rightarrow> nat \<Rightarrow> nat \<Rightarrow> nat \<Rightarrow> nat option \<times> nat" where
  "core_random_range rnd k least most =
     (if most < least then (None, k)
      else random_attempts rnd CORE_RANDOM_MAX_ATTEMPTS k least ((most - least + 1) mod 2 ^ 32))"

lemma random_pick_range:
  assumes "least \<le> most" and "most < 2 ^ 32" and "v < 2 ^ 32"
  shows "least \<le> random_pick least ((most - least + 1) mod 2 ^ 32) v \<and>
         random_pick least ((most - least + 1) mod 2 ^ 32) v \<le> most"
proof (cases "most - least + 1 = 2 ^ 32")
  case True
  then have "least = 0" "most = 2 ^ 32 - 1" using assms by linarith+
  then show ?thesis using assms by (simp add: random_pick_def)
next
  case False
  then have small: "most - least + 1 < 2 ^ 32" using assms by linarith
  have "v mod (most - least + 1) \<le> most - least"
    using mod_less_divisor [of "most - least + 1" v] by linarith
  then have le: "least + v mod (most - least + 1) \<le> most" using assms by linarith
  then have "(least + v mod (most - least + 1)) mod 2 ^ 32 = least + v mod (most - least + 1)"
    using assms by (intro mod_less) linarith
  then have "random_pick least ((most - least + 1) mod 2 ^ 32) v = least + v mod (most - least + 1)"
    using small by (simp only: random_pick_def mod_less) simp
  then show ?thesis using le by simp
qed

lemma le_value_less: "le_value bs < 2 ^ 32"
proof -
  have "foldr (\<lambda>b n. unat (b :: byte) + 256 * n) xs 0 < 256 ^ length xs" for xs
  proof (induction xs)
    case (Cons x xs)
    then show ?case 
      unfolding foldr.simps list.size power_Suc comp_apply
      using unat_byte_less [of x] by (simp del: unat_byte_less)
  qed simp
  from this [of "take 4 bs"] have "le_value bs < 256 ^ length (take 4 bs)" by (simp add: le_value_def)
  also have "\<dots> \<le> 256 ^ 4" by (rule power_increasing) simp_all
  finally show ?thesis by simp
qed

lemma random_attempts_pick:
  "random_attempts rnd n k least span = (Some r, k') \<Longrightarrow>
     \<exists>v. v < 2 ^ 32 \<and> random_threshold span \<le> v \<and> r = random_pick least span v"
proof (induction n arbitrary: k)
  case (Suc n)
  then show ?case using le_value_less
    by (auto simp: Let_def not_less simp del: One_nat_def split: option.splits prod.splits if_splits)
qed simp

text \<open>
  The accepted values, from the threshold on, fall into whole periods of the span, so every
  result has the same number of accepted values.
\<close>

lemma random_threshold_periods:
  assumes "0 < span" and "span < 2 ^ 32"
  shows "2 ^ 32 - random_threshold span = span * (2 ^ 32 div span)"
    and "random_threshold span = 2 ^ 32 mod span"
proof -
  have t: "random_threshold span = (2 ^ 32 - span) mod span" using assms by (simp add: random_threshold_def)
  also have "\<dots> = 2 ^ 32 mod span" using assms mod_add_self2 [of "2 ^ 32 - span" span] by simp
  finally show m: "random_threshold span = 2 ^ 32 mod span" .
  show "2 ^ 32 - random_threshold span = span * (2 ^ 32 div span)"
    unfolding m using mult_div_mod_eq [of span "2 ^ 32 :: nat"] by linarith
qed

lemma card_residues:
  fixes a n m r :: nat
  assumes "0 < n" and "r < n"
  shows "card {v. a \<le> v \<and> v < a + n * m \<and> v mod n = r} = m"
proof (induction m)
  case (Suc m)
  have step: "\<exists>!w. a + n * m \<le> w \<and> w < a + n * m + n \<and> w mod n = r"
  proof -
    define b where "b = a + n * m"
    define w where "w = b + (r + n - b mod n) mod n"
    have "w mod n = (b mod n + (r + n - b mod n)) mod n" unfolding w_def by (metis mod_add_eq mod_mod_trivial)
    also have "b mod n + (r + n - b mod n) = r + n"
      using mod_less_divisor [OF assms(1), of b] by linarith
    finally have "w mod n = r" using assms by simp
    moreover have "b \<le> w" "w < b + n" using assms by (simp_all add: w_def)
    moreover have "u = w" if "b \<le> u" "u < b + n" "u mod n = r" "w mod n = r" "b \<le> w" "w < b + n" for u
    proof (rule ccontr)
      assume "u \<noteq> w"
      have "n dvd (if u < w then w - u else u - w)"
        using that mod_eq_dvd_iff_nat [of u w n] mod_eq_dvd_iff_nat [of w u n] by auto
      moreover have "(if u < w then w - u else u - w) < n" "0 < (if u < w then w - u else u - w)"
        using that \<open>u \<noteq> w\<close> by auto
      ultimately show False by (auto dest: dvd_imp_le)
    qed
    ultimately show ?thesis unfolding b_def [symmetric] by metis
  qed
  then obtain w where w: "{v. a + n * m \<le> v \<and> v < a + n * m + n \<and> v mod n = r} = {w}" by (auto elim!: ex1E)
  have "{v. a \<le> v \<and> v < a + n * Suc m \<and> v mod n = r} =
      {v. a \<le> v \<and> v < a + n * m \<and> v mod n = r} \<union> {v. a + n * m \<le> v \<and> v < a + n * m + n \<and> v mod n = r}"
    by auto
  moreover have "finite {v. a \<le> v \<and> v < a + n * m \<and> v mod n = r}" by simp
  moreover have "{v. a \<le> v \<and> v < a + n * m \<and> v mod n = r} \<inter> {v. a + n * m \<le> v \<and> v < a + n * m + n \<and> v mod n = r} = {}"
    by auto
  ultimately show ?case using Suc w by (simp add: card_Un_disjoint)
qed simp

section \<open>Counting the draws\<close>

text \<open>
  A generator that answers the k-th call with the bytes of the k-th of some given 32-bit values; and the
  sequences of values a run of the sampler may see, all of them equally likely for a uniform source.
\<close>

definition draws_random :: "nat list \<Rightarrow> random" where
  "draws_random ds = \<lparr>rand_bytes = \<lambda>k n. Some (map (\<lambda>i. of_nat (ds ! k div 256 ^ i)) [0..<n]), deadline_over = \<lambda>_. False\<rparr>"

definition draws :: "nat \<Rightarrow> nat list set" where
  "draws n = {ds. set ds \<subseteq> {..<2 ^ 32} \<and> length ds = n}"

definition draws_giving :: "nat \<Rightarrow> nat \<Rightarrow> nat \<Rightarrow> nat \<Rightarrow> nat list set" where
  "draws_giving n least span r = {ds \<in> draws n. fst (random_attempts (draws_random ds) n 0 least span) = Some r}"

lemma le_value_bytes:
  assumes "v < 2 ^ 32"
  shows "le_value (map (\<lambda>i. of_nat (v div 256 ^ i)) [0..<4]) = v"
proof -
  have "[0..<4] = [0, 1, 2, 3 :: nat]" by (simp add: upt_rec)
  then have "le_value (map (\<lambda>i. of_nat (v div 256 ^ i)) [0..<4]) =
      v mod 256 + 256 * (v div 256 mod 256 + 256 * (v div 256 ^ 2 mod 256 + 256 * (v div 256 ^ 3 mod 256)))"
    by (simp add: le_value_def unat_of_nat)
  also have "v div 256 ^ 3 mod 256 = v div 256 ^ 3"
    using assms by (intro mod_less) (simp add: div_less_iff_less_mult)
  also have "v div 256 ^ 3 = v div 256 div 256 div 256" by (simp add: div_mult2_eq [symmetric])
  also have "v div 256 ^ 2 = v div 256 div 256" by (simp add: div_mult2_eq [symmetric])
  also have "v mod 256 + 256 * (v div 256 mod 256 + 256 * (v div 256 div 256 mod 256 + 256 * (v div 256 div 256 div 256))) = v"
    by (simp only: mod_mult_div_eq)
  finally show ?thesis .
qed

lemma draws_fill:
  "core_random_fill (draws_random ds) k 4 = (Some (map (\<lambda>i. of_nat (ds ! k div 256 ^ i)) [0..<4]), k + 1)"
  by (simp add: core_random_fill_def draws_random_def)

lemma random_attempts_shift:
  "fst (random_attempts (draws_random (v # ds)) n (Suc k) least span) = fst (random_attempts (draws_random ds) n k least span)"
  by (induction n arbitrary: k) (simp_all add: draws_fill Let_def)

lemma random_attempts_first:
  assumes "v < 2 ^ 32"
  shows "fst (random_attempts (draws_random (v # ds)) (Suc n) 0 least span) =
    (if v < random_threshold span then fst (random_attempts (draws_random ds) n 0 least span)
     else Some (random_pick least span v))"
  using le_value_bytes [OF assms] random_attempts_shift [of v ds n 0] by (simp add: draws_fill Let_def)

lemma draws_Suc: "v # ds \<in> draws (Suc n) \<longleftrightarrow> v < 2 ^ 32 \<and> ds \<in> draws n"
  by (auto simp: draws_def)

lemma card_draws: "finite (draws n)" "card (draws n) = (2 ^ 32) ^ n"
  unfolding draws_def using card_lists_length_eq [of "{..<2 ^ 32 :: nat}" n] finite_lists_length_eq [of "{..<2 ^ 32 :: nat}" n]
  by simp_all

lemma draws_giving_Suc:
  "draws_giving (Suc n) least span r = (\<lambda>(v, ds). v # ds) `
     (({..<2 ^ 32} \<inter> {..<random_threshold span}) \<times> draws_giving n least span r \<union>
      {v. random_threshold span \<le> v \<and> v < 2 ^ 32 \<and> random_pick least span v = r} \<times> draws n)"
  (is "_ = ?f ` (?A \<times> _ \<union> ?B \<times> _)")
proof (rule set_eqI)
  fix ds
  show "ds \<in> draws_giving (Suc n) least span r \<longleftrightarrow> ds \<in> ?f ` (?A \<times> draws_giving n least span r \<union> ?B \<times> draws n)"
  proof (cases ds)
    case Nil
    then show ?thesis by (auto simp: draws_giving_def draws_def)
  next
    case (Cons v vs)
    have "v # vs \<in> draws_giving (Suc n) least span r \<longleftrightarrow>
        v < 2 ^ 32 \<and> vs \<in> draws n \<and> (if v < random_threshold span then vs \<in> draws_giving n least span r
          else random_pick least span v = r)"
      unfolding draws_giving_def mem_Collect_eq draws_Suc
      by (auto simp: random_attempts_first simp del: random_attempts.simps)
    moreover have "vs \<in> draws n" if "vs \<in> draws_giving n least span r" using that by (simp add: draws_giving_def)
    moreover have "v # vs \<in> ?f ` X \<longleftrightarrow> (v, vs) \<in> X" for X by auto
    ultimately show ?thesis unfolding Cons by auto
  qed
qed

lemma card_draws_giving:
  assumes "random_threshold span \<le> 2 ^ 32"
    and "card {v. random_threshold span \<le> v \<and> v < 2 ^ 32 \<and> random_pick least span v = r} * n = 2 ^ 32 - random_threshold span"
  shows "card (draws_giving m least span r) * n + random_threshold span ^ m = (2 ^ 32) ^ m"
proof (induction m)
  case 0
  then show ?case by (simp add: draws_giving_def)
next
  case (Suc m)
  let ?t = "random_threshold span" and ?M = "2 ^ 32 :: nat"
  let ?A = "{..<?M} \<inter> {..<?t}" and ?B = "{v. ?t \<le> v \<and> v < ?M \<and> random_pick least span v = r}"
  have fin: "finite (draws_giving m least span r)" unfolding draws_giving_def using card_draws(1) by simp
  have inj: "inj_on (\<lambda>(v, ds). v # ds) X" for X :: "(nat \<times> nat list) set" by (auto simp: inj_on_def)
  have "card (draws_giving (Suc m) least span r) = card (?A \<times> draws_giving m least span r \<union> ?B \<times> draws m)"
    unfolding draws_giving_Suc by (rule card_image [OF inj])
  also have "\<dots> = card (?A \<times> draws_giving m least span r) + card (?B \<times> draws m)"
    using fin card_draws(1) by (intro card_Un_disjoint) (auto intro: finite_cartesian_product)
  also have "?A = {..<?t}" using assms(1) by auto
  finally have "card (draws_giving (Suc m) least span r) = ?t * card (draws_giving m least span r) + card ?B * ?M ^ m"
    by (simp only: card_cartesian_product card_draws(2) card_lessThan)
  then have "card (draws_giving (Suc m) least span r) * n + ?t ^ Suc m =
      ?t * (card (draws_giving m least span r) * n + ?t ^ m) + card ?B * n * ?M ^ m"
    by (simp only: power_Suc algebra_simps)
  also have "\<dots> = ?t * ?M ^ m + (?M - ?t) * ?M ^ m" by (simp only: Suc assms(2))
  also have "\<dots> = (?t + (?M - ?t)) * ?M ^ m" by (rule distrib_right [symmetric])
  also have "\<dots> = ?M ^ Suc m" using assms(1) by (simp only: le_add_diff_inverse power_Suc)
  finally show ?case .
qed

lemma card_accepted:
  assumes "least \<le> r" and "r \<le> most" and "most < 2 ^ 32"
  defines "span \<equiv> (most - least + 1) mod 2 ^ 32"
  shows "random_threshold span = 2 ^ 32 mod (most - least + 1)"
    and "card {v. random_threshold span \<le> v \<and> v < 2 ^ 32 \<and> random_pick least span v = r} * (most - least + 1) =
      2 ^ 32 - random_threshold span"
proof -
  let ?n = "most - least + 1" and ?t = "random_threshold span"
  let ?B = "{v. ?t \<le> v \<and> v < 2 ^ 32 \<and> random_pick least span v = r}"
  have "?t = 2 ^ 32 mod ?n \<and> card ?B * ?n = 2 ^ 32 - ?t"
  proof (cases "?n = 2 ^ 32")
    case True
    then have "least = 0" and span: "span = 0" using assms by (linarith, simp)
    then have "?B = {r}" using assms by (auto simp: random_threshold_def random_pick_def)
    then show ?thesis using True by (simp add: span random_threshold_def)
  next
    case False
    then have small: "?n < 2 ^ 32" using assms by linarith
    then have span: "span = ?n" by (simp add: span_def)
    have per: "?t + ?n * (2 ^ 32 div ?n) = 2 ^ 32" and tm: "?t = 2 ^ 32 mod ?n"
      using random_threshold_periods [of ?n] small unfolding span
      by (metis add.commute add_gr_0 mult_div_mod_eq zero_less_one, metis add_gr_0 zero_less_one)
    have "random_pick least ?n v = r \<longleftrightarrow> v mod ?n = r - least" for v
    proof -
      have "v mod ?n \<le> most - least" using mod_less_divisor [of ?n v] by linarith
      then have "(least + v mod ?n) mod 2 ^ 32 = least + v mod ?n" using assms by (intro mod_less) linarith
      then have "random_pick least ?n v = least + v mod ?n" by (simp add: random_pick_def)
      then show ?thesis using assms by linarith
    qed
    then have "?B = {v. ?t \<le> v \<and> v < ?t + ?n * (2 ^ 32 div ?n) \<and> v mod ?n = r - least}"
      by (simp only: per) (simp only: span)
    moreover have "0 < ?n" "r - least < ?n" using assms by (simp, linarith)
    ultimately have "card ?B = 2 ^ 32 div ?n" by (simp only: card_residues)
    then have "card ?B * ?n = 2 ^ 32 - ?t" using per by (metis add_diff_cancel_left' mult.commute)
    then show ?thesis using tm by blast
  qed
  then show "?t = 2 ^ 32 mod ?n" "card ?B * ?n = 2 ^ 32 - ?t" by blast+
qed

section \<open>Properties\<close>

text \<open>
  Property C40.  A number drawn from a range is inside it, and the sampler is unbiased: of all the
  sequences of 128 values the generator may deliver, equally many make \<^verbatim>\<open>core_random_range\<close> return
  each number of the range, namely all but those of which every value is rejected, divided evenly.
\<close>

theorem core_random_range_unbiased:
  assumes "least \<le> most" and "most < 2 ^ 32"
  shows "(\<forall>rnd k r k'. core_random_range rnd k least most = (Some r, k') \<longrightarrow> least \<le> r \<and> r \<le> most) \<and>
     (\<forall>r. least \<le> r \<and> r \<le> most \<longrightarrow>
        card {ds. set ds \<subseteq> {..<2 ^ 32} \<and> length ds = 128 \<and> fst (core_random_range (draws_random ds) 0 least most) = Some r}
          * (most - least + 1) =
        (2 ^ 32) ^ 128 - (2 ^ 32 mod (most - least + 1)) ^ 128)"
proof (intro conjI allI impI)
  fix rnd k r k' assume "core_random_range rnd k least most = (Some r, k')"
  then have "\<exists>v. v < 2 ^ 32 \<and> random_threshold ((most - least + 1) mod 2 ^ 32) \<le> v \<and>
      r = random_pick least ((most - least + 1) mod 2 ^ 32) v"
    using assms by (intro random_attempts_pick) (simp add: core_random_range_def)
  then obtain v where v: "v < 2 ^ 32" "r = random_pick least ((most - least + 1) mod 2 ^ 32) v" by blast
  show "least \<le> r" "r \<le> most" using random_pick_range [OF assms v(1)] v(2) by blast+
next
  fix r assume r: "least \<le> r \<and> r \<le> most"
  let ?n = "most - least + 1" let ?t = "2 ^ 32 mod ?n"
  note acc = card_accepted [OF conjunct1 [OF r] conjunct2 [OF r] assms(2)]
  have "?t \<le> 2 ^ 32" by (rule mod_less_eq_dividend)
  then have "card (draws_giving 128 least (?n mod 2 ^ 32) r) * ?n + ?t ^ 128 = (2 ^ 32) ^ 128"
    using card_draws_giving [OF _ acc(2), of 128] unfolding acc(1) by blast
  then have "card (draws_giving 128 least (?n mod 2 ^ 32) r) * ?n = (2 ^ 32) ^ 128 - ?t ^ 128"
    by (metis add_diff_cancel_right')
  moreover have "draws_giving 128 least (?n mod 2 ^ 32) r =
      {ds. set ds \<subseteq> {..<2 ^ 32} \<and> length ds = 128 \<and> fst (core_random_range (draws_random ds) 0 least most) = Some r}"
    using assms unfolding draws_giving_def draws_def core_random_range_def CORE_RANDOM_MAX_ATTEMPTS_def by auto
  ultimately show "card {ds. set ds \<subseteq> {..<2 ^ 32} \<and> length ds = 128 \<and>
      fst (core_random_range (draws_random ds) 0 least most) = Some r} * ?n = (2 ^ 32) ^ 128 - ?t ^ 128" by simp
qed

theorem core_random_range_unbiased_witness:
  "card {ds. set ds \<subseteq> {..<2 ^ 32} \<and> length ds = 128 \<and> fst (core_random_range (draws_random ds) 0 0 499) = Some 7} * 500 =
   (2 ^ 32) ^ 128 - 296 ^ 128"
proof -
  have "(2 ^ 32 mod (499 - 0 + 1) :: nat) = 296" "(499 - 0 + 1 :: nat) = 500" by simp_all
  with conjunct2 [OF core_random_range_unbiased [of 0 499], rule_format, of 7] show ?thesis by simp
qed

end
