(* ===== verification/Vision_Observer.thy ===== *)
theory Vision_Observer
  imports Prelude
begin

text \<open>
  The TLS observer of \<^verbatim>\<open>src/src/vision.c\<close>: it follows the records of the tunnelled
  connection in both directions, across arbitrary chunk boundaries, to learn when the client's
  and the server's hello have passed and whether TLS 1.3 was agreed.  The fixed arrays of the
  reader are the lists of the bytes written to them, so a used count is a length; that the lists
  stay within the arrays is a theorem below.  Once the observer is disabled, its reader and the
  hello flags are never consulted again, so what a rejected chunk did to them is not kept.
\<close>

section \<open>State\<close>

definition u32sub :: "nat \<Rightarrow> nat \<Rightarrow> nat" where
  "u32sub a b = (a + (2 ^ 32 - b)) mod 2 ^ 32"

lemma u32sub_exact [size_simps]: "b \<le> a \<Longrightarrow> a < 2 ^ 32 \<Longrightarrow> u32sub a b = a - b"
proof -
  assume "b \<le> a" "a < 2 ^ 32"
  then have "a + (2 ^ 32 - b) = (a - b) + 2 ^ 32" by simp
  then have "u32sub a b = (a - b) mod 2 ^ 32" unfolding u32sub_def by (simp only: mod_add_self2)
  then show ?thesis using \<open>a < 2 ^ 32\<close> by simp
qed

datatype hello_phase = HELLO_PREFIX | HELLO_CIPHERS | HELLO_COMPRESSION_LENGTH | HELLO_COMPRESSION
  | HELLO_EXTENSIONS_LENGTH | HELLO_EXTENSION_HEADER | HELLO_EXTENSION

record tls_reader =
  r_record :: bytes
  r_message :: bytes
  r_prefix :: bytes
  r_field :: bytes
  prefix_need :: nat
  record_left :: nat
  message_left :: nat
  skip_left :: nat
  extensions_left :: nat
  extension_left :: nat
  records :: nat
  phase :: hello_phase
  extension :: nat
  version :: nat
  cipher :: nat
  interested :: bool
  version_seen :: bool
  compression_seen :: bool
  retry :: bool
  last_application :: bool

definition zero_reader :: tls_reader where
  "zero_reader = \<lparr>r_record = [], r_message = [], r_prefix = [], r_field = [], prefix_need = 0, record_left = 0,
     message_left = 0, skip_left = 0, extensions_left = 0, extension_left = 0, records = 0, phase = HELLO_PREFIX,
     extension = 0, version = 0, cipher = 0, interested = False, version_seen = False, compression_seen = False,
     retry = False, last_application = False\<rparr>"

record vision_wrap =
  w_uuid :: bytes
  uuid_sent :: bool
  padding_active :: bool
  packets_left :: int
  bootstrap_sent :: bool
  client_hello_seen :: bool
  client_tls_app_records :: int
  direct_sent :: bool
  server_hello_seen :: bool
  tls13_confirmed :: bool
  tls_disabled :: bool
  client_tls :: tls_reader
  server_tls :: tls_reader

definition vision_word :: "bytes \<Rightarrow> nat \<Rightarrow> nat" where
  "vision_word data i = word16 (data ! i) (data ! (i + 1))"

text \<open>
  How a piece of the reader ends: with a value, with the rejection of what it read, or, for a
  loop that was not given enough iterations, stuck.
\<close>

datatype 'a run = Done 'a | Reject | Stuck

section \<open>The hello message\<close>

definition retry_random :: bytes where
  "retry_random = [0xcf,0x21,0xad,0x74,0xe5,0x9a,0x61,0x11,0xbe,0x1d,0x8c,0x02,0x1e,0x65,0xb8,0x91,
     0xc2,0xa2,0x11,0x16,0x7a,0xbb,0x8c,0x5e,0x07,0x9e,0x09,0xe2,0xc8,0xa8,0x33,0x9c]"

definition hello_prefix :: "tls_reader \<Rightarrow> bool \<Rightarrow> bytes \<Rightarrow> (tls_reader \<times> bytes) run" where
  "hello_prefix st server data =
     (let need = szsub (prefix_need st) (length (r_prefix st));
          count = (if length data > need then need else length data);
          pre = r_prefix st @ take count data;
          st1 = st\<lparr>r_prefix := pre, message_left := u32sub (message_left st) count\<rparr>;
          rest = drop count data
      in if length pre \<noteq> prefix_need st then Done (st1, rest)
         else if prefix_need st = 35 then
           (if pre ! 0 \<noteq> 3 \<or> pre ! 1 = 0 \<or> pre ! 1 > 3 \<or> server \<and> pre ! 1 \<noteq> 3 \<or> pre ! 34 > 32 then Reject
            else
              let total = 35 + unat (pre ! 34) + (if server then 3 else 2)
              in if szsub total (length pre) > message_left st1 then Reject
                 else Done (st1\<lparr>prefix_need := total\<rparr>, rest))
         else
           let word = vision_word pre (35 + unat (pre ! 34))
           in if server then
                (if pre ! (prefix_need st - 1) \<noteq> 0 then Reject
                 else Done (st1\<lparr>phase := HELLO_EXTENSIONS_LENGTH, cipher := word,
                                retry := (take 32 (drop 2 pre) = retry_random)\<rparr>, rest))
              else
                (if word < 2 \<or> odd word \<or> word > message_left st1 then Reject
                 else Done (st1\<lparr>skip_left := word, phase := HELLO_CIPHERS\<rparr>, rest)))"

definition hello_skip :: "tls_reader \<Rightarrow> bytes \<Rightarrow> (tls_reader \<times> bytes) run" where
  "hello_skip st data =
     (let count = (if length data > skip_left st then skip_left st else length data);
          left = u32sub (skip_left st) count;
          seen = (compression_seen st \<or> phase st = HELLO_COMPRESSION \<and> 0 \<in> set (take count data));
          st1 = st\<lparr>message_left := u32sub (message_left st) count, skip_left := left, compression_seen := seen\<rparr>;
          rest = drop count data
      in if left \<noteq> 0 then Done (st1, rest)
         else if phase st = HELLO_COMPRESSION \<and> \<not> seen then Reject
         else Done (st1\<lparr>phase := (if phase st = HELLO_CIPHERS then HELLO_COMPRESSION_LENGTH
                                   else HELLO_EXTENSIONS_LENGTH)\<rparr>, rest))"

definition hello_compression_length :: "tls_reader \<Rightarrow> bytes \<Rightarrow> (tls_reader \<times> bytes) run" where
  "hello_compression_length st data =
     (let left = u32sub (message_left st) 1;
          skip = unat (hd data)
      in if skip = 0 \<or> skip > left then Reject
         else Done (st\<lparr>message_left := left, skip_left := skip, phase := HELLO_COMPRESSION\<rparr>, tl data))"

definition hello_extension :: "tls_reader \<Rightarrow> bool \<Rightarrow> bytes \<Rightarrow> (tls_reader \<times> bytes) run" where
  "hello_extension st server data =
     (let count = (if length data > extension_left st then extension_left st else length data);
          wanted = (server \<and> extension st = 43);
          fld = (if wanted then r_field st @ take count data else r_field st);
          left = u32sub (extension_left st) count;
          st1 = st\<lparr>r_field := fld, message_left := u32sub (message_left st) count,
                   extensions_left := u32sub (extensions_left st) count, extension_left := left\<rparr>;
          rest = drop count data
      in if left \<noteq> 0 then Done (st1, rest)
         else Done (st1\<lparr>r_field := [], phase := HELLO_EXTENSION_HEADER,
                        version := (if wanted then vision_word fld 0 else version st)\<rparr>, rest))"

definition hello_field :: "tls_reader \<Rightarrow> bool \<Rightarrow> bytes \<Rightarrow> (tls_reader \<times> bytes) run" where
  "hello_field st server data =
     (let header = (phase st = HELLO_EXTENSION_HEADER);
          need = (if phase st = HELLO_EXTENSIONS_LENGTH then 2 else 4);
          room = szsub need (length (r_field st))
      in if header \<and> extensions_left st < room then Reject
         else
           let count = (if length data > room then room else length data);
               fld = r_field st @ take count data;
               exts = (if header then u32sub (extensions_left st) count else extensions_left st);
               st1 = st\<lparr>r_field := fld, message_left := u32sub (message_left st) count, extensions_left := exts\<rparr>;
               rest = drop count data
           in if length fld \<noteq> need then Done (st1, rest)
              else if phase st = HELLO_EXTENSIONS_LENGTH then
                (if vision_word fld 0 \<noteq> message_left st1 then Reject
                 else Done (st1\<lparr>r_field := [], extensions_left := vision_word fld 0,
                                phase := HELLO_EXTENSION_HEADER\<rparr>, rest))
              else
                let ext = vision_word fld 0; len = vision_word fld 2; versions = (server \<and> ext = 43)
                in if len > exts then Reject
                   else if versions \<and> (version_seen st \<or> len \<noteq> 2) then Reject
                   else Done (st1\<lparr>r_field := [], extension_left := len,
                                  phase := (if len \<noteq> 0 then HELLO_EXTENSION else phase st),
                                  extension := ext, version_seen := (versions \<or> version_seen st)\<rparr>, rest))"

definition hello_step :: "tls_reader \<Rightarrow> bool \<Rightarrow> bytes \<Rightarrow> (tls_reader \<times> bytes) run" where
  "hello_step st server data =
     (case phase st of
        HELLO_PREFIX \<Rightarrow> hello_prefix st server data
      | HELLO_CIPHERS \<Rightarrow> hello_skip st data
      | HELLO_COMPRESSION \<Rightarrow> hello_skip st data
      | HELLO_COMPRESSION_LENGTH \<Rightarrow> hello_compression_length st data
      | HELLO_EXTENSION \<Rightarrow> hello_extension st server data
      | _ \<Rightarrow> hello_field st server data)"

text \<open>The loop over the data; every iteration consumes some of it, so its length is enough fuel.\<close>

fun hello_loop :: "nat \<Rightarrow> tls_reader \<Rightarrow> bool \<Rightarrow> bytes \<Rightarrow> tls_reader run" where
  "hello_loop fuel st server [] = Done st"
| "hello_loop 0 st server (b # bs) = Stuck"
| "hello_loop (Suc fuel) st server (b # bs) =
     (case hello_step st server (b # bs) of
        Done (st', rest) \<Rightarrow> hello_loop fuel st' server rest
      | Reject \<Rightarrow> Reject
      | Stuck \<Rightarrow> Stuck)"

definition vision_hello_body :: "tls_reader \<Rightarrow> bool \<Rightarrow> bytes \<Rightarrow> tls_reader run" where
  "vision_hello_body st server data = hello_loop (length data) st server data"

section \<open>Handshake messages and records\<close>

definition hello_complete :: "tls_reader \<Rightarrow> bool" where
  "hello_complete st \<longleftrightarrow>
     phase st = HELLO_EXTENSION_HEADER \<and> extensions_left st = 0 \<and> r_field st = [] \<or>
     phase st = HELLO_EXTENSIONS_LENGTH \<and> r_field st = []"

definition handshake_header ::
  "vision_wrap \<Rightarrow> tls_reader \<Rightarrow> bool \<Rightarrow> bytes \<Rightarrow> (vision_wrap \<times> tls_reader \<times> bytes) run" where
  "handshake_header ctx st server data =
     (let room = 4 - length (r_message st);
          count = (if length data > room then room else length data);
          msg = r_message st @ take count data;
          rest = drop count data
      in if length msg < 4 then Done (ctx, st\<lparr>r_message := msg\<rparr>, rest)
         else
           let left = word24 (msg ! 1) (msg ! 2) (msg ! 3);
               wanted = (msg ! 0 = (if server then 2 else 1))
           in if left > 1024 * 1024 then Reject
              else if wanted \<and> left < 38 then Reject
              else
                let st1 = st\<lparr>r_message := (if left = 0 then [] else msg), message_left := left, interested := wanted\<rparr>;
                    st2 = (if wanted then
                             st1\<lparr>r_prefix := [], r_field := [], prefix_need := 35, phase := HELLO_PREFIX,
                                 version := 0, cipher := 0, version_seen := False, compression_seen := False,
                                 retry := False\<rparr>
                           else st1)
                in Done (ctx, st2, rest))"

definition handshake_done :: "vision_wrap \<Rightarrow> tls_reader \<Rightarrow> bool \<Rightarrow> (vision_wrap \<times> tls_reader) run" where
  "handshake_done ctx st server =
     (let st1 = st\<lparr>r_message := []\<rparr>
      in if \<not> interested st then Done (ctx, st1)
         else if \<not> hello_complete st then Reject
         else if \<not> server then Done (ctx\<lparr>client_hello_seen := True\<rparr>, st1)
         else if retry st then Done (ctx, st1)
         else Done (ctx\<lparr>server_hello_seen := True,
                        tls13_confirmed := (version st = 0x0304 \<and> cipher st \<ge> 0x1301 \<and> cipher st \<le> 0x1304)\<rparr>, st1))"

definition handshake_body ::
  "vision_wrap \<Rightarrow> tls_reader \<Rightarrow> bool \<Rightarrow> bytes \<Rightarrow> (vision_wrap \<times> tls_reader \<times> bytes) run" where
  "handshake_body ctx st server data =
     (let count = (if length data > message_left st then message_left st else length data);
          rest = drop count data;
          body = (if interested st then vision_hello_body st server (take count data)
                  else Done (st\<lparr>message_left := u32sub (message_left st) count\<rparr>))
      in case body of
           Reject \<Rightarrow> Reject
         | Stuck \<Rightarrow> Stuck
         | Done st1 \<Rightarrow>
             if message_left st1 \<noteq> 0 then Done (ctx, st1, rest)
             else (case handshake_done ctx st1 server of
                     Reject \<Rightarrow> Reject
                   | Stuck \<Rightarrow> Stuck
                   | Done (ctx', st2) \<Rightarrow> Done (ctx', st2, rest)))"

fun handshake_loop ::
  "nat \<Rightarrow> vision_wrap \<Rightarrow> tls_reader \<Rightarrow> bool \<Rightarrow> bytes \<Rightarrow> (vision_wrap \<times> tls_reader) run" where
  "handshake_loop fuel ctx st server [] = Done (ctx, st)"
| "handshake_loop 0 ctx st server (b # bs) = Stuck"
| "handshake_loop (Suc fuel) ctx st server (b # bs) =
     (case (if length (r_message st) < 4 then handshake_header ctx st server (b # bs)
            else handshake_body ctx st server (b # bs)) of
        Done (ctx', st', rest) \<Rightarrow> handshake_loop fuel ctx' st' server rest
      | Reject \<Rightarrow> Reject
      | Stuck \<Rightarrow> Stuck)"

definition vision_tls_handshake ::
  "vision_wrap \<Rightarrow> tls_reader \<Rightarrow> bool \<Rightarrow> bytes \<Rightarrow> (vision_wrap \<times> tls_reader) run" where
  "vision_tls_handshake ctx st server data = handshake_loop (length data) ctx st server data"

text \<open>The checks of a complete record header.\<close>

definition record_refused :: "vision_wrap \<Rightarrow> tls_reader \<Rightarrow> bytes \<Rightarrow> nat \<Rightarrow> bool" where
  "record_refused ctx st rec left \<longleftrightarrow>
     rec ! 1 \<noteq> 3 \<or> rec ! 2 = 0 \<or> rec ! 2 > 3 \<or> left > 18432 \<or>
     rec ! 0 = 23 \<and> (rec ! 2 \<noteq> 3 \<or> tls13_confirmed ctx \<and> left < 17) \<or>
     rec ! 0 = 22 \<and> left = 0 \<or> rec ! 0 = 20 \<and> left \<noteq> 1 \<or>
     rec ! 0 \<noteq> 22 \<and> rec ! 0 \<noteq> 20 \<and> r_message st \<noteq> []"

text \<open>The end of a record: count it, and count the client's application data records.\<close>

definition record_end :: "vision_wrap \<Rightarrow> tls_reader \<Rightarrow> bool \<Rightarrow> vision_wrap \<times> tls_reader" where
  "record_end ctx st server =
     (let last = (r_record st ! 0 = 23 \<and> vision_word (r_record st) 3 \<noteq> 0);
          st1 = st\<lparr>r_record := [], records := (records st + 1) mod 2 ^ 32, last_application := last\<rparr>
      in (if \<not> server \<and> last \<and> client_tls_app_records ctx < 0x7fffffff
          then ctx\<lparr>client_tls_app_records := client_tls_app_records ctx + 1\<rparr> else ctx, st1))"

definition record_header ::
  "vision_wrap \<Rightarrow> tls_reader \<Rightarrow> bool \<Rightarrow> bytes \<Rightarrow> (vision_wrap \<times> tls_reader \<times> bytes) run" where
  "record_header ctx st server data =
     (let room = 5 - length (r_record st);
          count = (if length data > room then room else length data);
          rec = r_record st @ take count data;
          st1 = st\<lparr>r_record := rec, last_application := False\<rparr>;
          rest = drop count data
      in if rec ! 0 < 20 \<or> rec ! 0 > 23 then Reject
         else if length rec < 5 then Done (ctx, st1, rest)
         else
           let left = vision_word rec 3; st2 = st1\<lparr>record_left := left\<rparr>
           in if record_refused ctx st rec left then Reject
              else if left \<noteq> 0 then Done (ctx, st2, rest)
              else (case record_end ctx st2 server of (ctx', st3) \<Rightarrow> Done (ctx', st3, rest)))"

definition record_body ::
  "vision_wrap \<Rightarrow> tls_reader \<Rightarrow> bool \<Rightarrow> bytes \<Rightarrow> (vision_wrap \<times> tls_reader \<times> bytes) run" where
  "record_body ctx st server data =
     (let count = (if length data > record_left st then record_left st else length data);
          rest = drop count data;
          kind = r_record st ! 0
      in case (if kind = 22 then vision_tls_handshake ctx st server (take count data) else Done (ctx, st)) of
           Reject \<Rightarrow> Reject
         | Stuck \<Rightarrow> Stuck
         | Done (ctx1, st1) \<Rightarrow>
             if kind = 20 \<and> hd data \<noteq> 1 then Reject
             else
               let st2 = st1\<lparr>record_left := u32sub (record_left st) count\<rparr>
               in if record_left st2 \<noteq> 0 then Done (ctx1, st2, rest)
                  else (case record_end ctx1 st2 server of (ctx', st3) \<Rightarrow> Done (ctx', st3, rest)))"

fun observe_loop ::
  "nat \<Rightarrow> vision_wrap \<Rightarrow> tls_reader \<Rightarrow> bool \<Rightarrow> bytes \<Rightarrow> (vision_wrap \<times> tls_reader) run" where
  "observe_loop fuel ctx st server [] = Done (ctx, st)"
| "observe_loop 0 ctx st server (b # bs) = Stuck"
| "observe_loop (Suc fuel) ctx st server (b # bs) =
     (case (if length (r_record st) < 5 then record_header ctx st server (b # bs)
            else record_body ctx st server (b # bs)) of
        Done (ctx', st', rest) \<Rightarrow> observe_loop fuel ctx' st' server rest
      | Reject \<Rightarrow> Reject
      | Stuck \<Rightarrow> Stuck)"

definition reader_of :: "bool \<Rightarrow> vision_wrap \<Rightarrow> tls_reader" where
  "reader_of server ctx = (if server then server_tls ctx else client_tls ctx)"

definition set_reader :: "bool \<Rightarrow> tls_reader \<Rightarrow> vision_wrap \<Rightarrow> vision_wrap" where
  "set_reader server st ctx = (if server then ctx\<lparr>server_tls := st\<rparr> else ctx\<lparr>client_tls := st\<rparr>)"

definition vision_observe_tls :: "vision_wrap \<Rightarrow> bool \<Rightarrow> bytes \<Rightarrow> vision_wrap option" where
  "vision_observe_tls ctx server data =
     (let st = (reader_of server ctx)\<lparr>last_application := False\<rparr>;
          ctx0 = set_reader server st ctx
      in if tls_disabled ctx \<or> data = [] then Some ctx0
         else case observe_loop (length data) ctx0 st server data of
                Done (ctx', st') \<Rightarrow> Some (set_reader server st' ctx')
              | Reject \<Rightarrow> Some (ctx0\<lparr>tls_disabled := True\<rparr>)
              | Stuck \<Rightarrow> None)"

section \<open>The reader stays within its arrays\<close>

text \<open>
  A hello in progress: how much its current field still needs, and that the lengths read so far
  fit what is left of the message.
\<close>

definition hello_inv :: "bool \<Rightarrow> tls_reader \<Rightarrow> bool" where
  "hello_inv server st \<longleftrightarrow>
     (case phase st of
        HELLO_PREFIX \<Rightarrow> length (r_prefix st) < prefix_need st \<and> r_field st = [] \<and>
          (prefix_need st = 35 \<or> 35 \<le> length (r_prefix st) \<and> r_prefix st ! 34 \<le> 32 \<and>
             prefix_need st = 35 + unat (r_prefix st ! 34) + (if server then 3 else 2))
      | HELLO_CIPHERS \<Rightarrow> 0 < skip_left st \<and> skip_left st < 2 ^ 32 \<and> r_field st = []
      | HELLO_COMPRESSION \<Rightarrow> 0 < skip_left st \<and> skip_left st < 2 ^ 32 \<and> r_field st = []
      | HELLO_COMPRESSION_LENGTH \<Rightarrow> r_field st = []
      | HELLO_EXTENSIONS_LENGTH \<Rightarrow> length (r_field st) < 2
      | HELLO_EXTENSION_HEADER \<Rightarrow> length (r_field st) < 4 \<and> extensions_left st = message_left st
      | HELLO_EXTENSION \<Rightarrow> 0 < extension_left st \<and> extension_left st \<le> extensions_left st \<and>
          extensions_left st = message_left st \<and>
          (if server \<and> extension st = 43 then length (r_field st) + extension_left st = 2 else r_field st = []))"

definition arrays_fit :: "tls_reader \<Rightarrow> bool" where
  "arrays_fit st \<longleftrightarrow> length (r_record st) \<le> 5 \<and> length (r_message st) \<le> 4 \<and> length (r_prefix st) \<le> 72 \<and>
     length (r_field st) \<le> 4"

text \<open>What one step of the loop does to a hello: it makes progress by what it consumed.\<close>

definition hello_progress :: "bool \<Rightarrow> tls_reader \<Rightarrow> bytes \<Rightarrow> (tls_reader \<times> bytes) run \<Rightarrow> bool" where
  "hello_progress server st data res \<longleftrightarrow>
     (case res of
        Done (st', rest) \<Rightarrow> hello_inv server st' \<and> arrays_fit st' \<and> length rest < length data \<and>
          message_left st' + length data = message_left st + length rest \<and>
          r_message st' = r_message st \<and> r_record st' = r_record st \<and> interested st' = interested st \<and>
          record_left st' = record_left st
      | Reject \<Rightarrow> True
      | Stuck \<Rightarrow> False)"

definition hello_ready :: "bool \<Rightarrow> tls_reader \<Rightarrow> bytes \<Rightarrow> bool" where
  "hello_ready server st data \<longleftrightarrow> hello_inv server st \<and> arrays_fit st \<and> data \<noteq> [] \<and>
     length data \<le> message_left st \<and> message_left st < 2 ^ 32"

lemma byte_le_32: "(b :: byte) \<le> 32 \<Longrightarrow> unat b \<le> 32"
  by (simp add: word_le_nat_alt)

lemma byte_gt_32: "\<not> (32 :: byte) < b \<Longrightarrow> b \<le> 32"
  by simp

lemma sub_prefix: "length xs < n \<Longrightarrow> n \<le> 72 \<Longrightarrow> szsub n (length xs) = n - length xs"
  by (rule szsub_exact) (simp_all add: SIZE_MAX_def)

lemma hello_prefix_progress:
  assumes "hello_ready server st data" and ph: "phase st = HELLO_PREFIX"
  shows "hello_progress server st data (hello_prefix st server data)"
proof -
  let ?used = "length (r_prefix st)"
  have inv: "?used < prefix_need st" "r_field st = []"
    and need: "prefix_need st = 35 \<or> 35 \<le> ?used \<and> r_prefix st ! 34 \<le> 32 \<and>
      prefix_need st = 35 + unat (r_prefix st ! 34) + (if server then 3 else 2)"
    and fit: "arrays_fit st" and ml: "length data \<le> message_left st" "message_left st < 2 ^ 32" and ne: "data \<noteq> []"
    using assms by (simp_all add: hello_ready_def hello_inv_def)
  have cap: "prefix_need st \<le> 70"
    using need byte_le_32 [of "r_prefix st ! 34"] by (auto split: if_splits)
  define c where "c = (if length data > prefix_need st - ?used then prefix_need st - ?used else length data)"
  define pre where "pre = r_prefix st @ take c data"
  have c: "0 < c" "c \<le> length data" "c \<le> prefix_need st - ?used" using inv ne by (auto simp: c_def)
  have len: "length pre = ?used + c" using c by (simp add: pre_def)
  have sub: "u32sub (message_left st) c = message_left st - c" using c ml by (intro u32sub_exact) linarith+
  have room: "szsub (prefix_need st) ?used = prefix_need st - ?used" using inv cap by (intro sub_prefix) simp_all
  have keep: "35 \<le> ?used \<Longrightarrow> pre ! 34 = r_prefix st ! 34" by (simp add: pre_def nth_append)
  note eqs = hello_prefix_def Let_def room c_def [symmetric] pre_def [symmetric] sub
  have fits: "length pre \<le> 72" using len c cap inv by linarith
  show ?thesis
  proof (cases "length pre = prefix_need st")
    case False
    then have "length pre < prefix_need st" using len c by linarith
    moreover have "prefix_need st = 35 \<or> 35 \<le> length pre \<and> pre ! 34 \<le> 32 \<and>
        prefix_need st = 35 + unat (pre ! 34) + (if server then 3 else 2)" using need keep len by auto
    moreover have "message_left st - c + length data = message_left st + (length data - c)" using c ml by linarith
    moreover have "hello_prefix st server data =
        Done (st\<lparr>r_prefix := pre, message_left := message_left st - c\<rparr>, drop c data)"
      unfolding eqs using False by (simp only: not_False_eq_True if_True)
    ultimately show ?thesis
      using c fit inv ne fits by (simp add: hello_progress_def hello_inv_def arrays_fit_def ph)
  next
    case full: True
    have left: "message_left st - c + length data = message_left st + (length data - c)" using c ml by linarith
    show ?thesis
    proof (cases "prefix_need st = 35")
      case True
      show ?thesis
        unfolding eqs
        using full True c fit inv ne fits left
        by (simp only: refl not_True_eq_False if_False if_True split: if_split)
          (simp add: hello_progress_def hello_inv_def arrays_fit_def ph not_less)
    next
      case False
      have "vision_word pre (35 + unat (pre ! 34)) < 65536" by (simp add: vision_word_def)
      then show ?thesis
        unfolding eqs
        using full False c fit inv ne fits left
        by (simp only: refl not_True_eq_False if_False if_True split: if_split)
          (simp add: hello_progress_def hello_inv_def arrays_fit_def not_less)
    qed
  qed
qed

lemma hello_readyD:
  assumes "hello_ready server st data"
  shows "hello_inv server st" "arrays_fit st" "data \<noteq> []" "length data \<le> message_left st" "message_left st < 2 ^ 32"
  using assms by (simp_all add: hello_ready_def)

text \<open>A bounded copy: how much is taken, and that counting it down does not wrap.\<close>

lemma bounded_copy:
  assumes "data \<noteq> []" and "0 < need" and "length data \<le> ml" and "ml < 2 ^ 32"
    and c: "c = (if length data > need then need else length data)"
  shows "0 < c" "c \<le> length data" "c \<le> need" "u32sub ml c = ml - c"
    "ml - c + length data = ml + (length data - c)"
proof -
  show p: "0 < c" "c \<le> length data" "c \<le> need" using assms by (auto simp: c)
  then show "u32sub ml c = ml - c" using assms by (intro u32sub_exact) linarith+
  show "ml - c + length data = ml + (length data - c)" using p assms by linarith
qed

lemma hello_skip_progress:
  assumes r: "hello_ready server st data" and ph: "phase st = HELLO_CIPHERS \<or> phase st = HELLO_COMPRESSION"
  shows "hello_progress server st data (hello_skip st data)"
proof -
  note rd = hello_readyD [OF r]
  have inv: "0 < skip_left st" "skip_left st < 2 ^ 32" "r_field st = []" using rd(1) ph by (auto simp: hello_inv_def)
  define c where "c = (if length data > skip_left st then skip_left st else length data)"
  note bc = bounded_copy [OF rd(3) inv(1) rd(4,5) c_def]
  have sk: "u32sub (skip_left st) c = skip_left st - c" using bc inv by (intro u32sub_exact) simp_all
  show ?thesis
    unfolding hello_skip_def Let_def c_def [symmetric] sk bc(4)
    using ph bc rd(2,3) inv
    by (simp only: split: if_split) (auto simp: hello_progress_def hello_inv_def arrays_fit_def)
qed

lemma hello_compression_length_progress:
  assumes r: "hello_ready server st data" and ph: "phase st = HELLO_COMPRESSION_LENGTH"
  shows "hello_progress server st data (hello_compression_length st data)"
proof -
  note rd = hello_readyD [OF r]
  have f: "r_field st = []" using rd(1) ph by (simp add: hello_inv_def)
  have ml: "0 < message_left st" using rd(3,4) by (cases data) auto
  then have sub: "u32sub (message_left st) 1 = message_left st - 1" using rd(5) by (intro u32sub_exact) simp_all
  have "message_left st - 1 + length data = message_left st + length (tl data)" using rd(3) ml by (cases data) auto
  moreover have "unat (hd data) < 2 ^ 32" by (rule less_trans [OF unat_byte_less]) simp
  ultimately show ?thesis
    unfolding hello_compression_length_def Let_def sub using rd(2,3) f
    by (simp only: split: if_split) (auto simp: hello_progress_def hello_inv_def arrays_fit_def)
qed

lemma hello_extension_progress:
  assumes r: "hello_ready server st data" and ph: "phase st = HELLO_EXTENSION"
  shows "hello_progress server st data (hello_extension st server data)"
proof -
  note rd = hello_readyD [OF r]
  have inv: "0 < extension_left st" "extension_left st \<le> extensions_left st" "extensions_left st = message_left st"
    and fld: "if server \<and> extension st = 43 then length (r_field st) + extension_left st = 2 else r_field st = []"
    using rd(1) ph by (auto simp: hello_inv_def)
  define c where "c = (if length data > extension_left st then extension_left st else length data)"
  define w where "w \<longleftrightarrow> server \<and> extension st = 43"
  define g where "g = (if w then r_field st @ take c data else r_field st)"
  note bc = bounded_copy [OF rd(3) inv(1) rd(4,5) c_def]
  have ext: "u32sub (extension_left st) c = extension_left st - c" using bc inv rd(5) by (intro u32sub_exact) linarith+
  have g: "if w then length g + (extension_left st - c) = 2 else g = []" "length g \<le> 4"
    using fld bc by (auto simp: g_def w_def split: if_splits)
  show ?thesis
    unfolding hello_extension_def Let_def c_def [symmetric] w_def [symmetric] g_def [symmetric] ext inv(3) bc(4)
    using bc rd(2,3) inv g ph
    by (simp only: split: if_split) (auto simp: hello_progress_def hello_inv_def arrays_fit_def w_def)
qed

lemma hello_field_progress:
  assumes r: "hello_ready server st data"
    and ph: "phase st = HELLO_EXTENSIONS_LENGTH \<or> phase st = HELLO_EXTENSION_HEADER"
  shows "hello_progress server st data (hello_field st server data)"
proof -
  note rd = hello_readyD [OF r]
  define need where "need = (if phase st = HELLO_EXTENSIONS_LENGTH then 2 else 4 :: nat)"
  have inv: "length (r_field st) < need" "phase st = HELLO_EXTENSION_HEADER \<Longrightarrow> extensions_left st = message_left st"
    using rd(1) ph by (auto simp: hello_inv_def need_def)
  have room: "szsub need (length (r_field st)) = need - length (r_field st)"
    using inv by (intro szsub_exact) (auto simp: need_def SIZE_MAX_def)
  define c where "c = (if length data > need - length (r_field st) then need - length (r_field st) else length data)"
  have pos: "0 < need - length (r_field st)" using inv by simp
  note bc = bounded_copy [OF rd(3) pos rd(4,5) c_def]
  define g where "g = r_field st @ take c data"
  have g: "length g \<le> need" using bc(1-3) inv by (simp add: g_def)
  have "need \<le> 4" by (simp add: need_def)
  then have g4: "length g \<le> 4" using g by linarith
  note eqs = hello_field_def Let_def need_def [symmetric] room c_def [symmetric] g_def [symmetric] bc(4)
  show ?thesis
  proof (cases "phase st = HELLO_EXTENSIONS_LENGTH")
    case True
    then have n: "need = 2" by (simp add: need_def)
    have "hello_field st server data =
        (if length g \<noteq> need then Done (st\<lparr>r_field := g, message_left := message_left st - c\<rparr>, drop c data)
         else if vision_word g 0 \<noteq> message_left st - c then Reject
         else Done (st\<lparr>r_field := [], message_left := message_left st - c, extensions_left := vision_word g 0,
                       phase := HELLO_EXTENSION_HEADER\<rparr>, drop c data))"
      unfolding eqs using True by simp
    then show ?thesis
      using bc(1-3,5) rd(2,3) g g4 n True
      by (simp only: split: if_split) (simp add: hello_progress_def hello_inv_def arrays_fit_def)
  next
    case False
    then have p: "phase st = HELLO_EXTENSION_HEADER" and n: "need = 4" using ph by (auto simp: need_def)
    let ?len = "vision_word g 2" and ?ext = "vision_word g 0"
    have "hello_field st server data =
        (if message_left st < need - length (r_field st) then Reject
         else if length g \<noteq> need then Done (st\<lparr>r_field := g, message_left := message_left st - c,
                extensions_left := message_left st - c\<rparr>, drop c data)
         else if ?len > message_left st - c then Reject
         else if (server \<and> ?ext = 43) \<and> (version_seen st \<or> ?len \<noteq> 2) then Reject
         else Done (st\<lparr>r_field := [], message_left := message_left st - c, extensions_left := message_left st - c,
                extension_left := ?len, phase := (if ?len \<noteq> 0 then HELLO_EXTENSION else phase st), extension := ?ext,
                version_seen := (server \<and> ?ext = 43 \<or> version_seen st)\<rparr>, drop c data))"
      unfolding eqs using p inv(2) bc(4) by auto
    then show ?thesis
      using bc(1-3,5) rd(2,3) g g4 n p
      by (simp only: split: if_split) (auto simp: hello_progress_def hello_inv_def arrays_fit_def)
  qed
qed

lemma hello_step_progress:
  assumes "hello_ready server st data"
  shows "hello_progress server st data (hello_step st server data)"
  using hello_prefix_progress [OF assms] hello_skip_progress [OF assms] hello_compression_length_progress [OF assms]
    hello_extension_progress [OF assms] hello_field_progress [OF assms]
  by (cases "phase st") (simp_all add: hello_step_def)

lemma hello_loop_progress:
  assumes "hello_inv server st" and "arrays_fit st" and "length data \<le> message_left st" and "message_left st < 2 ^ 32"
    and "length data \<le> fuel"
  shows "case hello_loop fuel st server data of
     Done st' \<Rightarrow> hello_inv server st' \<and> arrays_fit st' \<and> message_left st' + length data = message_left st \<and>
       r_message st' = r_message st \<and> r_record st' = r_record st \<and> interested st' = interested st \<and>
       record_left st' = record_left st
   | Reject \<Rightarrow> True
   | Stuck \<Rightarrow> False"
  using assms
proof (induction fuel arbitrary: st data)
  case (Suc fuel)
  show ?case
  proof (cases data)
    case (Cons b bs)
    have "hello_progress server st data (hello_step st server data)"
      using Suc.prems Cons by (intro hello_step_progress) (simp add: hello_ready_def)
    then show ?thesis
    proof (cases "hello_step st server data")
      case (Done p)
      obtain st' rest where p: "p = (st', rest)" by (cases p)
      have pr: "hello_progress server st data (Done (st', rest))"
        using \<open>hello_progress server st data (hello_step st server data)\<close> Done p by simp
      note pr = pr [unfolded hello_progress_def run.case prod.case]
      have "length rest \<le> message_left st'" "message_left st' < 2 ^ 32" "length rest \<le> fuel"
        using pr Suc.prems by linarith+
      from Suc.IH [OF _ _ this] show ?thesis
        using pr Cons Done p Suc.prems by (auto split: run.splits)
    qed (simp_all add: Cons hello_progress_def)
  qed (use Suc.prems in simp)
qed simp

text \<open>A handshake message in progress, and a record in progress.\<close>

definition message_inv :: "bool \<Rightarrow> tls_reader \<Rightarrow> bool" where
  "message_inv server st \<longleftrightarrow> arrays_fit st \<and>
     (length (r_message st) = 4 \<longrightarrow> 0 < message_left st \<and> message_left st \<le> 1024 * 1024 \<and>
        (interested st \<longrightarrow> hello_inv server st))"

definition record_inv :: "tls_reader \<Rightarrow> bool" where
  "record_inv st \<longleftrightarrow> (length (r_record st) = 5 \<longrightarrow> 0 < record_left st \<and> record_left st \<le> 18432)"

definition handshake_progress :: "bool \<Rightarrow> tls_reader \<Rightarrow> bytes \<Rightarrow> (vision_wrap \<times> tls_reader \<times> bytes) run \<Rightarrow> bool" where
  "handshake_progress server st data res \<longleftrightarrow>
     (case res of
        Done (ctx', st', rest) \<Rightarrow> message_inv server st' \<and> length rest < length data \<and>
          r_record st' = r_record st \<and> record_left st' = record_left st
      | Reject \<Rightarrow> True
      | Stuck \<Rightarrow> False)"

lemma handshake_header_progress:
  assumes inv: "message_inv server st" and ne: "data \<noteq> []" and m: "length (r_message st) < 4"
  shows "handshake_progress server st data (handshake_header ctx st server data)"
proof -
  define c where "c = (if length data > 4 - length (r_message st) then 4 - length (r_message st) else length data)"
  define msg where "msg = r_message st @ take c data"
  have c: "0 < c" "c \<le> length data" "c \<le> 4 - length (r_message st)" using m ne by (auto simp: c_def)
  have len: "length msg \<le> 4" using c m by (simp add: msg_def)
  have fit: "arrays_fit st" using inv by (simp add: message_inv_def)
  show ?thesis
    unfolding handshake_header_def Let_def c_def [symmetric] msg_def [symmetric]
    using c len fit ne
    by (simp only: split: if_split)
      (auto simp: handshake_progress_def message_inv_def arrays_fit_def hello_inv_def)
qed

lemma handshake_done_progress:
  assumes "arrays_fit st"
  shows "case handshake_done ctx st server of Done (ctx', st') \<Rightarrow> st' = st\<lparr>r_message := []\<rparr> | Reject \<Rightarrow> True | Stuck \<Rightarrow> False"
  by (simp add: handshake_done_def Let_def)

lemma handshake_body_progress:
  assumes inv: "message_inv server st" and ne: "data \<noteq> []" and m: "length (r_message st) = 4"
  shows "handshake_progress server st data (handshake_body ctx st server data)"
proof -
  define c where "c = (if length data > message_left st then message_left st else length data)"
  have ml: "0 < message_left st" "message_left st \<le> 1024 * 1024" and fit: "arrays_fit st"
    and hi: "interested st \<Longrightarrow> hello_inv server st" using inv m by (simp_all add: message_inv_def)
  have c: "0 < c" "c \<le> length data" "c \<le> message_left st" using ml ne by (auto simp: c_def)
  have small: "message_left st < 2 ^ 32" using ml by simp
  define body where "body = (if interested st then vision_hello_body st server (take c data)
      else Done (st\<lparr>message_left := u32sub (message_left st) c\<rparr>))"
  have b: "case body of
     Done st' \<Rightarrow> (interested st' \<longrightarrow> hello_inv server st') \<and> arrays_fit st' \<and> message_left st' \<le> message_left st \<and>
       r_message st' = r_message st \<and> r_record st' = r_record st \<and> record_left st' = record_left st
   | Reject \<Rightarrow> True | Stuck \<Rightarrow> False"
  proof (cases "interested st")
    case True
    have len: "length (take c data) = c" using c by simp
    show ?thesis
      using hello_loop_progress [OF hi fit _ small, of "take c data" "length (take c data)"] True c
      unfolding body_def vision_hello_body_def len by (auto split: run.splits)
  next
    case False
    then show ?thesis using fit c small by (simp add: body_def arrays_fit_def u32sub_exact)
  qed
  have eq: "handshake_body ctx st server data = (case body of Reject \<Rightarrow> Reject | Stuck \<Rightarrow> Stuck
      | Done st1 \<Rightarrow> if message_left st1 \<noteq> 0 then Done (ctx, st1, drop c data)
          else (case handshake_done ctx st1 server of Reject \<Rightarrow> Reject | Stuck \<Rightarrow> Stuck
                | Done (ctx', st2) \<Rightarrow> Done (ctx', st2, drop c data)))"
    unfolding handshake_body_def Let_def c_def [symmetric] body_def [symmetric] by (rule refl)
  show ?thesis
  proof (cases body)
    case (Done st1)
    note b = b [unfolded Done run.case]
    show ?thesis
    proof (cases "message_left st1 = 0")
      case False
      then show ?thesis using b c ne ml m by (simp add: eq Done handshake_progress_def message_inv_def)
    next
      case True
      then show ?thesis
        using b c ne handshake_done_progress [of st1 ctx server]
        by (auto simp: eq Done handshake_progress_def message_inv_def arrays_fit_def split: run.splits prod.splits)
    qed
  qed (use b in \<open>simp_all add: eq handshake_progress_def\<close>)
qed

lemma handshake_loop_progress:
  assumes "message_inv server st" and "length data \<le> fuel"
  shows "case handshake_loop fuel ctx st server data of
     Done (ctx', st') \<Rightarrow> message_inv server st' \<and> r_record st' = r_record st \<and> record_left st' = record_left st
   | Reject \<Rightarrow> True
   | Stuck \<Rightarrow> False"
  using assms
proof (induction fuel arbitrary: ctx st data)
  case (Suc fuel)
  show ?case
  proof (cases data)
    case (Cons b bs)
    define res where "res = (if length (r_message st) < 4 then handshake_header ctx st server data
        else handshake_body ctx st server data)"
    have "length (r_message st) \<le> 4" using Suc.prems by (simp add: message_inv_def arrays_fit_def)
    then have pr: "handshake_progress server st data res"
      using Suc.prems Cons handshake_header_progress handshake_body_progress by (simp add: res_def)
    have eq: "handshake_loop (Suc fuel) ctx st server data = (case res of
        Done (ctx', st', rest) \<Rightarrow> handshake_loop fuel ctx' st' server rest | Reject \<Rightarrow> Reject | Stuck \<Rightarrow> Stuck)"
      by (simp add: Cons res_def)
    show ?thesis
    proof (cases res)
      case (Done p)
      obtain ctx' st' rest where p: "p = (ctx', st', rest)" by (cases p)
      have "message_inv server st'" "length rest \<le> fuel" "r_record st' = r_record st" "record_left st' = record_left st"
        using pr Suc.prems by (simp_all add: Done p handshake_progress_def)
      then show ?thesis using Suc.IH [of st' rest ctx'] by (auto simp: eq Done p split: run.splits)
    qed (use pr in \<open>simp_all add: eq handshake_progress_def\<close>)
  qed (use Suc.prems in simp)
qed simp

definition reader_inv :: "bool \<Rightarrow> tls_reader \<Rightarrow> bool" where
  "reader_inv server st \<longleftrightarrow> message_inv server st \<and> record_inv st"

definition record_progress :: "bool \<Rightarrow> bytes \<Rightarrow> (vision_wrap \<times> tls_reader \<times> bytes) run \<Rightarrow> bool" where
  "record_progress server data res \<longleftrightarrow>
     (case res of
        Done (ctx', st', rest) \<Rightarrow> reader_inv server st' \<and> length rest < length data
      | Reject \<Rightarrow> True
      | Stuck \<Rightarrow> False)"

text \<open>Neither the record's own fields nor its count matter to the message in progress.\<close>

lemma hello_inv_update [simp]:
  "hello_inv server (st\<lparr>r_record := r\<rparr>) = hello_inv server st"
  "hello_inv server (st\<lparr>record_left := l\<rparr>) = hello_inv server st"
  "hello_inv server (st\<lparr>records := k\<rparr>) = hello_inv server st"
  "hello_inv server (st\<lparr>last_application := a\<rparr>) = hello_inv server st"
  by (cases "phase st"; simp add: hello_inv_def)+

lemma message_inv_update:
  "message_inv server st \<Longrightarrow> length r \<le> 5 \<Longrightarrow> message_inv server (st\<lparr>r_record := r\<rparr>)"
  "message_inv server st \<Longrightarrow> message_inv server (st\<lparr>record_left := l\<rparr>)"
  "message_inv server st \<Longrightarrow> message_inv server (st\<lparr>records := k\<rparr>)"
  "message_inv server st \<Longrightarrow> message_inv server (st\<lparr>last_application := a\<rparr>)"
  by (simp_all add: message_inv_def arrays_fit_def)

lemma record_end_inv:
  "message_inv server st \<Longrightarrow> reader_inv server (snd (record_end ctx st srv))"
  by (simp add: record_end_def Let_def reader_inv_def record_inv_def message_inv_update)

lemma record_header_progress:
  assumes inv: "reader_inv server st" and ne: "data \<noteq> []" and r: "length (r_record st) < 5"
  shows "record_progress server data (record_header ctx st server data)"
proof -
  define c where "c = (if length data > 5 - length (r_record st) then 5 - length (r_record st) else length data)"
  define rec where "rec = r_record st @ take c data"
  have c: "0 < c" "c \<le> length data" "c \<le> 5 - length (r_record st)" using r ne by (auto simp: c_def)
  have len: "length rec \<le> 5" using c r by (simp add: rec_def)
  define st1 where "st1 = st\<lparr>r_record := rec, last_application := False\<rparr>"
  have m1: "message_inv server st1" using inv len by (simp add: st1_def reader_inv_def message_inv_update)
  define st2 where "st2 = st1\<lparr>record_left := vision_word rec 3\<rparr>"
  have m2: "message_inv server st2" using m1 by (simp add: st2_def message_inv_update)
  obtain ctx3 st3 where e: "record_end ctx st2 server = (ctx3, st3)" by fastforce
  then have m3: "reader_inv server st3" using record_end_inv [OF m2] by (metis snd_conv)
  have eq: "record_header ctx st server data =
     (if rec ! 0 < 20 \<or> rec ! 0 > 23 then Reject
      else if length rec < 5 then Done (ctx, st1, drop c data)
      else if record_refused ctx st rec (vision_word rec 3) then Reject
      else if vision_word rec 3 \<noteq> 0 then Done (ctx, st2, drop c data)
      else Done (ctx3, st3, drop c data))"
    unfolding record_header_def Let_def c_def [symmetric] rec_def [symmetric] st1_def [symmetric] st2_def [symmetric]
      e prod.case by (rule refl)
  have left: "vision_word rec 3 \<le> 18432" if "\<not> record_refused ctx st rec (vision_word rec 3)"
    using that by (simp add: record_refused_def)
  have "length rec < 5 \<Longrightarrow> record_inv st1" by (simp add: record_inv_def st1_def)
  moreover have "\<not> record_refused ctx st rec (vision_word rec 3) \<Longrightarrow> vision_word rec 3 \<noteq> 0 \<Longrightarrow> record_inv st2"
    using left by (simp add: record_inv_def st2_def)
  ultimately show ?thesis
    using c ne m1 m2 m3 by (simp add: eq record_progress_def reader_inv_def)
qed

lemma record_body_progress:
  assumes inv: "reader_inv server st" and ne: "data \<noteq> []" and r: "length (r_record st) = 5"
  shows "record_progress server data (record_body ctx st server data)"
proof -
  have rl: "0 < record_left st" "record_left st \<le> 18432" and mi: "message_inv server st"
    using inv r by (simp_all add: reader_inv_def record_inv_def)
  define c where "c = (if length data > record_left st then record_left st else length data)"
  have c: "0 < c" "c \<le> length data" "c \<le> record_left st" using rl ne by (auto simp: c_def)
  define res where "res = (if r_record st ! 0 = 22 then vision_tls_handshake ctx st server (take c data) else Done (ctx, st))"
  have b: "case res of
     Done (ctx', st') \<Rightarrow> message_inv server st' \<and> r_record st' = r_record st \<and> record_left st' = record_left st
   | Reject \<Rightarrow> True | Stuck \<Rightarrow> False"
    using handshake_loop_progress [OF mi, of "take c data" "length (take c data)" ctx] mi
    by (auto simp: res_def vision_tls_handshake_def split: run.splits)
  have sub: "u32sub (record_left st) c = record_left st - c" using c rl by (intro u32sub_exact) simp_all
  have eq: "record_body ctx st server data = (case res of Reject \<Rightarrow> Reject | Stuck \<Rightarrow> Stuck
      | Done (ctx1, st1) \<Rightarrow>
          if r_record st ! 0 = 20 \<and> hd data \<noteq> 1 then Reject
          else if record_left st - c \<noteq> 0 then Done (ctx1, st1\<lparr>record_left := record_left st - c\<rparr>, drop c data)
          else (case record_end ctx1 (st1\<lparr>record_left := record_left st - c\<rparr>) server of (ctx', st3) \<Rightarrow>
                  Done (ctx', st3, drop c data)))"
    unfolding record_body_def Let_def c_def [symmetric] res_def [symmetric] sub by (cases res) auto
  show ?thesis
  proof (cases res)
    case (Done p)
    obtain ctx1 st1 where p: "p = (ctx1, st1)" by (cases p)
    have b: "message_inv server st1" "r_record st1 = r_record st" using b by (simp_all add: Done p)
    let ?st2 = "st1\<lparr>record_left := record_left st - c\<rparr>"
    have m: "message_inv server ?st2" by (rule message_inv_update [OF b(1)])
    obtain ctx3 st3 where e: "record_end ctx1 ?st2 server = (ctx3, st3)" by fastforce
    then have "reader_inv server st3" using record_end_inv [OF m] by (metis snd_conv)
    moreover have "record_left st - c \<noteq> 0 \<Longrightarrow> reader_inv server ?st2"
      using m rl by (auto simp: reader_inv_def record_inv_def)
    ultimately show ?thesis unfolding eq Done p run.case prod.case e using c ne by (simp add: record_progress_def)
  qed (use b in \<open>simp_all add: eq record_progress_def\<close>)
qed

lemma observe_loop_progress:
  assumes "reader_inv server st" and "length data \<le> fuel"
  shows "case observe_loop fuel ctx st server data of
     Done (ctx', st') \<Rightarrow> reader_inv server st'
   | Reject \<Rightarrow> True
   | Stuck \<Rightarrow> False"
  using assms
proof (induction fuel arbitrary: ctx st data)
  case (Suc fuel)
  show ?case
  proof (cases data)
    case (Cons b bs)
    define res where "res = (if length (r_record st) < 5 then record_header ctx st server data
        else record_body ctx st server data)"
    have "length (r_record st) \<le> 5" using Suc.prems by (simp add: reader_inv_def message_inv_def arrays_fit_def)
    then have pr: "record_progress server data res"
      using Suc.prems Cons record_header_progress record_body_progress by (simp add: res_def)
    have eq: "observe_loop (Suc fuel) ctx st server data = (case res of
        Done (ctx', st', rest) \<Rightarrow> observe_loop fuel ctx' st' server rest | Reject \<Rightarrow> Reject | Stuck \<Rightarrow> Stuck)"
      by (simp add: Cons res_def)
    show ?thesis
    proof (cases res)
      case (Done p)
      obtain ctx' st' rest where p: "p = (ctx', st', rest)" by (cases p)
      have "reader_inv server st'" "length rest \<le> fuel"
        using pr Suc.prems by (simp_all add: Done p record_progress_def)
      then show ?thesis using Suc.IH [of st' rest ctx'] by (simp add: eq Done p)
    qed (use pr in \<open>simp_all add: eq record_progress_def\<close>)
  qed (use Suc.prems in simp)
qed simp

section \<open>Properties\<close>

text \<open>The observer as it is set up, and the chunks a connection shows it.\<close>

definition observer_inv :: "vision_wrap \<Rightarrow> bool" where
  "observer_inv ctx \<longleftrightarrow> reader_inv False (client_tls ctx) \<and> reader_inv True (server_tls ctx)"

fun observe_all :: "vision_wrap \<Rightarrow> (bool \<times> bytes) list \<Rightarrow> vision_wrap option" where
  "observe_all ctx [] = Some ctx"
| "observe_all ctx ((server, data) # chunks) =
     (case vision_observe_tls ctx server data of None \<Rightarrow> None | Some ctx' \<Rightarrow> observe_all ctx' chunks)"

text \<open>The loops change the hello flags of the context, never the stored readers or the padding.\<close>

definition same_readers :: "bool \<Rightarrow> vision_wrap \<Rightarrow> vision_wrap \<Rightarrow> bool" where
  "same_readers server ctx ctx' \<longleftrightarrow> client_tls ctx' = client_tls ctx \<and> server_tls ctx' = server_tls ctx \<and>
     w_uuid ctx' = w_uuid ctx \<and> uuid_sent ctx' = uuid_sent ctx \<and> padding_active ctx' = padding_active ctx \<and>
     direct_sent ctx' = direct_sent ctx \<and> (\<not> server \<longrightarrow> server_hello_seen ctx' = server_hello_seen ctx)"

lemma same_readers_refl [simp]: "same_readers server ctx ctx"
  by (simp add: same_readers_def)

lemma same_readers_trans: "same_readers server a b \<Longrightarrow> same_readers server b c \<Longrightarrow> same_readers server a c"
  by (simp add: same_readers_def)

lemma handshake_done_readers: "handshake_done ctx st server = Done (ctx', st') \<Longrightarrow> same_readers server ctx ctx'"
  by (auto simp: handshake_done_def same_readers_def Let_def split: if_splits)

lemma handshake_header_readers: "handshake_header ctx st server data = Done (ctx', st', rest) \<Longrightarrow> ctx' = ctx"
  by (simp add: handshake_header_def Let_def split: if_split_asm)

lemma handshake_body_readers:
  "handshake_body ctx st server data = Done (ctx', st', rest) \<Longrightarrow> same_readers server ctx ctx'"
  unfolding handshake_body_def Let_def
  by (auto split: run.split_asm if_split_asm prod.split_asm dest: handshake_done_readers)

lemma handshake_loop_readers:
  "handshake_loop fuel ctx st server data = Done (ctx', st') \<Longrightarrow> same_readers server ctx ctx'"
proof (induction fuel ctx st server data rule: handshake_loop.induct)
  case (3 fuel ctx st server b bs)
  define res where "res = (if length (r_message st) < 4 then handshake_header ctx st server (b # bs)
      else handshake_body ctx st server (b # bs))"
  obtain ctx1 st1 rest where r: "res = Done (ctx1, st1, rest)"
    and l: "handshake_loop fuel ctx1 st1 server rest = Done (ctx', st')"
    using "3.prems" by (auto simp: res_def [symmetric] split: run.split_asm)
  have "same_readers server ctx ctx1"
    using r handshake_header_readers handshake_body_readers by (fastforce simp: res_def split: if_split_asm)
  moreover have "same_readers server ctx1 ctx'" using "3.IH" [folded res_def, OF r refl refl] l by simp
  ultimately show ?case by (rule same_readers_trans)
qed simp_all

lemma record_end_readers: "record_end ctx st server = (ctx', st') \<Longrightarrow> same_readers server ctx ctx'"
  by (auto simp: record_end_def same_readers_def Let_def split: if_splits)

lemma record_header_readers:
  "record_header ctx st server data = Done (ctx', st', rest) \<Longrightarrow> same_readers server ctx ctx'"
  unfolding record_header_def Let_def
  by (auto split: if_split_asm prod.split_asm dest: record_end_readers)

lemma record_body_readers:
  assumes "record_body ctx st server data = Done (ctx', st', rest)"
  shows "same_readers server ctx ctx'"
proof -
  let ?c = "if length data > record_left st then record_left st else length data"
  define res where "res = (if r_record st ! 0 = 22 then vision_tls_handshake ctx st server (take ?c data) else Done (ctx, st))"
  obtain ctx1 st1 where r: "res = Done (ctx1, st1)"
    using assms unfolding record_body_def Let_def res_def [symmetric] by (auto split: run.split_asm)
  have "same_readers server ctx ctx1"
    using r by (auto simp: res_def vision_tls_handshake_def split: if_split_asm dest: handshake_loop_readers)
  moreover have "same_readers server ctx1 ctx'"
    using assms unfolding record_body_def Let_def res_def [symmetric] r
    by (auto split: if_split_asm prod.split_asm dest: record_end_readers)
  ultimately show ?thesis by (rule same_readers_trans)
qed

lemma observe_loop_readers:
  "observe_loop fuel ctx st server data = Done (ctx', st') \<Longrightarrow> same_readers server ctx ctx'"
proof (induction fuel ctx st server data rule: observe_loop.induct)
  case (3 fuel ctx st server b bs)
  define res where "res = (if length (r_record st) < 5 then record_header ctx st server (b # bs)
      else record_body ctx st server (b # bs))"
  obtain ctx1 st1 rest where r: "res = Done (ctx1, st1, rest)"
    and l: "observe_loop fuel ctx1 st1 server rest = Done (ctx', st')"
    using "3.prems" by (auto simp: res_def [symmetric] split: run.split_asm)
  have "same_readers server ctx ctx1"
    using r record_header_readers record_body_readers by (fastforce simp: res_def split: if_split_asm)
  moreover have "same_readers server ctx1 ctx'" using "3.IH" [folded res_def, OF r refl refl] l by simp
  ultimately show ?case by (rule same_readers_trans)
qed simp_all

lemma reader_inv_last [simp]: "reader_inv server (st\<lparr>last_application := a\<rparr>) = reader_inv server st"
  by (simp add: reader_inv_def message_inv_def arrays_fit_def record_inv_def)

lemma vision_observe_tls_inv:
  assumes "observer_inv ctx"
  shows "\<exists>ctx'. vision_observe_tls ctx server data = Some ctx' \<and> observer_inv ctx'"
proof -
  define st where "st = (reader_of server ctx)\<lparr>last_application := False\<rparr>"
  define ctx0 where "ctx0 = set_reader server st ctx"
  have i: "reader_inv server st" using assms by (cases server) (simp_all add: st_def reader_of_def observer_inv_def)
  have put: "observer_inv (set_reader server s c)" if "reader_inv server s" "same_readers server ctx0 c" for s c
    using that assms by (cases server) (auto simp: ctx0_def set_reader_def observer_inv_def same_readers_def)
  have o0: "observer_inv ctx0" using put [OF i same_readers_refl] by (cases server) (simp_all add: ctx0_def set_reader_def)
  note pr = observe_loop_progress [OF i, of data "length data" ctx0]
  show ?thesis
  proof (cases "tls_disabled ctx \<or> data = []")
    case False
    show ?thesis
    proof (cases "observe_loop (length data) ctx0 st server data")
      case (Done p)
      obtain c s where p: "p = (c, s)" by (cases p)
      then have "reader_inv server s" "same_readers server ctx0 c" using pr Done observe_loop_readers by auto
      then show ?thesis using False put Done p
        by (simp add: vision_observe_tls_def Let_def st_def [symmetric] ctx0_def [symmetric])
    next
      case Reject
      have "observer_inv (ctx0\<lparr>tls_disabled := True\<rparr>)" using o0 by (simp add: observer_inv_def)
      then show ?thesis using False Reject
        by (simp add: vision_observe_tls_def Let_def st_def [symmetric] ctx0_def [symmetric])
    qed (use pr in simp)
  qed (use o0 in \<open>simp add: vision_observe_tls_def Let_def st_def [symmetric] ctx0_def [symmetric]\<close>)
qed

lemma vision_observe_tls_keeps:
  assumes "vision_observe_tls ctx server data = Some ctx'"
  shows "w_uuid ctx' = w_uuid ctx \<and> uuid_sent ctx' = uuid_sent ctx \<and> padding_active ctx' = padding_active ctx \<and>
     direct_sent ctx' = direct_sent ctx \<and> (\<not> server \<longrightarrow> server_hello_seen ctx' = server_hello_seen ctx)"
  using assms
  by (auto simp: vision_observe_tls_def Let_def set_reader_def same_readers_def
      split: if_split_asm run.split_asm dest!: observe_loop_readers)

lemma zero_reader_inv [simp]: "reader_inv server zero_reader"
  by (simp add: reader_inv_def message_inv_def record_inv_def arrays_fit_def zero_reader_def)

text \<open>
  Property C28.  Whatever both sides of the tunnelled connection send, in whatever chunks, the
  observer handles every chunk (its loops make progress with every iteration) and its reader
  never writes outside its four arrays (5, 4, 72 and 4 bytes).
\<close>

theorem observer_safe:
  assumes "client_tls ctx = zero_reader" and "server_tls ctx = zero_reader"
  shows "\<exists>ctx'. observe_all ctx chunks = Some ctx' \<and> arrays_fit (client_tls ctx') \<and> arrays_fit (server_tls ctx')"
proof -
  have "observer_inv c \<Longrightarrow> \<exists>c'. observe_all c chunks = Some c' \<and> observer_inv c'" for c
  proof (induction chunks arbitrary: c)
    case (Cons x chunks)
    obtain server data where x: "x = (server, data)" by (cases x)
    obtain c1 where c1: "vision_observe_tls c server data = Some c1" "observer_inv c1"
      using vision_observe_tls_inv [OF Cons.prems] by blast
    then show ?case using Cons.IH [OF c1(2)] by (simp add: x)
  qed simp
  moreover have "observer_inv ctx" using assms by (simp add: observer_inv_def)
  moreover have "observer_inv c \<Longrightarrow> arrays_fit (client_tls c) \<and> arrays_fit (server_tls c)" for c
    by (simp add: observer_inv_def reader_inv_def message_inv_def)
  ultimately show ?thesis by blast
qed

definition sample_wrap :: vision_wrap where
  "sample_wrap = \<lparr>w_uuid = replicate 16 7, uuid_sent = False, padding_active = True, packets_left = 8,
     bootstrap_sent = False, client_hello_seen = False, client_tls_app_records = 0, direct_sent = False,
     server_hello_seen = False, tls13_confirmed = False, tls_disabled = False, client_tls = zero_reader,
     server_tls = zero_reader\<rparr>"

theorem observer_safe_witness:
  "\<exists>ctx'. observe_all sample_wrap [(False, [22, 3, 1]), (True, [1, 2, 3])] = Some ctx' \<and>
     arrays_fit (client_tls ctx') \<and> arrays_fit (server_tls ctx')"
  by (rule observer_safe) (simp_all add: sample_wrap_def)

end
