(* ===== verification/Vision.thy ===== *)
theory Vision
  imports Vision_Observer Relay_Memory Core_Random C_Text
begin

text \<open>
  The padding of Vision, \<^verbatim>\<open>src/src/vision.c\<close>: the client wraps the first packets of a
  connection into blocks (the user id once, a command, two lengths, content, padding) until a
  block ends the padding, and unwraps the blocks of the server from whatever chunks arrive.
  Buffers come from the relay memory; the allocator, the random source and the environment
  variable that sets the number of padded packets are parameters.
\<close>

section \<open>Wrapping\<close>

abbreviation CMD_CONTINUE :: byte where "CMD_CONTINUE \<equiv> 0"
abbreviation CMD_END :: byte where "CMD_END \<equiv> 1"
abbreviation CMD_DIRECT :: byte where "CMD_DIRECT \<equiv> 2"

definition read_pad_packets_env :: "string option \<Rightarrow> int" where
  "read_pad_packets_env raw =
     (case raw of
        None \<Rightarrow> 8
      | Some s \<Rightarrow>
          if s = [] then 8
          else case strtol s of (v, rest) \<Rightarrow>
                 if strtol_range_error s \<or> rest = s \<or> rest \<noteq> [] then 8
                 else if v < 1 then 1
                 else if v > 32 then 32
                 else v)"

definition rand_u16_mod :: "random \<Rightarrow> nat \<Rightarrow> nat \<Rightarrow> nat option \<times> nat" where
  "rand_u16_mod rnd k modulus =
     (if modulus = 0 then (Some 0, k)
      else case core_random_range rnd k 0 (modulus - 1) of
             (None, k') \<Rightarrow> (None, k')
           | (Some v, k') \<Rightarrow> (Some (v mod 65536), k'))"

definition vision_padding_len :: "random \<Rightarrow> nat \<Rightarrow> nat \<Rightarrow> bool \<Rightarrow> nat option \<times> nat" where
  "vision_padding_len rnd k content_len long_padding =
     (if long_padding \<and> content_len < 900 then
        (case rand_u16_mod rnd k 500 of
           (None, k') \<Rightarrow> (None, k')
         | (Some extra, k') \<Rightarrow>
             let want = szsub (szadd 900 extra) content_len;
                 want1 = (if want \<ge> 2 ^ 63 then 0 else want);
                 want2 = (if want1 > 65535 then 65535 else want1)
             in (Some want2, k'))
      else rand_u16_mod rnd k 256)"

text \<open>
  The result, the context, the output buffer, the budgets and the position in the random source.
  The buffer that receives a block is empty when the function is called.
\<close>

type_synonym wrap_result = "bool \<times> vision_wrap \<times> relay_buffer \<times> budget_state \<times> nat"

definition vision_build_block ::
  "(nat \<Rightarrow> bool) \<Rightarrow> random \<Rightarrow> vision_wrap \<Rightarrow> byte \<Rightarrow> bytes \<Rightarrow> bool \<Rightarrow> relay_buffer \<Rightarrow> budget_state \<Rightarrow> nat \<Rightarrow> wrap_result" where
  "vision_build_block got rnd ctx command content long_padding out s k =
     (if length content > 65535 then (False, ctx, out, s, k)
      else case vision_padding_len rnd k (length content) long_padding of
        (None, k1) \<Rightarrow> (False, ctx, out, s, k1)
      | (Some padding, k1) \<Rightarrow>
          let prefix = (if uuid_sent ctx then [] else w_uuid ctx);
              total = length prefix + 1 + 2 + 2 + length content + padding
          in (case core_relay_buffer_reserve got s out total of (r, buf, s1) \<Rightarrow>
                if r \<noteq> 1 then (False, ctx, buf, s1, k1)
                else
                  let start = prefix @ [command] @ be16 (length content) @ be16 padding @ content
                  in (case (if padding > 0 then core_random_fill rnd k1 padding else (Some [], k1)) of
                        (None, k2) \<Rightarrow> (case core_relay_buffer_clear s1 buf of (b, s2) \<Rightarrow> (False, ctx, b, s2, k2))
                      | (Some pad, k2) \<Rightarrow>
                          (True, ctx\<lparr>uuid_sent := True\<rparr>, buf\<lparr>rb_data := start @ pad\<rparr>, s1, k2))))"

definition vision_wrap_init :: "string option \<Rightarrow> bytes \<Rightarrow> vision_wrap" where
  "vision_wrap_init env uuid =
     \<lparr>w_uuid = uuid, uuid_sent = False, padding_active = True, packets_left = read_pad_packets_env env,
      bootstrap_sent = False, client_hello_seen = False, client_tls_app_records = 0, direct_sent = False,
      server_hello_seen = False, tls13_confirmed = False, tls_disabled = False,
      client_tls = zero_reader, server_tls = zero_reader\<rparr>"

definition vision_wrap_bootstrap_buffer ::
  "(nat \<Rightarrow> bool) \<Rightarrow> random \<Rightarrow> vision_wrap \<Rightarrow> relay_buffer \<Rightarrow> budget_state \<Rightarrow> nat \<Rightarrow> wrap_result" where
  "vision_wrap_bootstrap_buffer got rnd ctx out s k =
     (case core_relay_buffer_clear s out of (out1, s1) \<Rightarrow>
        if \<not> padding_active ctx \<or> bootstrap_sent ctx then (True, ctx, out1, s1, k)
        else case vision_build_block got rnd ctx CMD_CONTINUE [] True out1 s1 k of (ok, ctx1, out2, s2, k1) \<Rightarrow>
               (ok, if ok then ctx1\<lparr>bootstrap_sent := True\<rparr> else ctx1, out2, s2, k1))"

text \<open>
  The command of a block: continue while the client is inside a TLS record or message or the
  padded packets are not used up, direct once both hellos passed with TLS 1.3 and the client sent
  application data, end otherwise.
\<close>

definition chunk_command :: "vision_wrap \<Rightarrow> vision_wrap \<Rightarrow> byte \<times> nat" where
  "chunk_command before after =
     (let complete = (if tls_disabled after then 1
                      else u32sub (records (client_tls after)) (records (client_tls before)));
          partial = (\<not> tls_disabled after \<and> (r_record (client_tls after) \<noteq> [] \<or> r_message (client_tls after) \<noteq> []));
          first = (if \<not> partial \<and> complete \<noteq> 0 \<and> int complete \<ge> packets_left after mod 2 ^ 32
                   then CMD_END else CMD_CONTINUE)
      in (if \<not> tls_disabled after \<and> client_hello_seen after \<and> server_hello_seen after \<and>
            last_application (client_tls after)
          then (if tls13_confirmed after then CMD_DIRECT else CMD_END) else first, complete))"

definition vision_wrap_chunk ::
  "(nat \<Rightarrow> bool) \<Rightarrow> random \<Rightarrow> vision_wrap \<Rightarrow> bytes \<Rightarrow> relay_buffer \<Rightarrow> budget_state \<Rightarrow> nat \<Rightarrow> wrap_result option" where
  "vision_wrap_chunk got rnd ctx inp out s k =
     (if inp = [] then Some (True, ctx, out, s, k)
      else if \<not> padding_active ctx then
        (case core_relay_buffer_append got s out inp of (ok, out1, s1) \<Rightarrow> Some (ok, ctx, out1, s1, k))
      else if length inp > 65535 then Some (False, ctx, out, s, k)
      else case vision_observe_tls ctx False inp of
        None \<Rightarrow> None
      | Some ctx1 \<Rightarrow>
          (case chunk_command ctx ctx1 of (command, complete) \<Rightarrow>
             (case vision_build_block got rnd ctx1 command inp (length inp < 900) out s k of
                (False, ctx2, out1, s1, k1) \<Rightarrow> Some (False, ctx2, out1, s1, k1)
              | (True, ctx2, out1, s1, k1) \<Rightarrow>
                  let left = (if int complete \<ge> packets_left ctx2 mod 2 ^ 32 then 0
                              else packets_left ctx2 - int complete)
                  in Some (True, ctx2\<lparr>packets_left := left,
                                      padding_active := (padding_active ctx2 \<and> command = CMD_CONTINUE),
                                      direct_sent := (direct_sent ctx2 \<or> command = CMD_DIRECT)\<rparr>, out1, s1, k1))))"

text \<open>
  A payload too long for one block is cut into blocks of 65535 bytes; what follows the block that
  ends the padding is one raw piece.
\<close>

function wrap_pieces ::
  "(nat \<Rightarrow> bool) \<Rightarrow> random \<Rightarrow> vision_wrap \<Rightarrow> bytes \<Rightarrow> relay_buffer \<Rightarrow> budget_state \<Rightarrow> nat \<Rightarrow> wrap_result option" where
  "wrap_pieces got rnd ctx inp out s k =
     (if inp = [] then Some (True, ctx, out, s, k)
      else
        let n = (if padding_active ctx \<and> length inp > 65535 then 65535 else length inp)
        in case vision_wrap_chunk got rnd ctx (take n inp) (empty_buffer (rb_memory out)) s k of
             None \<Rightarrow> None
           | Some (ok, ctx1, chunk, s1, k1) \<Rightarrow>
               let (ok2, out1, s2) = (if ok then core_relay_buffer_append got s1 out (rb_data chunk) else (False, out, s1));
                   s3 = snd (core_relay_buffer_clear s2 chunk)
               in if \<not> ok2 then (case core_relay_buffer_clear s3 out1 of (out2, s4) \<Rightarrow> Some (False, ctx1, out2, s4, k1))
                  else wrap_pieces got rnd ctx1 (drop n inp) out1 s3 k1)"
  by pat_completeness auto
termination
  by (relation "measure (\<lambda>(_, _, _, inp, _). length inp)") auto

definition vision_wrap_payload_buffer ::
  "(nat \<Rightarrow> bool) \<Rightarrow> random \<Rightarrow> vision_wrap \<Rightarrow> bytes \<Rightarrow> relay_buffer \<Rightarrow> budget_state \<Rightarrow> nat \<Rightarrow> wrap_result option" where
  "vision_wrap_payload_buffer got rnd ctx inp out s k =
     (case core_relay_buffer_clear s out of (out1, s1) \<Rightarrow>
        if length inp \<le> 65535 \<or> \<not> padding_active ctx then vision_wrap_chunk got rnd ctx inp out1 s1 k
        else wrap_pieces got rnd ctx inp out1 s1 k)"

definition vision_wrap_buffer_bound :: "nat \<Rightarrow> nat" where
  "vision_wrap_buffer_bound n =
     (if n \<le> 65535 then core_relay_capacity (n + 21 + (if n < 900 then 1399 - n else 255))
      else
        let parts = n div 65535 + (if n mod 65535 \<noteq> 0 then 1 else 0);
            tail = (n - 1) mod 65535 + 1
        in if parts > (SIZE_MAX - 16 - 1399) div 260 \<or> n > SIZE_MAX - 16 - 1399 - parts * 260 then SIZE_MAX
           else
             let whole = n + 16 + parts * 5 + (parts - 1) * 255 + (if tail < 900 then 1399 - tail else 255);
                 cap = core_relay_capacity whole;
                 chunk = core_relay_capacity (65535 + 21 + 255)
             in if cap > SIZE_MAX - cap div 2 \<or> cap + cap div 2 > SIZE_MAX - chunk then SIZE_MAX
                else cap + cap div 2 + chunk)"

section \<open>Unwrapping\<close>

record vision_unpad =
  u_uuid :: bytes
  remaining_command :: int
  remaining_content :: int
  remaining_padding :: int
  current_command :: byte
  completed_block :: bool
  stash :: relay_buffer

text \<open>\<open>mem\<close> is the budget of the stash.\<close>

definition vision_unpad_init :: "bytes \<Rightarrow> nat option \<Rightarrow> vision_unpad" where
  "vision_unpad_init uuid mem =
     \<lparr>u_uuid = uuid, remaining_command = -1, remaining_content = -1, remaining_padding = -1, current_command = 0,
      completed_block = False, stash = empty_buffer mem\<rparr>"

definition vision_unpad_complete :: "vision_unpad \<Rightarrow> bool" where
  "vision_unpad_complete c \<longleftrightarrow> rb_data (stash c) = [] \<and> remaining_content c \<le> 0 \<and> remaining_padding c \<le> 0 \<and>
     (remaining_command c = -1 \<or> remaining_command c = 5 \<and> completed_block c)"

definition vision_unpad_is_raw :: "vision_unpad \<Rightarrow> bool" where
  "vision_unpad_is_raw c \<longleftrightarrow> vision_unpad_complete c \<and> (current_command c = CMD_END \<or> current_command c = CMD_DIRECT)"

definition vision_unpad_buffer_bound :: "vision_unpad \<Rightarrow> nat \<Rightarrow> nat" where
  "vision_unpad_buffer_bound c n =
     (if n > SIZE_MAX - length (rb_data (stash c)) then SIZE_MAX
      else
        let cap = core_relay_capacity (n + length (rb_data (stash c)))
        in if cap > SIZE_MAX - cap div 2 \<or> cap + cap div 2 > SIZE_MAX - cap then SIZE_MAX
           else
             let processing = cap + cap + cap div 2
             in if rb_capacity (stash c) > cap then
                  (if rb_capacity (stash c) > SIZE_MAX - cap - cap div 2 then SIZE_MAX
                   else rb_capacity (stash c) + cap + cap div 2)
                else if rb_capacity (stash c) > cap div 2 then max processing (rb_capacity (stash c) + cap)
                else processing)"

definition vision_unpad_free :: "budget_state \<Rightarrow> vision_unpad \<Rightarrow> vision_unpad \<times> budget_state" where
  "vision_unpad_free s c = (case core_relay_buffer_clear s (stash c) of (b, t) \<Rightarrow> (c\<lparr>stash := b\<rparr>, t))"

text \<open>One byte of a block's header.\<close>

definition header_byte :: "vision_unpad \<Rightarrow> byte \<Rightarrow> vision_unpad" where
  "header_byte c b =
     (let v = int (unat b); rc = remaining_command c;
          c1 = (if rc = 5 then c\<lparr>current_command := b\<rparr>
                else if rc = 4 then c\<lparr>remaining_content := v * 256\<rparr>
                else if rc = 3 then c\<lparr>remaining_content := remaining_content c + v\<rparr>
                else if rc = 2 then c\<lparr>remaining_padding := v * 256\<rparr>
                else if rc = 1 then c\<lparr>remaining_padding := remaining_padding c + v\<rparr>
                else c)
      in c1\<lparr>remaining_command := rc - 1\<rparr>)"

fun read_command :: "vision_unpad \<Rightarrow> bytes \<Rightarrow> vision_unpad \<times> bytes" where
  "read_command c [] = (c, [])"
| "read_command c (b # bs) =
     (if remaining_command c > 0 then read_command (header_byte c b) bs else (c, b # bs))"

text \<open>How an iteration over the stash goes on, with the bytes it has not consumed.\<close>

datatype flow = Again | Stop | Fail

type_synonym unpad_state = "vision_unpad \<times> bytes \<times> relay_buffer \<times> bool \<times> budget_state"

definition unpad_append ::
  "(nat \<Rightarrow> bool) \<Rightarrow> bytes \<Rightarrow> relay_buffer \<Rightarrow> budget_state \<Rightarrow> bool \<times> relay_buffer \<times> budget_state" where
  "unpad_append got xs out s =
     (case core_relay_buffer_append got s out xs of (ok, o1, s1) \<Rightarrow>
        if ok then (True, o1, s1) else (case core_relay_buffer_clear s1 o1 of (o2, s2) \<Rightarrow> (False, o2, s2)))"

text \<open>The end of a block: another header, or raw data from here on.\<close>

definition block_end :: "(nat \<Rightarrow> bool) \<Rightarrow> unpad_state \<Rightarrow> flow \<times> unpad_state" where
  "block_end got st =
     (case st of (c, r, out, direct, s) \<Rightarrow>
        if remaining_command c \<le> 0 \<and> remaining_content c \<le> 0 \<and> remaining_padding c \<le> 0 then
          let c1 = c\<lparr>completed_block := True\<rparr>
          in if current_command c = CMD_CONTINUE then
               (Again, c1\<lparr>remaining_command := 5, remaining_content := 0, remaining_padding := 0\<rparr>, r, out, direct, s)
             else
               let d1 = (direct \<or> current_command c = CMD_DIRECT);
                   c2 = c1\<lparr>remaining_command := -1, remaining_content := -1, remaining_padding := -1\<rparr>
               in if r = [] then (Stop, c2, [], out, d1, s)
                  else (case unpad_append got r out s of (ok, o1, s1) \<Rightarrow>
                          if ok then (Stop, c2, [], o1, d1, s1) else (Fail, c2, r, o1, d1, s1))
        else (Again, c, r, out, direct, s))"

definition block_padding :: "unpad_state \<Rightarrow> unpad_state" where
  "block_padding st =
     (case st of (c, r, out, direct, s) \<Rightarrow>
        if remaining_content c = 0 \<and> remaining_padding c > 0 then
          let skip = min (length r) (nat (remaining_padding c))
          in (c\<lparr>remaining_padding := remaining_padding c - int skip\<rparr>, drop skip r, out, direct, s)
        else st)"

definition block_body :: "(nat \<Rightarrow> bool) \<Rightarrow> unpad_state \<Rightarrow> flow \<times> unpad_state" where
  "block_body got st =
     (case st of (c, r, out, direct, s) \<Rightarrow>
        if remaining_content c > 0 then
          let n = min (length r) (nat (remaining_content c))
          in (case unpad_append got (take n r) out s of (ok, o1, s1) \<Rightarrow>
                if \<not> ok then (Fail, c, r, o1, direct, s1)
                else block_end got (block_padding
                  (c\<lparr>remaining_content := remaining_content c - int n\<rparr>, drop n r, o1, direct, s1)))
        else block_end got (block_padding st))"

definition unpad_block :: "(nat \<Rightarrow> bool) \<Rightarrow> unpad_state \<Rightarrow> flow \<times> unpad_state" where
  "unpad_block got st =
     (case st of (c, r, out, direct, s) \<Rightarrow>
        (case read_command c r of (c1, r1) \<Rightarrow>
           if remaining_command c1 > 0 then (Stop, c1, r1, out, direct, s)
           else block_body got (c1, r1, out, direct, s)))"

text \<open>One iteration: the search for the user id between connections' blocks, then the block.\<close>

definition unpad_iteration :: "(nat \<Rightarrow> bool) \<Rightarrow> unpad_state \<Rightarrow> flow \<times> unpad_state" where
  "unpad_iteration got st =
     (case st of (c, r, out, direct, s) \<Rightarrow>
        if remaining_command c = -1 \<and> remaining_content c = -1 \<and> remaining_padding c = -1 then
          let ended = (current_command c = CMD_END \<or> current_command c = CMD_DIRECT)
          in if \<not> ended \<and> length r < 16 \<and> r = take (length r) (u_uuid c) then (Stop, st)
             else if ended \<or> length r < 16 \<or> take 16 r \<noteq> u_uuid c then
               (case unpad_append got r out s of (ok, o1, s1) \<Rightarrow>
                  if ok then (Stop, c, [], o1, direct, s1) else (Fail, c, r, o1, direct, s1))
             else unpad_block got (c\<lparr>remaining_command := 5, remaining_content := 0, remaining_padding := 0,
                                     current_command := 0\<rparr>, drop 16 r, out, direct, s)
        else unpad_block got st)"

text \<open>
  The loop over the stash; the result says whether the call succeeds.  Every iteration but the
  last consumes input, so the length of the stash is enough fuel.
\<close>

fun unpad_loop :: "(nat \<Rightarrow> bool) \<Rightarrow> nat \<Rightarrow> unpad_state \<Rightarrow> (bool \<times> unpad_state) option" where
  "unpad_loop got fuel (c, [], out, direct, s) = Some (True, c, [], out, direct, s)"
| "unpad_loop got 0 (c, b # bs, out, direct, s) = None"
| "unpad_loop got (Suc fuel) (c, b # bs, out, direct, s) =
     (case unpad_iteration got (c, b # bs, out, direct, s) of
        (Fail, st) \<Rightarrow> Some (False, st)
      | (Stop, st) \<Rightarrow> Some (True, st)
      | (Again, st) \<Rightarrow> unpad_loop got fuel st)"

definition vision_unpad_feed_buffer ::
  "(nat \<Rightarrow> bool) \<Rightarrow> vision_unpad \<Rightarrow> bytes \<Rightarrow> relay_buffer \<Rightarrow> budget_state \<Rightarrow>
     (bool \<times> vision_unpad \<times> relay_buffer \<times> bool \<times> budget_state) option" where
  "vision_unpad_feed_buffer got c inp out s =
     (case core_relay_buffer_clear s out of (out1, s1) \<Rightarrow>
        case (if inp \<noteq> [] then core_relay_buffer_append got s1 (stash c) inp else (True, stash c, s1)) of (ok, st1, s2) \<Rightarrow>
          let c1 = c\<lparr>stash := st1\<rparr>
          in if \<not> ok then Some (False, c1, out1, False, s2)
             else case unpad_loop got (length (rb_data st1)) (c1, rb_data st1, out1, False, s2) of
               None \<Rightarrow> None
             | Some (False, c2, r, out2, direct, s3) \<Rightarrow> Some (False, c2, out2, direct, s3)
             | Some (True, c2, r, out2, direct, s3) \<Rightarrow>
                 let c3 = c2\<lparr>stash := (stash c2)\<lparr>rb_data := r\<rparr>\<rparr>
                 in if rb_memory (stash c3) \<noteq> None \<and> r = [] then
                      (case vision_unpad_free s3 c3 of (c4, s4) \<Rightarrow> Some (True, c4, out2, direct, s4))
                    else Some (True, c3, out2, direct, s3))"

text \<open>The variants that allocate the result themselves, for the callers without relay memory.\<close>

definition vision_unpad_feed ::
  "(nat \<Rightarrow> bool) \<Rightarrow> vision_unpad \<Rightarrow> bytes \<Rightarrow> budget_state \<Rightarrow> (bool \<times> vision_unpad \<times> bytes \<times> bool \<times> budget_state) option" where
  "vision_unpad_feed got c inp s =
     (case vision_unpad_feed_buffer got c inp (empty_buffer None) s of
        None \<Rightarrow> None
      | Some (ok, c1, out, direct, s1) \<Rightarrow>
          let out1 = (if ok then out else fst (core_relay_buffer_clear s1 out))
          in Some (ok, c1, rb_data out1, direct, s1))"

definition vision_wrap_bootstrap ::
  "(nat \<Rightarrow> bool) \<Rightarrow> random \<Rightarrow> vision_wrap \<Rightarrow> budget_state \<Rightarrow> nat \<Rightarrow> bool \<times> vision_wrap \<times> bytes \<times> budget_state \<times> nat" where
  "vision_wrap_bootstrap got rnd ctx s k =
     (case vision_wrap_bootstrap_buffer got rnd ctx (empty_buffer None) s k of (ok, ctx1, out, s1, k1) \<Rightarrow>
        let out1 = (if ok then out else fst (core_relay_buffer_clear s1 out))
        in (ok, ctx1, rb_data out1, s1, k1))"

definition vision_wrap_payload ::
  "(nat \<Rightarrow> bool) \<Rightarrow> random \<Rightarrow> vision_wrap \<Rightarrow> bytes \<Rightarrow> budget_state \<Rightarrow> nat \<Rightarrow>
     (bool \<times> vision_wrap \<times> bytes \<times> budget_state \<times> nat) option" where
  "vision_wrap_payload got rnd ctx inp s k =
     (case vision_wrap_payload_buffer got rnd ctx inp (empty_buffer None) s k of
        None \<Rightarrow> None
      | Some (ok, ctx1, out, s1, k1) \<Rightarrow>
          let out1 = (if ok then out else fst (core_relay_buffer_clear s1 out))
          in Some (ok, ctx1, rb_data out1, s1, k1))"

section \<open>What a padded stream means\<close>

text \<open>
  The abstract reader of a padded stream, one byte at a time: matching the user id, inside a
  header (with the fields read so far), inside a block, after the last block, or lost when the
  stream does not start with the user id or a block has an unknown command.
\<close>

datatype pad_state = Matching nat | Header nat byte nat nat | Content byte nat nat | Raw | Lost

definition after_block :: "byte \<Rightarrow> pad_state" where
  "after_block cmd = (if cmd = CMD_CONTINUE then Header 5 0 0 0
     else if cmd = CMD_END \<or> cmd = CMD_DIRECT then Raw else Lost)"

definition enter_block :: "byte \<Rightarrow> nat \<Rightarrow> nat \<Rightarrow> pad_state" where
  "enter_block cmd ct pd = (if ct = 0 \<and> pd = 0 then after_block cmd else Content cmd ct pd)"

definition header_step :: "nat \<Rightarrow> byte \<Rightarrow> nat \<Rightarrow> nat \<Rightarrow> byte \<Rightarrow> pad_state" where
  "header_step rc cmd ct pd b =
     (if rc = 5 then Header 4 b ct pd
      else if rc = 4 then Header 3 cmd (unat b * 256) pd
      else if rc = 3 then Header 2 cmd (ct + unat b) pd
      else if rc = 2 then Header 1 cmd ct (unat b * 256)
      else enter_block cmd ct (pd + unat b))"

fun pad_step :: "bytes \<Rightarrow> pad_state \<Rightarrow> byte \<Rightarrow> pad_state \<times> bytes" where
  "pad_step uuid (Matching k) b =
     (if b \<noteq> uuid ! k then Lost else if k = 15 then Header 5 0 0 0 else Matching (k + 1), [])"
| "pad_step uuid (Header rc cmd ct pd) b = (header_step rc cmd ct pd b, [])"
| "pad_step uuid (Content cmd ct pd) b =
     (if ct > 0 then (enter_block cmd (ct - 1) pd, [b]) else (enter_block cmd 0 (pd - 1), []))"
| "pad_step uuid Raw b = (Raw, [b])"
| "pad_step uuid Lost b = (Lost, [])"

fun pad_run :: "bytes \<Rightarrow> pad_state \<Rightarrow> bytes \<Rightarrow> pad_state \<times> bytes" where
  "pad_run uuid a [] = (a, [])"
| "pad_run uuid a (b # bs) =
     (case pad_step uuid a b of (a1, o1) \<Rightarrow> case pad_run uuid a1 bs of (a2, o2) \<Rightarrow> (a2, o1 @ o2))"

lemma pad_run_append:
  "pad_run uuid a (xs @ ys) =
     (case pad_run uuid a xs of (a1, o1) \<Rightarrow> case pad_run uuid a1 ys of (a2, o2) \<Rightarrow> (a2, o1 @ o2))"
  by (induction xs arbitrary: a) (auto split: prod.splits)

lemma pad_run_Lost [simp]: "pad_run uuid Lost xs = (Lost, [])"
  by (induction xs) auto

lemma pad_run_Raw [simp]: "pad_run uuid Raw xs = (Raw, xs)"
  by (induction xs) auto

text \<open>A run that does not get lost has not been lost before.\<close>

lemma pad_run_not_lost: "fst (pad_run uuid a (xs @ ys)) \<noteq> Lost \<Longrightarrow> fst (pad_run uuid a xs) \<noteq> Lost"
  by (auto simp: pad_run_append split: prod.splits)

lemma pad_run_matching:
  assumes "length uuid = 16"
  shows "k < 16 \<Longrightarrow> length xs \<le> 16 - k \<Longrightarrow> xs = take (length xs) (drop k uuid) \<Longrightarrow>
     pad_run uuid (Matching k) xs = (if k + length xs = 16 then Header 5 0 0 0 else Matching (k + length xs), [])"
proof (induction xs arbitrary: k)
  case (Cons x xs)
  have d: "drop k uuid = uuid ! k # drop (Suc k) uuid" using Cons.prems(1) assms by (simp add: Cons_nth_drop_Suc)
  have "x # xs = take (Suc (length xs)) (uuid ! k # drop (Suc k) uuid)"
    using Cons.prems(3) unfolding d by (simp only: length_Cons)
  then have x: "x = uuid ! k" and rest: "xs = take (length xs) (drop (Suc k) uuid)"
    by (simp_all only: take_Suc_Cons list.inject)
  show ?case
  proof (cases "k = 15")
    case True
    then have "xs = []" using Cons.prems(2) by simp
    then show ?thesis using True x by simp
  next
    case False
    have "Suc k < 16" "length xs \<le> 16 - Suc k" using Cons.prems(1,2) False by simp_all
    from Cons.IH [OF this rest] show ?thesis using False x by simp
  qed
qed simp

lemma pad_run_mismatch:
  assumes "length uuid = 16"
  shows "k < 16 \<Longrightarrow> length xs \<le> 16 - k \<Longrightarrow> xs \<noteq> take (length xs) (drop k uuid) \<Longrightarrow>
     pad_run uuid (Matching k) xs = (Lost, [])"
proof (induction xs arbitrary: k)
  case (Cons x xs)
  have d: "drop k uuid = uuid ! k # drop (Suc k) uuid" using Cons.prems(1) assms by (simp add: Cons_nth_drop_Suc)
  show ?case
  proof (cases "x = uuid ! k \<and> k \<noteq> 15")
    case True
    have "x # xs \<noteq> take (Suc (length xs)) (uuid ! k # drop (Suc k) uuid)"
      using Cons.prems(3) unfolding d by (simp only: length_Cons not_False_eq_True)
    then have "xs \<noteq> take (length xs) (drop (Suc k) uuid)" using True by (simp only: take_Suc_Cons) blast
    moreover have "Suc k < 16" "length xs \<le> 16 - Suc k" using Cons.prems(1,2) True by simp_all
    ultimately show ?thesis using Cons.IH [of "Suc k"] True by simp
  next
    case False
    have "x \<noteq> uuid ! k"
    proof
      assume x: "x = uuid ! k"
      then have "xs = []" using False Cons.prems(2) by simp
      then show False using Cons.prems(3) x unfolding d by simp
    qed
    then show ?thesis by simp
  qed
qed simp

text \<open>Content is passed on and padding is dropped.\<close>

lemma pad_run_content:
  "length xs \<le> ct \<Longrightarrow> pad_run uuid (enter_block cmd ct pd) xs = (enter_block cmd (ct - length xs) pd, xs)"
proof (induction xs arbitrary: ct)
  case (Cons x xs)
  then have "0 < ct" by auto
  then show ?case using Cons.IH [of "ct - 1"] Cons.prems by (simp add: enter_block_def)
qed simp

lemma pad_run_padding:
  "length xs \<le> pd \<Longrightarrow> pad_run uuid (enter_block cmd 0 pd) xs = (enter_block cmd 0 (pd - length xs), [])"
proof (induction xs arbitrary: pd)
  case (Cons x xs)
  then have "0 < pd" by auto
  then show ?case using Cons.IH [of "pd - 1"] Cons.prems by (simp add: enter_block_def)
qed simp

section \<open>The reader of chunks refines the reader of bytes\<close>

definition unpad_idle :: "vision_unpad \<Rightarrow> bool" where
  "unpad_idle c \<longleftrightarrow> remaining_command c = -1 \<and> remaining_content c = -1 \<and> remaining_padding c = -1"

definition unpad_rel :: "vision_unpad \<Rightarrow> pad_state \<Rightarrow> bool" where
  "unpad_rel c a \<longleftrightarrow>
     (case a of
        Matching k \<Rightarrow> k = 0 \<and> unpad_idle c \<and> current_command c = 0
      | Header rc cmd ct pd \<Rightarrow> 0 < rc \<and> rc \<le> 5 \<and> remaining_command c = int rc \<and> current_command c = cmd \<and>
          remaining_content c = int ct \<and> remaining_padding c = int pd
      | Content cmd ct pd \<Rightarrow> (0 < ct \<or> 0 < pd) \<and> remaining_command c = 0 \<and> current_command c = cmd \<and>
          remaining_content c = int ct \<and> remaining_padding c = int pd
      | Raw \<Rightarrow> unpad_idle c \<and> (current_command c = CMD_END \<or> current_command c = CMD_DIRECT)
      | Lost \<Rightarrow> False)"

text \<open>Inside a block whose header is complete, before the check for its end.\<close>

definition unpad_open :: "vision_unpad \<Rightarrow> byte \<Rightarrow> nat \<Rightarrow> nat \<Rightarrow> bool" where
  "unpad_open c cmd ct pd \<longleftrightarrow> remaining_command c = 0 \<and> current_command c = cmd \<and>
     remaining_content c = int ct \<and> remaining_padding c = int pd"

text \<open>
  What a step over the unread bytes achieves: it has consumed a prefix of them as the abstract
  reader would, passed on that reader's output, and is related to its state; it asks for another
  iteration only after consuming at least \<open>n\<close> bytes, and stops with nothing unread except an unfinished user id.
\<close>

definition unpad_spec :: "nat \<Rightarrow> relay_buffer \<Rightarrow> bytes \<Rightarrow> pad_state \<Rightarrow> bytes \<Rightarrow> relay_buffer \<Rightarrow> flow \<times> unpad_state \<Rightarrow> bool" where
  "unpad_spec n st uuid a r out res \<longleftrightarrow>
     (case res of (f, c', r', out', direct', s') \<Rightarrow>
        u_uuid c' = uuid \<and> stash c' = st \<and>
        (f \<noteq> Fail \<longrightarrow>
          (\<exists>used a1 o1. r = used @ r' \<and> pad_run uuid a used = (a1, o1) \<and> rb_data out' = rb_data out @ o1 \<and>
             unpad_rel c' a1 \<and> (f = Again \<longrightarrow> n \<le> length used) \<and>
             (f = Stop \<longrightarrow> r' = [] \<or> a1 = Matching 0 \<and> length r' < 16 \<and> r' = take (length r') uuid))))"

lemma unpad_append_contents:
  "unpad_append got xs out s = (True, out', s') \<Longrightarrow> rb_data out' = rb_data out @ xs"
  by (auto simp: unpad_append_def split: prod.split_asm if_split_asm dest: relay.append_ok)

text \<open>Prefixing a step by bytes the abstract reader has already consumed.\<close>

lemma unpad_spec_extend:
  assumes "pad_run uuid a xs = (a1, o1)" and "rb_data out1 = rb_data out @ o1" and "unpad_spec n st uuid a1 r out1 res"
  shows "unpad_spec (length xs + n) st uuid a (xs @ r) out res"
proof -
  obtain f c' r' out' d' s' where res: "res = (f, c', r', out', d', s')" by (metis prod.exhaust)
  have u: "u_uuid c' = uuid" "stash c' = st" using assms(3) by (simp_all add: unpad_spec_def res)
  show ?thesis
  proof (cases "f = Fail")
    case False
    then obtain used a2 o2 where h: "r = used @ r'" "pad_run uuid a1 used = (a2, o2)" "rb_data out' = rb_data out1 @ o2"
      "unpad_rel c' a2" "f = Again \<longrightarrow> n \<le> length used" "f = Stop \<longrightarrow> r' = [] \<or> a2 = Matching 0 \<and> length r' < 16 \<and> r' = take (length r') uuid"
      using assms(3) by (auto simp: unpad_spec_def res)
    have "pad_run uuid a (xs @ used) = (a2, o1 @ o2)" using assms(1) h(2) by (simp add: pad_run_append)
    then show ?thesis
      unfolding unpad_spec_def res prod.case using u h assms(2)
      by (intro conjI impI exI [of _ "xs @ used"] exI [of _ a2] exI [of _ "o1 @ o2"]) simp_all
  qed (use u in \<open>simp add: unpad_spec_def res\<close>)
qed

lemma block_end_spec:
  assumes open': "unpad_open c cmd ct pd" and uuid: "u_uuid c = uuid"
    and alive: "fst (pad_run uuid (enter_block cmd ct pd) r) \<noteq> Lost"
  shows "unpad_spec 0 (stash c) uuid (enter_block cmd ct pd) r out (block_end got (c, r, out, direct, s))"
proof (cases "ct = 0 \<and> pd = 0")
  case False
  then have eq: "block_end got (c, r, out, direct, s) = (Again, c, r, out, direct, s)"
    using open' by (auto simp: block_end_def unpad_open_def)
  have "unpad_rel c (enter_block cmd ct pd)"
    using False open' by (auto simp: unpad_rel_def enter_block_def unpad_open_def)
  then show ?thesis
    unfolding eq unpad_spec_def prod.case using uuid
    by (intro conjI impI exI [of _ "[]"] exI [of _ "enter_block cmd ct pd"]) simp_all
next
  case True
  then have a: "enter_block cmd ct pd = after_block cmd" by (simp add: enter_block_def)
  have zero: "remaining_command c \<le> 0 \<and> remaining_content c \<le> 0 \<and> remaining_padding c \<le> 0"
    and cmd: "current_command c = cmd" using open' True by (auto simp: unpad_open_def)
  show ?thesis
  proof (cases "cmd = CMD_CONTINUE")
    case cont: True
    let ?c = "c\<lparr>completed_block := True, remaining_command := 5, remaining_content := 0, remaining_padding := 0\<rparr>"
    have eq: "block_end got (c, r, out, direct, s) = (Again, ?c, r, out, direct, s)"
      using zero cmd cont by (simp add: block_end_def Let_def)
    have "unpad_rel ?c (Header 5 0 0 0)" using cmd cont by (simp add: unpad_rel_def)
    then show ?thesis
      unfolding eq a unpad_spec_def prod.case using uuid cont
      by (intro conjI impI exI [of _ "[]"] exI [of _ "Header 5 0 0 0"]) (simp_all add: after_block_def)
  next
    case False
    then have raw: "after_block cmd = Raw" and end': "cmd = CMD_END \<or> cmd = CMD_DIRECT"
      using alive a by (auto simp: after_block_def split: if_splits)
    let ?c = "c\<lparr>completed_block := True, remaining_command := -1, remaining_content := -1, remaining_padding := -1\<rparr>"
    let ?d = "direct \<or> cmd = CMD_DIRECT"
    obtain ok o1 s1 where ap: "unpad_append got r out s = (ok, o1, s1)" by (metis prod_cases3)
    have eq: "block_end got (c, r, out, direct, s) =
        (if r = [] then (Stop, ?c, [], out, ?d, s)
         else if ok then (Stop, ?c, [], o1, ?d, s1) else (Fail, ?c, r, o1, ?d, s1))"
      using zero cmd False by (simp add: block_end_def Let_def ap)
    have rel: "unpad_rel ?c Raw" using cmd end' by (simp add: unpad_rel_def unpad_idle_def)
    have "rb_data o1 = rb_data out @ r" if ok using ap that unpad_append_contents by simp
    then show ?thesis
      unfolding a raw eq using rel uuid by (auto simp: unpad_spec_def)
  qed
qed

lemma block_padding_spec:
  assumes open': "unpad_open c cmd ct pd" and uuid: "u_uuid c = uuid"
    and alive: "fst (pad_run uuid (enter_block cmd ct pd) r) \<noteq> Lost"
  shows "unpad_spec (if ct = 0 then min (length r) pd else 0) (stash c) uuid (enter_block cmd ct pd) r out
     (block_end got (block_padding (c, r, out, direct, s)))"
proof (cases "ct = 0 \<and> pd > 0")
  case False
  then have "block_padding (c, r, out, direct, s) = (c, r, out, direct, s)"
    using open' by (auto simp: block_padding_def unpad_open_def)
  moreover have "(if ct = 0 then min (length r) pd else 0) = 0" using False by auto
  ultimately show ?thesis using block_end_spec [OF open' uuid alive] by (simp only:)
next
  case True
  define n where "n = min (length r) pd"
  let ?c = "c\<lparr>remaining_padding := remaining_padding c - int n\<rparr>"
  have eq: "block_padding (c, r, out, direct, s) = (?c, drop n r, out, direct, s)"
    using True open' by (simp add: block_padding_def unpad_open_def n_def Let_def)
  have o: "unpad_open ?c cmd 0 (pd - n)" using open' True by (simp add: unpad_open_def n_def)
  have run: "pad_run uuid (enter_block cmd 0 pd) (take n r) = (enter_block cmd 0 (pd - n), [])"
    using pad_run_padding [of "take n r" pd] by (simp add: n_def min_def)
  have split: "take n r @ drop n r = r" by simp
  have "fst (pad_run uuid (enter_block cmd 0 (pd - n)) (drop n r)) \<noteq> Lost"
    using alive True run pad_run_append [of uuid "enter_block cmd 0 pd" "take n r" "drop n r"]
    by (simp add: split: prod.splits)
  from block_end_spec [OF o _ this, of out got direct s]
  have e: "unpad_spec 0 (stash c) uuid (enter_block cmd 0 (pd - n)) (drop n r) out (block_end got (?c, drop n r, out, direct, s))"
    using uuid by simp
  have "unpad_spec (length (take n r) + 0) (stash c) uuid (enter_block cmd 0 pd) (take n r @ drop n r) out
      (block_end got (?c, drop n r, out, direct, s))"
    by (rule unpad_spec_extend [OF run _ e]) simp
  then show ?thesis using True by (simp add: eq n_def)
qed

lemma unpad_spec_fail:
  "u_uuid c = uuid \<Longrightarrow> stash c = st \<Longrightarrow> unpad_spec n st uuid a r out (Fail, c, r', out', d, s)"
  by (simp add: unpad_spec_def)

lemma unpad_spec_mono: "unpad_spec m st uuid a r out res \<Longrightarrow> n \<le> m \<Longrightarrow> unpad_spec n st uuid a r out res"
  by (auto simp: unpad_spec_def split: prod.splits)

lemma block_body_spec:
  assumes open': "unpad_open c cmd ct pd" and uuid: "u_uuid c = uuid"
    and alive: "fst (pad_run uuid (enter_block cmd ct pd) r) \<noteq> Lost"
  shows "unpad_spec (min (length r) (if ct = 0 then pd else ct)) (stash c) uuid (enter_block cmd ct pd) r out
     (block_body got (c, r, out, direct, s))"
proof (cases "ct = 0")
  case True
  then have "block_body got (c, r, out, direct, s) = block_end got (block_padding (c, r, out, direct, s))"
    using open' by (simp add: block_body_def unpad_open_def)
  then show ?thesis using block_padding_spec [OF open' uuid alive, of out got direct s] True by simp
next
  case False
  define n where "n = min (length r) ct"
  let ?c = "c\<lparr>remaining_content := remaining_content c - int n\<rparr>"
  obtain ok o1 s1 where ap: "unpad_append got (take n r) out s = (ok, o1, s1)" by (metis prod_cases3)
  have eq: "block_body got (c, r, out, direct, s) = (if \<not> ok then (Fail, c, r, o1, direct, s1)
      else block_end got (block_padding (?c, drop n r, o1, direct, s1)))"
    using False open' ap by (simp add: block_body_def unpad_open_def n_def [symmetric] Let_def)
  show ?thesis
  proof (cases ok)
    case no: False
    then show ?thesis using uuid by (simp add: eq unpad_spec_fail)
  next
    case True
    have o: "unpad_open ?c cmd (ct - n) pd" using open' by (simp add: unpad_open_def n_def)
    have run: "pad_run uuid (enter_block cmd ct pd) (take n r) = (enter_block cmd (ct - n) pd, take n r)"
      using pad_run_content [of "take n r" ct] by (simp add: n_def min_def)
    have "fst (pad_run uuid (enter_block cmd (ct - n) pd) (drop n r)) \<noteq> Lost"
      using alive run pad_run_append [of uuid "enter_block cmd ct pd" "take n r" "drop n r"]
      by (simp add: split: prod.splits)
    from block_padding_spec [OF o _ this, of o1 got direct s1] uuid
    have e: "unpad_spec (if ct - n = 0 then min (length (drop n r)) pd else 0) (stash c) uuid
        (enter_block cmd (ct - n) pd) (drop n r) o1 (block_end got (block_padding (?c, drop n r, o1, direct, s1)))" by simp
    have "rb_data o1 = rb_data out @ take n r" using ap True unpad_append_contents by simp
    from unpad_spec_extend [OF run this e] show ?thesis
      using True False by (simp add: eq n_def) (erule unpad_spec_mono, simp)
  qed
qed

lemma read_command_spec:
  "unpad_rel c (Header rc cmd ct pd) \<Longrightarrow> read_command c r = (c1, r1) \<Longrightarrow>
   \<exists>used. r = used @ r1 \<and> length used = min (length r) rc \<and> u_uuid c1 = u_uuid c \<and> stash c1 = stash c \<and>
     ((\<exists>cmd' ct' pd'. unpad_open c1 cmd' ct' pd' \<and> pad_run uuid (Header rc cmd ct pd) used = (enter_block cmd' ct' pd', []))
      \<or> r1 = [] \<and> remaining_command c1 > 0 \<and> (\<exists>a1. pad_run uuid (Header rc cmd ct pd) used = (a1, []) \<and> unpad_rel c1 a1))"
proof (induction r arbitrary: c rc cmd ct pd)
  case Nil
  then show ?case by (auto simp: unpad_rel_def intro!: exI [of _ "Header rc cmd ct pd"])
next
  case (Cons b bs)
  have rc: "0 < rc" "rc \<le> 5" "remaining_command c = int rc" "current_command c = cmd"
    "remaining_content c = int ct" "remaining_padding c = int pd" using Cons.prems(1) by (simp_all add: unpad_rel_def)
  let ?c = "header_byte c b"
  have rec: "read_command ?c bs = (c1, r1)" using Cons.prems(2) rc by simp
  have frame: "u_uuid ?c = u_uuid c" "stash ?c = stash c" by (simp_all add: header_byte_def Let_def)
  show ?case
  proof (cases "rc = 1")
    case True
    have o: "unpad_open ?c cmd ct (pd + unat b)" using rc True by (simp add: unpad_open_def header_byte_def Let_def)
    then have "read_command ?c bs = (?c, bs)" by (cases bs) (simp_all add: unpad_open_def)
    then have "c1 = ?c" "r1 = bs" using rec by simp_all
    then show ?thesis
      using True o frame by (intro exI [of _ "[b]"]) (auto simp: header_step_def)
  next
    case False
    obtain cmd' ct' pd' where h: "header_step rc cmd ct pd b = Header (rc - 1) cmd' ct' pd'"
      and rel: "unpad_rel ?c (Header (rc - 1) cmd' ct' pd')"
    proof -
      from rc False have "rc = 5 \<or> rc = 4 \<or> rc = 3 \<or> rc = 2" by auto
      then show thesis
        using that rc by (elim disjE) (force simp: header_step_def header_byte_def Let_def unpad_rel_def)+
    qed
    from Cons.IH [OF rel rec] obtain used where "bs = used @ r1" "length used = min (length bs) (rc - 1)"
      "u_uuid c1 = u_uuid c" "stash c1 = stash c"
      "(\<exists>cmd'' ct'' pd''. unpad_open c1 cmd'' ct'' pd'' \<and>
          pad_run uuid (Header (rc - 1) cmd' ct' pd') used = (enter_block cmd'' ct'' pd'', []))
       \<or> r1 = [] \<and> remaining_command c1 > 0 \<and>
          (\<exists>a1. pad_run uuid (Header (rc - 1) cmd' ct' pd') used = (a1, []) \<and> unpad_rel c1 a1)"
      unfolding frame by blast
    then show ?thesis using h rc(1) by (intro exI [of _ "b # used"]) auto
  qed
qed

lemma unpad_block_spec:
  assumes rel: "unpad_rel c a" and kind: "(\<exists>rc cmd ct pd. a = Header rc cmd ct pd) \<or> (\<exists>cmd ct pd. a = Content cmd ct pd)"
    and uuid: "u_uuid c = uuid" and alive: "fst (pad_run uuid a r) \<noteq> Lost" and ne: "r \<noteq> []"
  shows "unpad_spec 1 (stash c) uuid a r out (unpad_block got (c, r, out, direct, s))"
proof -
  obtain c1 r1 where rd: "read_command c r = (c1, r1)" by fastforce
  show ?thesis
    using kind
  proof (elim disjE exE)
    fix cmd ct pd assume a: "a = Content cmd ct pd"
    then have o: "unpad_open c cmd ct pd" and e: "a = enter_block cmd ct pd" and pos: "0 < ct \<or> 0 < pd"
      using rel by (auto simp: unpad_rel_def unpad_open_def enter_block_def)
    have "read_command c r = (c, r)" using o by (cases r) (simp_all add: unpad_open_def)
    then have "unpad_block got (c, r, out, direct, s) = block_body got (c, r, out, direct, s)"
      using o by (simp add: unpad_block_def unpad_open_def)
    moreover have "1 \<le> min (length r) (if ct = 0 then pd else ct)" using ne pos by (cases r) auto
    ultimately show ?thesis
      using unpad_spec_mono [OF block_body_spec [OF o uuid], of r 1 out got direct s] alive e by simp
  next
    fix rc cmd ct pd assume a: "a = Header rc cmd ct pd"
    from read_command_spec [OF rel [unfolded a] rd, where uuid = uuid] obtain used where u: "r = used @ r1"
      "length used = min (length r) rc" "u_uuid c1 = u_uuid c" "stash c1 = stash c"
      and cases': "(\<exists>cmd' ct' pd'. unpad_open c1 cmd' ct' pd' \<and> pad_run uuid a used = (enter_block cmd' ct' pd', []))
      \<or> r1 = [] \<and> remaining_command c1 > 0 \<and> (\<exists>a1. pad_run uuid a used = (a1, []) \<and> unpad_rel c1 a1)"
      unfolding a by blast
    have pos: "1 \<le> length used" using u(2) ne rel a by (cases r) (auto simp: unpad_rel_def)
    show ?thesis
      using cases'
    proof (elim disjE exE conjE)
      fix cmd' ct' pd' assume o: "unpad_open c1 cmd' ct' pd'" and run: "pad_run uuid a used = (enter_block cmd' ct' pd', [])"
      have eq: "unpad_block got (c, r, out, direct, s) = block_body got (c1, r1, out, direct, s)"
        using o rd by (simp add: unpad_block_def unpad_open_def)
      have "fst (pad_run uuid (enter_block cmd' ct' pd') r1) \<noteq> Lost"
        using alive run unfolding u(1) by (simp add: pad_run_append split: prod.splits)
      from block_body_spec [OF o _ this, of out got direct s] u(3,4) uuid
      have e: "unpad_spec (min (length r1) (if ct' = 0 then pd' else ct')) (stash c) uuid (enter_block cmd' ct' pd') r1 out
          (block_body got (c1, r1, out, direct, s))" by simp
      have "rb_data out = rb_data out @ []" by simp
      from unpad_spec_extend [OF run this e] show ?thesis
        unfolding eq u(1) [symmetric] by (rule unpad_spec_mono) (use pos in linarith)
    next
      fix a1 assume r1: "r1 = []" and rc: "remaining_command c1 > 0" and run: "pad_run uuid a used = (a1, [])"
        and rel1: "unpad_rel c1 a1"
      have "unpad_block got (c, r, out, direct, s) = (Stop, c1, [], out, direct, s)"
        using rc rd r1 by (simp add: unpad_block_def)
      then show ?thesis
        using run rel1 u uuid r1 by (auto simp: unpad_spec_def)
    qed
  qed
qed

lemma unpad_iteration_spec:
  assumes rel: "unpad_rel c a" and uuid: "u_uuid c = uuid" "length uuid = 16"
    and alive: "fst (pad_run uuid a r) \<noteq> Lost" and ne: "r \<noteq> []"
  shows "unpad_spec 1 (stash c) uuid a r out (unpad_iteration got (c, r, out, direct, s))"
proof (cases a)
  case (Header rc cmd ct pd)
  then have "unpad_iteration got (c, r, out, direct, s) = unpad_block got (c, r, out, direct, s)"
    using rel by (simp add: unpad_iteration_def unpad_rel_def)
  then show ?thesis using unpad_block_spec [OF rel _ uuid(1) alive ne, of out got direct s] Header by simp
next
  case (Content cmd ct pd)
  then have "unpad_iteration got (c, r, out, direct, s) = unpad_block got (c, r, out, direct, s)"
    using rel by (simp add: unpad_iteration_def unpad_rel_def)
  then show ?thesis using unpad_block_spec [OF rel _ uuid(1) alive ne, of out got direct s] Content by simp
next
  case Raw
  obtain ok o1 s1 where ap: "unpad_append got r out s = (ok, o1, s1)" by (metis prod_cases3)
  have "unpad_iteration got (c, r, out, direct, s) =
      (if ok then (Stop, c, [], o1, direct, s1) else (Fail, c, r, o1, direct, s1))"
    using Raw rel ap by (auto simp: unpad_iteration_def unpad_rel_def unpad_idle_def Let_def)
  moreover have "rb_data o1 = rb_data out @ r" if ok using ap that unpad_append_contents by simp
  ultimately show ?thesis using Raw rel uuid by (auto simp: unpad_spec_def)
next
  case (Matching k)
  then have k: "a = Matching 0" and idle: "unpad_idle c" "current_command c = 0" using rel by (simp_all add: unpad_rel_def)
  show ?thesis
  proof (cases "length r < 16")
    case True
    have m: "r = take (length r) uuid"
    proof (rule ccontr)
      assume "r \<noteq> take (length r) uuid"
      then have "pad_run uuid (Matching 0) r = (Lost, [])" using True by (intro pad_run_mismatch [OF uuid(2)]) simp_all
      then show False using alive k by simp
    qed
    then have "unpad_iteration got (c, r, out, direct, s) = (Stop, c, r, out, direct, s)"
      using idle True uuid(1) by (simp add: unpad_iteration_def unpad_idle_def Let_def)
    then show ?thesis
      unfolding unpad_spec_def using rel k uuid True m
      by (auto intro!: exI [of _ "[]"] exI [of _ "Matching 0"])
  next
    case False
    have split: "r = take 16 r @ drop 16 r" by simp
    have len: "length (take 16 r) = 16" using False by simp
    have m: "take 16 r = uuid"
    proof (rule ccontr)
      assume n: "take 16 r \<noteq> uuid"
      have "pad_run uuid (Matching 0) (take 16 r) = (Lost, [])"
        by (rule pad_run_mismatch [OF uuid(2)]) (use n len uuid(2) in simp_all)
      moreover have "fst (pad_run uuid a (take 16 r)) \<noteq> Lost" using alive split pad_run_not_lost by metis
      ultimately show False using k by simp
    qed
    let ?c = "c\<lparr>remaining_command := 5, remaining_content := 0, remaining_padding := 0, current_command := 0\<rparr>"
    have eq: "unpad_iteration got (c, r, out, direct, s) = unpad_block got (?c, drop 16 r, out, direct, s)"
      using idle False m uuid(1) by (simp add: unpad_iteration_def unpad_idle_def Let_def)
    have run: "pad_run uuid a (take 16 r) = (Header 5 0 0 0, [])"
      using pad_run_matching [OF uuid(2), of 0 "take 16 r"] k m uuid(2) by simp
    have relc: "unpad_rel ?c (Header 5 0 0 0)" by (simp add: unpad_rel_def)
    have al: "fst (pad_run uuid (Header 5 0 0 0) (drop 16 r)) \<noteq> Lost"
      using alive run pad_run_append [of uuid a "take 16 r" "drop 16 r"] by (simp split: prod.splits)
    have "unpad_spec 0 (stash c) uuid (Header 5 0 0 0) (drop 16 r) out (unpad_block got (?c, drop 16 r, out, direct, s))"
    proof (cases "drop 16 r = []")
      case True
      then show ?thesis using relc uuid
        by (auto simp: unpad_block_def unpad_spec_def intro!: exI [of _ "Header 5 0 0 0"])
    next
      case False
      have "unpad_spec 1 (stash ?c) uuid (Header 5 0 0 0) (drop 16 r) out (unpad_block got (?c, drop 16 r, out, direct, s))"
        by (rule unpad_block_spec [OF relc _ _ al False]) (use uuid in simp_all)
      then show ?thesis using unpad_spec_mono [of 1 "stash c" uuid _ _ out _ 0] by simp
    qed
    then have "unpad_spec (length (take 16 r) + 0) (stash c) uuid a (take 16 r @ drop 16 r) out
        (unpad_block got (?c, drop 16 r, out, direct, s))"
      by (intro unpad_spec_extend [OF run]) simp_all
    then show ?thesis unfolding eq len split [symmetric] by (rule unpad_spec_mono) simp
  qed
qed (use rel in \<open>simp add: unpad_rel_def\<close>)

text \<open>The whole loop: it ends, and what it leaves unread is an unfinished user id.\<close>

definition unpad_held :: "bytes \<Rightarrow> pad_state \<Rightarrow> bytes \<Rightarrow> vision_unpad \<Rightarrow> bool" where
  "unpad_held uuid a held c \<longleftrightarrow>
     (\<exists>k. a = Matching k \<and> k < 16 \<and> held = take k uuid \<and> unpad_rel c (Matching 0)) \<or>
     (\<forall>k. a \<noteq> Matching k) \<and> held = [] \<and> unpad_rel c a"

lemma unpad_held_nil:
  assumes "unpad_rel c a"
  shows "unpad_held uuid a [] c"
  using assms by (cases a) (auto simp: unpad_held_def unpad_rel_def)

lemma unpad_loop_spec:
  assumes "unpad_rel c a" and "u_uuid c = uuid" and "length uuid = 16" and "fst (pad_run uuid a r) \<noteq> Lost"
    and "length r \<le> fuel"
  shows "\<exists>ok c' r' out' d' s'. unpad_loop got fuel (c, r, out, direct, s) = Some (ok, c', r', out', d', s') \<and>
     u_uuid c' = uuid \<and> stash c' = stash c \<and>
     (ok \<longrightarrow> unpad_held uuid (fst (pad_run uuid a r)) r' c' \<and> rb_data out' = rb_data out @ snd (pad_run uuid a r))"
  using assms
proof (induction fuel arbitrary: c a r out direct s)
  case 0
  then show ?case using unpad_held_nil by (auto intro: exI [of _ True])
next
  case (Suc fuel)
  show ?case
  proof (cases r)
    case Nil
    then show ?thesis using unpad_held_nil [OF Suc.prems(1)] Suc.prems(2) by (auto intro: exI [of _ True])
  next
    case (Cons b bs)
    obtain f c' r' out' d' s' where it: "unpad_iteration got (c, r, out, direct, s) = (f, c', r', out', d', s')"
      by (metis prod.exhaust)
    have sp: "unpad_spec 1 (stash c) uuid a r out (f, c', r', out', d', s')"
      using unpad_iteration_spec [OF Suc.prems(1-4), of out got direct s] Cons it by simp
    have u: "u_uuid c' = uuid" "stash c' = stash c" using sp by (simp_all add: unpad_spec_def)
    have eq: "unpad_loop got (Suc fuel) (c, r, out, direct, s) = (case f of Fail \<Rightarrow> Some (False, c', r', out', d', s')
        | Stop \<Rightarrow> Some (True, c', r', out', d', s') | Again \<Rightarrow> unpad_loop got fuel (c', r', out', d', s'))"
      unfolding Cons using it Cons by (simp split: flow.splits)
    show ?thesis
    proof (cases f)
      case Fail
      then show ?thesis using u by (auto simp: eq)
    next
      case Stop
      then obtain used a1 o1 where h: "r = used @ r'" "pad_run uuid a used = (a1, o1)" "rb_data out' = rb_data out @ o1"
        "unpad_rel c' a1" "r' = [] \<or> a1 = Matching 0 \<and> length r' < 16 \<and> r' = take (length r') uuid"
        using sp by (auto simp: unpad_spec_def)
      from h(5) have "unpad_held uuid (fst (pad_run uuid a r)) r' c' \<and> snd (pad_run uuid a r) = o1"
      proof
        assume "r' = []"
        then show ?thesis using h(1,2,4) unpad_held_nil by simp
      next
        assume m: "a1 = Matching 0 \<and> length r' < 16 \<and> r' = take (length r') uuid"
        then have "pad_run uuid a1 r' = (Matching (length r'), [])"
          using pad_run_matching [OF Suc.prems(3), of 0 r'] by simp
        then have "pad_run uuid a r = (Matching (length r'), o1)" using h(1,2) by (simp add: pad_run_append)
        then show ?thesis using m h(4) by (auto simp: unpad_held_def)
      qed
      then show ?thesis using Stop u h(3) by (auto simp: eq intro: exI [of _ True])
    next
      case Again
      then obtain used a1 o1 where h: "r = used @ r'" "pad_run uuid a used = (a1, o1)" "rb_data out' = rb_data out @ o1"
        "unpad_rel c' a1" "1 \<le> length used" using sp by (auto simp: unpad_spec_def)
      have run: "pad_run uuid a r = (fst (pad_run uuid a1 r'), o1 @ snd (pad_run uuid a1 r'))"
        using h(1,2) by (simp add: pad_run_append split: prod.splits)
      have "length r' \<le> fuel" "fst (pad_run uuid a1 r') \<noteq> Lost" using Suc.prems(4,5) h(1,5) run by simp_all
      from Suc.IH [OF h(4) u(1) Suc.prems(3) this(2,1), of out' d' s'] show ?thesis
        using Again h(3) run u(2) by (auto simp: eq)
    qed
  qed
qed

section \<open>Unwrapping succeeds while memory lasts\<close>

definition roomy :: "relay_buffer \<Rightarrow> nat \<Rightarrow> bool" where
  "roomy b n \<longleftrightarrow> rb_memory b = None \<and> rb_limit b = 0 \<and> length (rb_data b) + n \<le> SIZE_MAX"

lemma roomy_append:
  assumes "\<forall>n. got n" and "roomy b (length xs + n)"
  shows "\<exists>b'. core_relay_buffer_append got s b xs = (True, b', s) \<and> roomy b' n"
proof -
  have len: "\<not> length xs > SIZE_MAX - length (rb_data b)" "length (rb_data b) + length xs \<le> SIZE_MAX"
    using assms(2) unfolding roomy_def by linarith+
  obtain r c t where r: "core_relay_buffer_reserve got s b (length (rb_data b) + length xs) = (r, c, t)"
    by (metis prod_cases3)
  have "r = 1 \<and> t = s \<and> rb_limit c = 0"
    using r assms len by (auto simp: reserve_unfold roomy_def split: if_split_asm)
  then show ?thesis
    using r len assms(2) reserve_frame [OF r] by (simp add: core_relay_buffer_append_def roomy_def)
qed

lemma roomy_unpad_append:
  assumes "\<forall>n. got n" and "roomy b (length xs + n)"
  shows "\<exists>b'. unpad_append got xs b s = (True, b', s) \<and> roomy b' n"
  using roomy_append [OF assms, of s] by (auto simp: unpad_append_def)

text \<open>A step that does not fail and leaves room for what is still unread.\<close>

definition unpad_sound :: "flow \<times> unpad_state \<Rightarrow> bool" where
  "unpad_sound res \<longleftrightarrow> (case res of (f, c, r, out, d, s) \<Rightarrow> f \<noteq> Fail \<and> roomy out (length r))"

lemma roomy_le: "roomy b n \<Longrightarrow> m \<le> n \<Longrightarrow> roomy b m"
  by (simp add: roomy_def)

lemma block_end_sound:
  assumes "\<forall>n. got n" and "roomy out (length r)"
  shows "unpad_sound (block_end got (c, r, out, d, s))"
proof -
  obtain b where b: "unpad_append got r out s = (True, b, s)" "roomy b 0"
    using roomy_unpad_append [OF assms(1), of out r 0 s] assms(2) by auto
  show ?thesis
    using assms(2) b roomy_le [OF assms(2), of 0] by (auto simp: unpad_sound_def block_end_def Let_def)
qed

lemma block_padding_sound:
  assumes "\<forall>n. got n" and "roomy out (length r)"
  shows "unpad_sound (block_end got (block_padding (c, r, out, d, s)))"
proof -
  obtain c' r' where p: "block_padding (c, r, out, d, s) = (c', r', out, d, s)" "length r' \<le> length r"
  proof (cases "remaining_content c = 0 \<and> remaining_padding c > 0")
    case True
    then show thesis using that by (simp add: block_padding_def Let_def)
  next
    case False
    then show thesis using that by (auto simp: block_padding_def)
  qed
  show ?thesis unfolding p(1) using block_end_sound [OF assms(1) roomy_le [OF assms(2) p(2)]] .
qed

lemma block_body_sound:
  assumes "\<forall>n. got n" and "roomy out (length r)"
  shows "unpad_sound (block_body got (c, r, out, d, s))"
proof (cases "remaining_content c > 0")
  case True
  define n where "n = min (length r) (nat (remaining_content c))"
  have "roomy out (length (take n r) + length (drop n r))" using assms(2) by (simp add: n_def roomy_def)
  from roomy_unpad_append [OF assms(1) this, of s] obtain b where
    b: "unpad_append got (take n r) out s = (True, b, s)" "roomy b (length (drop n r))" by auto
  show ?thesis
    using True b block_padding_sound [OF assms(1) b(2)] by (simp add: block_body_def n_def [symmetric] Let_def)
next
  case False
  then show ?thesis using block_padding_sound [OF assms] by (simp add: block_body_def)
qed

lemma read_command_length: "read_command c r = (c1, r1) \<Longrightarrow> length r1 \<le> length r"
proof (induction c r rule: read_command.induct)
  case (2 c b bs)
  then show ?case by (cases "remaining_command c > 0") auto
qed simp

lemma unpad_block_sound:
  assumes "\<forall>n. got n" and "roomy out (length r)"
  shows "unpad_sound (unpad_block got (c, r, out, d, s))"
proof -
  obtain c1 r1 where rd: "read_command c r = (c1, r1)" by fastforce
  have "roomy out (length r1)" using roomy_le [OF assms(2) read_command_length [OF rd]] .
  then show ?thesis
    using block_body_sound [OF assms(1)] by (simp add: unpad_block_def rd unpad_sound_def)
qed

lemma unpad_iteration_sound:
  assumes "\<forall>n. got n" and "roomy out (length r)"
  shows "unpad_sound (unpad_iteration got (c, r, out, d, s))"
proof -
  obtain b where b: "unpad_append got r out s = (True, b, s)" "roomy b 0"
    using roomy_unpad_append [OF assms(1), of out r 0 s] assms(2) by auto
  have "unpad_sound (unpad_block got (c', drop 16 r, out, d, s))" for c'
    by (rule unpad_block_sound [OF assms(1)]) (rule roomy_le [OF assms(2)], simp)
  moreover have "unpad_sound (unpad_block got (c, r, out, d, s))" by (rule unpad_block_sound [OF assms])
  ultimately show ?thesis
    using b assms(2) by (auto simp: unpad_iteration_def unpad_sound_def Let_def)
qed

lemma unpad_loop_sound:
  assumes "\<forall>n. got n" and "roomy out (length r)" and "unpad_loop got fuel (c, r, out, d, s) = Some (ok, st)"
  shows ok
  using assms(2,3)
proof (induction fuel arbitrary: c r out d s)
  case 0
  then show ?case by (cases r) simp_all
next
  case (Suc fuel)
  show ?case
  proof (cases r)
    case (Cons b bs)
    obtain f c' r' out' d' s' where it: "unpad_iteration got (c, r, out, d, s) = (f, c', r', out', d', s')"
      by (metis prod.exhaust)
    have "f \<noteq> Fail" "roomy out' (length r')"
      using unpad_iteration_sound [OF assms(1) Suc.prems(1), of c d s] it by (simp_all add: unpad_sound_def)
    then show ?thesis using Suc it Cons by (cases f) auto
  qed (use Suc.prems in simp)
qed

section \<open>Feeding chunks\<close>

text \<open>The context between calls, with the held bytes in its stash.\<close>

definition unpad_at :: "bytes \<Rightarrow> vision_unpad \<Rightarrow> pad_state \<Rightarrow> bool" where
  "unpad_at uuid c a \<longleftrightarrow> u_uuid c = uuid \<and> unpad_held uuid a (rb_data (stash c)) c"

lemma unpad_rel_stash [simp]: "unpad_rel (c\<lparr>stash := b\<rparr>) a = unpad_rel c a"
  by (cases a) (simp_all add: unpad_rel_def unpad_idle_def)

lemma unpad_held_stash [simp]: "unpad_held uuid a held (c\<lparr>stash := b\<rparr>) = unpad_held uuid a held c"
  by (simp add: unpad_held_def)

lemma clear_data: "core_relay_buffer_clear s b = (b', s') \<Longrightarrow> rb_data b' = []"
  by (auto simp: core_relay_buffer_clear_def)

lemma unpad_free_at: "vision_unpad_free s c = (c', s') \<Longrightarrow> \<exists>b. c' = c\<lparr>stash := b\<rparr> \<and> rb_data b = []"
  by (auto simp: vision_unpad_free_def core_relay_buffer_clear_def)

lemma vision_unpad_feed_refines:
  assumes at: "unpad_at uuid c a" and len: "length uuid = 16" and alive: "fst (pad_run uuid a xs) \<noteq> Lost"
  shows "\<exists>ok c' out' d s'. vision_unpad_feed_buffer got c xs out s = Some (ok, c', out', d, s') \<and>
     (ok \<longrightarrow> unpad_at uuid c' (fst (pad_run uuid a xs)) \<and> rb_data out' = snd (pad_run uuid a xs)) \<and>
     ((\<forall>n. got n) \<and> roomy (stash c) (length xs) \<and> rb_memory out = None \<and> rb_limit out = 0 \<longrightarrow>
        ok \<and> rb_memory (stash c') = None \<and> rb_limit (stash c') = 0)"
proof -
  obtain out1 s1 where cl: "core_relay_buffer_clear s out = (out1, s1)" by fastforce
  note od = clear_data [OF cl]
  define held where "held = rb_data (stash c)"
  obtain ok st1 s2 where ap: "(if xs \<noteq> [] then core_relay_buffer_append got s1 (stash c) xs else (True, stash c, s1)) = (ok, st1, s2)"
    by (metis prod_cases3)
  have data: "rb_data st1 = held @ xs" if ok
    using ap that relay.append_ok by (auto simp: held_def split: if_splits)
  have room: "ok \<and> rb_memory st1 = None \<and> rb_limit st1 = 0 \<and> roomy out1 (length (rb_data st1))"
    if "(\<forall>n. got n) \<and> roomy (stash c) (length xs) \<and> rb_memory out = None \<and> rb_limit out = 0"
  proof -
    have m1: "rb_memory out1 = None" "rb_limit out1 = 0" using cl that by (auto simp: core_relay_buffer_clear_def)
    have "\<forall>n. got n" "roomy (stash c) (length xs + 0)" using that by simp_all
    then obtain b' where b': "core_relay_buffer_append got s1 (stash c) xs = (True, b', s1)" "roomy b' 0"
      using roomy_append by blast
    then have d: "ok" "rb_memory st1 = None" "rb_limit st1 = 0" using ap that by (auto simp: roomy_def split: if_split_asm)
    then have "rb_data st1 = held @ xs" using data by simp
    then show ?thesis using d m1 od that by (simp add: roomy_def held_def)
  qed
  let ?c1 = "c\<lparr>stash := st1\<rparr>"
  have eq: "vision_unpad_feed_buffer got c xs out s =
      (if \<not> ok then Some (False, ?c1, out1, False, s2)
       else case unpad_loop got (length (rb_data st1)) (?c1, rb_data st1, out1, False, s2) of
               None \<Rightarrow> None
             | Some (False, c2, r, out2, direct, s3) \<Rightarrow> Some (False, c2, out2, direct, s3)
             | Some (True, c2, r, out2, direct, s3) \<Rightarrow>
                 let c3 = c2\<lparr>stash := (stash c2)\<lparr>rb_data := r\<rparr>\<rparr>
                 in if rb_memory (stash c3) \<noteq> None \<and> r = [] then
                      (case vision_unpad_free s3 c3 of (c4, s4) \<Rightarrow> Some (True, c4, out2, direct, s4))
                    else Some (True, c3, out2, direct, s3))"
    unfolding vision_unpad_feed_buffer_def cl prod.case ap Let_def by (rule refl)
  show ?thesis
  proof (cases ok)
    case True
    obtain a0 where rel: "unpad_rel c a0" and run0: "pad_run uuid a0 held = (a, [])"
    proof -
      from at have h: "unpad_held uuid a held c" by (simp add: unpad_at_def held_def)
      show thesis
      proof (cases "\<exists>k. a = Matching k")
        case True
        then obtain k where k: "a = Matching k" "k < 16" "held = take k uuid" "unpad_rel c (Matching 0)"
          using h by (auto simp: unpad_held_def)
        then show thesis using that [of "Matching 0"] pad_run_matching [OF len, of 0 held] len by simp
      next
        case False
        then show thesis using that [of a] h by (auto simp: unpad_held_def)
      qed
    qed
    have run: "pad_run uuid a0 (rb_data st1) = pad_run uuid a xs"
      using run0 data [OF True] by (simp add: pad_run_append split: prod.splits)
    have rel1: "unpad_rel ?c1 a0" "u_uuid ?c1 = uuid" using rel at by (simp_all add: unpad_at_def)
    from unpad_loop_spec [OF rel1 len, of "rb_data st1" "length (rb_data st1)" got out1 False s2] run alive
    obtain ok2 c2 r out2 d2 s3 where
      lp: "unpad_loop got (length (rb_data st1)) (?c1, rb_data st1, out1, False, s2) = Some (ok2, c2, r, out2, d2, s3)"
      and u2: "u_uuid c2 = uuid" and st2: "stash c2 = st1"
      and res: "ok2 \<longrightarrow> unpad_held uuid (fst (pad_run uuid a xs)) r c2 \<and> rb_data out2 = snd (pad_run uuid a xs)"
      using od by auto
    show ?thesis
    proof (cases ok2)
      case False
      have "\<not> ((\<forall>n. got n) \<and> roomy (stash c) (length xs) \<and> rb_memory out = None \<and> rb_limit out = 0)"
        using unpad_loop_sound [OF _ _ lp] room False by blast
      moreover have "vision_unpad_feed_buffer got c xs out s = Some (False, c2, out2, d2, s3)"
        using True False by (simp add: eq lp)
      ultimately show ?thesis by blast
    next
      case yes: True
      let ?c3 = "c2\<lparr>stash := (stash c2)\<lparr>rb_data := r\<rparr>\<rparr>"
      have at3: "unpad_at uuid ?c3 (fst (pad_run uuid a xs))" using res yes u2 by (simp add: unpad_at_def)
      obtain c4 s4 where f: "vision_unpad_free s3 ?c3 = (c4, s4)" by fastforce
      then obtain b where b: "c4 = ?c3\<lparr>stash := b\<rparr>" "rb_data b = []" using unpad_free_at by blast
      have "r = [] \<Longrightarrow> unpad_at uuid c4 (fst (pad_run uuid a xs))" using at3 b by (simp add: unpad_at_def)
      moreover define freed where "freed \<longleftrightarrow> rb_memory (stash c2) \<noteq> None \<and> r = []"
      ultimately have at': "unpad_at uuid (if freed then c4 else ?c3) (fst (pad_run uuid a xs))" using at3 by simp
      have "vision_unpad_feed_buffer got c xs out s =
          Some (True, if freed then c4 else ?c3, out2, d2, if freed then s4 else s3)"
        using True yes f unfolding eq lp by (auto simp: Let_def freed_def)
      moreover have "rb_memory (stash (if freed then c4 else ?c3)) = None \<and> rb_limit (stash (if freed then c4 else ?c3)) = 0"
        if "(\<forall>n. got n) \<and> roomy (stash c) (length xs) \<and> rb_memory out = None \<and> rb_limit out = 0"
        using room [OF that] st2 by (simp add: freed_def)
      ultimately show ?thesis using yes res at' by blast
    qed
  next
    case False
    then have "vision_unpad_feed_buffer got c xs out s = Some (False, ?c1, out1, False, s2)" by (simp add: eq)
    then show ?thesis using room False by blast
  qed
qed

section \<open>What wrapping produces\<close>

text \<open>Where the reader of a stream stands that has read everything the writer wrote.\<close>

definition wrap_state :: "vision_wrap \<Rightarrow> pad_state" where
  "wrap_state ctx = (if \<not> padding_active ctx then Raw else if uuid_sent ctx then Header 5 0 0 0 else Matching 0)"

lemma rand_u16_mod_less:
  assumes "rand_u16_mod rnd k m = (Some v, k')" and "0 < m" and "m \<le> 65536"
  shows "v < m"
proof -
  obtain w where w: "core_random_range rnd k 0 (m - 1) = (Some w, k')" "v = w mod 65536"
    using assms by (auto simp: rand_u16_mod_def split: prod.split_asm option.split_asm)
  then have "random_attempts rnd CORE_RANDOM_MAX_ATTEMPTS k 0 ((m - 1 - 0 + 1) mod 2 ^ 32) = (Some w, k')"
    by (simp add: core_random_range_def)
  then obtain x where "x < 2 ^ 32" "w = random_pick 0 ((m - 1 - 0 + 1) mod 2 ^ 32) x"
    using random_attempts_pick by blast
  then have "w \<le> m - 1" using random_pick_range [of 0 "m - 1" x] assms(2,3) by simp
  then have "w < m" using assms(2) by linarith
  moreover have "v \<le> w" using w(2) by simp
  ultimately show ?thesis by linarith
qed

lemma vision_padding_len_bound:
  assumes "vision_padding_len rnd k n long = (Some p, k')"
  shows "p \<le> (if long \<and> n < 900 then 1399 - n else 255)"
proof (cases "long \<and> n < 900")
  case True
  obtain e where e: "rand_u16_mod rnd k 500 = (Some e, k')"
    and p: "p = (let want = szsub (szadd 900 e) n; want1 = (if want \<ge> 2 ^ 63 then 0 else want)
                 in if want1 > 65535 then 65535 else want1)"
    using assms True by (auto simp: vision_padding_len_def Let_def split: prod.split_asm option.split_asm)
  have "e < 500" using rand_u16_mod_less [OF e] by simp
  then have "szsub (szadd 900 e) n = 900 + e - n"
    using True by (simp add: szadd_exact szsub_exact SIZE_MAX_def)
  moreover have "900 + e - n \<le> 1399" using \<open>e < 500\<close> by linarith
  ultimately have "p = 900 + e - n" using p by (simp add: Let_def)
  then show ?thesis using True \<open>e < 500\<close> by simp
next
  case False
  then have "rand_u16_mod rnd k 256 = (Some p, k')"
    using assms unfolding vision_padding_len_def by (simp only: if_False)
  then have "p < 256" using rand_u16_mod_less [of rnd k 256 p k'] by simp
  then have "p \<le> 255" by linarith
  then show ?thesis using False by (simp only: if_False)
qed

text \<open>The bytes of a block, as the abstract reader reads them.\<close>

lemma pad_run_header:
  assumes "n \<le> 65535" and "p \<le> 65535"
  shows "pad_run uuid (Header 5 0 0 0) ([cmd] @ be16 n @ be16 p) = (enter_block cmd n p, [])"
proof -
  have w: "unat (of_nat (m div 256) :: byte) * 256 + unat (of_nat m :: byte) = m" if "m \<le> 65535" for m :: nat
    using word16_be16 [of m] that by (simp add: word16_def)
  show ?thesis using w [OF assms(1)] w [OF assms(2)] by (simp add: be16_def header_step_def)
qed

lemma pad_run_block:
  assumes "length content \<le> 65535" and "length pad \<le> 65535"
  shows "pad_run uuid (Header 5 0 0 0) ([cmd] @ be16 (length content) @ be16 (length pad) @ content @ pad) =
     (after_block cmd, content)"
proof -
  let ?a = "enter_block cmd (length content) (length pad)"
  note pad_run_header [OF assms, of uuid cmd]
  moreover have "pad_run uuid ?a content = (enter_block cmd 0 (length pad), content)"
    using pad_run_content [of content "length content"] by simp
  moreover have "pad_run uuid (enter_block cmd 0 (length pad)) pad = (after_block cmd, [])"
    using pad_run_padding [of pad "length pad" uuid cmd] by (simp add: enter_block_def)
  ultimately show ?thesis
    using pad_run_append [of uuid "Header 5 0 0 0" "[cmd] @ be16 (length content) @ be16 (length pad)" "content @ pad"]
      pad_run_append [of uuid ?a content pad] by simp
qed

lemma vision_build_block_bytes:
  assumes b: "vision_build_block got rnd ctx cmd content long out s k = (True, ctx', out', s', k')" and rnd: "random_ok rnd"
  obtains pad where "ctx' = ctx\<lparr>uuid_sent := True\<rparr>" "length content \<le> 65535" "length pad \<le> 65535"
    "rb_data out' = (if uuid_sent ctx then [] else w_uuid ctx) @ [cmd] @ be16 (length content) @ be16 (length pad) @ content @ pad"
proof -
  have len: "length content \<le> 65535" using b by (auto simp: vision_build_block_def split: if_split_asm)
  obtain padding k1 where p: "vision_padding_len rnd k (length content) long = (Some padding, k1)"
    using b len by (auto simp: vision_build_block_def split: prod.split_asm option.split_asm)
  define prefix where "prefix = (if uuid_sent ctx then [] else w_uuid ctx)"
  obtain r buf s1 where r: "core_relay_buffer_reserve got s out (length prefix + 1 + 2 + 2 + length content + padding) = (r, buf, s1)"
    by (metis prod_cases3)
  obtain fill k2 where f: "(if padding > 0 then core_random_fill rnd k1 padding else (Some [], k1)) = (fill, k2)" by fastforce
  have b': "(if r \<noteq> 1 then (False, ctx, buf, s1, k1)
      else case fill of None \<Rightarrow> (case core_relay_buffer_clear s1 buf of (b, s2) \<Rightarrow> (False, ctx, b, s2, k2))
        | Some pad \<Rightarrow> (True, ctx\<lparr>uuid_sent := True\<rparr>,
            buf\<lparr>rb_data := (prefix @ [cmd] @ be16 (length content) @ be16 padding @ content) @ pad\<rparr>, s1, k2))
      = (True, ctx', out', s', k')"
    using b len p unfolding vision_build_block_def prefix_def [symmetric] Let_def p prod.case option.case r f
    by (simp split: option.split_asm)
  then obtain pad where pad: "fill = Some pad" and c: "ctx' = ctx\<lparr>uuid_sent := True\<rparr>"
    and o: "rb_data out' = prefix @ [cmd] @ be16 (length content) @ be16 padding @ content @ pad"
    by (auto split: if_split_asm option.split_asm prod.split_asm)
  have plen: "length pad = padding"
    using f pad rnd by (auto simp: core_random_fill_def random_ok_def split: if_split_asm)
  have pb: "padding \<le> 65535" using vision_padding_len_bound [OF p] by (auto split: if_splits)
  show thesis using that [of pad] c len o plen pb by (simp add: prefix_def)
qed

lemma vision_build_block_run:
  assumes b: "vision_build_block got rnd ctx cmd content long out s k = (True, ctx', out', s', k')"
    and uuid: "w_uuid ctx = uuid" "length uuid = 16" and rnd: "random_ok rnd" and act: "padding_active ctx"
  shows "ctx' = ctx\<lparr>uuid_sent := True\<rparr> \<and> pad_run uuid (wrap_state ctx) (rb_data out') = (after_block cmd, content)"
proof -
  define prefix where "prefix = (if uuid_sent ctx then [] else w_uuid ctx)"
  obtain pad where c: "ctx' = ctx\<lparr>uuid_sent := True\<rparr>" and len: "length content \<le> 65535" "length pad \<le> 65535"
    and o: "rb_data out' = prefix @ [cmd] @ be16 (length content) @ be16 (length pad) @ content @ pad"
    unfolding prefix_def by (rule vision_build_block_bytes [OF b rnd])
  let ?block = "[cmd] @ be16 (length content) @ be16 (length pad) @ content @ pad"
  note blk = pad_run_block [OF len, of uuid cmd]
  have pre: "pad_run uuid (wrap_state ctx) prefix = (Header 5 0 0 0, [])"
    using pad_run_matching [OF uuid(2), of 0 uuid] uuid act by (simp add: wrap_state_def prefix_def)
  show ?thesis using c pre blk pad_run_append [of uuid "wrap_state ctx" prefix ?block] by (simp add: o)
qed

lemma vision_wrap_chunk_run:
  assumes w: "vision_wrap_chunk got rnd ctx xs out s k = Some (True, ctx', out', s', k')"
    and uuid: "w_uuid ctx = uuid" "length uuid = 16" and rnd: "random_ok rnd" and out: "rb_data out = []"
  shows "w_uuid ctx' = uuid \<and> pad_run uuid (wrap_state ctx) (rb_data out') = (wrap_state ctx', xs)"
proof (cases "xs = [] \<or> \<not> padding_active ctx")
  case True
  then show ?thesis
    using w uuid out relay.append_ok [of got s out xs]
    by (auto simp: vision_wrap_chunk_def wrap_state_def split: if_split_asm prod.split_asm)
next
  case False
  have len: "length xs \<le> 65535" using w False by (auto simp: vision_wrap_chunk_def split: if_split_asm)
  obtain ctx1 where o: "vision_observe_tls ctx False xs = Some ctx1"
    using w False len by (auto simp: vision_wrap_chunk_def split: option.split_asm)
  note keep = vision_observe_tls_keeps [OF o]
  obtain cmd n where c: "chunk_command ctx ctx1 = (cmd, n)" by fastforce
  obtain ok ctx2 out2 s2 k2 where b: "vision_build_block got rnd ctx1 cmd xs (length xs < 900) out s k = (ok, ctx2, out2, s2, k2)"
    by (metis prod.exhaust)
  have ok: ok and c': "\<exists>left. ctx' = ctx2\<lparr>packets_left := left, padding_active := (padding_active ctx2 \<and> cmd = CMD_CONTINUE),
      direct_sent := (direct_sent ctx2 \<or> cmd = CMD_DIRECT)\<rparr>" and o': "out' = out2"
    using w False len o c b by (auto simp: vision_wrap_chunk_def Let_def split: bool.split_asm)
  have known: "cmd = CMD_CONTINUE \<or> cmd = CMD_END \<or> cmd = CMD_DIRECT"
    using c by (auto simp: chunk_command_def Let_def split: if_split_asm)
  have r: "ctx2 = ctx1\<lparr>uuid_sent := True\<rparr> \<and> pad_run uuid (wrap_state ctx1) (rb_data out2) = (after_block cmd, xs)"
    using vision_build_block_run [of got rnd ctx1 cmd xs "length xs < 900" out s k ctx2 out2 s2 k2 uuid] b ok keep uuid rnd False
    by simp
  have "wrap_state ctx1 = wrap_state ctx" using keep by (simp add: wrap_state_def)
  moreover have "after_block cmd = wrap_state ctx'"
    using c' r keep False known by (auto simp: wrap_state_def after_block_def)
  ultimately show ?thesis using r c' keep uuid o' by auto
qed

lemma wrap_pieces_run:
  assumes "wrap_pieces got rnd ctx xs out s k = Some (True, ctx', out', s', k')"
    and "w_uuid ctx = uuid" and "length uuid = 16" and "random_ok rnd"
    and "pad_run uuid a (rb_data out) = (wrap_state ctx, sofar)"
  shows "w_uuid ctx' = uuid \<and> pad_run uuid a (rb_data out') = (wrap_state ctx', sofar @ xs)"
  using assms
proof (induction "length xs" arbitrary: ctx xs out s k sofar rule: less_induct)
  case less
  show ?case
  proof (cases "xs = []")
    case True
    then show ?thesis using less.prems by (subst (asm) wrap_pieces.simps) simp
  next
    case False
    define n where "n = (if padding_active ctx \<and> length xs > 65535 then 65535 else length xs)"
    obtain ok ctx1 chunk s1 k1 where
      w: "vision_wrap_chunk got rnd ctx (take n xs) (empty_buffer (rb_memory out)) s k = Some (ok, ctx1, chunk, s1, k1)"
      using less.prems(1) False by (subst (asm) wrap_pieces.simps) (auto simp: n_def [symmetric] split: option.split_asm)
    obtain ok2 out1 s2 where ap: "(if ok then core_relay_buffer_append got s1 out (rb_data chunk) else (False, out, s1)) = (ok2, out1, s2)"
      by (metis prod_cases3)
    define s3 where "s3 = snd (core_relay_buffer_clear s2 chunk)"
    have eq: "wrap_pieces got rnd ctx xs out s k =
        (if \<not> ok2 then (case core_relay_buffer_clear s3 out1 of (out2, s4) \<Rightarrow> Some (False, ctx1, out2, s4, k1))
         else wrap_pieces got rnd ctx1 (drop n xs) out1 s3 k1)"
      using False by (subst wrap_pieces.simps) (simp add: n_def [symmetric] w ap s3_def del: wrap_pieces.simps)
    have ok2: ok2 and rec: "wrap_pieces got rnd ctx1 (drop n xs) out1 s3 k1 = Some (True, ctx', out', s', k')"
      using less.prems(1) unfolding eq by (auto split: if_split_asm prod.split_asm)
    have ok: ok and data: "rb_data out1 = rb_data out @ rb_data chunk"
      using ap ok2 relay.append_ok by (auto split: if_split_asm)
    have c: "w_uuid ctx1 = uuid \<and> pad_run uuid (wrap_state ctx) (rb_data chunk) = (wrap_state ctx1, take n xs)"
      using vision_wrap_chunk_run [OF _ less.prems(2-4), of got "take n xs"] w ok by (simp add: empty_buffer_def)
    have shorter: "length (drop n xs) < length xs" using False by (simp add: n_def)
    have run: "pad_run uuid a (rb_data out1) = (wrap_state ctx1, sofar @ take n xs)"
      using c less.prems(5) data by (simp add: pad_run_append)
    have "w_uuid ctx' = uuid \<and> pad_run uuid a (rb_data out') = (wrap_state ctx', (sofar @ take n xs) @ drop n xs)"
      by (rule less.hyps [OF shorter rec conjunct1 [OF c] less.prems(3,4) run])
    then show ?thesis by simp
  qed
qed

lemma vision_wrap_payload_run:
  assumes "vision_wrap_payload_buffer got rnd ctx xs out s k = Some (True, ctx', out', s', k')"
    and "w_uuid ctx = uuid" and "length uuid = 16" and "random_ok rnd"
  shows "w_uuid ctx' = uuid \<and> pad_run uuid (wrap_state ctx) (rb_data out') = (wrap_state ctx', xs)"
proof -
  obtain out1 s1 where cl: "core_relay_buffer_clear s out = (out1, s1)" by fastforce
  note d = clear_data [OF cl]
  show ?thesis
    using assms vision_wrap_chunk_run [of got rnd ctx xs out1 s1 k ctx' out' s' k' uuid]
      wrap_pieces_run [of got rnd ctx xs out1 s1 k ctx' out' s' k' uuid "wrap_state ctx" "[]"]
    by (auto simp: vision_wrap_payload_buffer_def cl d split: if_split_asm)
qed

section \<open>Properties\<close>

text \<open>A sequence of chunks fed one after the other, and of payloads wrapped one after the other.\<close>

fun unwrap_all :: "(nat \<Rightarrow> bool) \<Rightarrow> vision_unpad \<Rightarrow> bytes list \<Rightarrow> budget_state \<Rightarrow> (vision_unpad \<times> bytes list) option" where
  "unwrap_all got c [] s = Some (c, [])"
| "unwrap_all got c (xs # xss) s =
     (case vision_unpad_feed_buffer got c xs (empty_buffer None) s of
        Some (True, c', out, d, s') \<Rightarrow> map_option (\<lambda>(e, ys). (e, rb_data out # ys)) (unwrap_all got c' xss s')
      | _ \<Rightarrow> None)"

fun wrap_all :: "(nat \<Rightarrow> bool) \<Rightarrow> random \<Rightarrow> vision_wrap \<Rightarrow> bytes list \<Rightarrow> budget_state \<Rightarrow> nat \<Rightarrow> (vision_wrap \<times> bytes list) option" where
  "wrap_all got rnd ctx [] s k = Some (ctx, [])"
| "wrap_all got rnd ctx (xs # xss) s k =
     (case vision_wrap_payload_buffer got rnd ctx xs (empty_buffer None) s k of
        Some (True, ctx', out, s', k') \<Rightarrow> map_option (\<lambda>(e, ys). (e, rb_data out # ys)) (wrap_all got rnd ctx' xss s' k')
      | _ \<Rightarrow> None)"

lemma unwrap_all_run:
  assumes "unwrap_all got c xss s = Some (c', yss)" and "unpad_at uuid c a" and "length uuid = 16"
    and "fst (pad_run uuid a (concat xss)) \<noteq> Lost"
  shows "unpad_at uuid c' (fst (pad_run uuid a (concat xss))) \<and> concat yss = snd (pad_run uuid a (concat xss))"
  using assms
proof (induction xss arbitrary: c a s yss)
  case (Cons xs xss)
  obtain c1 out d s1 zss where f: "vision_unpad_feed_buffer got c xs (empty_buffer None) s = Some (True, c1, out, d, s1)"
    and rec: "unwrap_all got c1 xss s1 = Some (c', zss)" and y: "yss = rb_data out # zss"
    using Cons.prems(1) by (auto split: option.split_asm prod.split_asm bool.split_asm)
  have al: "fst (pad_run uuid a xs) \<noteq> Lost" using Cons.prems(4) pad_run_not_lost [of uuid a xs "concat xss"] by simp
  have at: "unpad_at uuid c1 (fst (pad_run uuid a xs))" and o: "rb_data out = snd (pad_run uuid a xs)"
    using vision_unpad_feed_refines [OF Cons.prems(2,3) al, of got "empty_buffer None" s] f by auto
  have run: "pad_run uuid a (concat (xs # xss)) =
      (fst (pad_run uuid (fst (pad_run uuid a xs)) (concat xss)),
       snd (pad_run uuid a xs) @ snd (pad_run uuid (fst (pad_run uuid a xs)) (concat xss)))"
    by (simp add: pad_run_append split: prod.splits)
  show ?case using Cons.IH [OF rec at Cons.prems(3)] Cons.prems(4) run o y by simp
qed simp

lemma unwrap_all_returns:
  assumes "\<forall>n. got n" and "unpad_at uuid c a" and "length uuid = 16" and "fst (pad_run uuid a (concat xss)) \<noteq> Lost"
    and "rb_memory (stash c) = None" and "rb_limit (stash c) = 0" and "\<forall>xs \<in> set xss. length xs + 16 \<le> SIZE_MAX"
  shows "\<exists>c' yss. unwrap_all got c xss s = Some (c', yss)"
  using assms(2-7)
proof (induction xss arbitrary: c a s)
  case (Cons xs xss)
  have al: "fst (pad_run uuid a xs) \<noteq> Lost" using Cons.prems(3) pad_run_not_lost [of uuid a xs "concat xss"] by simp
  have "length (rb_data (stash c)) \<le> 16"
    using Cons.prems(1,2) by (auto simp: unpad_at_def unpad_held_def)
  then have "roomy (stash c) (length xs)" using Cons.prems(4-6) by (auto simp: roomy_def)
  then obtain c1 out d s1 where f: "vision_unpad_feed_buffer got c xs (empty_buffer None) s = Some (True, c1, out, d, s1)"
    and at: "unpad_at uuid c1 (fst (pad_run uuid a xs))" and st: "rb_memory (stash c1) = None" "rb_limit (stash c1) = 0"
    using vision_unpad_feed_refines [OF Cons.prems(1,2) al, of got "empty_buffer None" s] assms(1)
    by (auto simp: empty_buffer_def)
  have "fst (pad_run uuid (fst (pad_run uuid a xs)) (concat xss)) \<noteq> Lost"
    using Cons.prems(3) by (auto simp: pad_run_append split: prod.splits)
  from Cons.IH [OF at Cons.prems(2) this st, of s1] Cons.prems(6) show ?case by (auto simp: f)
qed simp

lemma wrap_all_run:
  assumes "wrap_all got rnd ctx xss s k = Some (ctx', yss)" and "w_uuid ctx = uuid" and "length uuid = 16" and "random_ok rnd"
  shows "pad_run uuid (wrap_state ctx) (concat yss) = (wrap_state ctx', concat xss)"
  using assms(1,2)
proof (induction xss arbitrary: ctx s k yss)
  case (Cons xs xss)
  obtain ctx1 out s1 k1 zss where
    w: "vision_wrap_payload_buffer got rnd ctx xs (empty_buffer None) s k = Some (True, ctx1, out, s1, k1)"
    and rec: "wrap_all got rnd ctx1 xss s1 k1 = Some (ctx', zss)" and y: "yss = rb_data out # zss"
    using Cons.prems(1) by (auto split: option.split_asm prod.split_asm bool.split_asm)
  note r = vision_wrap_payload_run [OF w Cons.prems(2) assms(3,4)]
  show ?case using Cons.IH [OF rec] r y by (simp add: pad_run_append)
qed simp

lemma unpad_at_init: "unpad_at uuid (vision_unpad_init uuid mem) (Matching 0)"
  by (simp add: unpad_at_def unpad_held_def unpad_rel_def unpad_idle_def vision_unpad_init_def empty_buffer_def)

lemma wrap_state_not_lost: "wrap_state ctx \<noteq> Lost"
  by (simp add: wrap_state_def)

text \<open>
  Property C9.  Unwrapping does not depend on how the stream is cut into chunks: for a stream that
  follows the format (it does not get lost for the abstract byte-at-a-time reader), every sequence of
  feeds that gets its memory returns exactly that reader's output and ends in a related state; and
  with an allocator that delivers, the feeds do succeed.
\<close>

theorem vision_unpad_chunking:
  assumes "length uuid = 16" and "fst (pad_run uuid (Matching 0) (concat chunks)) \<noteq> Lost"
  shows "(\<forall>got mem s c outs. unwrap_all got (vision_unpad_init uuid mem) chunks s = Some (c, outs) \<longrightarrow>
        concat outs = snd (pad_run uuid (Matching 0) (concat chunks)) \<and>
        unpad_at uuid c (fst (pad_run uuid (Matching 0) (concat chunks)))) \<and>
     (\<forall>s. (\<forall>xs \<in> set chunks. length xs + 16 \<le> SIZE_MAX) \<longrightarrow>
        (\<exists>c outs. unwrap_all (\<lambda>_. True) (vision_unpad_init uuid None) chunks s = Some (c, outs)))"
proof (intro conjI allI impI)
  fix got mem s c outs assume u: "unwrap_all got (vision_unpad_init uuid mem) chunks s = Some (c, outs)"
  note r = unwrap_all_run [OF u unpad_at_init assms]
  show "concat outs = snd (pad_run uuid (Matching 0) (concat chunks))"
    and "unpad_at uuid c (fst (pad_run uuid (Matching 0) (concat chunks)))" using r by blast+
next
  fix s assume "\<forall>xs \<in> set chunks. length xs + 16 \<le> SIZE_MAX"
  then show "\<exists>c outs. unwrap_all (\<lambda>_. True) (vision_unpad_init uuid None) chunks s = Some (c, outs)"
    using unwrap_all_returns [OF _ unpad_at_init [of uuid None] assms, of "\<lambda>_. True" s]
    by (simp add: vision_unpad_init_def empty_buffer_def)
qed

definition sample_uuid :: bytes where "sample_uuid = [1, 2, 3, 4, 5, 6, 7, 8, 9, 10, 11, 12, 13, 14, 15, 16]"

theorem vision_unpad_chunking_witness:
  "\<exists>c outs. unwrap_all (\<lambda>_. True) (vision_unpad_init sample_uuid None)
     [take 9 sample_uuid, drop 9 sample_uuid @ [0, 0, 2, 0], [1, 77, 78, 99, 1], [0, 1, 0, 0, 42], [43]] initial_state =
       Some (c, outs) \<and> concat outs = [77, 78, 42, 43]"
proof -
  let ?chunks = "[take 9 sample_uuid, drop 9 sample_uuid @ [0, 0, 2, 0], [1, 77, 78, 99, 1], [0, 1, 0, 0, 42], [43]]"
  have run: "pad_run sample_uuid (Matching 0) (concat ?chunks) = (Raw, [77, 78, 42, 43])" by code_simp
  have len: "length sample_uuid = 16" by (simp add: sample_uuid_def)
  have small: "\<forall>xs \<in> set ?chunks. length xs + 16 \<le> SIZE_MAX" by (simp add: sample_uuid_def SIZE_MAX_def)
  have alive: "fst (pad_run sample_uuid (Matching 0) (concat ?chunks)) \<noteq> Lost" using run by simp
  note t = vision_unpad_chunking [OF len alive]
  from conjunct2 [OF t, THEN spec, of initial_state] small obtain c outs where
    u: "unwrap_all (\<lambda>_. True) (vision_unpad_init sample_uuid None) ?chunks initial_state = Some (c, outs)" by blast
  then have "concat outs = snd (pad_run sample_uuid (Matching 0) (concat ?chunks))" using conjunct1 [OF t] by blast
  then show ?thesis using u run by auto
qed

text \<open>
  Property C3.  Wrapping and unwrapping are inverse: whatever payloads are wrapped one after the
  other, and however the written stream is cut into chunks on the way, the chunks unwrap to the
  payloads; a reader that has only seen a prefix of the stream has returned a prefix of the payloads.
\<close>

theorem vision_roundtrip:
  assumes "length uuid = 16" and "random_ok rnd"
    and "wrap_all got rnd (vision_wrap_init env uuid) payloads s k = Some (ctx, written)"
    and "concat written = concat chunks @ later"
    and "unwrap_all got' (vision_unpad_init uuid mem) chunks t = Some (c, read)"
  shows "(\<exists>more. concat payloads = concat read @ more) \<and> (later = [] \<longrightarrow> concat read = concat payloads)"
proof -
  have i: "w_uuid (vision_wrap_init env uuid) = uuid" "wrap_state (vision_wrap_init env uuid) = Matching 0"
    by (simp_all add: vision_wrap_init_def wrap_state_def)
  have run: "pad_run uuid (Matching 0) (concat chunks @ later) = (wrap_state ctx, concat payloads)"
    using wrap_all_run [OF assms(3) i(1) assms(1,2)] i(2) assms(4) by simp
  have alive: "fst (pad_run uuid (Matching 0) (concat chunks)) \<noteq> Lost"
    by (rule pad_run_not_lost [where ys = later]) (simp add: run wrap_state_not_lost)
  have r: "concat read = snd (pad_run uuid (Matching 0) (concat chunks))"
    using unwrap_all_run [OF assms(5) unpad_at_init assms(1) alive] by blast
  obtain a1 o1 where 1: "pad_run uuid (Matching 0) (concat chunks) = (a1, o1)" by fastforce
  obtain a2 o2 where 2: "pad_run uuid a1 later = (a2, o2)" by fastforce
  have "concat payloads = o1 @ o2" using run 1 2 by (simp add: pad_run_append)
  moreover have "concat read = o1" using r 1 by simp
  moreover have "later = [] \<Longrightarrow> o2 = []" using 2 by simp
  ultimately show ?thesis by auto
qed

definition sample_random :: random where
  "sample_random = \<lparr>rand_bytes = (\<lambda>k n. Some (if n = 4 then [5, 5, 5, 5] else replicate n 5)), deadline_over = (\<lambda>_. False)\<rparr>"

lemma sample_random_ok: "random_ok sample_random"
  by (simp add: random_ok_def sample_random_def)

lemma sample_padding: "vision_padding_len sample_random 0 2 True = (Some 943, 1)"
proof -
  have a: "CORE_RANDOM_MAX_ATTEMPTS = Suc 127" by (simp add: CORE_RANDOM_MAX_ATTEMPTS_def)
  have "core_random_range sample_random 0 0 499 = (Some 45, 1)"
    unfolding core_random_range_def a random_attempts.simps
    by (simp add: core_random_fill_def sample_random_def le_value_def random_threshold_def random_pick_def)
  then show ?thesis
    by (simp add: vision_padding_len_def rand_u16_mod_def szsub_def szadd_def)
qed

lemma sample_block:
  assumes "length (w_uuid ctx) = 16"
  shows "\<exists>ctx' out'. vision_build_block (\<lambda>_. True) sample_random ctx 0 [7, 8] True (empty_buffer None) s 0 = (True, ctx', out', s, 2) \<and>
     length (rb_data out') \<le> 2000"
proof -
  obtain r b t where r: "core_relay_buffer_reserve (\<lambda>_. True) s (empty_buffer None)
      (length (if uuid_sent ctx then [] else w_uuid ctx) + 1 + 2 + 2 + length [7, 8 :: byte] + 943) = (r, b, t)"
    by (metis prod_cases3)
  have f: "core_random_fill sample_random 1 943 = (Some (replicate 943 5), 2)"
    by (simp add: core_random_fill_def sample_random_def)
  have p: "vision_padding_len sample_random 0 (length [7, 8 :: byte]) True = (Some 943, 1)"
    using sample_padding by (simp add: numeral_2_eq_2)
  have "r = 1 \<and> t = s" using r assms by (auto simp: reserve_unfold empty_buffer_def SIZE_MAX_def split: if_split_asm)
  then show ?thesis unfolding vision_build_block_def p prod.case option.case Let_def r using assms by (simp add: f [unfolded One_nat_def])
qed

lemma sample_wrap_all:
  "\<exists>ctx written. wrap_all (\<lambda>_. True) sample_random (vision_wrap_init None sample_uuid) [[7, 8]] initial_state 0 = Some (ctx, written) \<and>
     (\<forall>xs \<in> set written. length xs \<le> 2000)"
proof -
  let ?ctx = "vision_wrap_init None sample_uuid"
  define ctx1 where "ctx1 = ?ctx\<lparr>client_tls := zero_reader, tls_disabled := True\<rparr>"
  have o: "vision_observe_tls ?ctx False [7, 8] = Some ctx1"
    by (simp add: ctx1_def vision_observe_tls_def Let_def reader_of_def set_reader_def vision_wrap_init_def zero_reader_def
        record_header_def word_less_nat_alt)
  have c: "chunk_command ?ctx ctx1 = (CMD_CONTINUE, 1)"
    by (simp add: chunk_command_def ctx1_def vision_wrap_init_def read_pad_packets_env_def Let_def)
  have "length (w_uuid ctx1) = 16" by (simp add: ctx1_def vision_wrap_init_def sample_uuid_def)
  from sample_block [OF this, of initial_state] obtain ctx2 out2 where
    b: "vision_build_block (\<lambda>_. True) sample_random ctx1 0 [7, 8] True (empty_buffer None) initial_state 0 = (True, ctx2, out2, initial_state, 2)"
    and l: "length (rb_data out2) \<le> 2000"
    by blast
  have "core_relay_buffer_clear initial_state (empty_buffer None) = (empty_buffer None, initial_state)"
    by (simp add: core_relay_buffer_clear_def empty_buffer_def)
  moreover have "padding_active ?ctx" by (simp add: vision_wrap_init_def)
  ultimately show ?thesis
    by (simp add: vision_wrap_payload_buffer_def vision_wrap_chunk_def o c b l Let_def)
qed

theorem vision_roundtrip_witness:
  "\<exists>ctx written c read.
     wrap_all (\<lambda>_. True) sample_random (vision_wrap_init None sample_uuid) [[7, 8]] initial_state 0 = Some (ctx, written) \<and>
     unwrap_all (\<lambda>_. True) (vision_unpad_init sample_uuid None) written initial_state = Some (c, read) \<and>
     concat read = [7, 8]"
proof -
  obtain ctx written where w: "wrap_all (\<lambda>_. True) sample_random (vision_wrap_init None sample_uuid) [[7, 8]] initial_state 0 =
      Some (ctx, written)" and l: "\<forall>xs \<in> set written. length xs \<le> 2000" using sample_wrap_all by blast
  have len: "length sample_uuid = 16" by (simp add: sample_uuid_def)
  have i: "w_uuid (vision_wrap_init None sample_uuid) = sample_uuid" "wrap_state (vision_wrap_init None sample_uuid) = Matching 0"
    by (simp_all add: vision_wrap_init_def wrap_state_def)
  have alive: "fst (pad_run sample_uuid (Matching 0) (concat written)) \<noteq> Lost"
    using wrap_all_run [OF w i(1) len sample_random_ok] i(2) wrap_state_not_lost by simp
  have "\<forall>xs \<in> set written. length xs + 16 \<le> SIZE_MAX"
    using l by (auto simp: SIZE_MAX_def)
  then obtain c read where u: "unwrap_all (\<lambda>_. True) (vision_unpad_init sample_uuid None) written initial_state = Some (c, read)"
    using unwrap_all_returns [OF _ unpad_at_init [of sample_uuid None] len alive, of "\<lambda>_. True" initial_state]
    by (auto simp: vision_unpad_init_def empty_buffer_def)
  have "concat written = concat written @ []" by simp
  from vision_roundtrip [OF len sample_random_ok w this u] show ?thesis using w u by simp
qed

lemma relay_grow_mono: "m \<le> needed \<Longrightarrow> relay_grow m k \<le> relay_grow needed k"
proof (induction needed k rule: relay_grow.induct)
  case (1 needed k)
  have ge: "needed \<le> relay_grow needed k" by (rule relay_grow_ge)
  show ?case
  proof (cases "512 * 2 ^ k < m \<and> \<not> 512 * 2 ^ k > SIZE_MAX div 2")
    case True
    then have "relay_grow m (k + 1) \<le> relay_grow needed (k + 1)" using "1.IH" [OF refl] "1.prems" by simp
    then show ?thesis using True "1.prems" by (subst (1 2) relay_grow.simps) (simp add: Let_def)
  next
    case False
    then have "relay_grow m k = max m (512 * 2 ^ k)" by (subst relay_grow.simps) (auto simp: Let_def)
    moreover have "512 * 2 ^ k \<le> relay_grow needed k"
      using ge by (subst relay_grow.simps) (auto simp: Let_def intro: le_trans [OF _ relay_grow_ge])
    ultimately show ?thesis using ge "1.prems" by simp
  qed
qed

lemma core_relay_capacity_mono: "m \<le> n \<Longrightarrow> core_relay_capacity m \<le> core_relay_capacity n"
  by (simp add: core_relay_capacity_def relay_grow_mono)

text \<open>
  The credit the relay asks for before it wraps a payload of one block is enough:
  the buffer that holds the wrapped block never has more capacity than the announced bound.
\<close>

lemma vision_wrap_within_bound:
  assumes "vision_wrap_payload_buffer got rnd ctx xs out s k = Some (True, ctx', out', s', k')"
    and "padding_active ctx" and "xs \<noteq> []" and "length xs \<le> 65535"
    and "length (w_uuid ctx) = 16" and "rb_minimum out = 0" and "rb_limit out = 0"
  shows "rb_capacity out' \<le> vision_wrap_buffer_bound (length xs)"
proof -
  obtain out1 s1 where cl: "core_relay_buffer_clear s out = (out1, s1)" by fastforce
  have o1: "rb_minimum out1 = 0" "rb_limit out1 = 0" "rb_capacity out1 = 0"
    using cl assms(6,7) by (auto simp: core_relay_buffer_clear_def)
  have w: "vision_wrap_chunk got rnd ctx xs out1 s1 k = Some (True, ctx', out', s', k')"
    using assms(1,4) cl by (simp add: vision_wrap_payload_buffer_def)
  obtain ctx1 cmd ctx2 s2 k2 where u: "w_uuid ctx1 = w_uuid ctx"
    and b: "vision_build_block got rnd ctx1 cmd xs (length xs < 900) out1 s1 k = (True, ctx2, out', s2, k2)"
  proof -
    obtain ctx1 where o: "vision_observe_tls ctx False xs = Some ctx1"
      using w assms(2-4) by (auto simp: vision_wrap_chunk_def split: option.split_asm)
    obtain cmd n where c: "chunk_command ctx ctx1 = (cmd, n)" by fastforce
    obtain ok ctx2 o2 s2 k2 where b: "vision_build_block got rnd ctx1 cmd xs (length xs < 900) out1 s1 k = (ok, ctx2, o2, s2, k2)"
      by (metis prod.exhaust)
    have "ok \<and> o2 = out'" using w assms(2-4) o c b by (auto simp: vision_wrap_chunk_def Let_def split: bool.split_asm)
    then show thesis using that [of ctx1 cmd ctx2 s2 k2] vision_observe_tls_keeps [OF o] b by simp
  qed
  obtain p k1 where p: "vision_padding_len rnd k (length xs) (length xs < 900) = (Some p, k1)"
    using b assms(4) by (auto simp: vision_build_block_def split: prod.split_asm option.split_asm)
  have pb: "p \<le> (if length xs < 900 then 1399 - length xs else 255)" using vision_padding_len_bound [OF p] by simp
  define n where "n = length (if uuid_sent ctx1 then [] else w_uuid ctx1) + 1 + 2 + 2 + length xs + p"
  obtain r buf t where r: "core_relay_buffer_reserve got s1 out1 n = (r, buf, t)" by (metis prod_cases3)
  have cap: "rb_capacity out' = rb_capacity buf \<and> r = 1"
    using b assms(4) unfolding vision_build_block_def p prod.case option.case Let_def n_def [symmetric] r
    by (auto split: if_split_asm option.split_asm prod.split_asm)
  have "n \<le> length xs + 21 + (if length xs < 900 then 1399 - length xs else 255)"
    using pb u assms(5) by (auto simp: n_def split: if_split_asm)
  then have "core_relay_capacity n \<le> vision_wrap_buffer_bound (length xs)"
    using assms(4) by (simp add: vision_wrap_buffer_bound_def core_relay_capacity_mono)
  moreover have "rb_capacity buf \<le> core_relay_capacity n"
    using r cap o1 by (auto simp: reserve_unfold reserve_capacity_def split: if_split_asm option.split_asm prod.split_asm)
  ultimately show ?thesis using cap by simp
qed

lemma vision_wrap_within_bound_witness:
  "\<exists>ctx' out' s' k'. vision_wrap_payload_buffer (\<lambda>_. True) sample_random (vision_wrap_init None sample_uuid) [7, 8]
     (empty_buffer None) initial_state 0 = Some (True, ctx', out', s', k') \<and>
     rb_capacity out' \<le> vision_wrap_buffer_bound 2"
proof -
  obtain ctx' out' s' k' where w: "vision_wrap_payload_buffer (\<lambda>_. True) sample_random (vision_wrap_init None sample_uuid) [7, 8]
      (empty_buffer None) initial_state 0 = Some (True, ctx', out', s', k')"
    using sample_wrap_all by (auto split: option.split_asm prod.split_asm bool.split_asm)
  have "rb_capacity out' \<le> vision_wrap_buffer_bound (length [7, 8 :: byte])"
    by (rule vision_wrap_within_bound [OF w]) (simp_all add: vision_wrap_init_def sample_uuid_def empty_buffer_def)
  then show ?thesis using w by (simp add: numeral_2_eq_2)
qed

end
