(* ===== verification/Tls_Buffers.thy ===== *)
theory Tls_Buffers
  imports Relay_Memory
begin

text \<open>
  The dynamic buffers of the TLS code, \<^verbatim>\<open>db_reserve\<close> to \<^verbatim>\<open>tls_buffer_init\<close> in
  \<^verbatim>\<open>src/src/tls_records.c\<close>.  A buffer is plain, or charged to a budget of
  \<^verbatim>\<open>buffer_budget.c\<close>, or charged to the pool of all handshakes and to the handshake that
  owns it.  \<open>got n\<close> is the allocator's answer to a request for \<open>n\<close> bytes.
\<close>

section \<open>Operations\<close>

definition TLS_HANDSHAKE_LIMIT :: nat where "TLS_HANDSHAKE_LIMIT = 1024 * 1024"
definition TLS_HANDSHAKE_TOTAL_LIMIT :: nat where "TLS_HANDSHAKE_TOTAL_LIMIT = 8 * 1024 * 1024"

record dynbuf =
  d_data :: bytes
  d_cap :: nat
  d_limit :: nat
  d_owner :: "nat option"
  d_tls_budget :: bool
  d_memory :: "nat option"

definition zero_dynbuf :: dynbuf where
  "zero_dynbuf = \<lparr>d_data = [], d_cap = 0, d_limit = 0, d_owner = None, d_tls_budget = False, d_memory = None\<rparr>"

text \<open>The bytes of all handshakes and of each handshake, under the module's lock.\<close>

record tls_pool =
  tls_buffer_bytes :: nat
  handshake_bytes :: "nat \<Rightarrow> nat"

text \<open>The capacity after \<open>k\<close> doublings of the present one (1024 for a new buffer).\<close>

function dyn_grow :: "nat \<Rightarrow> nat \<Rightarrow> nat \<Rightarrow> nat" where
  "dyn_grow cap need k =
     (let nc = (if cap = 0 then 1024 else cap) * 2 ^ k
      in if nc < need then (if nc > SIZE_MAX div 2 then need else dyn_grow cap need (k + 1)) else nc)"
  by auto
termination
  by (relation "measure (\<lambda>(cap, need, k). need - (if cap = 0 then 1024 else cap) * 2 ^ k)")
    (auto intro: diff_less_mono2)

declare dyn_grow.simps [simp del]

definition pool_add :: "tls_pool \<Rightarrow> nat option \<Rightarrow> nat \<Rightarrow> nat \<Rightarrow> tls_pool" where
  "pool_add pool owner amount own =
     pool\<lparr>tls_buffer_bytes := szadd (tls_buffer_bytes pool) amount,
          handshake_bytes := (case owner of None \<Rightarrow> handshake_bytes pool
            | Some h \<Rightarrow> (handshake_bytes pool)(h := szadd (handshake_bytes pool h) own))\<rparr>"

definition pool_sub :: "tls_pool \<Rightarrow> nat option \<Rightarrow> nat \<Rightarrow> nat \<Rightarrow> tls_pool" where
  "pool_sub pool owner amount own =
     pool\<lparr>tls_buffer_bytes := szsub (tls_buffer_bytes pool) amount,
          handshake_bytes := (case owner of None \<Rightarrow> handshake_bytes pool
            | Some h \<Rightarrow> (handshake_bytes pool)(h := szsub (handshake_bytes pool h) own))\<rparr>"

definition pool_refuses :: "tls_pool \<Rightarrow> nat option \<Rightarrow> nat \<Rightarrow> nat \<Rightarrow> bool" where
  "pool_refuses pool owner amount own \<longleftrightarrow>
     amount > szsub TLS_HANDSHAKE_TOTAL_LIMIT (tls_buffer_bytes pool) \<or>
     (case owner of None \<Rightarrow> False | Some h \<Rightarrow> own > szsub TLS_HANDSHAKE_LIMIT (handshake_bytes pool h))"

definition db_reserve ::
  "(nat \<Rightarrow> bool) \<Rightarrow> tls_pool \<Rightarrow> budget_state \<Rightarrow> dynbuf \<Rightarrow> nat \<Rightarrow> bool \<times> dynbuf \<times> tls_pool \<times> budget_state" where
  "db_reserve got pool s b n =
     (if n > szsub SIZE_MAX (length (d_data b)) then (False, b, pool, s)
      else
        let need = length (d_data b) + n
        in if d_limit b \<noteq> 0 \<and> need > d_limit b then (False, b, pool, s)
           else if need \<le> d_cap b then (True, b, pool, s)
           else
             let grown = dyn_grow (d_cap b) need 0;
                 nc = (if d_limit b \<noteq> 0 \<and> grown > d_limit b then d_limit b else grown);
                 retained = szsub nc (d_cap b)
             in if d_tls_budget b then
                  (if pool_refuses pool (d_owner b) nc retained then (False, b, pool, s)
                   else
                     let pool1 = pool_add pool (d_owner b) nc retained
                     in if \<not> got nc then (False, b, pool_sub pool1 (d_owner b) nc retained, s)
                        else (True, b\<lparr>d_cap := nc\<rparr>,
                              pool1\<lparr>tls_buffer_bytes := szsub (tls_buffer_bytes pool1) (d_cap b)\<rparr>, s))
                else (case d_memory b of
                        Some p \<Rightarrow>
                          (case core_buffer_realloc (got nc) s p (d_cap b \<noteq> 0) (d_cap b) nc of (e, ok, t) \<Rightarrow>
                             if ok then (True, b\<lparr>d_cap := nc\<rparr>, pool, t) else (False, b, pool, t))
                      | None \<Rightarrow> if got nc then (True, b\<lparr>d_cap := nc\<rparr>, pool, s) else (False, b, pool, s)))"

definition db_append ::
  "(nat \<Rightarrow> bool) \<Rightarrow> tls_pool \<Rightarrow> budget_state \<Rightarrow> dynbuf \<Rightarrow> bytes \<Rightarrow> bool \<times> dynbuf \<times> tls_pool \<times> budget_state" where
  "db_append got pool s b xs =
     (if xs = [] then (True, b, pool, s)
      else case db_reserve got pool s b (length xs) of (ok, b1, pool1, s1) \<Rightarrow>
             if ok then (True, b1\<lparr>d_data := d_data b1 @ xs\<rparr>, pool1, s1) else (False, b1, pool1, s1))"

definition db_consume :: "budget_state \<Rightarrow> dynbuf \<Rightarrow> nat \<Rightarrow> dynbuf \<times> budget_state" where
  "db_consume s b n =
     (if n \<ge> length (d_data b) then
        (case d_memory b of
           Some p \<Rightarrow> if d_cap b > 65536 then (b\<lparr>d_data := [], d_cap := 0\<rparr>, core_buffer_free s p (d_cap b \<noteq> 0) (d_cap b))
                     else (b\<lparr>d_data := []\<rparr>, s)
         | None \<Rightarrow> (b\<lparr>d_data := []\<rparr>, s))
      else (b\<lparr>d_data := drop n (d_data b)\<rparr>, s))"

definition db_free :: "tls_pool \<Rightarrow> budget_state \<Rightarrow> dynbuf \<Rightarrow> dynbuf \<times> tls_pool \<times> budget_state" where
  "db_free pool s b =
     (zero_dynbuf,
      if d_tls_budget b then pool_sub pool (d_owner b) (d_cap b) (d_cap b) else pool,
      case d_memory b of Some p \<Rightarrow> core_buffer_free s p (d_cap b \<noteq> 0) (d_cap b) | None \<Rightarrow> s)"

definition tls_buffer_init :: "tls_pool \<Rightarrow> dynbuf \<Rightarrow> nat \<Rightarrow> nat option \<Rightarrow> bool \<times> dynbuf \<times> tls_pool" where
  "tls_buffer_init pool b limit owner =
     (if d_tls_budget b then (d_limit b = limit \<and> d_owner b = owner, b, pool)
      else if d_cap b > limit then (False, b, pool)
      else if pool_refuses pool owner (d_cap b) (d_cap b) then (False, b, pool)
      else (True, b\<lparr>d_limit := limit, d_owner := owner, d_tls_budget := True\<rparr>,
            pool_add pool owner (d_cap b) (d_cap b)))"

section \<open>Plain buffers\<close>

text \<open>A buffer without limit and without accounts.\<close>

definition plain_buf :: "dynbuf \<Rightarrow> bool" where
  "plain_buf b \<longleftrightarrow> d_limit b = 0 \<and> \<not> d_tls_budget b \<and> d_memory b = None"

lemma plain_zero [simp]: "plain_buf zero_dynbuf" "d_data zero_dynbuf = []"
  by (simp_all add: plain_buf_def zero_dynbuf_def)

text \<open>Appending to such a buffer depends on no account and changes none.\<close>

lemma plain_reserve:
  assumes "plain_buf b"
  shows "\<exists>ok b'. \<forall>pool s. db_reserve got pool s b n = (ok, b', pool, s) \<and> plain_buf b' \<and> d_data b' = d_data b"
proof -
  define nc where "nc = dyn_grow (d_cap b) (length (d_data b) + n) 0"
  define fits where "fits \<longleftrightarrow> \<not> n > szsub SIZE_MAX (length (d_data b)) \<and> (length (d_data b) + n \<le> d_cap b \<or> got nc)"
  define b' where "b' = (if fits \<and> \<not> length (d_data b) + n \<le> d_cap b then b\<lparr>d_cap := nc\<rparr> else b)"
  have "db_reserve got pool s b n = (fits, b', pool, s)" for pool s
    using assms by (simp add: db_reserve_def plain_buf_def Let_def nc_def fits_def b'_def)
  moreover have "plain_buf b' \<and> d_data b' = d_data b" using assms by (simp add: b'_def plain_buf_def)
  ultimately show ?thesis by blast
qed

definition plain_append :: "(nat \<Rightarrow> bool) \<Rightarrow> dynbuf \<Rightarrow> bytes \<Rightarrow> dynbuf option" where
  "plain_append got b xs =
     (case db_append got \<lparr>tls_buffer_bytes = 0, handshake_bytes = (\<lambda>_. 0)\<rparr> initial_state b xs of (ok, b', _, _) \<Rightarrow>
        if ok then Some b' else None)"

lemma plain_append_any:
  assumes "plain_buf b"
  shows "db_append got pool s b xs = (True, b', pool', s') \<longleftrightarrow> plain_append got b xs = Some b' \<and> pool' = pool \<and> s' = s"
proof -
  obtain ok c where r: "\<And>pool s. db_reserve got pool s b (length xs) = (ok, c, pool, s)"
    using plain_reserve [OF assms] by metis
  show ?thesis by (auto simp: plain_append_def db_append_def r)
qed

lemma plain_append_data:
  assumes "plain_buf b" and "plain_append got b xs = Some b'"
  shows "plain_buf b' \<and> d_data b' = d_data b @ xs"
proof -
  obtain ok c where r: "\<And>pool s. db_reserve got pool s b (length xs) = (ok, c, pool, s)" "plain_buf c" "d_data c = d_data b"
    using plain_reserve [OF assms(1), of got "length xs"] by metis
  show ?thesis
    using assms r by (auto simp: plain_append_def db_append_def plain_buf_def split: if_split_asm)
qed

section \<open>The pool of all handshakes\<close>

text \<open>
  The buffers charged to the pool, by their addresses: what the pool counts is the sum of their
  capacities, and what a handshake counts the sum over the buffers it owns.
\<close>

definition dyn_total :: "(nat \<rightharpoonup> dynbuf) \<Rightarrow> nat" where
  "dyn_total m = (\<Sum>p\<in>dom m. if d_tls_budget (the (m p)) then d_cap (the (m p)) else 0)"

definition dyn_owned :: "nat \<Rightarrow> (nat \<rightharpoonup> dynbuf) \<Rightarrow> nat" where
  "dyn_owned h m = (\<Sum>p\<in>dom m. if d_tls_budget (the (m p)) \<and> d_owner (the (m p)) = Some h then d_cap (the (m p)) else 0)"

definition pool_inv :: "(nat \<rightharpoonup> dynbuf) \<Rightarrow> tls_pool \<Rightarrow> bool" where
  "pool_inv m pool \<longleftrightarrow> finite (dom m) \<and> tls_buffer_bytes pool = dyn_total m \<and>
     (\<forall>h. handshake_bytes pool h = dyn_owned h m \<and> handshake_bytes pool h \<le> TLS_HANDSHAKE_LIMIT) \<and>
     tls_buffer_bytes pool \<le> TLS_HANDSHAKE_TOTAL_LIMIT"

lemma dom_sum_upd:
  fixes f :: "dynbuf \<Rightarrow> nat"
  assumes "finite (dom m)" and "m p = Some b"
  shows "(\<Sum>q\<in>dom (m(p \<mapsto> b')). f (the ((m(p \<mapsto> b')) q))) + f b = (\<Sum>q\<in>dom m. f (the (m q))) + f b'"
proof -
  have dom: "dom (m(p \<mapsto> b')) = dom m" and p: "p \<in> dom m" using assms by auto
  have rest: "(\<Sum>q\<in>dom m - {p}. f (the ((m(p \<mapsto> b')) q))) = (\<Sum>q\<in>dom m - {p}. f (the (m q)))"
    by (rule sum.cong) auto
  show ?thesis
    unfolding dom sum.remove [OF assms(1) p] using assms(2) by (simp add: rest)
qed

lemma dyn_total_upd:
  assumes "finite (dom m)" and "m p = Some b"
  shows "dyn_total (m(p \<mapsto> b')) + (if d_tls_budget b then d_cap b else 0) =
    dyn_total m + (if d_tls_budget b' then d_cap b' else 0)"
  unfolding dyn_total_def using dom_sum_upd [OF assms, of "\<lambda>b. if d_tls_budget b then d_cap b else 0"] by simp

lemma dyn_owned_upd:
  assumes "finite (dom m)" and "m p = Some b"
  shows "dyn_owned h (m(p \<mapsto> b')) + (if d_tls_budget b \<and> d_owner b = Some h then d_cap b else 0) =
    dyn_owned h m + (if d_tls_budget b' \<and> d_owner b' = Some h then d_cap b' else 0)"
  unfolding dyn_owned_def
  using dom_sum_upd [OF assms, of "\<lambda>b. if d_tls_budget b \<and> d_owner b = Some h then d_cap b else 0"] by simp

lemma pool_inv_upd:
  assumes inv: "pool_inv m pool" and b: "m p = Some b"
    and t: "tls_buffer_bytes pool' + (if d_tls_budget b then d_cap b else 0) =
            tls_buffer_bytes pool + (if d_tls_budget b' then d_cap b' else 0)"
    and h: "\<And>h. handshake_bytes pool' h + (if d_tls_budget b \<and> d_owner b = Some h then d_cap b else 0) =
            handshake_bytes pool h + (if d_tls_budget b' \<and> d_owner b' = Some h then d_cap b' else 0)"
    and lim: "tls_buffer_bytes pool' \<le> TLS_HANDSHAKE_TOTAL_LIMIT" "\<And>h. handshake_bytes pool' h \<le> TLS_HANDSHAKE_LIMIT"
  shows "pool_inv (m(p \<mapsto> b')) pool'"
proof -
  have fin: "finite (dom m)" and old: "tls_buffer_bytes pool = dyn_total m" "\<And>h. handshake_bytes pool h = dyn_owned h m"
    using inv by (simp_all add: pool_inv_def)
  have "tls_buffer_bytes pool' = dyn_total (m(p \<mapsto> b'))" using t dyn_total_upd [OF fin b, of b'] old by linarith
  moreover have "handshake_bytes pool' h = dyn_owned h (m(p \<mapsto> b'))" for h
    using h [of h] dyn_owned_upd [OF fin b, of h b'] old(2) [of h] by linarith
  ultimately show ?thesis using lim fin b by (simp add: pool_inv_def)
qed

lemma pool_limits:
  assumes "pool_inv m pool"
  shows "tls_buffer_bytes pool \<le> TLS_HANDSHAKE_TOTAL_LIMIT" "handshake_bytes pool h \<le> TLS_HANDSHAKE_LIMIT"
    "TLS_HANDSHAKE_TOTAL_LIMIT + TLS_HANDSHAKE_TOTAL_LIMIT \<le> SIZE_MAX" "TLS_HANDSHAKE_LIMIT + TLS_HANDSHAKE_LIMIT \<le> SIZE_MAX"
proof -
  show "tls_buffer_bytes pool \<le> TLS_HANDSHAKE_TOTAL_LIMIT" "handshake_bytes pool h \<le> TLS_HANDSHAKE_LIMIT"
    using assms unfolding pool_inv_def by blast+
qed (simp_all add: TLS_HANDSHAKE_TOTAL_LIMIT_def TLS_HANDSHAKE_LIMIT_def SIZE_MAX_def)

text \<open>Within the limits the accounts add and subtract without wrapping.\<close>

lemma pool_refuses_exact:
  assumes "pool_inv m pool"
  shows "pool_refuses pool owner a own \<longleftrightarrow>
     tls_buffer_bytes pool + a > TLS_HANDSHAKE_TOTAL_LIMIT \<or>
     (\<exists>h. owner = Some h \<and> handshake_bytes pool h + own > TLS_HANDSHAKE_LIMIT)"
proof -
  note l = pool_limits [OF assms]
  have "szsub TLS_HANDSHAKE_TOTAL_LIMIT (tls_buffer_bytes pool) = TLS_HANDSHAKE_TOTAL_LIMIT - tls_buffer_bytes pool"
    using l by (intro szsub_exact) linarith+
  moreover have "szsub TLS_HANDSHAKE_LIMIT (handshake_bytes pool h) = TLS_HANDSHAKE_LIMIT - handshake_bytes pool h" for h
    using l(2) [of h] l(4) by (intro szsub_exact) linarith+
  moreover have "(n - k < c) = (n < k + c)" if "k \<le> n" for n k c :: nat using that by linarith
  ultimately show ?thesis using l(1,2) by (cases owner) (simp_all add: pool_refuses_def)
qed

lemma pool_add_exact:
  assumes inv: "pool_inv m pool" and ok: "\<not> pool_refuses pool owner a own"
  shows "tls_buffer_bytes (pool_add pool owner a own) = tls_buffer_bytes pool + a"
    and "handshake_bytes (pool_add pool owner a own) h = handshake_bytes pool h + (if owner = Some h then own else 0)"
proof -
  note l = pool_limits [OF inv] and r = ok [unfolded pool_refuses_exact [OF inv]]
  have "tls_buffer_bytes pool + a \<le> SIZE_MAX" using r l(3) by linarith
  then show "tls_buffer_bytes (pool_add pool owner a own) = tls_buffer_bytes pool + a"
    by (simp add: pool_add_def szadd_exact)
  have "owner = Some h \<Longrightarrow> handshake_bytes pool h + own \<le> SIZE_MAX" using r l(4) by fastforce
  then show "handshake_bytes (pool_add pool owner a own) h = handshake_bytes pool h + (if owner = Some h then own else 0)"
    by (cases owner) (auto simp: pool_add_def szadd_exact)
qed

lemma pool_sub_exact:
  assumes "a \<le> tls_buffer_bytes pool" and "tls_buffer_bytes pool \<le> SIZE_MAX"
    and "\<And>h. owner = Some h \<Longrightarrow> own \<le> handshake_bytes pool h \<and> handshake_bytes pool h \<le> SIZE_MAX"
  shows "tls_buffer_bytes (pool_sub pool owner a own) = tls_buffer_bytes pool - a"
    and "handshake_bytes (pool_sub pool owner a own) h = handshake_bytes pool h - (if owner = Some h then own else 0)"
  using assms by (cases owner; auto simp: pool_sub_def szsub_exact)+

text \<open>A buffer's capacity is part of what the pool and its owner count.\<close>

lemma sum_part:
  fixes f :: "dynbuf \<Rightarrow> nat"
  assumes "finite (dom m)" and "m p = Some b"
  shows "f b \<le> (\<Sum>q\<in>dom m. f (the (m q)))"
proof -
  have "f (the (m p)) \<le> (\<Sum>q\<in>dom m. f (the (m q)))" using assms by (intro member_le_sum) auto
  then show ?thesis using assms by simp
qed

lemma pool_part:
  assumes inv: "pool_inv m pool" and b: "m p = Some b" "d_tls_budget b"
  shows "d_cap b \<le> tls_buffer_bytes pool" and "d_owner b = Some h \<Longrightarrow> d_cap b \<le> handshake_bytes pool h"
proof -
  have fin: "finite (dom m)" using inv by (simp add: pool_inv_def)
  show "d_cap b \<le> tls_buffer_bytes pool"
    using sum_part [OF fin b(1), of "\<lambda>b. if d_tls_budget b then d_cap b else 0"] b inv
    by (simp add: pool_inv_def dyn_total_def)
  show "d_owner b = Some h \<Longrightarrow> d_cap b \<le> handshake_bytes pool h"
    using sum_part [OF fin b(1), of "\<lambda>b. if d_tls_budget b \<and> d_owner b = Some h then d_cap b else 0"] b inv
    by (simp add: pool_inv_def dyn_owned_def)
qed

lemma dyn_grow_ge: "need \<le> dyn_grow cap need k"
proof (induction cap need k rule: dyn_grow.induct)
  case (1 cap need k)
  then show ?case by (subst dyn_grow.simps) (auto simp: Let_def)
qed

text \<open>The capacity a reservation asks for; it covers the need and stays within the limit.\<close>

definition db_capacity :: "dynbuf \<Rightarrow> nat \<Rightarrow> nat" where
  "db_capacity b need =
     (let grown = dyn_grow (d_cap b) need 0
      in if d_limit b \<noteq> 0 \<and> grown > d_limit b then d_limit b else grown)"

lemma db_capacity_ge: "\<not> (d_limit b \<noteq> 0 \<and> need > d_limit b) \<Longrightarrow> need \<le> db_capacity b need"
  using dyn_grow_ge [of need "d_cap b" 0] by (auto simp: db_capacity_def Let_def)

lemma db_reserve_unfold:
  "db_reserve got pool s b n =
     (let need = length (d_data b) + n; nc = db_capacity b need; retained = szsub nc (d_cap b)
      in if n > szsub SIZE_MAX (length (d_data b)) \<or> d_limit b \<noteq> 0 \<and> need > d_limit b then (False, b, pool, s)
         else if need \<le> d_cap b then (True, b, pool, s)
         else if d_tls_budget b then
           (if pool_refuses pool (d_owner b) nc retained then (False, b, pool, s)
            else if \<not> got nc then (False, b, pool_sub (pool_add pool (d_owner b) nc retained) (d_owner b) nc retained, s)
            else (True, b\<lparr>d_cap := nc\<rparr>, (pool_add pool (d_owner b) nc retained)
                    \<lparr>tls_buffer_bytes := szsub (tls_buffer_bytes (pool_add pool (d_owner b) nc retained)) (d_cap b)\<rparr>, s))
         else (case d_memory b of
                 Some p \<Rightarrow>
                   (case core_buffer_realloc (got nc) s p (d_cap b \<noteq> 0) (d_cap b) nc of (e, ok, t) \<Rightarrow>
                      if ok then (True, b\<lparr>d_cap := nc\<rparr>, pool, t) else (False, b, pool, t))
               | None \<Rightarrow> if got nc then (True, b\<lparr>d_cap := nc\<rparr>, pool, s) else (False, b, pool, s)))"
  unfolding db_reserve_def db_capacity_def Let_def by simp

lemma pool_eqI:
  "tls_buffer_bytes p = tls_buffer_bytes q \<Longrightarrow> (\<And>h. handshake_bytes p h = handshake_bytes q h) \<Longrightarrow> p = (q :: tls_pool)"
  by (cases p; cases q) auto

lemma pool_reserve_inv:
  assumes inv: "pool_inv m pool" and b: "m p = Some b" and bud: "d_tls_budget b" and lt: "d_cap b < nc" and big: "nc \<le> SIZE_MAX"
    and ok: "\<not> pool_refuses pool (d_owner b) nc (szsub nc (d_cap b))"
    and u: "u = pool_add pool (d_owner b) nc (szsub nc (d_cap b))"
  shows "pool_inv (m(p \<mapsto> b\<lparr>d_cap := nc\<rparr>)) (u\<lparr>tls_buffer_bytes := szsub (tls_buffer_bytes u) (d_cap b)\<rparr>)"
    and "pool_sub u (d_owner b) nc (szsub nc (d_cap b)) = pool"
proof -
  have ret: "szsub nc (d_cap b) = nc - d_cap b" using lt big by (intro szsub_exact) simp_all
  note add = pool_add_exact [OF inv ok, folded u, unfolded ret]
  note ref = ok [unfolded pool_refuses_exact [OF inv] ret] and lim = pool_limits [OF inv] and part = pool_part [OF inv b bud]
  have t: "szsub (tls_buffer_bytes u) (d_cap b) = tls_buffer_bytes pool + nc - d_cap b"
    unfolding add using lt ref lim(3) by (intro szsub_exact) linarith+
  note t' = t [unfolded add]
  show "pool_inv (m(p \<mapsto> b\<lparr>d_cap := nc\<rparr>)) (u\<lparr>tls_buffer_bytes := szsub (tls_buffer_bytes u) (d_cap b)\<rparr>)"
  proof (rule pool_inv_upd [OF inv b])
    fix h
    show "handshake_bytes (u\<lparr>tls_buffer_bytes := szsub (tls_buffer_bytes u) (d_cap b)\<rparr>) h \<le> TLS_HANDSHAKE_LIMIT"
      using ref lim(2) [of h] by (auto simp: add)
  qed (use lt bud ref in \<open>auto simp: t' add\<close>)
  have sub: "tls_buffer_bytes (pool_sub u (d_owner b) nc (nc - d_cap b)) = tls_buffer_bytes u - nc"
    "handshake_bytes (pool_sub u (d_owner b) nc (nc - d_cap b)) h =
       handshake_bytes u h - (if d_owner b = Some h then nc - d_cap b else 0)" for h
  proof -
    have 1: "nc \<le> tls_buffer_bytes u" "tls_buffer_bytes u \<le> SIZE_MAX" unfolding add using ref lim(3) by linarith+
    have 2: "d_owner b = Some h \<Longrightarrow> nc - d_cap b \<le> handshake_bytes u h \<and> handshake_bytes u h \<le> SIZE_MAX" for h
      unfolding add using ref lim(4) by (auto intro: le_trans)
    show "tls_buffer_bytes (pool_sub u (d_owner b) nc (nc - d_cap b)) = tls_buffer_bytes u - nc"
      "handshake_bytes (pool_sub u (d_owner b) nc (nc - d_cap b)) h =
         handshake_bytes u h - (if d_owner b = Some h then nc - d_cap b else 0)" for h
      using pool_sub_exact [OF 1 2] by simp_all
  qed
  show "pool_sub u (d_owner b) nc (szsub nc (d_cap b)) = pool"
    unfolding ret by (rule pool_eqI) (simp_all add: sub add)
qed

lemma dyn_grow_le:
  assumes "need \<le> SIZE_MAX" and "(if cap = 0 then 1024 else cap) * 2 ^ k \<le> SIZE_MAX"
  shows "dyn_grow cap need k \<le> SIZE_MAX"
  using assms
proof (induction cap need k rule: dyn_grow.induct)
  case (1 cap need k)
  let ?nc = "(if cap = 0 then 1024 else cap) * 2 ^ k"
  have dbl: "(if cap = 0 then 1024 else cap) * 2 ^ (k + 1) \<le> SIZE_MAX" if "\<not> ?nc > SIZE_MAX div 2"
    using that by (simp add: mult.left_commute mult.commute split: if_splits)
  show ?case
  proof (cases "?nc < need \<and> \<not> ?nc > SIZE_MAX div 2")
    case True
    then have "dyn_grow cap need (k + 1) \<le> SIZE_MAX" using 1 dbl by (simp add: Let_def)
    then show ?thesis using True by (subst dyn_grow.simps) (auto simp: Let_def)
  next
    case False
    then show ?thesis using 1(2,3) by (subst dyn_grow.simps) (auto simp: Let_def)
  qed
qed

text \<open>
  What holds of each buffer: its bytes fit its capacity, and a buffer of the pool is charged to no
  budget.
\<close>

definition dynbuf_wf :: "dynbuf \<Rightarrow> bool" where
  "dynbuf_wf b \<longleftrightarrow> length (d_data b) \<le> d_cap b \<and> d_cap b \<le> SIZE_MAX \<and> (d_tls_budget b \<longrightarrow> d_memory b = None)"

definition dynbufs_ok :: "(nat \<rightharpoonup> dynbuf) \<Rightarrow> tls_pool \<Rightarrow> bool" where
  "dynbufs_ok m pool \<longleftrightarrow> pool_inv m pool \<and> (\<forall>b\<in>ran m. dynbuf_wf b)"

lemma dynbufs_ok_upd:
  "dynbufs_ok m pool \<Longrightarrow> pool_inv (m(p \<mapsto> b')) pool' \<Longrightarrow> dynbuf_wf b' \<Longrightarrow> dynbufs_ok (m(p \<mapsto> b')) pool'"
  unfolding dynbufs_ok_def by (auto simp: ran_def split: if_splits)

lemma pool_inv_same:
  assumes "pool_inv m pool" and "m p = Some b" and "d_tls_budget b' = d_tls_budget b"
    and "d_tls_budget b \<longrightarrow> d_cap b' = d_cap b \<and> d_owner b' = d_owner b"
  shows "pool_inv (m(p \<mapsto> b')) pool"
  using assms pool_limits [OF assms(1)] by (intro pool_inv_upd [OF assms(1,2)]) auto

lemma db_reserve_ok:
  assumes ok: "dynbufs_ok m pool" and b: "m p = Some b" and r: "db_reserve got pool s b n = (res, b', pool', s')"
  shows "pool_inv (m(p \<mapsto> b')) pool' \<and> d_data b' = d_data b \<and> dynbuf_wf b' \<and>
      (res \<longrightarrow> length (d_data b) + n \<le> d_cap b') \<and> (\<not> res \<longrightarrow> b' = b \<and> pool' = pool)"
proof -
  have inv: "pool_inv m pool" and wf: "dynbuf_wf b" using ok b by (auto simp: dynbufs_ok_def ran_def)
  define nc where "nc = db_capacity b (length (d_data b) + n)"
  have len: "length (d_data b) \<le> SIZE_MAX" using wf by (simp add: dynbuf_wf_def)
  have same: "pool_inv (m(p \<mapsto> b)) pool" using inv b by (simp add: fun_upd_idem)
  show ?thesis
  proof (cases "n > szsub SIZE_MAX (length (d_data b)) \<or> d_limit b \<noteq> 0 \<and> length (d_data b) + n > d_limit b \<or>
      length (d_data b) + n \<le> d_cap b")
    case True
    then show ?thesis
      using r same wf by (simp add: db_reserve_unfold Let_def split: if_split_asm)
  next
    case False
    then have need: "length (d_data b) + n \<le> nc" by (simp add: nc_def db_capacity_ge)
    have lt: "d_cap b < nc" using need False by linarith
    have "length (d_data b) + n \<le> SIZE_MAX" using False len szsub_exact [OF len] by linarith
    then have "dyn_grow (d_cap b) (length (d_data b) + n) 0 \<le> SIZE_MAX"
      using wf by (intro dyn_grow_le) (auto simp: dynbuf_wf_def SIZE_MAX_def)
    then have big: "nc \<le> SIZE_MAX" by (auto simp: nc_def db_capacity_def Let_def)
    have grown: "dynbuf_wf (b\<lparr>d_cap := nc\<rparr>)" using wf big lt by (simp add: dynbuf_wf_def)
    note pool = pool_reserve_inv [OF inv b _ lt big _ refl] and r' = r [unfolded db_reserve_unfold Let_def, folded nc_def]
    have plain: "\<not> d_tls_budget b \<Longrightarrow> pool_inv (m(p \<mapsto> b\<lparr>d_cap := nc\<rparr>)) pool"
      using inv b by (intro pool_inv_same) auto
    show ?thesis
      using r' False pool plain same wf need grown
      by (simp split: if_split_asm option.split_asm prod.split_asm) auto
  qed
qed

text \<open>
  The buffers of a process and the operations on them, in any order.  A buffer put under the pool
  belongs to no budget; the pool has no buffers at the start.
\<close>

inductive tls_buffers_step ::
  "(nat \<Rightarrow> bool) \<Rightarrow> (nat \<rightharpoonup> dynbuf) \<times> tls_pool \<times> budget_state \<Rightarrow> (nat \<rightharpoonup> dynbuf) \<times> tls_pool \<times> budget_state \<Rightarrow> bool"
  for got where
  append: "m p = Some b \<Longrightarrow> db_append got pool s b xs = (ok, b', pool', s') \<Longrightarrow>
    tls_buffers_step got (m, pool, s) (m(p \<mapsto> b'), pool', s')"
| consume: "m p = Some b \<Longrightarrow> db_consume s b n = (b', s') \<Longrightarrow> tls_buffers_step got (m, pool, s) (m(p \<mapsto> b'), pool, s')"
| free: "m p = Some b \<Longrightarrow> db_free pool s b = (b', pool', s') \<Longrightarrow> tls_buffers_step got (m, pool, s) (m(p \<mapsto> b'), pool', s')"
| init: "m p = Some b \<Longrightarrow> d_memory b = None \<Longrightarrow> tls_buffer_init pool b limit owner = (ok, b', pool') \<Longrightarrow>
    tls_buffers_step got (m, pool, s) (m(p \<mapsto> b'), pool', s)"

inductive_cases tls_buffers_stepE: "tls_buffers_step got x y"

definition tls_start :: "(nat \<rightharpoonup> dynbuf) \<Rightarrow> tls_pool \<Rightarrow> bool" where
  "tls_start m pool \<longleftrightarrow> finite (dom m) \<and> (\<forall>b\<in>ran m. dynbuf_wf b \<and> \<not> d_tls_budget b) \<and>
     pool = \<lparr>tls_buffer_bytes = 0, handshake_bytes = (\<lambda>_. 0)\<rparr>"

lemma tls_start_ok: "tls_start m pool \<Longrightarrow> dynbufs_ok m pool"
proof -
  assume s: "tls_start m pool"
  then have "\<not> d_tls_budget (the (m p))" if "p \<in> dom m" for p using that by (auto simp: tls_start_def ran_def)
  then have "dyn_total m = 0" "dyn_owned h m = 0" for h by (simp_all add: dyn_total_def dyn_owned_def)
  then show ?thesis using s by (simp add: dynbufs_ok_def pool_inv_def tls_start_def)
qed

lemma db_append_ok:
  assumes ok: "dynbufs_ok m pool" and b: "m p = Some b" and r: "db_append got pool s b xs = (res, b', pool', s')"
  shows "dynbufs_ok (m(p \<mapsto> b')) pool'"
    and "if res then d_data b' = d_data b @ xs else b' = b \<and> pool' = pool"
proof -
  have wf: "dynbuf_wf b" using ok b by (auto simp: dynbufs_ok_def ran_def)
  obtain o1 b1 p1 s1 where d: "db_reserve got pool s b (length xs) = (o1, b1, p1, s1)" by (metis prod_cases4)
  note res = db_reserve_ok [OF ok b d]
  have full: "pool_inv (m(p \<mapsto> b1\<lparr>d_data := d_data b1 @ xs\<rparr>)) p1"
    using pool_inv_same [of "m(p \<mapsto> b1)" p1 p b1 "b1\<lparr>d_data := d_data b1 @ xs\<rparr>"] res by simp
  have "dynbuf_wf (b1\<lparr>d_data := d_data b1 @ xs\<rparr>)" if o1 using res that by (simp add: dynbuf_wf_def)
  then show "dynbufs_ok (m(p \<mapsto> b')) pool'" "if res then d_data b' = d_data b @ xs else b' = b \<and> pool' = pool"
    using r d res full dynbufs_ok_upd [OF ok] ok b by (auto simp: db_append_def fun_upd_idem split: if_splits)
qed

lemma db_consume_ok:
  assumes ok: "dynbufs_ok m pool" and b: "m p = Some b" and r: "db_consume s b n = (b', s')"
  shows "dynbufs_ok (m(p \<mapsto> b')) pool"
proof -
  have inv: "pool_inv m pool" and wf: "dynbuf_wf b" using ok b by (auto simp: dynbufs_ok_def ran_def)
  have same: "d_tls_budget b' = d_tls_budget b" "dynbuf_wf b'" "d_tls_budget b \<longrightarrow> d_cap b' = d_cap b \<and> d_owner b' = d_owner b"
    using r wf by (auto simp: db_consume_def dynbuf_wf_def split: if_splits option.splits)
  from dynbufs_ok_upd [OF ok pool_inv_same [OF inv b same(1,3)] same(2)] show ?thesis .
qed

lemma db_free_ok:
  assumes ok: "dynbufs_ok m pool" and b: "m p = Some b" and r: "db_free pool s b = (b', pool', s')"
  shows "dynbufs_ok (m(p \<mapsto> b')) pool'"
proof (cases "d_tls_budget b")
  case True
  have inv: "pool_inv m pool" using ok by (simp add: dynbufs_ok_def)
  note lim = pool_limits [OF inv] and part = pool_part [OF inv b True]
  have le: "tls_buffer_bytes pool \<le> SIZE_MAX" "handshake_bytes pool h \<le> SIZE_MAX" for h
    using lim(1,3) lim(2) [of h] lim(4) by linarith+
  have sub: "tls_buffer_bytes pool' = tls_buffer_bytes pool - d_cap b"
    "handshake_bytes pool' h = handshake_bytes pool h - (if d_owner b = Some h then d_cap b else 0)" for h
    using r True pool_sub_exact [of "d_cap b" pool "d_owner b" "d_cap b"] part le by (simp_all add: db_free_def)
  have "pool_inv (m(p \<mapsto> b')) pool'"
  proof (rule pool_inv_upd [OF inv b])
    show "tls_buffer_bytes pool' + (if d_tls_budget b then d_cap b else 0) =
        tls_buffer_bytes pool + (if d_tls_budget b' then d_cap b' else 0)"
      using sub part(1) r True by (auto simp: db_free_def zero_dynbuf_def)
  next
    fix h
    show "handshake_bytes pool' h + (if d_tls_budget b \<and> d_owner b = Some h then d_cap b else 0) =
        handshake_bytes pool h + (if d_tls_budget b' \<and> d_owner b' = Some h then d_cap b' else 0)"
      using sub(2) [of h] part(2) [of h] r True by (auto simp: db_free_def zero_dynbuf_def)
    show "handshake_bytes pool' h \<le> TLS_HANDSHAKE_LIMIT" using sub(2) [of h] lim(2) [of h] by linarith
  qed (use sub lim(1) in linarith)
  then show ?thesis using dynbufs_ok_upd [OF ok] r by (auto simp: db_free_def dynbuf_wf_def zero_dynbuf_def)
next
  case False
  have f: "\<not> d_tls_budget b'" "pool' = pool" "pool_inv m pool"
    using False ok r by (auto simp: dynbufs_ok_def db_free_def zero_dynbuf_def)
  then have "pool_inv (m(p \<mapsto> b')) pool'" using pool_inv_same [OF f(3) b, of b'] False by simp
  then show ?thesis using dynbufs_ok_upd [OF ok] r by (auto simp: db_free_def dynbuf_wf_def zero_dynbuf_def)
qed

lemma tls_buffer_init_ok:
  assumes ok: "dynbufs_ok m pool" and b: "m p = Some b" and mem: "d_memory b = None"
    and r: "tls_buffer_init pool b limit owner = (res, b', pool')"
  shows "dynbufs_ok (m(p \<mapsto> b')) pool'"
proof (cases "d_tls_budget b \<or> d_cap b > limit \<or> pool_refuses pool owner (d_cap b) (d_cap b)")
  case True
  then have "b' = b" "pool' = pool" using r by (auto simp: tls_buffer_init_def split: if_splits)
  then show ?thesis using ok b by (simp add: fun_upd_idem)
next
  case False
  have inv: "pool_inv m pool" using ok by (simp add: dynbufs_ok_def)
  have b': "b' = b\<lparr>d_limit := limit, d_owner := owner, d_tls_budget := True\<rparr>" "pool' = pool_add pool owner (d_cap b) (d_cap b)"
    using r False by (auto simp: tls_buffer_init_def split: if_splits)
  have nr: "\<not> pool_refuses pool owner (d_cap b) (d_cap b)" using False by blast
  note add = pool_add_exact [OF inv nr, folded b'(2)] and ref = nr [unfolded pool_refuses_exact [OF inv]]
  have "pool_inv (m(p \<mapsto> b')) pool'"
  proof (rule pool_inv_upd [OF inv b])
    show "handshake_bytes pool' h \<le> TLS_HANDSHAKE_LIMIT" for h
      using ref pool_limits(2) [OF inv, of h] by (auto simp: add)
  qed (use False ref in \<open>auto simp: add b'(1)\<close>)
  moreover have "dynbuf_wf b'" using ok b mem by (auto simp: b'(1) dynbuf_wf_def dynbufs_ok_def ran_def)
  ultimately show ?thesis by (rule dynbufs_ok_upd [OF ok])
qed

lemma tls_buffers_step_ok:
  "tls_buffers_step got x y \<Longrightarrow> dynbufs_ok (fst x) (fst (snd x)) \<Longrightarrow> dynbufs_ok (fst y) (fst (snd y))"
  by (induction rule: tls_buffers_step.induct)
    (auto intro: db_append_ok(1) db_consume_ok db_free_ok tls_buffer_init_ok)

text \<open>
  Property C14: whatever sequence of appends, consumes, frees and registrations runs on the TLS
  buffers, the process-wide counter is exactly the sum of the capacities of the registered buffers
  and at most 8 MiB, the counter of every handshake is exactly the sum over the buffers it owns and
  at most 1 MiB, and no buffer holds more bytes than its capacity; the counters never wrap.
\<close>

theorem tls_pool_exact:
  assumes "(tls_buffers_step got)\<^sup>*\<^sup>* (m0, pool0, s0) (m, pool, s)" and "tls_start m0 pool0"
  shows "tls_buffer_bytes pool = dyn_total m \<and> tls_buffer_bytes pool \<le> TLS_HANDSHAKE_TOTAL_LIMIT \<and>
    (\<forall>h. handshake_bytes pool h = dyn_owned h m \<and> handshake_bytes pool h \<le> TLS_HANDSHAKE_LIMIT) \<and>
    (\<forall>p b. m p = Some b \<longrightarrow> length (d_data b) \<le> d_cap b)"
proof -
  from assms(1) have "dynbufs_ok m pool"
  proof (induction "(m, pool, s)" arbitrary: m pool s rule: rtranclp_induct)
    case (step y)
    then show ?case using tls_buffers_step_ok [OF step(2)] by (cases y) auto
  qed (use tls_start_ok [OF assms(2)] in simp)
  then have inv: "pool_inv m pool" and wf: "\<forall>b\<in>ran m. dynbuf_wf b" by (simp_all add: dynbufs_ok_def)
  from inv have "tls_buffer_bytes pool = dyn_total m \<and> tls_buffer_bytes pool \<le> TLS_HANDSHAKE_TOTAL_LIMIT \<and>
    (\<forall>h. handshake_bytes pool h = dyn_owned h m \<and> handshake_bytes pool h \<le> TLS_HANDSHAKE_LIMIT)"
    unfolding pool_inv_def by blast
  moreover have "length (d_data b) \<le> d_cap b" if "m p = Some b" for p b
    using wf that by (auto simp: dynbuf_wf_def ran_def)
  ultimately show ?thesis by blast
qed

theorem tls_pool_exact_witness:
  "\<exists>m pool s. tls_buffers_step (\<lambda>_. True) ([7 \<mapsto> zero_dynbuf], \<lparr>tls_buffer_bytes = 0, handshake_bytes = (\<lambda>_. 0)\<rparr>, initial_state) (m, pool, s) \<and>
     d_tls_budget (the (m 7)) \<and> tls_buffer_bytes pool = dyn_total m \<and> handshake_bytes pool 3 \<le> TLS_HANDSHAKE_LIMIT"
proof -
  let ?p0 = "\<lparr>tls_buffer_bytes = 0, handshake_bytes = (\<lambda>_. 0)\<rparr> :: tls_pool"
  let ?b = "zero_dynbuf\<lparr>d_limit := 4096, d_owner := Some 3, d_tls_budget := True\<rparr>"
  have i: "tls_buffer_init ?p0 zero_dynbuf 4096 (Some 3) = (True, ?b, pool_add ?p0 (Some 3) 0 0)"
    by (simp add: tls_buffer_init_def zero_dynbuf_def pool_refuses_def)
  have "tls_buffers_step (\<lambda>_. True) ([7 \<mapsto> zero_dynbuf], ?p0, initial_state)
      ([7 \<mapsto> zero_dynbuf, 7 \<mapsto> ?b], pool_add ?p0 (Some 3) 0 0, initial_state)"
    by (rule tls_buffers_step.init [OF _ _ i]) (simp_all add: zero_dynbuf_def)
  moreover have "tls_start [7 \<mapsto> zero_dynbuf] ?p0" by (simp add: tls_start_def dynbuf_wf_def zero_dynbuf_def)
  with calculation have "tls_buffer_bytes (pool_add ?p0 (Some 3) 0 0) = dyn_total [7 \<mapsto> zero_dynbuf, 7 \<mapsto> ?b] \<and>
      handshake_bytes (pool_add ?p0 (Some 3) 0 0) 3 \<le> TLS_HANDSHAKE_LIMIT"
    using tls_pool_exact [OF r_into_rtranclp [where r = "tls_buffers_step (\<lambda>_. True)"]] by blast
  moreover have "d_tls_budget (the ([7 \<mapsto> zero_dynbuf, 7 \<mapsto> ?b] 7))" by simp
  ultimately show ?thesis by blast
qed

end
