(* ===== verification/Utils.thy ===== *)
theory Utils
  imports C_Text
begin

unbundle bit_operations_syntax

text \<open>
  The text codecs of \<^verbatim>\<open>src/src/utils.c\<close>: UUIDs and hexadecimal strings, base64url, percent
  decoding, and the writing of request targets and paths for HTTP.  A result that does not fit the
  caller's array, or a malformed input, is \<open>None\<close>; the theorems say which inputs are accepted, what
  they decode to, and that a request target can never break out of its line.
\<close>

section \<open>Hexadecimal\<close>

definition hex_value :: "char \<Rightarrow> int" where
  "hex_value c =
     (if 48 \<le> code c \<and> code c \<le> 57 then int (code c) - 48
      else let l = tolower c
           in if 97 \<le> code l \<and> code l \<le> 102 then 10 + (int (code l) - 97) else -1)"

definition hex_byte :: "int \<Rightarrow> int \<Rightarrow> byte" where
  "hex_byte hi lo = push_bit 4 (word_of_int hi) OR word_of_int lo"

text \<open>The loop over pairs of digits that \<^verbatim>\<open>parse_uuid\<close> and \<^verbatim>\<open>hex_to_bytes\<close> share.\<close>

fun hex_pairs :: "string \<Rightarrow> bytes option" where
  "hex_pairs (h # l # s) =
     (if hex_value h < 0 \<or> hex_value l < 0 then None
      else map_option (\<lambda>xs. hex_byte (hex_value h) (hex_value l) # xs) (hex_pairs s))"
| "hex_pairs _ = Some []"

fun uuid_compact :: "string \<Rightarrow> string \<Rightarrow> string option" where
  "uuid_compact [] compact = Some compact"
| "uuid_compact (c # s) compact =
     (if c = CHR ''-'' then uuid_compact s compact
      else if \<not> isxdigit c \<or> length compact \<ge> 32 then None
      else uuid_compact s (compact @ [c]))"

definition parse_uuid :: "string \<Rightarrow> bytes option" where
  "parse_uuid s =
     (case uuid_compact s [] of
        None \<Rightarrow> None
      | Some compact \<Rightarrow> if length compact \<noteq> 32 then None else hex_pairs compact)"

definition hex_to_bytes :: "string \<Rightarrow> nat \<Rightarrow> bytes option" where
  "hex_to_bytes hex out_cap =
     (if length hex mod 2 \<noteq> 0 then None
      else if length hex div 2 > out_cap then None
      else hex_pairs hex)"

section \<open>Base64url\<close>

definition base64_table :: "char \<Rightarrow> nat" where
  "base64_table c =
     (if 65 \<le> code c \<and> code c \<le> 90 then code c - 65
      else if 97 \<le> code c \<and> code c \<le> 122 then code c - 97 + 26
      else if 48 \<le> code c \<and> code c \<le> 57 then code c - 48 + 52
      else if c = CHR ''-'' then 62 else if c = CHR ''_'' then 63 else 0)"

text \<open>
  The text before the trailing \<^verbatim>\<open>=\<close> signs.
\<close>

definition base64_data :: "string \<Rightarrow> string" where
  "base64_data s = rev (dropWhile (\<lambda>c. c = CHR ''='') (rev s))"

fun base64_loop :: "string \<Rightarrow> 32 word \<Rightarrow> int \<Rightarrow> bytes" where
  "base64_loop [] val valb = []"
| "base64_loop (c # s) val valb =
     (let val1 = push_bit 6 val OR of_nat (base64_table c); valb1 = valb + 6
      in if valb1 \<ge> 0 then ucast (drop_bit (nat valb1) val1 AND 0xFF) # base64_loop s val1 (valb1 - 8)
         else base64_loop s val1 valb1)"

definition base64url_decode :: "string \<Rightarrow> nat \<Rightarrow> bytes option" where
  "base64url_decode s out_cap =
     (let data = base64_data s; padding = length s - length data; remainder = length data mod 4
      in if padding > 2 \<or> remainder = 1 \<or>
            padding \<noteq> 0 \<and> (data = [] \<or> length s mod 4 \<noteq> 0 \<or> padding \<noteq> 4 - remainder) then None
         else if \<not> list_all (\<lambda>c. \<not> (base64_table c = 0 \<and> c \<noteq> CHR ''A'' \<or> c = CHR ''='')) data then None
         else if remainder = 2 \<and> base64_table (last data) mod 16 \<noteq> 0 \<or>
                 remainder = 3 \<and> base64_table (last data) mod 4 \<noteq> 0 then None
         else if length data div 4 * 3 + (if remainder \<noteq> 0 then remainder - 1 else 0) > out_cap then None
         else Some (base64_loop data 0 (-8)))"

section \<open>Percent encoding and request targets\<close>

text \<open>\<open>oi\<close> characters of the output are written.\<close>

fun percent_loop :: "string \<Rightarrow> nat \<Rightarrow> nat \<Rightarrow> string option" where
  "percent_loop [] out_cap oi = Some []"
| "percent_loop (c # s) out_cap oi =
     (if oi + 1 \<ge> out_cap then None
      else if c = CHR ''%'' then
        (case s of
           h # l # rest \<Rightarrow>
             if \<not> isxdigit h \<or> \<not> isxdigit l then None
             else let decoded = hex_value h * 16 + hex_value l
                  in if decoded = 0 then None
                     else map_option (\<lambda>t. char_of (nat decoded) # t) (percent_loop rest out_cap (oi + 1))
         | _ \<Rightarrow> None)
      else if c = CHR ''+'' then map_option (\<lambda>t. CHR '' '' # t) (percent_loop s out_cap (oi + 1))
      else map_option (\<lambda>t. c # t) (percent_loop s out_cap (oi + 1)))"

definition percent_decode :: "string \<Rightarrow> nat \<Rightarrow> string option" where
  "percent_decode s out_cap = (if out_cap = 0 then None else percent_loop s out_cap 0)"

definition request_byte :: "char \<Rightarrow> bool" where
  "request_byte c \<longleftrightarrow> isalpha c \<or> isdigit c \<or> c \<in> set ''-._~!$&'()*+,;=:@/?''"

text \<open>
  The first pass over the input: what is refused, and that the output fits; \<open>room\<close> is
  \<^verbatim>\<open>capacity-1-size\<close>.
\<close>

fun target_fits :: "string \<Rightarrow> nat \<Rightarrow> bool" where
  "target_fits [] room \<longleftrightarrow> True"
| "target_fits (c # s) room \<longleftrightarrow>
     (if c = CHR 0x0D \<or> c = CHR 0x0A then False
      else if c = CHR ''%'' then
        (case s of
           h # l # rest \<Rightarrow>
             (let high = hex_value h; low = hex_value l
              in if high < 0 \<or> low < 0 \<or> high = 0 \<and> low = 0 \<or> high = 0 \<and> (low = 10 \<or> low = 13) then False
                 else 3 \<le> room \<and> target_fits rest (room - 3))
         | _ \<Rightarrow> False)
      else let required = (if request_byte c then 1 else 3) in required \<le> room \<and> target_fits s (room - required))"

definition hex_upper :: "nat \<Rightarrow> char" where
  "hex_upper n = ''0123456789ABCDEF'' ! n"

text \<open>The second pass, which writes; a percent sign is followed by two characters there.\<close>

fun target_write :: "string \<Rightarrow> string" where
  "target_write [] = []"
| "target_write (c # s) =
     (if c = CHR ''%'' then
        (case s of h # l # rest \<Rightarrow> c # h # l # target_write rest | _ \<Rightarrow> c # s)
      else if request_byte c then c # target_write s
      else CHR ''%'' # hex_upper (code c div 16) # hex_upper (code c mod 16) # target_write s)"

definition core_request_target :: "string \<Rightarrow> nat \<Rightarrow> string option" where
  "core_request_target input capacity =
     (if capacity = 0 then None
      else if target_fits input (capacity - 1) then Some (target_write input) else None)"

definition core_http_path :: "string \<Rightarrow> nat \<Rightarrow> bool \<Rightarrow> string option" where
  "core_http_path input capacity trailing =
     (let source = (if input = [] then ''/'' else input)
      in if capacity < 2 then None
         else case (if hd source = CHR ''/'' then core_request_target source capacity
                    else map_option (\<lambda>t. CHR ''/'' # t) (core_request_target source (capacity - 1))) of
                None \<Rightarrow> None
              | Some text \<Rightarrow>
                  if trailing then
                    (let path = takeWhile (\<lambda>c. c \<noteq> CHR ''?'') text; query = dropWhile (\<lambda>c. c \<noteq> CHR ''?'') text
                     in if last path \<noteq> CHR ''/'' then
                          (if length text + 1 \<ge> capacity then None else Some (path @ CHR ''/'' # query))
                        else Some text)
                  else Some text)"

section \<open>Base64url is exact\<close>

text \<open>The alphabet, and the text of a byte string with and without padding.\<close>

definition base64_char :: "nat \<Rightarrow> char" where
  "base64_char n = ''ABCDEFGHIJKLMNOPQRSTUVWXYZabcdefghijklmnopqrstuvwxyz0123456789-_'' ! n"

fun base64_text :: "bytes \<Rightarrow> string" where
  "base64_text (x # y # z # s) =
     base64_char (unat x div 4) # base64_char (unat x mod 4 * 16 + unat y div 16) #
     base64_char (unat y mod 16 * 4 + unat z div 64) # base64_char (unat z mod 64) # base64_text s"
| "base64_text [x, y] =
     [base64_char (unat x div 4), base64_char (unat x mod 4 * 16 + unat y div 16), base64_char (unat y mod 16 * 4)]"
| "base64_text [x] = [base64_char (unat x div 4), base64_char (unat x mod 4 * 16)]"
| "base64_text [] = []"

definition base64_padding :: "bytes \<Rightarrow> string" where
  "base64_padding xs = replicate ((3 - length xs mod 3) mod 3) (CHR ''='')"

lemma base64_char_table [simp]: "n < 64 \<Longrightarrow> base64_table (base64_char n) = n"
proof -
  have "list_all (\<lambda>n. base64_table (base64_char n) = n) [0..<64]"
    by code_simp
  then show "n < 64 \<Longrightarrow> ?thesis" by (simp add: list_all_iff)
qed

lemma base64_char_valid:
  "n < 64 \<Longrightarrow> (base64_table (base64_char n) = 0 \<longrightarrow> base64_char n = CHR ''A'') \<and> base64_char n \<noteq> CHR ''=''"
proof -
  have "list_all (\<lambda>n. (base64_table (base64_char n) = 0 \<longrightarrow> base64_char n = CHR ''A'') \<and> base64_char n \<noteq> CHR ''='') [0..<64]"
    by code_simp
  then show "n < 64 \<Longrightarrow> ?thesis" by (simp add: list_all_iff)
qed

lemma base64_char_ranges:
  shows "n < 26 \<Longrightarrow> base64_char n = char_of (65 + n)"
    and "n < 26 \<Longrightarrow> base64_char (n + 26) = char_of (97 + n)"
    and "n < 10 \<Longrightarrow> base64_char (n + 52) = char_of (48 + n)"
proof -
  have "list_all (\<lambda>n. base64_char n = char_of (65 + n)) [0..<26]" by code_simp
  then show "n < 26 \<Longrightarrow> base64_char n = char_of (65 + n)" by (simp add: list_all_iff)
  have "list_all (\<lambda>n. base64_char (n + 26) = char_of (97 + n)) [0..<26]" by code_simp
  then show "n < 26 \<Longrightarrow> base64_char (n + 26) = char_of (97 + n)" by (simp add: list_all_iff)
  have "list_all (\<lambda>n. base64_char (n + 52) = char_of (48 + n)) [0..<10]" by code_simp
  then show "n < 10 \<Longrightarrow> base64_char (n + 52) = char_of (48 + n)" by (simp add: list_all_iff)
qed

lemma base64_table_char: "\<not> (base64_table c = 0 \<and> c \<noteq> CHR ''A'') \<Longrightarrow> base64_char (base64_table c) = c"
proof -
  have tail: "base64_char 62 = CHR ''-''" "base64_char 63 = CHR ''_''" "base64_char 0 = CHR ''A''" by code_simp+
  have r: "base64_char (code c - 65) = c" if "65 \<le> code c" "code c \<le> 90"
    using that base64_char_ranges(1) [of "code c - 65"] by simp
  have s: "base64_char (code c - 97 + 26) = c" if "97 \<le> code c" "code c \<le> 122"
    using that base64_char_ranges(2) [of "code c - 97"] by simp
  have t: "base64_char (code c - 48 + 52) = c" if "48 \<le> code c" "code c \<le> 57"
    using that base64_char_ranges(3) [of "code c - 48"] by simp
  show "\<not> (base64_table c = 0 \<and> c \<noteq> CHR ''A'') \<Longrightarrow> ?thesis"
    using r s t tail unfolding base64_table_def by (auto split: if_splits)
qed

lemma base64_table_less [simp]: "base64_table c < 64"
  by (auto simp: base64_table_def)

text \<open>The bytes of groups of four sextets.\<close>

fun sextet_bytes :: "nat list \<Rightarrow> bytes" where
  "sextet_bytes (a # b # c # d # s) =
     of_nat (a * 4 + b div 16) # of_nat (b mod 16 * 16 + c div 4) # of_nat (c mod 4 * 64 + d) # sextet_bytes s"
| "sextet_bytes [a, b, c] = [of_nat (a * 4 + b div 16), of_nat (b mod 16 * 16 + c div 4)]"
| "sextet_bytes [a, b] = [of_nat (a * 4 + b div 16)]"
| "sextet_bytes _ = []"

lemma unat_shift_or:
  assumes "d < 64"
  shows "unat (push_bit 6 (v :: 32 word) OR of_nat d) = (unat v * 64 + d) mod 2 ^ 32"
proof -
  have "\<not> bit (push_bit 6 v) n \<or> \<not> bit (of_nat d :: 32 word) n" for n
  proof (cases "n < 6")
    case False
    then have "\<not> bit d n" using assms bit_take_bit_iff [of 6 d n] by (simp add: take_bit_eq_mod)
    then show ?thesis by (simp add: bit_of_nat_iff_bit bit_simps)
  qed (simp add: bit_simps)
  then have "push_bit 6 v OR of_nat d = push_bit 6 v + of_nat d" by (intro disjunctive_add_eq_or [symmetric]) (auto simp: bit_eq_iff bit_simps)
  also have "\<dots> = of_nat (unat v * 64 + d)" by (simp add: push_bit_eq_mult mult.commute)
  finally show ?thesis by (simp only: unat_of_nat) simp
qed

lemma byte_of_word: "(ucast (drop_bit k (v :: 32 word) AND 0xFF) :: byte) = of_nat (unat v div 2 ^ k)"
proof -
  have "(0xFF :: 32 word) = mask 8" by (simp add: mask_eq_exp_minus_1)
  then have "(ucast (drop_bit k v AND 0xFF) :: byte) = ucast (drop_bit k v)"
    by (auto simp: bit_eq_iff bit_simps)
  also have "\<dots> = of_nat (unat (drop_bit k v))" by simp
  also have "take_bit 32 (unat v) = unat v" using unsigned_less [of v, where 'a = nat] by (simp add: take_bit_nat_eq_self)
  then have "unat (drop_bit k v) = unat v div 2 ^ k" by (simp add: unsigned_drop_bit_eq flip: drop_bit_eq_div)
  finally show ?thesis .
qed

lemma byte_cong: "n mod 256 = m mod 256 \<Longrightarrow> (of_nat n :: byte) = of_nat m"
  by (simp add: word_unat_eq_iff unat_of_nat_byte)

text \<open>
  The accumulator after the characters of a group: what is left of the earlier characters stands
  above the bits that are written.
\<close>

lemma base64_step:
  assumes "unat (v :: 32 word) = n mod 2 ^ 32"
  shows "unat (push_bit 6 v OR of_nat (base64_table c)) = (n * 64 + base64_table c) mod 2 ^ 32"
  unfolding unat_shift_or [OF base64_table_less [of c], of v] assms by (metis mod_add_left_eq mod_mult_left_eq)

lemma base64_out:
  assumes "unat (v :: 32 word) = n mod 2 ^ 32" and "k \<le> 24"
  shows "(ucast (drop_bit k v AND 0xFF) :: byte) = of_nat (n div 2 ^ k)"
proof -
  have "n mod 2 ^ 32 div 2 ^ k mod 2 ^ 8 = n div 2 ^ k mod 2 ^ 8"
  proof -
    have "take_bit 8 (drop_bit k (take_bit 32 n)) = take_bit 8 (drop_bit k n)"
      using assms(2) by (auto simp: bit_eq_iff bit_simps)
    then show ?thesis by (simp only: take_bit_eq_mod drop_bit_eq_div)
  qed
  then show ?thesis unfolding byte_of_word assms(1) by (intro byte_cong) simp
qed

lemma sextet_arith:
  fixes n a b c d :: nat
  shows "((n * 64 + a) * 64 + b) div 16 mod 256 = (a * 4 + b div 16) mod 256"
    and "((n * 64 + b) * 64 + c) div 4 mod 256 = (b mod 16 * 16 + c div 4) mod 256"
    and "((n * 64 + c) * 64 + d) mod 256 = (c mod 4 * 64 + d) mod 256"
proof -
  have "(n * 64 + a) * 64 + b = b + (a * 4 + n * 256) * 16" by simp
  then have "((n * 64 + a) * 64 + b) div 16 = (a * 4 + b div 16) + n * 256" by (simp only: div_mult_self1)
  then show "((n * 64 + a) * 64 + b) div 16 mod 256 = (a * 4 + b div 16) mod 256" by (simp only: mod_mult_self1)
  define q r where "q = b div 16" and "r = b mod 16"
  have "b = q * 16 + r" by (simp add: q_def r_def)
  then have "(n * 64 + b) * 64 + c = c + (r * 16 + (n * 4 + q) * 256) * 4" by (simp add: algebra_simps)
  then have "(n * 64 + b) * 64 + c = c + (b mod 16 * 16 + (n * 4 + b div 16) * 256) * 4" by (simp only: q_def r_def)
  then have "((n * 64 + b) * 64 + c) div 4 = (b mod 16 * 16 + c div 4) + (n * 4 + b div 16) * 256" by (simp only: div_mult_self1)
  then show "((n * 64 + b) * 64 + c) div 4 mod 256 = (b mod 16 * 16 + c div 4) mod 256" by (simp only: mod_mult_self1)
  define q' r' where "q' = c div 4" and "r' = c mod 4"
  have "c = q' * 4 + r'" by (simp add: q'_def r'_def)
  then have "(n * 64 + c) * 64 + d = (r' * 64 + d) + (n * 16 + q') * 256" by (simp add: algebra_simps)
  then have "(n * 64 + c) * 64 + d = (c mod 4 * 64 + d) + (n * 16 + c div 4) * 256" by (simp only: q'_def r'_def)
  then show "((n * 64 + c) * 64 + d) mod 256 = (c mod 4 * 64 + d) mod 256" by (simp only: mod_mult_self1)
qed

lemma base64_loop_bytes: "base64_loop s v (-8) = sextet_bytes (map base64_table s)"
proof (induction s arbitrary: v rule: length_induct)
  case (1 s)
  define T where "T = base64_table"
  have T: "T c < 64" for c by (simp add: T_def)
  define n where "n = unat v"
  have n0: "unat v = n mod 2 ^ 32" using unsigned_less [of v, where 'a = nat] by (simp add: n_def)
  show ?case
  proof (cases s)
    case (Cons a s1)
    define v1 where "v1 = push_bit 6 v OR of_nat (base64_table a)"
    have n1: "unat v1 = (n * 64 + T a) mod 2 ^ 32" using base64_step [OF n0] by (simp add: v1_def T_def)
    show ?thesis
    proof (cases s1)
      case (Cons b s2)
      define v2 where "v2 = push_bit 6 v1 OR of_nat (base64_table b)"
      have n2: "unat v2 = ((n * 64 + T a) * 64 + T b) mod 2 ^ 32" using base64_step [OF n1] by (simp add: v2_def T_def)
      have o2: "(ucast (drop_bit 4 v2 AND 0xFF) :: byte) = of_nat (T a * 4 + T b div 16)"
        using base64_out [OF n2, of 4] byte_cong [OF sextet_arith(1) [of n "T a" "T b"]] by simp
      have s2: "base64_loop s v (-8) = of_nat (T a * 4 + T b div 16) # base64_loop s2 v2 (-4)"
        using o2 by (simp add: \<open>s = a # s1\<close> Cons Let_def v1_def v2_def)
      show ?thesis
      proof (cases s2)
        case (Cons c s3)
        define v3 where "v3 = push_bit 6 v2 OR of_nat (base64_table c)"
        have n3: "unat v3 = (((n * 64 + T a) * 64 + T b) * 64 + T c) mod 2 ^ 32" using base64_step [OF n2] by (simp add: v3_def T_def)
        have o3: "(ucast (drop_bit 2 v3 AND 0xFF) :: byte) = of_nat (T b mod 16 * 16 + T c div 4)"
          using base64_out [OF n3, of 2] byte_cong [OF sextet_arith(2) [of "n * 64 + T a" "T b" "T c"]] by simp
        have s3: "base64_loop s2 v2 (-4) = of_nat (T b mod 16 * 16 + T c div 4) # base64_loop s3 v3 (-6)"
          using o3 by (simp add: Cons Let_def v3_def)
        show ?thesis
        proof (cases s3)
          case (Cons d s4)
          define v4 where "v4 = push_bit 6 v3 OR of_nat (base64_table d)"
          have n4: "unat v4 = ((((n * 64 + T a) * 64 + T b) * 64 + T c) * 64 + T d) mod 2 ^ 32"
            using base64_step [OF n3] by (simp add: v4_def T_def)
          have o4: "(ucast (drop_bit 0 v4 AND 0xFF) :: byte) = of_nat (T c mod 4 * 64 + T d)"
            using base64_out [OF n4, of 0] byte_cong [OF sextet_arith(3) [of "(n * 64 + T a) * 64 + T b" "T c" "T d"]] by simp
          have "base64_loop s3 v3 (-6) = of_nat (T c mod 4 * 64 + T d) # base64_loop s4 v4 (-8)"
            using o4 by (simp add: Cons Let_def v4_def)
          moreover have "base64_loop s4 v4 (-8) = sextet_bytes (map base64_table s4)"
            using 1 Cons \<open>s2 = c # s3\<close> \<open>s1 = b # s2\<close> \<open>s = a # s1\<close> by simp
          ultimately show ?thesis using s2 s3 Cons \<open>s2 = c # s3\<close> \<open>s1 = b # s2\<close> \<open>s = a # s1\<close> by (simp add: T_def)
        qed (use s2 s3 Cons \<open>s1 = b # s2\<close> \<open>s = a # s1\<close> in \<open>simp add: T_def\<close>)
      qed (use s2 Cons \<open>s = a # s1\<close> in \<open>simp add: T_def\<close>)
    qed (simp add: Cons)
  qed simp
qed

definition base64_valid :: "char \<Rightarrow> bool" where
  "base64_valid c \<longleftrightarrow> \<not> (base64_table c = 0 \<and> c \<noteq> CHR ''A'' \<or> c = CHR ''='')"

lemma base64_valid_char [simp]: "n < 64 \<Longrightarrow> base64_valid (base64_char n)"
  using base64_char_valid [of n] unfolding base64_valid_def by blast

lemma base64_valid_table: "base64_valid c \<Longrightarrow> base64_char (base64_table c) = c"
  using base64_table_char [of c] by (auto simp: base64_valid_def)

text \<open>The unused low bits of the last sextet are zero.\<close>

definition base64_canonical :: "string \<Rightarrow> bool" where
  "base64_canonical data \<longleftrightarrow> length data mod 4 \<noteq> 1 \<and>
     \<not> (length data mod 4 = 2 \<and> base64_table (last data) mod 16 \<noteq> 0 \<or>
        length data mod 4 = 3 \<and> base64_table (last data) mod 4 \<noteq> 0)"

lemma sextet_split:
  fixes x y z :: nat
  assumes "x < 256" and "y < 256" and "z < 256"
  shows "x div 4 < 64" "x mod 4 * 16 + y div 16 < 64" "y mod 16 * 4 + z div 64 < 64" "z mod 64 < 64"
    "x div 4 * 4 + (x mod 4 * 16 + y div 16) div 16 = x"
    "(x mod 4 * 16 + y div 16) mod 16 * 16 + (y mod 16 * 4 + z div 64) div 4 = y"
    "(y mod 16 * 4 + z div 64) mod 4 * 64 + z mod 64 = z"
proof -
  have y: "y div 16 < 16" and z: "z div 64 < 4" and x: "x mod 4 < 4" "y mod 16 < 16" using assms by auto
  show "x div 4 < 64" "z mod 64 < 64" using assms by auto
  show "x mod 4 * 16 + y div 16 < 64" "y mod 16 * 4 + z div 64 < 64" using x y z by linarith+
  have q: "(x mod 4 * 16 + y div 16) div 16 = x mod 4" "(y mod 16 * 4 + z div 64) div 4 = y mod 16"
    "(x mod 4 * 16 + y div 16) mod 16 = y div 16" "(y mod 16 * 4 + z div 64) mod 4 = z div 64"
    using y z by (simp_all add: div_mult_self3)
  show "x div 4 * 4 + (x mod 4 * 16 + y div 16) div 16 = x"
    "(x mod 4 * 16 + y div 16) mod 16 * 16 + (y mod 16 * 4 + z div 64) div 4 = y"
    "(y mod 16 * 4 + z div 64) mod 4 * 64 + z mod 64 = z"
    unfolding q by (rule div_mult_mod_eq)+
qed

lemma sextet_join:
  fixes a b c d :: nat
  assumes "a < 64" and "b < 64" and "c < 64" and "d < 64"
  shows "a * 4 + b div 16 < 256" "b mod 16 * 16 + c div 4 < 256" "c mod 4 * 64 + d < 256"
    "(a * 4 + b div 16) div 4 = a" "(a * 4 + b div 16) mod 4 = b div 16"
    "(b mod 16 * 16 + c div 4) div 16 = b mod 16" "(b mod 16 * 16 + c div 4) mod 16 = c div 4"
    "(c mod 4 * 64 + d) div 64 = c mod 4" "(c mod 4 * 64 + d) mod 64 = d"
    "b div 16 * 16 + b mod 16 = b" "c div 4 * 4 + c mod 4 = c"
proof -
  have b: "b div 16 < 4" "b mod 16 < 16" and c: "c div 4 < 16" "c mod 4 < 4" using assms by auto
  show "a * 4 + b div 16 < 256" "b mod 16 * 16 + c div 4 < 256" "c mod 4 * 64 + d < 256"
    using assms b c by linarith+
qed (use assms in \<open>simp_all add: div_mult_self3\<close>)

lemma sextet_bytes_split:
  assumes "x < 256" and "y < 256" and "z < 256"
  shows "sextet_bytes (x div 4 # (x mod 4 * 16 + y div 16) # (y mod 16 * 4 + z div 64) # z mod 64 # s) =
    of_nat x # of_nat y # of_nat z # sextet_bytes s"
  by (simp only: sextet_bytes.simps sextet_split [OF assms])

lemma sextet_bytes_ends:
  assumes "x < 256" and "y < 256"
  shows "sextet_bytes [x div 4, x mod 4 * 16 + y div 16, y mod 16 * 4] = [of_nat x, of_nat y]"
    and "sextet_bytes [x div 4, x mod 4 * 16] = [of_nat x]"
  using sextet_split [OF assms, of 0] sextet_split [OF assms(1), of 0 0]
  by (simp_all only: sextet_bytes.simps div_0 add_0_right mod_0 zero_less_numeral)

lemma unat_small: "n < 256 \<Longrightarrow> unat (of_nat n :: byte) = n"
  by (simp add: unat_of_nat_byte)

lemma base64_text_join:
  assumes "a < 64" and "b < 64" and "c < 64" and "d < 64"
  shows "base64_text (of_nat (a * 4 + b div 16) # of_nat (b mod 16 * 16 + c div 4) # of_nat (c mod 4 * 64 + d) # s) =
    base64_char a # base64_char b # base64_char c # base64_char d # base64_text s"
  and "c mod 4 = 0 \<Longrightarrow> base64_text [of_nat (a * 4 + b div 16), of_nat (b mod 16 * 16 + c div 4)] =
    [base64_char a, base64_char b, base64_char c]"
  and "b mod 16 = 0 \<Longrightarrow> base64_text [of_nat (a * 4 + b div 16)] = [base64_char a, base64_char b]"
proof -
  note j = sextet_join [OF assms]
  show "base64_text (of_nat (a * 4 + b div 16) # of_nat (b mod 16 * 16 + c div 4) # of_nat (c mod 4 * 64 + d) # s) =
    base64_char a # base64_char b # base64_char c # base64_char d # base64_text s"
    by (simp only: base64_text.simps unat_small [OF j(1)] unat_small [OF j(2)] unat_small [OF j(3)] j)
  show "c mod 4 = 0 \<Longrightarrow> base64_text [of_nat (a * 4 + b div 16), of_nat (b mod 16 * 16 + c div 4)] =
    [base64_char a, base64_char b, base64_char c]"
    using j(11) by (simp only: base64_text.simps unat_small [OF j(1)] unat_small [OF j(2)] j add_0_right)
  show "b mod 16 = 0 \<Longrightarrow> base64_text [of_nat (a * 4 + b div 16)] = [base64_char a, base64_char b]"
    using j(10) by (simp only: base64_text.simps unat_small [OF j(1)] j add_0_right)
qed

lemma base64_text_decodes:
  "sextet_bytes (map base64_table (base64_text xs)) = xs \<and> list_all base64_valid (base64_text xs) \<and>
   length (base64_text xs) = length xs div 3 * 4 + (if length xs mod 3 = 0 then 0 else length xs mod 3 + 1)"
proof (induction xs rule: base64_text.induct)
  case (1 x y z s)
  note b = unat_byte_less [of x] unat_byte_less [of y] unat_byte_less [of z]
  have "sextet_bytes (map base64_table (base64_text (x # y # z # s))) = x # y # z # s"
    using 1 sextet_bytes_split [OF b] by (simp add: sextet_split [OF b] del: sextet_bytes.simps)
  moreover have "length (x # y # z # s) div 3 = length s div 3 + 1" "length (x # y # z # s) mod 3 = length s mod 3"
    using div_add_self1 [of 3 "length s"] mod_add_self1 [of 3 "length s"] by simp_all
  ultimately show ?case using 1 by (simp add: sextet_split [OF b] del: sextet_bytes.simps)
next
  case (2 x y)
  note b = unat_byte_less [of x] unat_byte_less [of y]
  show ?case using sextet_bytes_ends [OF b] sextet_split [OF b, of 0] by (simp del: sextet_bytes.simps)
next
  case (3 x)
  note b = unat_byte_less [of x]
  show ?case using sextet_bytes_ends [OF b, of 0] sextet_split [OF b, of 0 0] by (simp del: sextet_bytes.simps)
qed simp

lemma base64_text_canonical: "base64_canonical (base64_text xs)"
proof (induction xs rule: base64_text.induct)
  case (1 x y z s)
  then show ?case by (cases "base64_text s = []") (auto simp: base64_canonical_def)
next
  case (2 x y)
  show ?case using sextet_split(3) [OF unat_byte_less [of x] unat_byte_less [of y], of 0] by (simp add: base64_canonical_def)
next
  case (3 x)
  show ?case using sextet_split(2) [OF unat_byte_less [of x], of 0 0] by (simp add: base64_canonical_def)
qed (simp add: base64_canonical_def)

lemma base64_canonical_rest:
  "base64_canonical (a # b # c # d # s) \<longleftrightarrow> base64_canonical s"
proof -
  have "length (a # b # c # d # s) mod 4 = length s mod 4" using mod_add_self1 [of 4 "length s"] by simp
  then show ?thesis unfolding base64_canonical_def by (cases s) auto
qed

lemma quad_cases:
  obtains "s = []" | a where "s = [a]" | a b where "s = [a, b]" | a b c where "s = [a, b, c]"
    | a b c d s' where "s = a # b # c # d # s'"
  by (cases s; cases "tl s"; cases "tl (tl s)"; cases "tl (tl (tl s))") auto

lemma base64_bytes_encode:
  assumes "list_all base64_valid s" and "base64_canonical s"
  shows "base64_text (sextet_bytes (map base64_table s)) = s \<and>
    length (sextet_bytes (map base64_table s)) = length s div 4 * 3 + (if length s mod 4 \<noteq> 0 then length s mod 4 - 1 else 0)"
  using assms
proof (induction s rule: length_induct)
  case (1 s)
  show ?case
  proof (cases s rule: quad_cases)
    case (3 a b)
    then have "base64_table b mod 16 = 0" using 1(3) by (simp add: base64_canonical_def)
    then show ?thesis using 1(2) base64_text_join(3) [OF base64_table_less [of a] base64_table_less [of b], of 0 0]
      by (simp add: 3 base64_valid_table del: of_nat_add of_nat_mult base64_text.simps)
  next
    case (4 a b c)
    then have "base64_table c mod 4 = 0" using 1(3) by (simp add: base64_canonical_def)
    then show ?thesis
      using 1(2) base64_text_join(2) [OF base64_table_less [of a] base64_table_less [of b] base64_table_less [of c], of 0]
      by (simp add: 4 base64_valid_table del: of_nat_add of_nat_mult base64_text.simps)
  next
    case (5 a b c d s')
    note j = base64_text_join(1) [OF base64_table_less [of a] base64_table_less [of b] base64_table_less [of c] base64_table_less [of d]]
    have "length s div 4 = length s' div 4 + 1" "length s mod 4 = length s' mod 4"
      using div_add_self1 [of 4 "length s'"] mod_add_self1 [of 4 "length s'"] by (simp_all add: 5)
    moreover have "length s' < length s" "list_all base64_valid s'" "base64_canonical s'"
      "base64_valid a" "base64_valid b" "base64_valid c" "base64_valid d"
      using 1(2,3) by (simp_all add: 5 base64_canonical_rest)
    ultimately show ?thesis
      using 1(1) by (simp add: 5 j base64_valid_table del: of_nat_add of_nat_mult base64_text.simps)
  qed (use 1(3) in \<open>simp_all add: base64_canonical_def\<close>)
qed

lemma base64_data_append:
  "list_all base64_valid t \<Longrightarrow> base64_data (t @ replicate k (CHR ''='')) = t"
proof -
  assume "list_all base64_valid t"
  moreover have "base64_valid c \<Longrightarrow> c \<noteq> CHR ''=''" for c by (simp add: base64_valid_def)
  ultimately have "dropWhile (\<lambda>c. c = CHR ''='') (rev t) = rev t" by (cases t rule: rev_cases) simp_all
  then have "dropWhile (\<lambda>c. c = CHR ''='') (replicate k (CHR ''='') @ rev t) = rev t" by (induction k) auto
  then show ?thesis by (simp add: base64_data_def)
qed

lemma base64_data_split: "\<exists>k. s = base64_data s @ replicate k (CHR ''='')"
proof (induction s rule: rev_induct)
  case (snoc c s)
  then obtain k where "s = base64_data s @ replicate k (CHR ''='')" by blast
  then have "s @ [CHR ''=''] = (base64_data s @ replicate k (CHR ''='')) @ [CHR ''='']" by simp
  also have "\<dots> = base64_data s @ replicate (Suc k) (CHR ''='')" by (simp add: replicate_append_same)
  finally have "s @ [CHR ''=''] = base64_data s @ replicate (Suc k) (CHR ''='')" .
  moreover have "base64_data (s @ [c]) = (if c = CHR ''='' then base64_data s else s @ [c])" by (simp add: base64_data_def)
  ultimately show ?case by (metis append_Nil2 replicate_0)
qed (simp add: base64_data_def)

text \<open>
  Property C32: base64url decoding accepts exactly the canonical texts of byte strings that fit the
  output, with no padding or with the whole padding, and yields those bytes; nothing else decodes, so
  no byte string has a second accepted spelling beyond its padding.
\<close>

theorem base64url_exact:
  "base64url_decode s out_cap = Some xs \<longleftrightarrow>
     length xs \<le> out_cap \<and> (s = base64_text xs \<or> s = base64_text xs @ base64_padding xs)"
proof -
  obtain k where k: "s = base64_data s @ replicate k (CHR ''='')" using base64_data_split by blast
  define D where "D = base64_data s"
  have len: "length s = length D + k" by (subst k) (simp add: D_def)
  have dec: "base64url_decode s out_cap = Some xs \<longleftrightarrow>
      \<not> (k > 2 \<or> length D mod 4 = 1 \<or> k \<noteq> 0 \<and> (D = [] \<or> (length D + k) mod 4 \<noteq> 0 \<or> k \<noteq> 4 - length D mod 4)) \<and>
      list_all base64_valid D \<and> base64_canonical D \<and>
      length D div 4 * 3 + (if length D mod 4 \<noteq> 0 then length D mod 4 - 1 else 0) \<le> out_cap \<and>
      xs = sextet_bytes (map base64_table D)"
    unfolding base64url_decode_def Let_def D_def [symmetric] len base64_loop_bytes base64_valid_def [abs_def] base64_canonical_def
    by (auto simp del: list_all_append)
  show ?thesis
  proof
    assume a: "base64url_decode s out_cap = Some xs"
    then have e: "base64_text xs = D" "length xs = length D div 4 * 3 + (if length D mod 4 \<noteq> 0 then length D mod 4 - 1 else 0)"
      using dec base64_bytes_encode by blast+
    have "k = 0 \<or> (k = 1 \<and> length D mod 4 = 3) \<or> (k = 2 \<and> length D mod 4 = 2)"
      using a [unfolded dec] by linarith
    then have "k = 0 \<or> k = (3 - length xs mod 3) mod 3" by (auto simp: e(2))
    then have "replicate k (CHR ''='') = [] \<or> replicate k (CHR ''='') = base64_padding xs" by (auto simp: base64_padding_def)
    then show "length xs \<le> out_cap \<and> (s = base64_text xs \<or> s = base64_text xs @ base64_padding xs)"
      using a [unfolded dec] e k [folded D_def] by (metis append_Nil2)
  next
    assume b: "length xs \<le> out_cap \<and> (s = base64_text xs \<or> s = base64_text xs @ base64_padding xs)"
    note t = base64_text_decodes [of xs]
    have s: "\<exists>j. s = base64_text xs @ replicate j (CHR ''='') \<and> (j = 0 \<or> j = (3 - length xs mod 3) mod 3)"
      using b by (metis append_Nil2 base64_padding_def replicate_0)
    then have D: "D = base64_text xs" using base64_data_append t by (auto simp: D_def)
    then have "k = 0 \<or> k = (3 - length xs mod 3) mod 3" using s k [folded D_def] by auto
    moreover have "length D = length xs div 3 * 4 + (if length xs mod 3 = 0 then 0 else length xs mod 3 + 1)" using t D by simp
    moreover have mod4: "Suc (Suc (m * 4)) mod 4 = 2" for m :: nat by presburger
    moreover have "length xs mod 3 = 0 \<or> length xs mod 3 = 1 \<or> length xs mod 3 = 2" by linarith
    ultimately have pad: "\<not> (k > 2 \<or> length D mod 4 = 1 \<or>
        k \<noteq> 0 \<and> (D = [] \<or> (length D + k) mod 4 \<noteq> 0 \<or> k \<noteq> 4 - length D mod 4))"
      unfolding length_0_conv [symmetric] using mod4 by (elim disjE) simp_all
    show "base64url_decode s out_cap = Some xs"
      unfolding dec using pad t base64_text_canonical [of xs] b base64_bytes_encode [of D] D by simp
  qed
qed

theorem base64url_exact_witness:
  "base64url_decode ''AQ'' 1 = Some [1] \<and> base64url_decode ''AQ=='' 1 = Some [1] \<and> base64url_decode ''AR'' 1 \<noteq> Some [1]"
  using base64url_exact [of "''AQ''" 1 "[1]"] base64url_exact [of "''AQ==''" 1 "[1]"] base64url_exact [of "''AR''" 1 "[1]"]
  by (simp add: base64_padding_def base64_char_def numeral_2_eq_2)

section \<open>Hexadecimal text is exact\<close>

definition hex_lower :: "nat \<Rightarrow> char" where
  "hex_lower n = ''0123456789abcdef'' ! n"

definition hex_text :: "bytes \<Rightarrow> string" where
  "hex_text xs = concat (map (\<lambda>x. [hex_lower (unat x div 16), hex_lower (unat x mod 16)]) xs)"

lemma code_hex_lower: "n < 16 \<Longrightarrow> code (hex_lower n) = (if n < 10 then 48 + n else 87 + n)"
proof -
  have "list_all (\<lambda>n. code (hex_lower n) = (if n < 10 then 48 + n else 87 + n)) [0..<16]" by code_simp
  then show "n < 16 \<Longrightarrow> ?thesis" by (simp add: list_all_iff)
qed

lemma code_hex_upper: "n < 16 \<Longrightarrow> code (hex_upper n) = (if n < 10 then 48 + n else 55 + n)"
proof -
  have "list_all (\<lambda>n. code (hex_upper n) = (if n < 10 then 48 + n else 55 + n)) [0..<16]" by code_simp
  then show "n < 16 \<Longrightarrow> ?thesis" by (simp add: list_all_iff)
qed

lemma hex_value_iff: "n < 16 \<Longrightarrow> hex_value c = int n \<longleftrightarrow> tolower c = hex_lower n"
  by (simp only: char_eq_code code_hex_lower code_tolower hex_value_def Let_def split: if_split) auto

lemma hex_value_range: "0 \<le> hex_value c \<longleftrightarrow> isxdigit c" "hex_value c < 16" "-1 \<le> hex_value c"
  unfolding hex_value_def isxdigit_def isdigit_def Let_def code_tolower by (auto split: if_splits)

lemma hex_value_nat: "isxdigit c \<Longrightarrow> hex_value c = int (nat (hex_value c)) \<and> nat (hex_value c) < 16"
  using hex_value_range [of c] by auto

lemma hex_value_upper: "n < 16 \<Longrightarrow> hex_value (hex_upper n) = int n"
  by (simp add: hex_value_def Let_def code_tolower code_hex_upper)

lemma hex_byte_nat: "hi < 16 \<Longrightarrow> lo < 16 \<Longrightarrow> hex_byte (int hi) (int lo) = of_nat (hi * 16 + lo)"
proof -
  assume "hi < 16" "lo < 16"
  have "\<not> bit (push_bit 4 (of_nat hi :: byte)) n \<or> \<not> bit (of_nat lo :: byte) n" for n
  proof (cases "n < 4")
    case False
    then have "\<not> bit lo n" using \<open>lo < 16\<close> bit_take_bit_iff [of 4 lo n] by (simp add: take_bit_eq_mod)
    then show ?thesis by (simp add: bit_of_nat_iff_bit bit_simps)
  qed (simp add: bit_simps)
  then have "push_bit 4 (of_nat hi) OR of_nat lo = push_bit 4 (of_nat hi) + (of_nat lo :: byte)"
    by (intro disjunctive_add_eq_or [symmetric]) (auto simp: bit_eq_iff bit_simps)
  also have "\<dots> = of_nat (hi * 16 + lo)" by (simp add: push_bit_eq_mult mult.commute)
  finally show ?thesis by (simp add: hex_byte_def)
qed

lemma nibbles [simp]: "unat (x :: byte) div 16 < 16" "unat (x :: byte) mod 16 < 16"
  by (rule less_mult_imp_div_less) simp_all

lemma nibbles_join: "lo < 16 \<Longrightarrow> n = hi * 16 + lo \<longleftrightarrow> hi = n div 16 \<and> lo = (n :: nat) mod 16"
  using div_mult_mod_eq [of n 16] by auto

lemma hex_pairs_exact: "even (length s) \<Longrightarrow> hex_pairs s = Some xs \<longleftrightarrow> map tolower s = hex_text xs"
proof (induction s arbitrary: xs rule: hex_pairs.induct)
  case (1 h l s)
  show ?case
  proof (cases "isxdigit h \<and> isxdigit l")
    case True
    then obtain hi lo where v: "hex_value h = int hi" "hex_value l = int lo" "hi < 16" "lo < 16" using hex_value_nat by metis
    then have t: "tolower h = hex_lower hi" "tolower l = hex_lower lo" using hex_value_iff by blast+
    have b: "unat (of_nat (hi * 16 + lo) :: byte) = hi * 16 + lo" using v(3,4) by (intro unat_small) linarith
    have inj: "hex_lower hi = hex_lower m \<longleftrightarrow> hi = m" "hex_lower lo = hex_lower m \<longleftrightarrow> lo = m" if "m < 16" for m
      using v t hex_value_iff [OF that, of h] hex_value_iff [OF that, of l] by (metis of_nat_eq_iff)+
    have head: "x = of_nat (hi * 16 + lo) \<longleftrightarrow> hex_lower hi = hex_lower (unat x div 16) \<and> hex_lower lo = hex_lower (unat x mod 16)" for x :: byte
    proof -
      have "hex_lower hi = hex_lower (unat x div 16) \<and> hex_lower lo = hex_lower (unat x mod 16) \<longleftrightarrow> unat x = hi * 16 + lo"
        using inj(1) [OF nibbles(1) [of x]] inj(2) [OF nibbles(2) [of x]] nibbles_join [OF v(4)] by simp
      then show ?thesis using b by (auto simp: word_unat_eq_iff)
    qed
    have ev: "even (length s)" using 1(2) by simp
    have ok: "\<not> (hex_value h < 0 \<or> hex_value l < 0)" using v by simp
    have "hex_pairs (h # l # s) = Some xs \<longleftrightarrow>
        (\<exists>ys. xs = of_nat (hi * 16 + lo) # ys \<and> hex_pairs s = Some ys)"
      using v hex_byte_nat [OF v(3,4)] ok by (auto simp del: of_nat_add of_nat_mult)
    also have "\<dots> \<longleftrightarrow> (\<exists>x ys. xs = x # ys \<and> x = of_nat (hi * 16 + lo) \<and> map tolower s = hex_text ys)"
      using 1(1) [OF ok ev] by blast
    also have "\<dots> \<longleftrightarrow> map tolower (h # l # s) = hex_text xs"
      unfolding head using t by (cases xs) (auto simp: hex_text_def)
    finally show ?thesis .
  next
    case False
    have "map tolower (h # l # s) \<noteq> hex_text xs"
    proof
      assume a: "map tolower (h # l # s) = hex_text xs"
      then obtain x ys where "xs = x # ys" by (cases xs) (auto simp: hex_text_def)
      then have "tolower h = hex_lower (unat x div 16)" "tolower l = hex_lower (unat x mod 16)" using a by (auto simp: hex_text_def)
      then show False using False hex_value_iff hex_value_range(1) nibbles by (metis of_nat_0_le_iff)
    qed
    then show ?thesis using False hex_value_range(1) [of h] hex_value_range(1) [of l] by auto
  qed
next
  case "2_1"
  show ?case by (cases xs) (auto simp: hex_text_def)
qed simp

lemma uuid_compact_exact:
  "uuid_compact s acc = Some t \<longleftrightarrow>
     t = acc @ filter (\<lambda>c. c \<noteq> CHR ''-'') s \<and> list_all isxdigit (filter (\<lambda>c. c \<noteq> CHR ''-'') s) \<and>
     (filter (\<lambda>c. c \<noteq> CHR ''-'') s = [] \<or> length t \<le> 32)"
  by (induction s acc rule: uuid_compact.induct) auto

lemma length_hex_text [simp]: "length (hex_text xs) = 2 * length xs"
  by (induction xs) (simp_all add: hex_text_def)

lemma hex_text_xdigits:
  assumes "map tolower s = hex_text xs"
  shows "list_all isxdigit s"
proof -
  have "isxdigit c" if "tolower c = hex_lower n" "n < 16" for c n
    using hex_value_iff [OF that(2), of c] that(1) hex_value_range(1) [of c] by simp
  moreover have "\<exists>n<16. d = hex_lower n" if "d \<in> set (hex_text xs)" for d
  proof -
    from that obtain x :: byte where "d = hex_lower (unat x div 16) \<or> d = hex_lower (unat x mod 16)" by (auto simp: hex_text_def)
    then show ?thesis using nibbles by metis
  qed
  ultimately have "isxdigit c" if "c \<in> set s" for c using that assms by (metis list.set_map imageI)
  then show ?thesis by (simp add: list_all_iff)
qed

text \<open>
  \<^verbatim>\<open>hex_to_bytes\<close> accepts exactly the hexadecimal spellings, in either case, of
  byte strings that fit the output, and \<^verbatim>\<open>parse_uuid\<close> exactly those of 16 bytes with any
  dashes; both return the bytes spelled.
\<close>

lemma hex_codecs_exact:
  "(hex_to_bytes s out_cap = Some xs \<longleftrightarrow> length xs \<le> out_cap \<and> map tolower s = hex_text xs) \<and>
   (parse_uuid s = Some xs \<longleftrightarrow> length xs = 16 \<and> map tolower (filter (\<lambda>c. c \<noteq> CHR ''-'') s) = hex_text xs)"
proof
  have len: "length s = 2 * length xs" if "map tolower s = hex_text xs" for s using arg_cong [OF that, of length] by simp
  show "hex_to_bytes s out_cap = Some xs \<longleftrightarrow> length xs \<le> out_cap \<and> map tolower s = hex_text xs"
    using hex_pairs_exact [of s xs] len [of s] by (auto simp: hex_to_bytes_def even_iff_mod_2_eq_zero)
  let ?t = "filter (\<lambda>c. c \<noteq> CHR ''-'') s"
  have "parse_uuid s = Some xs \<longleftrightarrow> uuid_compact s [] = Some ?t \<and> length ?t = 32 \<and> hex_pairs ?t = Some xs"
  proof (cases "uuid_compact s []")
    case (Some t)
    then have "t = ?t" using uuid_compact_exact [of s "[]" t] by simp
    then show ?thesis using Some by (simp add: parse_uuid_def)
  qed (simp add: parse_uuid_def)
  also have "\<dots> \<longleftrightarrow> list_all isxdigit ?t \<and> length ?t = 32 \<and> map tolower ?t = hex_text xs"
    using hex_pairs_exact [of ?t xs] uuid_compact_exact [of s "[]" ?t] by (cases "length ?t = 32") (simp_all only: append_Nil, simp_all)
  also have "\<dots> \<longleftrightarrow> length xs = 16 \<and> map tolower ?t = hex_text xs"
    using hex_text_xdigits [of ?t xs] len [of ?t] by auto
  finally show "parse_uuid s = Some xs \<longleftrightarrow> length xs = 16 \<and> map tolower ?t = hex_text xs" .
qed

lemma hex_codecs_exact_witness:
  "hex_to_bytes ''0aF'' 4 \<noteq> Some [10] \<and> hex_to_bytes ''0AfF'' 4 = Some [10, 255]"
  using hex_codecs_exact [of "''0aF''" 4 "[10]"] hex_codecs_exact [of "''0AfF''" 4 "[10, 255]"]
  by (simp add: hex_text_def hex_lower_def tolower_def) (simp add: char_eq_code del: of_char_eq_iff)

section \<open>Request targets cannot break out of their line\<close>

text \<open>The characters a target stands for: percent escapes replaced by what they denote.\<close>

fun unescape :: "string \<Rightarrow> string" where
  "unescape (c # h # l # s) =
     (if c = CHR ''%'' \<and> isxdigit h \<and> isxdigit l then char_of (nat (hex_value h * 16 + hex_value l)) # unescape s
      else c # unescape (h # l # s))"
| "unescape s = s"

definition target_char :: "char \<Rightarrow> bool" where
  "target_char c \<longleftrightarrow> 33 \<le> code c \<and> code c \<le> 126"

lemma request_byte_char: "request_byte c \<Longrightarrow> target_char c \<and> c \<noteq> CHR ''%''"
  unfolding request_byte_def target_char_def isalpha_def isdigit_def by auto

lemma xdigit_char: "isxdigit c \<Longrightarrow> target_char c \<and> c \<noteq> CHR ''%''"
  unfolding isxdigit_def target_char_def isdigit_def by auto

lemma target_char_percent [simp]: "target_char (CHR ''%'')" "target_char (CHR ''/'')"
  by (simp_all add: target_char_def)

lemma unescape_plain: "c \<noteq> CHR ''%'' \<Longrightarrow> unescape (c # s) = c # unescape s"
  by (cases s; cases "tl s") auto

lemma escape_digits:
  assumes "code c \<noteq> 0" "code c \<noteq> 10" "code c \<noteq> 13"
  shows "isxdigit (hex_upper (code c div 16))" "isxdigit (hex_upper (code c mod 16))"
    "hex_value (hex_upper (code c div 16)) = int (code c div 16)" "hex_value (hex_upper (code c mod 16)) = int (code c mod 16)"
    "char_of (nat (int (code c div 16) * 16 + int (code c mod 16))) = c"
proof -
  have b: "code c div 16 < 16" "code c mod 16 < 16" by (auto intro: less_mult_imp_div_less)
  then show v: "hex_value (hex_upper (code c div 16)) = int (code c div 16)" "hex_value (hex_upper (code c mod 16)) = int (code c mod 16)"
    by (simp_all add: hex_value_upper)
  show "isxdigit (hex_upper (code c div 16))" "isxdigit (hex_upper (code c mod 16))"
    using hex_value_range(1) [of "hex_upper (code c div 16)"] hex_value_range(1) [of "hex_upper (code c mod 16)"] v by simp_all
  have "nat (int (code c div 16) * 16 + int (code c mod 16)) = code c"
    by (metis div_mult_mod_eq nat_int of_nat_add of_nat_mult of_nat_numeral)
  then show "char_of (nat (int (code c div 16) * 16 + int (code c mod 16))) = c" by simp
qed

lemma target_written:
  assumes "target_fits s room" and "CHR 0x00 \<notin> set s"
  shows "length (target_write s) \<le> room \<and> list_all target_char (target_write s) \<and> target_fits (target_write s) room \<and>
    target_write (target_write s) = target_write s \<and> unescape (target_write s) = unescape s"
  using assms
proof (induction s room rule: target_fits.induct)
  case (2 c s room)
  show ?case
  proof (cases "c = CHR ''%''")
    case True
    then obtain h l rest where s: "s = h # l # rest" using 2(3) by (auto split: list.splits)
    have v: "0 \<le> hex_value h" "0 \<le> hex_value l" "3 \<le> room" "target_fits rest (room - 3)"
      using 2(3) True s by (auto simp: Let_def split: if_splits)
    then have x: "isxdigit h" "isxdigit l" using hex_value_range(1) by blast+
    have rec: "length (target_write rest) \<le> room - 3 \<and> list_all target_char (target_write rest) \<and>
        target_fits (target_write rest) (room - 3) \<and> target_write (target_write rest) = target_write rest \<and>
        unescape (target_write rest) = unescape rest"
      using 2 True s v by (auto simp: Let_def split: if_splits)
    show ?thesis
      using rec 2(3) v x xdigit_char [OF x(1)] xdigit_char [OF x(2)] True
      by (auto simp: s Let_def split: if_splits)
  next
    case False
    then have cr: "code c \<noteq> 13" "code c \<noteq> 10" "code c \<noteq> 0" using 2(3,4) by (auto simp: char_eq_code simp del: of_char_eq_iff)
    note e = escape_digits [OF cr(3,2,1)]
    let ?need = "if request_byte c then 1 else 3 :: nat"
    have fits: "?need \<le> room" "target_fits s (room - ?need)" using 2(3) False by (auto simp: Let_def split: if_splits)
    have "CHR 0x00 \<notin> set s" using 2(4) by simp
    then have rec: "length (target_write s) \<le> room - ?need \<and> list_all target_char (target_write s) \<and>
        target_fits (target_write s) (room - ?need) \<and> target_write (target_write s) = target_write s \<and>
        unescape (target_write s) = unescape s"
      using 2(2) [OF _ _ refl] fits 2(3) False by (auto split: if_splits)
    show ?thesis
    proof (cases "request_byte c")
      case True
      then show ?thesis
        using rec fits request_byte_char [OF True] 2(3) False by (auto simp: Let_def unescape_plain split: if_splits)
    next
      case req: False
      have nz: "code c div 16 \<noteq> 0 \<or> code c mod 16 \<noteq> 0 \<and> code c mod 16 \<noteq> 10 \<and> code c mod 16 \<noteq> 13"
        using cr div_mult_mod_eq [of "code c" 16] by auto
      have "target_write (c # s) = CHR ''%'' # hex_upper (code c div 16) # hex_upper (code c mod 16) # target_write s"
        using False req by simp
      then show ?thesis
        using rec fits req e nz xdigit_char [OF e(1)] xdigit_char [OF e(2)] False
        by (auto simp add: Let_def unescape_plain split: if_splits)
    qed
  qed
qed simp

lemma request_target_result:
  assumes "core_request_target s cap = Some t" and "CHR 0x00 \<notin> set s"
  shows "length t < cap \<and> list_all target_char t \<and> core_request_target t cap = Some t \<and> unescape t = unescape s"
proof -
  have c: "cap \<noteq> 0" "target_fits s (cap - 1)" "t = target_write s"
    using assms(1) by (auto simp: core_request_target_def split: if_splits)
  then show ?thesis using target_written [OF c(2) assms(2)] by (auto simp: core_request_target_def)
qed

lemma request_target_first:
  "core_request_target (CHR ''/'' # s) cap = Some t \<Longrightarrow> \<exists>u. t = CHR ''/'' # u"
  by (auto simp: core_request_target_def request_byte_def split: if_splits)

lemma http_path_target:
  assumes "core_http_path s cap trailing = Some t" and "CHR 0x00 \<notin> set s"
  obtains u where "length (CHR ''/'' # u) < cap" "list_all target_char (CHR ''/'' # u)"
    "t = CHR ''/'' # u \<and> (trailing \<longrightarrow> last (takeWhile (\<lambda>c. c \<noteq> CHR ''?'') t) = CHR ''/'') \<or> trailing \<and> length (CHR ''/'' # u) + 1 < cap \<and>
       t = takeWhile (\<lambda>c. c \<noteq> CHR ''?'') (CHR ''/'' # u) @ CHR ''/'' # dropWhile (\<lambda>c. c \<noteq> CHR ''?'') (CHR ''/'' # u)"
proof -
  define source where "source = (if s = [] then ''/'' else s)"
  have nul: "CHR 0x00 \<notin> set source" using assms(2) by (simp add: source_def)
  obtain v where v: "(if hd source = CHR ''/'' then core_request_target source cap
      else map_option (\<lambda>t. CHR ''/'' # t) (core_request_target source (cap - 1))) = Some v"
    using assms(1) unfolding core_http_path_def Let_def source_def [symmetric] by (auto split: option.splits if_splits)
  have "\<exists>u. v = CHR ''/'' # u \<and> length v < cap \<and> list_all target_char v"
  proof (cases "hd source = CHR ''/''")
    case True
    then obtain r where "source = CHR ''/'' # r" by (cases source) (auto simp: source_def split: if_splits)
    then show ?thesis using v True request_target_first [of r cap v] request_target_result [OF _ nul, of cap v] by auto
  next
    case False
    then show ?thesis using v request_target_result [OF _ nul, of "cap - 1"] by auto
  qed
  then obtain u where u: "v = CHR ''/'' # u" "length v < cap" "list_all target_char v" by blast
  show ?thesis
  proof (rule that [of u])
    show "t = CHR ''/'' # u \<and> (trailing \<longrightarrow> last (takeWhile (\<lambda>c. c \<noteq> CHR ''?'') t) = CHR ''/'') \<or> trailing \<and> length (CHR ''/'' # u) + 1 < cap \<and>
       t = takeWhile (\<lambda>c. c \<noteq> CHR ''?'') (CHR ''/'' # u) @ CHR ''/'' # dropWhile (\<lambda>c. c \<noteq> CHR ''?'') (CHR ''/'' # u)"
      using u v assms(1) unfolding core_http_path_def Let_def source_def [symmetric] by (auto split: if_split_asm)
  qed (use u in simp_all)
qed

text \<open>
  Whatever text configures it, a request target that is produced fits its array, holds
  only visible ASCII characters (so no space, line end or control character can end the request line),
  denotes the same characters, and is not changed when it is written again; a path moreover starts with
  a slash, and ends with one before its query when asked to.
\<close>

lemma request_target_safe:
  assumes "CHR 0x00 \<notin> set s"
  shows "(core_request_target s cap = Some t \<longrightarrow>
      length t < cap \<and> list_all target_char t \<and> core_request_target t cap = Some t \<and> unescape t = unescape s) \<and>
    (core_http_path s cap trailing = Some t \<longrightarrow>
      length t < cap \<and> list_all target_char t \<and> hd t = CHR ''/'' \<and>
      (trailing \<longrightarrow> last (takeWhile (\<lambda>c. c \<noteq> CHR ''?'') t) = CHR ''/''))"
proof (intro conjI impI)
  assume "core_request_target s cap = Some t"
  from request_target_result [OF this assms]
  show "length t < cap" "list_all target_char t" "core_request_target t cap = Some t" "unescape t = unescape s" by blast+
next
  assume "core_http_path s cap trailing = Some t"
  from http_path_target [OF this assms] obtain u where u: "length (CHR ''/'' # u) < cap" "list_all target_char (CHR ''/'' # u)"
    "t = CHR ''/'' # u \<and> (trailing \<longrightarrow> last (takeWhile (\<lambda>c. c \<noteq> CHR ''?'') t) = CHR ''/'') \<or> trailing \<and> length (CHR ''/'' # u) + 1 < cap \<and>
       t = takeWhile (\<lambda>c. c \<noteq> CHR ''?'') (CHR ''/'' # u) @ CHR ''/'' # dropWhile (\<lambda>c. c \<noteq> CHR ''?'') (CHR ''/'' # u)" by blast
  let ?P = "\<lambda>c. c \<noteq> CHR ''?''"
  have split: "takeWhile ?P w @ dropWhile ?P w = w" for w by simp
  have len: "length (takeWhile ?P u) + length (dropWhile ?P u) = length u" by (metis length_append split)
  have all: "list_all target_char (takeWhile ?P u)" "list_all target_char (dropWhile ?P u)"
    using u(2) by (auto simp: list_all_iff dest: set_takeWhileD set_dropWhileD)
  show "length t < cap" using u len by auto
  show "list_all target_char t" using u all by auto
  show "hd t = CHR ''/''" using u by auto
  assume trailing
  have "takeWhile ?P (takeWhile ?P w @ CHR ''/'' # dropWhile ?P w) = takeWhile ?P w @ [CHR ''/'']" for w
    by (induction w) auto
  then show "last (takeWhile ?P t) = CHR ''/''" using u \<open>trailing\<close> by (metis last_snoc)
qed

lemma request_target_safe_witness:
  "core_request_target ''/a b'' 9 = Some ''/a%20b'' \<and> core_request_target ''/a%20b'' 9 = Some ''/a%20b'' \<and>
   core_http_path ''x?q'' 9 True = Some ''/x/?q''"
proof -
  have "core_request_target ''/a b'' 9 = Some ''/a%20b''" by code_simp
  moreover have "core_http_path ''x?q'' 9 True = Some ''/x/?q''" by code_simp
  ultimately show ?thesis using request_target_safe [of "''/a b''" 9 "''/a%20b''" False] by simp
qed

end
