(* ===== verification/Requests.thy ===== *)
theory Requests
  imports Routing Utils "HOL-Library.Monad_Syntax"
begin

text \<open>
  The request headers the client sends and the response header it skips: \<^verbatim>\<open>src/src/vless.c\<close> and
  \<^verbatim>\<open>src/src/trojan.c\<close>.  \<^verbatim>\<open>inet_pton\<close> (the record \<open>inet\<close> of Routing), the SHA-224 of
  OpenSSL and the two channels of a connection (the encrypted one, if any, and the TLS one) are
  parameters.  Each encoder is shown to be read back by a strict reader of the protocol, whatever
  follows the header, and the response consumer to skip exactly the header however it is cut.
\<close>

section \<open>VLESS\<close>

text \<open>\<^verbatim>\<open>append\<close>: the packet written so far and the bytes to add, within \<open>cap\<close>.\<close>

definition vappend :: "nat \<Rightarrow> bytes \<Rightarrow> bytes \<Rightarrow> bytes option" where
  "vappend cap packet src = (if length packet + length src > cap then None else Some (packet @ src))"

definition append_byte :: "nat \<Rightarrow> bytes \<Rightarrow> byte \<Rightarrow> bytes option" where
  "append_byte cap packet v = vappend cap packet [v]"

definition vless_addons :: "string \<Rightarrow> bytes" where
  "vless_addons flow = (if flow = [] then [] else [0x0A, of_nat (length flow)] @ text_bytes flow)"

definition vless_address :: "inet \<Rightarrow> nat \<Rightarrow> bytes \<Rightarrow> string \<Rightarrow> bytes option" where
  "vless_address net cap packet host =
     (case inet_pton net AF_INET host of
        Some ipv4 \<Rightarrow> do { p \<leftarrow> append_byte cap packet 0x01; vappend cap p (take 4 ipv4) }
      | None \<Rightarrow>
          (case inet_pton net AF_INET6 host of
             Some ipv6 \<Rightarrow> do { p \<leftarrow> append_byte cap packet 0x03; vappend cap p (take 16 ipv6) }
           | None \<Rightarrow>
               if length host = 0 \<or> length host > 255 then None
               else do { p \<leftarrow> append_byte cap packet 0x02; p \<leftarrow> append_byte cap p (of_nat (length host));
                         vappend cap p (text_bytes host) }))"

definition vless_build_request :: "inet \<Rightarrow> nat \<Rightarrow> bytes \<Rightarrow> string \<Rightarrow> string \<Rightarrow> 16 word \<Rightarrow> bytes option" where
  "vless_build_request net cap uuid flow host port =
     do { p \<leftarrow> append_byte cap [] 0x00;
          p \<leftarrow> vappend cap p (take 16 uuid);
          (if length flow > 64 then None
           else do { p \<leftarrow> append_byte cap p (of_nat (length (vless_addons flow)));
                     p \<leftarrow> vappend cap p (vless_addons flow);
                     p \<leftarrow> append_byte cap p 0x01;
                     p \<leftarrow> append_byte cap p (ucast (drop_bit 8 port));
                     p \<leftarrow> append_byte cap p (ucast (and port 0xFF));
                     vless_address net cap p host }) }"

text \<open>
  The channels of a connection: \<open>write s data\<close> and \<open>read s n\<close> are \<^verbatim>\<open>vless_encryption_write\<close> and
  \<^verbatim>\<open>vless_encryption_read_exact\<close> when the connection is encrypted, else \<^verbatim>\<open>tls13_write_app\<close>
  and \<^verbatim>\<open>tls13_read_exact_app\<close>.
\<close>

definition vless_send_request ::
  "('s \<Rightarrow> bytes \<Rightarrow> bool \<times> 's) \<Rightarrow> inet \<Rightarrow> 's \<Rightarrow> bytes \<Rightarrow> string \<Rightarrow> string \<Rightarrow> 16 word \<Rightarrow> bool \<times> 's" where
  "vless_send_request write net s uuid flow host port =
     (case vless_build_request net 2048 uuid flow host port of None \<Rightarrow> (False, s) | Some packet \<Rightarrow> write s packet)"

definition vless_read_response :: "('s \<Rightarrow> nat \<Rightarrow> (bytes \<times> 's) option) \<Rightarrow> 's \<Rightarrow> 's option" where
  "vless_read_response rd s =
     (case rd s 2 of
        None \<Rightarrow> None
      | Some (hdr, s1) \<Rightarrow>
          if hdr ! 0 \<noteq> 0 then None
          else if unat (hdr ! 1) > 0 then map_option snd (rd s1 (unat (hdr ! 1)))
          else Some s1)"

record vless_response =
  header_bytes :: nat
  addon_bytes :: nat
  complete :: bool

text \<open>The loop over the two header bytes: \<open>None\<close> when the version is not zero.\<close>

fun response_header :: "vless_response \<Rightarrow> bytes \<Rightarrow> (vless_response \<times> bytes) option" where
  "response_header state [] = Some (state, [])"
| "response_header state (byte # data) =
     (if header_bytes state < 2 then
        (if header_bytes state = 0 \<and> byte \<noteq> 0 then None
         else response_header
                ((if header_bytes state = 1 then state\<lparr>addon_bytes := unat byte\<rparr> else state)
                   \<lparr>header_bytes := header_bytes state + 1\<rparr>) data)
      else Some (state, byte # data))"

text \<open>The result: failure, or whether the header is complete, with the bytes that are not consumed.\<close>

definition vless_consume_response :: "vless_response \<Rightarrow> bytes \<Rightarrow> (bool \<times> vless_response \<times> bytes) option" where
  "vless_consume_response state data =
     (case response_header state data of
        None \<Rightarrow> None
      | Some (s, rest) \<Rightarrow>
          if header_bytes s < 2 then Some (False, s, rest)
          else let skip = min (addon_bytes s) (length rest);
                   s1 = s\<lparr>addon_bytes := addon_bytes s - skip\<rparr>;
                   s2 = s1\<lparr>complete := (addon_bytes s1 = 0)\<rparr>
               in Some (complete s2, s2, drop skip rest))"

section \<open>Trojan\<close>

definition CORE_TROJAN_HASH_SIZE :: nat where "CORE_TROJAN_HASH_SIZE = 28"

text \<open>\<open>sha224\<close> is the digest of OpenSSL, \<open>None\<close> when one of its calls fails.\<close>

definition core_trojan_password :: "(bytes \<Rightarrow> bytes option) \<Rightarrow> bytes \<Rightarrow> errno + bytes" where
  "core_trojan_password sha224 password =
     (if password = [] then Inl EINVAL
      else case sha224 password of
             None \<Rightarrow> Inl EIO
           | Some digest \<Rightarrow> if length digest \<noteq> CORE_TROJAN_HASH_SIZE then Inl EIO else Inr digest)"

definition trojan_host_char :: "char \<Rightarrow> bool" where
  "trojan_host_char c \<longleftrightarrow> \<not> (code c \<le> 0x20 \<or> code c = 0x7F \<or> c \<in> set ''/:?#@[]'' \<or> code c = 0x5C)"

definition trojan_hex :: "byte \<Rightarrow> bytes" where
  "trojan_hex b = text_bytes [''0123456789abcdef'' ! unat (drop_bit 4 b), ''0123456789abcdef'' ! unat (and b 15)]"

definition core_trojan_request :: "inet \<Rightarrow> nat \<Rightarrow> bytes \<Rightarrow> string \<Rightarrow> 16 word \<Rightarrow> errno + bytes" where
  "core_trojan_request net capacity hash host port =
     (if host = [] \<or> port = 0 then Inl EINVAL
      else
        let address =
          (case inet_pton net AF_INET host of
             Some a \<Rightarrow> Some (1, take 4 a)
           | None \<Rightarrow>
               (case inet_pton net AF_INET6 host of
                  Some a \<Rightarrow> Some (4, take 16 a)
                | None \<Rightarrow> if length host > 255 \<or> \<not> list_all trojan_host_char host then None
                          else Some (3, text_bytes host)))
        in case address of
             None \<Rightarrow> Inl EINVAL
           | Some (type, addr) \<Rightarrow>
               if 64 + length addr + (if type = (3 :: nat) then 1 else 0) > capacity then Inl ENOBUFS
               else Inr (concat (map trojan_hex (take CORE_TROJAN_HASH_SIZE hash)) @ [13, 10, 1, of_nat type] @
                         (if type = 3 then [of_nat (length addr)] else []) @ addr @
                         [ucast (drop_bit 8 port), ucast port, 13, 10]))"

section \<open>A strict reader of the headers\<close>

text \<open>
  What a server reads: fields of known length taken off the front of the stream.  The target is an
  address or a name, and what follows the header is left in the stream.
\<close>

datatype target = Target4 bytes | Target6 bytes | Target_Domain string

definition bytes_text :: "bytes \<Rightarrow> string" where
  "bytes_text xs = map (\<lambda>b. char_of (unat b)) xs"

definition read_list :: "bytes \<Rightarrow> nat \<Rightarrow> (bytes \<times> bytes) option" where
  "read_list xs n = (if n \<le> length xs then Some (take n xs, drop n xs) else None)"

definition read_byte :: "bytes \<Rightarrow> (nat \<times> bytes) option" where
  "read_byte xs = (case xs of [] \<Rightarrow> None | b # r \<Rightarrow> Some (unat b, r))"

definition expect :: "bytes \<Rightarrow> bytes \<Rightarrow> bytes option" where
  "expect prefix xs = (if take (length prefix) xs = prefix then Some (drop (length prefix) xs) else None)"

text \<open>The codes of the protocols for an IPv4 address, a domain and an IPv6 address.\<close>

definition read_target :: "nat \<Rightarrow> nat \<Rightarrow> nat \<Rightarrow> bytes \<Rightarrow> (target \<times> bytes) option" where
  "read_target code4 code_domain code6 xs =
     do { (t, r) \<leftarrow> read_byte xs;
          (if t = code4 then do { (a, r) \<leftarrow> read_list r 4; Some (Target4 a, r) }
           else if t = code6 then do { (a, r) \<leftarrow> read_list r 16; Some (Target6 a, r) }
           else if t = code_domain then
             do { (n, r) \<leftarrow> read_byte r;
                  (if n = 0 then None else do { (d, r) \<leftarrow> read_list r n; Some (Target_Domain (bytes_text d), r) }) }
           else None) }"

definition read_flow :: "bytes \<Rightarrow> string option" where
  "read_flow addons =
     (case addons of
        [] \<Rightarrow> Some []
      | tag # n # s \<Rightarrow> if tag = 0x0A \<and> unat n = length s then Some (bytes_text s) else None
      | _ \<Rightarrow> None)"

definition vless_reader :: "bytes \<Rightarrow> (bytes \<times> string \<times> nat \<times> target \<times> bytes) option" where
  "vless_reader xs =
     do { r \<leftarrow> expect [0] xs;
          (uuid, r) \<leftarrow> read_list r 16;
          (n, r) \<leftarrow> read_byte r;
          (addons, r) \<leftarrow> read_list r n;
          flow \<leftarrow> read_flow addons;
          r \<leftarrow> expect [1] r;
          (hi, r) \<leftarrow> read_byte r;
          (lo, r) \<leftarrow> read_byte r;
          (t, r) \<leftarrow> read_target 1 2 3 r;
          Some (uuid, flow, hi * 256 + lo, t, r) }"

definition trojan_reader :: "bytes \<Rightarrow> (bytes \<times> target \<times> nat \<times> bytes) option" where
  "trojan_reader xs =
     do { (h, r) \<leftarrow> read_list xs 56;
          hash \<leftarrow> hex_pairs (bytes_text h);
          r \<leftarrow> expect [13, 10, 1] r;
          (t, r) \<leftarrow> read_target 1 3 4 r;
          (hi, r) \<leftarrow> read_byte r;
          (lo, r) \<leftarrow> read_byte r;
          r \<leftarrow> expect [13, 10] r;
          Some (hash, t, hi * 256 + lo, r) }"

text \<open>The documented results of \<^verbatim>\<open>inet_pton\<close>, and the target a host text names.\<close>

definition inet_sizes :: "inet \<Rightarrow> bool" where
  "inet_sizes net \<longleftrightarrow> (\<forall>s a. pton4 net s = Some a \<longrightarrow> length a = 4) \<and> (\<forall>s a. pton6 net s = Some a \<longrightarrow> length a = 16)"

definition host_target :: "inet \<Rightarrow> string \<Rightarrow> target" where
  "host_target net host =
     (case pton4 net host of Some a \<Rightarrow> Target4 a
      | None \<Rightarrow> (case pton6 net host of Some a \<Rightarrow> Target6 a | None \<Rightarrow> Target_Domain host))"

lemma unat_of_char [simp]: "unat (of_char c :: byte) = code c"
proof -
  have "(of_char c :: byte) = of_nat (of_char c)" by (rule of_nat_of_char [symmetric])
  moreover have "code c < 256" by simp
  ultimately show ?thesis using unat_small [of "code c"] by simp
qed

lemma bytes_text_inverse [simp]: "bytes_text (text_bytes s) = s"
  by (simp add: bytes_text_def text_bytes_def comp_def)

lemma read_list_append [simp]: "length a = n \<Longrightarrow> read_list (a @ r) n = Some (a, r)"
  by (auto simp: read_list_def)

lemma read_byte_Cons [simp]: "read_byte (b # r) = Some (unat b, r)"
  by (simp add: read_byte_def)

lemma expect_append [simp]: "expect p (p @ r) = Some r"
  by (simp add: expect_def)

lemma expect_Cons [simp]: "expect (b # p) (b # r) = expect p r" "expect [] r = Some r"
  by (simp_all add: expect_def)

lemma port_bytes:
  "unat (ucast (drop_bit 8 port) :: byte) * 256 + unat (ucast port :: byte) = unat (port :: 16 word)"
  "(ucast (and port 0xFF) :: byte) = ucast port"
proof -
  have "(0xFF :: 16 word) = mask 8" by (simp add: mask_eq_exp_minus_1)
  then show "(ucast (and port 0xFF) :: byte) = ucast port" by (auto simp: bit_eq_iff bit_simps)
  have b: "unat port < 2 ^ 16" using unsigned_less [of port, where 'a = nat] by simp
  have "unat (ucast (drop_bit 8 port) :: byte) = unat port div 256"
    using b by (simp add: unsigned_ucast_eq unsigned_drop_bit_eq take_bit_eq_mod flip: drop_bit_eq_div)
      (simp add: drop_bit_eq_div)
  moreover have "unat (ucast port :: byte) = unat port mod 256" by (simp add: unsigned_ucast_eq take_bit_eq_mod)
  ultimately show "unat (ucast (drop_bit 8 port) :: byte) * 256 + unat (ucast port :: byte) = unat port" by simp
qed

section \<open>The VLESS request\<close>

lemma vappend_bind:
  "vappend cap p x \<bind> (\<lambda>q. vappend cap q y) = vappend cap p (x @ y)"
  "vappend cap p x \<bind> (\<lambda>q. vappend cap q y \<bind> k) = vappend cap p (x @ y) \<bind> k"
  "vappend cap p x \<bind> (\<lambda>q. None) = None"
  by (auto simp: vappend_def Let_def bind_eq_None_conv)

text \<open>The bytes of the address, and of the whole request.\<close>

definition address_bytes :: "byte \<Rightarrow> byte \<Rightarrow> byte \<Rightarrow> target \<Rightarrow> bytes" where
  "address_bytes c4 cd c6 t =
     (case t of Target4 a \<Rightarrow> c4 # a | Target6 a \<Rightarrow> c6 # a | Target_Domain d \<Rightarrow> [cd, of_nat (length d)] @ text_bytes d)"

definition request_bytes :: "bytes \<Rightarrow> string \<Rightarrow> 16 word \<Rightarrow> target \<Rightarrow> bytes" where
  "request_bytes uuid flow port t =
     0 # uuid @ of_nat (length (vless_addons flow)) # vless_addons flow @
     [1, ucast (drop_bit 8 port), ucast port] @ address_bytes 1 2 3 t"

definition domain_ok :: "target \<Rightarrow> bool" where
  "domain_ok t = (case t of Target_Domain d \<Rightarrow> 0 < length d \<and> length d \<le> 255 | _ \<Rightarrow> True)"

lemma vless_address_bytes:
  assumes "inet_sizes net"
  shows "vless_address net cap p host =
    (if domain_ok (host_target net host) then vappend cap p (address_bytes 1 2 3 (host_target net host)) else None)"
  using assms
  by (auto simp: vless_address_def host_target_def address_bytes_def domain_ok_def inet_pton_def inet_sizes_def
      append_byte_def vappend_bind split: option.splits)

lemma vless_build_request_bytes:
  assumes "inet_sizes net" and "length uuid = 16"
  shows "vless_build_request net cap uuid flow host port =
    (if length flow \<le> 64 \<and> domain_ok (host_target net host) then vappend cap [] (request_bytes uuid flow port (host_target net host)) else None)"
  using assms
  by (cases "length flow \<le> 64")
    (simp_all add: vless_build_request_def append_byte_def vappend_bind vless_address_bytes request_bytes_def port_bytes(2))

lemma read_target_bytes:
  assumes "inet_sizes net" and "domain_ok (host_target net host)"
    and "c4 \<noteq> cd" "c4 \<noteq> c6" "c6 \<noteq> cd"
  shows "read_target (unat c4) (unat cd) (unat c6) (address_bytes c4 cd c6 (host_target net host) @ r) = Some (host_target net host, r)"
proof -
  have ne: "unat c4 \<noteq> unat cd" "unat c4 \<noteq> unat c6" "unat c6 \<noteq> unat cd" using assms(3-5) by (simp_all add: word_unat_eq_iff)
  show ?thesis
  proof (cases "host_target net host")
    case (Target4 a)
    then have "length a = 4" using assms(1) by (auto simp: host_target_def inet_sizes_def split: option.splits)
    then show ?thesis by (simp add: Target4 read_target_def address_bytes_def)
  next
    case (Target6 a)
    then have "length a = 16" using assms(1) by (auto simp: host_target_def inet_sizes_def split: option.splits)
    then show ?thesis using ne by (simp add: Target6 read_target_def address_bytes_def)
  next
    case (Target_Domain d)
    then have "0 < length d" "length d < 256" using assms(2) by (auto simp: domain_ok_def)
    then show ?thesis using ne unat_small [of "length d"] by (simp add: Target_Domain read_target_def address_bytes_def)
  qed
qed

lemma read_flow_addons: "length flow \<le> 64 \<Longrightarrow> read_flow (vless_addons flow) = Some flow"
  by (simp add: read_flow_def vless_addons_def unat_small)

lemma vless_reader_request:
  assumes "inet_sizes net" and "length uuid = 16" and "length flow \<le> 64" and "domain_ok (host_target net host)"
  shows "vless_reader (request_bytes uuid flow port (host_target net host) @ rest) = Some (uuid, flow, unat port, host_target net host, rest)"
proof -
  have "unat (of_nat (length (vless_addons flow)) :: byte) = length (vless_addons flow)"
    by (rule unat_small) (use assms(3) in \<open>simp add: vless_addons_def\<close>)
  then show ?thesis
    using read_target_bytes [OF assms(1,4), of 1 2 3 rest] assms(2) port_bytes(1) [of port]
    by (simp add: vless_reader_def request_bytes_def read_flow_addons [OF assms(3)])
qed

text \<open>
  Property C8: the VLESS request for a user, flow and target is built exactly when the flow has at most
  64 characters, a domain has 1 to 255, and the request fits; and a server that reads the header field by
  field then gets the user, the flow, the port and the target, with what follows left in the stream.
\<close>

theorem vless_request_roundtrip:
  assumes "inet_sizes net" and "length uuid = 16"
  shows "(vless_build_request net cap uuid flow host port = Some p \<longrightarrow>
      length p \<le> cap \<and> vless_reader (p @ rest) = Some (uuid, flow, unat port, host_target net host, rest)) \<and>
    (vless_build_request net cap uuid flow host port = None \<longleftrightarrow>
      length flow > 64 \<or> \<not> domain_ok (host_target net host) \<or> cap < length (request_bytes uuid flow port (host_target net host)))"
proof -
  note b = vless_build_request_bytes [OF assms, of cap flow host port]
  show ?thesis unfolding b using vless_reader_request [OF assms] by (auto simp: vappend_def)
qed

theorem vless_request_roundtrip_witness:
  "let net = \<lparr>pton4 = (\<lambda>_. None), pton6 = (\<lambda>_. None)\<rparr>;
       p = request_bytes (replicate 16 7) [] 443 (Target_Domain ''a.b'')
   in vless_build_request net 2048 (replicate 16 7) [] ''a.b'' 443 = Some p \<and>
      vless_reader (p @ [9]) = Some (replicate 16 7, [], 443, Target_Domain ''a.b'', [9])"
proof -
  let ?net = "\<lparr>pton4 = (\<lambda>_. None), pton6 = (\<lambda>_. None)\<rparr>"
  have net: "inet_sizes ?net" by (simp add: inet_sizes_def)
  have t: "host_target ?net ''a.b'' = Target_Domain ''a.b''" by (simp add: host_target_def)
  have "vless_build_request ?net 2048 (replicate 16 7) [] ''a.b'' 443 = Some (request_bytes (replicate 16 7) [] 443 (Target_Domain ''a.b''))"
    by (simp add: vless_build_request_bytes net t vappend_def domain_ok_def request_bytes_def address_bytes_def vless_addons_def)
  then show ?thesis
    using vless_request_roundtrip [OF net, of "replicate 16 7" 2048 "[]" "''a.b''" 443] t by (simp add: Let_def)
qed

section \<open>The VLESS response\<close>

text \<open>The consumer over the chunks a connection delivers, until the header is complete.\<close>

fun response_feed :: "vless_response \<Rightarrow> bytes list \<Rightarrow> (bool \<times> vless_response \<times> bytes) option" where
  "response_feed s [] = Some (False, s, [])"
| "response_feed s (c # cs) =
     (case vless_consume_response s c of
        None \<Rightarrow> None
      | Some (done, s1, rest) \<Rightarrow> if done then Some (True, s1, rest @ concat cs) else response_feed s1 cs)"

definition response_start :: vless_response where
  "response_start = \<lparr>header_bytes = 0, addon_bytes = 0, complete = False\<rparr>"

definition response_open :: "vless_response \<Rightarrow> bool" where
  "response_open s \<longleftrightarrow> \<not> complete s \<and> header_bytes s \<le> 2 \<and> (header_bytes s = 2 \<longrightarrow> 0 < addon_bytes s)"

lemma response_header_done [simp]: "\<not> header_bytes s < 2 \<Longrightarrow> response_header s xs = Some (s, xs)"
  by (cases xs) simp_all

lemma response_header_append:
  "response_header s (xs @ ys) =
     (case response_header s xs of None \<Rightarrow> None | Some (s1, rest) \<Rightarrow> if rest = [] then response_header s1 ys else Some (s1, rest @ ys))"
  by (induction s xs rule: response_header.induct) simp_all

lemma response_header_state:
  "response_header s xs = Some (s1, rest) \<Longrightarrow> header_bytes s \<le> 2 \<Longrightarrow>
     header_bytes s1 \<le> 2 \<and> (rest \<noteq> [] \<longrightarrow> header_bytes s1 = 2) \<and> complete s1 = complete s"
  by (induction s xs rule: response_header.induct) (auto split: if_splits)

lemma consume_open:
  assumes "vless_consume_response s xs = Some (False, s1, rest)" and "response_open s"
  shows "response_open s1 \<and> rest = []"
proof -
  obtain s0 r where h: "response_header s xs = Some (s0, r)"
    using assms(1) by (auto simp: vless_consume_response_def split: option.splits)
  have "header_bytes s0 \<le> 2" "r \<noteq> [] \<longrightarrow> header_bytes s0 = 2" "\<not> complete s0"
    using response_header_state [OF h] assms(2) by (auto simp: response_open_def)
  then show ?thesis
    using assms(1) h by (auto simp: vless_consume_response_def response_open_def Let_def min_def split: if_splits)
qed

text \<open>Consuming a stream in two pieces is consuming it at once.\<close>

lemma consume_append:
  assumes "response_open s"
  shows "vless_consume_response s (xs @ ys) =
    (case vless_consume_response s xs of
       None \<Rightarrow> None
     | Some (done, s1, rest) \<Rightarrow> if done then Some (True, s1, rest @ ys) else vless_consume_response s1 ys)"
proof (cases "response_header s xs")
  case None
  then show ?thesis by (simp add: vless_consume_response_def response_header_append)
next
  case (Some p)
  then obtain s0 r where h: "response_header s xs = Some (s0, r)" by (cases p) simp
  have st: "header_bytes s0 \<le> 2" "r \<noteq> [] \<longrightarrow> header_bytes s0 = 2" "\<not> complete s0"
    using response_header_state [OF h] assms by (auto simp: response_open_def)
  have app: "response_header s (xs @ ys) = (if r = [] then response_header s0 ys else Some (s0, r @ ys))"
    by (simp add: response_header_append h)
  show ?thesis
  proof (cases "header_bytes s0 < 2")
    case True
    then show ?thesis using st by (simp add: vless_consume_response_def app h)
  next
    case False
    then show ?thesis using st by (cases "r = []") (auto simp add: vless_consume_response_def app h Let_def min_def)
  qed
qed

lemma consume_nil: "response_open s \<Longrightarrow> vless_consume_response s [] = Some (False, s, [])"
  by (cases s) (auto simp: vless_consume_response_def response_open_def Let_def)

lemma response_feed_concat: "response_open s \<Longrightarrow> response_feed s cs = vless_consume_response s (concat cs)"
proof (induction cs arbitrary: s)
  case (Cons c cs)
  show ?case
  proof (cases "vless_consume_response s c")
    case (Some p)
    then obtain d s1 r where p: "vless_consume_response s c = Some (d, s1, r)" by (cases p) simp
    show ?thesis
      using Cons.IH [of s1] consume_open [of s c s1 r] p Cons.prems by (auto simp: consume_append)
  qed (simp add: consume_append Cons.prems)
qed (simp add: consume_nil)

lemma consume_start:
  "vless_consume_response response_start xs =
     (case xs of
        [] \<Rightarrow> Some (False, response_start, [])
      | v # r \<Rightarrow>
          if v \<noteq> 0 then None
          else (case r of
                  [] \<Rightarrow> Some (False, response_start\<lparr>header_bytes := 1\<rparr>, [])
                | n # body \<Rightarrow>
                    Some (unat n \<le> length body,
                          \<lparr>header_bytes = 2, addon_bytes = unat n - length body, complete = (unat n \<le> length body)\<rparr>,
                          drop (unat n) body)))"
proof (cases xs)
  case (Cons v r)
  then show ?thesis
    by (cases r) (auto simp: vless_consume_response_def response_start_def Let_def min_def)
qed (simp add: vless_consume_response_def response_start_def)

text \<open>
  Property C16: however a server's stream is cut into chunks, the incremental consumer accepts exactly
  the streams the blocking reader accepts and leaves the same payload; it fails exactly when the first
  byte is not version zero, and before the header is complete it keeps no byte back.
\<close>

theorem vless_response_chunking:
  "((\<exists>s. response_feed response_start chunks = Some (True, s, rest)) \<longleftrightarrow>
      vless_read_response read_list (concat chunks) = Some rest) \<and>
   (response_feed response_start chunks = None \<longleftrightarrow> (\<exists>v r. concat chunks = v # r \<and> v \<noteq> 0)) \<and>
   (\<forall>s left. response_feed response_start chunks = Some (False, s, left) \<longrightarrow> left = [])"
proof -
  have "response_open response_start" by (simp add: response_open_def response_start_def)
  define xs where "xs = concat chunks"
  note f = response_feed_concat [OF \<open>response_open response_start\<close>, of chunks, folded xs_def]
  have open_left: "vless_consume_response response_start xs = Some (False, s, left) \<Longrightarrow> left = []" for s left
    using consume_open [OF _ \<open>response_open response_start\<close>] by blast
  have rd: "vless_read_response read_list (v # n # body) =
      (if v \<noteq> 0 then None else if unat n \<le> length body then Some (drop (unat n) body) else None)" for v n body
    by (auto simp: vless_read_response_def read_list_def)
  have short: "vless_read_response read_list [] = None" "vless_read_response read_list [v] = None" for v
    by (simp_all add: vless_read_response_def read_list_def)
  show ?thesis
  proof (cases xs)
    case Nil
    then show ?thesis unfolding f xs_def [symmetric] using open_left by (simp add: consume_start short)
  next
    case (Cons v r)
    then show ?thesis unfolding f xs_def [symmetric] using open_left by (cases r) (auto simp: consume_start short rd)
  qed
qed

theorem vless_response_chunking_witness:
  "\<exists>s. response_feed response_start [[0], [], [2, 5], [6, 7, 8]] = Some (True, s, [7, 8])"
proof -
  have "vless_read_response read_list (concat [[0], [], [2, 5], [6, 7, 8]]) = Some [7, 8]"
    by (simp add: vless_read_response_def read_list_def)
  then show ?thesis using vless_response_chunking [of "[[0], [], [2, 5], [6, 7, 8]]" "[7, 8]"] by blast
qed

section \<open>The Trojan request\<close>

lemma trojan_hex_text: "concat (map trojan_hex xs) = text_bytes (hex_text xs)"
proof -
  have "trojan_hex b = text_bytes [hex_lower (unat b div 16), hex_lower (unat b mod 16)]" for b
  proof -
    have "unat (drop_bit 4 b) = unat b div 16"
      using unsigned_less [of b, where 'a = nat]
      by (simp add: unsigned_drop_bit_eq take_bit_nat_eq_self flip: drop_bit_eq_div) (simp add: drop_bit_eq_div)
    moreover have "(15 :: byte) = mask 4" by (simp add: mask_eq_exp_minus_1)
    then have "and b 15 = take_bit 4 b" by (simp only: take_bit_eq_mask)
    then have "unat (and b 15) = unat b mod 16" by (simp only: unsigned_take_bit_eq) (simp add: take_bit_eq_mod)
    ultimately show ?thesis by (simp add: trojan_hex_def hex_lower_def)
  qed
  then show ?thesis by (induction xs) (simp_all add: hex_text_def text_bytes_def)
qed

lemma tolower_hex_text [simp]: "map tolower (hex_text xs) = hex_text xs"
proof -
  have "tolower (hex_lower n) = hex_lower n" if "n < 16" for n
    using that by (simp add: char_eq_code code_tolower code_hex_lower del: of_char_eq_iff)
  then show ?thesis by (induction xs) (simp_all add: hex_text_def)
qed

definition trojan_bytes :: "bytes \<Rightarrow> 16 word \<Rightarrow> target \<Rightarrow> bytes" where
  "trojan_bytes hash port t =
     text_bytes (hex_text hash) @ [13, 10, 1] @ address_bytes 1 3 4 t @ [ucast (drop_bit 8 port), ucast port, 13, 10]"

definition trojan_host_ok :: "target \<Rightarrow> bool" where
  "trojan_host_ok t = (case t of Target_Domain d \<Rightarrow> d \<noteq> [] \<and> length d \<le> 255 \<and> list_all trojan_host_char d | _ \<Rightarrow> True)"

lemma core_trojan_request_bytes:
  assumes "inet_sizes net" and "length hash = 28" and "host \<noteq> []" and "port \<noteq> 0"
  shows "core_trojan_request net cap hash host port =
    (if \<not> trojan_host_ok (host_target net host) then Inl EINVAL
     else if length (trojan_bytes hash port (host_target net host)) > cap then Inl ENOBUFS
     else Inr (trojan_bytes hash port (host_target net host)))"
  using assms
  by (auto simp: core_trojan_request_def host_target_def trojan_host_ok_def trojan_bytes_def address_bytes_def inet_pton_def
      inet_sizes_def trojan_hex_text CORE_TROJAN_HASH_SIZE_def split: option.splits)

lemma trojan_reader_request:
  assumes "inet_sizes net" and "length hash = 28" and "trojan_host_ok (host_target net host)"
  shows "trojan_reader (trojan_bytes hash port (host_target net host) @ rest) = Some (hash, host_target net host, unat port, rest)"
proof -
  have dom: "domain_ok (host_target net host)" using assms(3) by (auto simp: trojan_host_ok_def domain_ok_def split: target.splits)
  have hex: "hex_pairs (hex_text hash) = Some hash" using hex_pairs_exact [of "hex_text hash" hash] by simp
  show ?thesis
    using read_target_bytes [OF assms(1) dom, of 1 3 4] assms(2) port_bytes(1) [of port]
    by (simp add: trojan_reader_def trojan_bytes_def hex)
qed

text \<open>
  Property C35: for a host and a port the Trojan request either is refused, because the host is no
  address and no proper domain or because the request does not fit, or it is the header that a server
  reads field by field, getting the password hash, the target and the port with the payload left.
\<close>

theorem trojan_request_roundtrip:
  assumes "inet_sizes net" and "length hash = 28"
  shows "case core_trojan_request net cap hash host port of
      Inr p \<Rightarrow> length p \<le> cap \<and> port \<noteq> 0 \<and> trojan_reader (p @ rest) = Some (hash, host_target net host, unat port, rest)
    | Inl e \<Rightarrow> if host = [] \<or> port = 0 \<or> \<not> trojan_host_ok (host_target net host) then e = EINVAL
               else e = ENOBUFS \<and> cap < length (trojan_bytes hash port (host_target net host))"
proof (cases "host = [] \<or> port = 0")
  case False
  then show ?thesis using trojan_reader_request [OF assms] core_trojan_request_bytes [OF assms, of host port cap] by auto
qed (auto simp: core_trojan_request_def)

theorem trojan_request_roundtrip_witness:
  "let net = \<lparr>pton4 = (\<lambda>_. Some [127, 0, 0, 1]), pton6 = (\<lambda>_. None)\<rparr>
   in \<exists>p. core_trojan_request net 320 (replicate 28 1) ''127.0.0.1'' 80 = Inr p \<and>
          trojan_reader (p @ [1, 2]) = Some (replicate 28 1, Target4 [127, 0, 0, 1], 80, [1, 2])"
proof -
  let ?net = "\<lparr>pton4 = (\<lambda>_. Some [127, 0, 0, 1]), pton6 = (\<lambda>_. None)\<rparr>"
  have net: "inet_sizes ?net" by (simp add: inet_sizes_def)
  have t: "host_target ?net ''127.0.0.1'' = Target4 [127, 0, 0, 1]" by (simp add: host_target_def)
  have "core_trojan_request ?net 320 (replicate 28 1) ''127.0.0.1'' 80 = Inr (trojan_bytes (replicate 28 1) 80 (Target4 [127, 0, 0, 1]))"
    by (simp add: core_trojan_request_bytes net t trojan_host_ok_def trojan_bytes_def address_bytes_def)
  then show ?thesis
    using trojan_request_roundtrip [OF net, of "replicate 28 1" "''127.0.0.1''" 80 320 "[1, 2]"] t by (simp add: Let_def)
qed

end
