(* ===== verification/Deadline.thy ===== *)
theory Deadline
  imports Prelude
begin

text \<open>
  Deadlines of a thread, \<^verbatim>\<open>src/src/deadline.c\<close>: the deadline the thread has attached, pausing and
  resuming it, and scopes that put a temporary deadline over it.  The state is the thread's view: the
  pointer in its thread-specific slot and the deadline objects by address.  The clock is an argument of
  the operations that read it; whether the slot could be created, and whether it can be set, are answers
  of the thread library.
\<close>

section \<open>Operations\<close>

definition INT_MAX :: int where "INT_MAX = 2 ^ 31 - 1"

record deadline =
  until_ms :: nat
  paused_ms :: nat
  active :: bool

record deadlines =
  deadline_ready :: bool
  deadline_at :: "nat \<Rightarrow> deadline"
  deadline_key :: "nat option"

definition deadline_current :: "deadlines \<Rightarrow> nat option" where
  "deadline_current t = (if deadline_ready t then deadline_key t else None)"

definition put_deadline :: "deadlines \<Rightarrow> nat \<Rightarrow> deadline \<Rightarrow> deadlines" where
  "put_deadline t p d = t\<lparr>deadline_at := (deadline_at t)(p := d)\<rparr>"

definition core_deadline_attach :: "bool \<Rightarrow> deadlines \<Rightarrow> nat \<Rightarrow> bool \<times> deadlines" where
  "core_deadline_attach settable t p =
     (if \<not> deadline_ready t then (False, t)
      else let t1 = put_deadline t p \<lparr>until_ms = 0, paused_ms = 0, active = False\<rparr>
           in if settable then (True, t1\<lparr>deadline_key := Some p\<rparr>) else (False, t1))"

definition core_deadline_detach :: "deadlines \<Rightarrow> deadlines" where
  "core_deadline_detach t = (if deadline_ready t then t\<lparr>deadline_key := None\<rparr> else t)"

definition core_deadline_begin :: "nat \<Rightarrow> deadlines \<Rightarrow> int \<Rightarrow> deadlines" where
  "core_deadline_begin now t timeout_ms =
     (case deadline_current t of
        None \<Rightarrow> t
      | Some p \<Rightarrow> put_deadline t p \<lparr>until_ms = szadd now (nat (if timeout_ms > 0 then timeout_ms else 1)), paused_ms = 0, active = True\<rparr>)"

definition core_deadline_end :: "deadlines \<Rightarrow> deadlines" where
  "core_deadline_end t =
     (case deadline_current t of
        None \<Rightarrow> t
      | Some p \<Rightarrow> put_deadline t p ((deadline_at t p)\<lparr>active := False, paused_ms := 0\<rparr>))"

definition core_deadline_active :: "deadlines \<Rightarrow> bool" where
  "core_deadline_active t = (case deadline_current t of None \<Rightarrow> False | Some p \<Rightarrow> active (deadline_at t p))"

definition core_deadline_remaining :: "nat \<Rightarrow> deadlines \<Rightarrow> int" where
  "core_deadline_remaining now t =
     (case deadline_current t of
        None \<Rightarrow> INT_MAX
      | Some p \<Rightarrow>
          (let d = deadline_at t p
           in if \<not> active d then INT_MAX
              else if now \<ge> until_ms d then 0
              else let left = int (until_ms d - now) in if left > INT_MAX then INT_MAX else left))"

definition core_deadline_limit :: "nat \<Rightarrow> deadlines \<Rightarrow> int \<Rightarrow> int" where
  "core_deadline_limit now t timeout_ms =
     (if \<not> core_deadline_active t then timeout_ms
      else let left = core_deadline_remaining now t
           in if timeout_ms < 0 \<or> timeout_ms > left then left else timeout_ms)"

definition core_deadline_pause :: "nat \<Rightarrow> deadlines \<Rightarrow> deadlines" where
  "core_deadline_pause now t =
     (case deadline_current t of
        None \<Rightarrow> t
      | Some p \<Rightarrow>
          if active (deadline_at t p) then
            put_deadline t p ((deadline_at t p)\<lparr>paused_ms := szadd (nat (core_deadline_remaining now t)) 1, active := False\<rparr>)
          else t)"

definition core_deadline_resume :: "nat \<Rightarrow> deadlines \<Rightarrow> deadlines" where
  "core_deadline_resume now t =
     (case deadline_current t of
        None \<Rightarrow> t
      | Some p \<Rightarrow>
          (let d = deadline_at t p
           in if paused_ms d \<noteq> 0 then
                put_deadline t p \<lparr>until_ms = szsub (szadd now (paused_ms d)) 1, paused_ms = 0, active = True\<rparr>
              else t))"

text \<open>A scope: the address of its temporary deadline, and the pointer it found.\<close>

definition core_deadline_scope_begin :: "bool \<Rightarrow> nat \<Rightarrow> deadlines \<Rightarrow> nat \<Rightarrow> int \<Rightarrow> nat option option \<times> deadlines" where
  "core_deadline_scope_begin settable now t temporary timeout_ms =
     (let previous = deadline_current t
      in case core_deadline_attach settable t temporary of
           (False, t1) \<Rightarrow> (None, t1)
         | (True, t1) \<Rightarrow> (Some previous, core_deadline_begin now t1 timeout_ms))"

definition core_deadline_scope_end :: "deadlines \<Rightarrow> nat option \<Rightarrow> deadlines" where
  "core_deadline_scope_end t previous = (if deadline_ready t then t\<lparr>deadline_key := previous\<rparr> else t)"

section \<open>Properties\<close>

text \<open>
  The operations a thread runs inside a scope, on the deadline that is attached there, at the times
  given.
\<close>

datatype deadline_op = Begin nat int | End | Pause nat | Resume nat

fun deadline_run :: "deadline_op list \<Rightarrow> deadlines \<Rightarrow> deadlines" where
  "deadline_run [] t = t"
| "deadline_run (Begin now timeout # ops) t = deadline_run ops (core_deadline_begin now t timeout)"
| "deadline_run (End # ops) t = deadline_run ops (core_deadline_end t)"
| "deadline_run (Pause now # ops) t = deadline_run ops (core_deadline_pause now t)"
| "deadline_run (Resume now # ops) t = deadline_run ops (core_deadline_resume now t)"

lemma deadline_run_frame:
  "deadline_ready t \<Longrightarrow> deadline_key t = Some p \<Longrightarrow>
   deadline_ready (deadline_run ops t) \<and> deadline_key (deadline_run ops t) = Some p \<and>
   (\<forall>q. q \<noteq> p \<longrightarrow> deadline_at (deadline_run ops t) q = deadline_at t q)"
proof (induction ops t rule: deadline_run.induct)
qed (auto simp: deadline_current_def put_deadline_def core_deadline_begin_def core_deadline_end_def core_deadline_pause_def
      core_deadline_resume_def Let_def split: if_splits)

lemma remaining_nonneg: "0 \<le> core_deadline_remaining now t"
  by (auto simp: core_deadline_remaining_def INT_MAX_def Let_def split: option.splits)

text \<open>
  Only pausing and resuming, in the order of time and before the clock ends; and the clock of a scope:
  when its last event was, whether it runs, and the time it has run.
\<close>

fun pauses_from :: "nat \<Rightarrow> nat \<Rightarrow> deadline_op list \<Rightarrow> bool" where
  "pauses_from timeout t [] = True"
| "pauses_from timeout t (Pause now # ops) = (t \<le> now \<and> now + timeout < SIZE_MAX \<and> pauses_from timeout now ops)"
| "pauses_from timeout t (Resume now # ops) = (t \<le> now \<and> now + timeout < SIZE_MAX \<and> pauses_from timeout now ops)"
| "pauses_from timeout t (_ # ops) = False"

fun scope_clock :: "nat \<Rightarrow> bool \<Rightarrow> nat \<Rightarrow> deadline_op list \<Rightarrow> nat \<times> bool \<times> nat" where
  "scope_clock t runs used (Pause now # ops) = scope_clock now False (if runs then used + (now - t) else used) ops"
| "scope_clock t runs used (Resume now # ops) = scope_clock now True (if runs then used + (now - t) else used) ops"
| "scope_clock t runs used _ = (t, runs, used)"

text \<open>The attached deadline agrees with the clock: what is left of the timeout ends at \<^verbatim>\<open>until_ms\<close>, or is kept.\<close>

definition clock_ok :: "nat \<Rightarrow> nat \<Rightarrow> nat \<Rightarrow> bool \<Rightarrow> nat \<Rightarrow> deadlines \<Rightarrow> bool" where
  "clock_ok p timeout t runs used c \<longleftrightarrow> deadline_ready c \<and> deadline_key c = Some p \<and> active (deadline_at c p) = runs \<and>
     (if runs then paused_ms (deadline_at c p) = 0 \<and> max (until_ms (deadline_at c p)) t = t + (timeout - used)
      else paused_ms (deadline_at c p) = timeout - used + 1)"

lemma clock_ok_current: "clock_ok p timeout t runs used c \<Longrightarrow> deadline_current c = Some p"
  by (simp add: clock_ok_def deadline_current_def)

lemma clock_ok_active: "clock_ok p timeout t runs used c \<Longrightarrow> core_deadline_active c = runs"
  by (simp add: clock_ok_def core_deadline_active_def deadline_current_def)

lemma clock_ok_remaining:
  assumes "clock_ok p timeout t True used c" and "int timeout \<le> INT_MAX" and "t \<le> later"
  shows "core_deadline_remaining later c = int (timeout - (used + (later - t)))"
proof -
  have m: "max (until_ms (deadline_at c p)) t = t + (timeout - used)" and a: "active (deadline_at c p)"
    using assms(1) by (simp_all add: clock_ok_def)
  have "core_deadline_remaining later c = int (until_ms (deadline_at c p) - later)"
    using a m assms(2,3) clock_ok_current [OF assms(1)] by (simp add: core_deadline_remaining_def Let_def max_def split: if_splits)
  moreover have "until_ms (deadline_at c p) - later = timeout - (used + (later - t))"
    using m assms(3) by (simp add: max_def split: if_splits)
  ultimately show ?thesis by simp
qed

lemma clock_ok_pause:
  assumes "clock_ok p timeout t runs used c" and "int timeout \<le> INT_MAX" and "t \<le> now" and "now + timeout < SIZE_MAX"
  shows "clock_ok p timeout now False (if runs then used + (now - t) else used) (core_deadline_pause now c)"
proof (cases runs)
  case True
  then have rem: "core_deadline_remaining now c = int (timeout - (used + (now - t)))"
    using assms(1-3) clock_ok_remaining by simp
  have "szadd (timeout - (used + (now - t))) 1 = timeout - (used + (now - t)) + 1"
    using assms(4) by (intro szadd_exact) linarith
  then show ?thesis using True assms(1) clock_ok_current [OF assms(1)]
    by (simp add: clock_ok_def core_deadline_pause_def put_deadline_def rem)
next
  case False
  then show ?thesis using assms(1) clock_ok_current [OF assms(1)]
    by (simp add: clock_ok_def core_deadline_pause_def)
qed

lemma clock_ok_resume:
  assumes "clock_ok p timeout t runs used c" and "t \<le> now" and "now + timeout < SIZE_MAX"
  shows "clock_ok p timeout now True (if runs then used + (now - t) else used) (core_deadline_resume now c)"
proof (cases runs)
  case True
  then have "max (until_ms (deadline_at c p)) t = t + (timeout - used)" using assms(1) by (simp add: clock_ok_def)
  then have "max (until_ms (deadline_at c p)) now = now + (timeout - (used + (now - t)))"
    using assms(2) by linarith
  then show ?thesis using True assms(1) clock_ok_current [OF assms(1)]
    by (simp add: clock_ok_def core_deadline_resume_def Let_def)
next
  case False
  have "szadd now (timeout - used + 1) = now + (timeout - used) + 1"
    using assms(3) szadd_exact [of now "timeout - used + 1"] by linarith
  moreover have "szsub (now + (timeout - used) + 1) 1 = now + (timeout - used)"
    using assms(3) szsub_exact [of 1 "now + (timeout - used) + 1"] by linarith
  ultimately show ?thesis using False assms(1) clock_ok_current [OF assms(1)]
    by (simp add: clock_ok_def core_deadline_resume_def put_deadline_def Let_def)
qed

lemma clock_ok_run:
  "int timeout \<le> INT_MAX \<Longrightarrow> pauses_from timeout t ops \<Longrightarrow> clock_ok p timeout t runs used c \<Longrightarrow>
     scope_clock t runs used ops = (t', runs', used') \<Longrightarrow> clock_ok p timeout t' runs' used' (deadline_run ops c)"
proof (induction timeout t ops arbitrary: runs used c rule: pauses_from.induct)
  case (2 timeout t now ops)
  then show ?case using clock_ok_pause [of p timeout t runs used c now] by simp
next
  case (3 timeout t now ops)
  then show ?case using clock_ok_resume [of p timeout t runs used c now] by simp
qed simp_all

lemma deadline_limit_exact:
  "core_deadline_limit later t wait =
     (if \<not> core_deadline_active t then wait
      else if wait < 0 then core_deadline_remaining later t else min wait (core_deadline_remaining later t))"
  by (simp add: core_deadline_limit_def Let_def min_def)

text \<open>
  Property C36: a scope bounds what runs in it and leaves no trace.  While it is only paused and
  resumed inside, whatever is left of its timeout (at most \<^verbatim>\<open>INT_MAX\<close> milliseconds) is exactly the
  timeout less the time its clock has run, and never more is granted again.  At every point inside, after
  any operations, a wait is cut to what remains as long as the deadline is active, and an unlimited wait
  becomes just that; while it is not active the wait is granted as asked.  And whatever is done to
  the deadline inside, ending the scope restores the deadline that was attached before, unchanged.
\<close>

theorem deadline_scope:
  assumes "core_deadline_scope_begin settable now t temporary timeout = (Some previous, t1)"
    and "deadline_key t \<noteq> Some temporary" and "0 < timeout" and "timeout \<le> INT_MAX" and "now + nat timeout \<le> SIZE_MAX"
  shows "(\<forall>at runs used. pauses_from (nat timeout) now ops \<longrightarrow> scope_clock now True 0 ops = (at, runs, used) \<longrightarrow>
       core_deadline_active (deadline_run ops t1) = runs \<and>
       (\<forall>later. runs \<and> at \<le> later \<longrightarrow>
          core_deadline_remaining later (deadline_run ops t1) = max 0 (timeout - int (used + (later - at))))) \<and>
    (\<forall>later wait. 0 \<le> core_deadline_remaining later (deadline_run ops t1) \<and>
       core_deadline_limit later (deadline_run ops t1) wait =
        (if \<not> core_deadline_active (deadline_run ops t1) then wait
         else if wait < 0 then core_deadline_remaining later (deadline_run ops t1)
         else min wait (core_deadline_remaining later (deadline_run ops t1)))) \<and>
    deadline_key (core_deadline_scope_end (deadline_run ops t1) previous) = deadline_key t \<and>
    (\<forall>p. p \<noteq> temporary \<longrightarrow> deadline_at (core_deadline_scope_end (deadline_run ops t1) previous) p = deadline_at t p)"
proof (intro conjI allI impI)
  have r: "deadline_ready t" and prev: "previous = deadline_key t"
    and t1: "t1 = (t\<lparr>deadline_key := Some temporary,
       deadline_at := (deadline_at t)(temporary := \<lparr>until_ms = now + nat timeout, paused_ms = 0, active = True\<rparr>)\<rparr>)"
    using assms(1,3,5)
    by (auto simp: core_deadline_scope_begin_def core_deadline_attach_def core_deadline_begin_def put_deadline_def
        deadline_current_def szadd_exact Let_def split: if_splits)
  have "deadline_ready t1" "deadline_key t1 = Some temporary" using r by (simp_all add: t1)
  note frame = deadline_run_frame [OF this, of ops]
  show "deadline_key (core_deadline_scope_end (deadline_run ops t1) previous) = deadline_key t"
    using frame prev by (simp add: core_deadline_scope_end_def)
  show "deadline_at (core_deadline_scope_end (deadline_run ops t1) previous) p = deadline_at t p" if "p \<noteq> temporary" for p
    using frame that by (simp add: core_deadline_scope_end_def t1)
  have max: "int (nat timeout) \<le> INT_MAX" using assms(3,4) by simp
  have start: "clock_ok temporary (nat timeout) now True 0 t1" using r by (simp add: clock_ok_def t1)
  fix at runs used
  assume ops: "pauses_from (nat timeout) now ops" "scope_clock now True 0 ops = (at, runs, used)"
  note ok = clock_ok_run [OF max ops(1) start ops(2)]
  show "core_deadline_active (deadline_run ops t1) = runs" by (rule clock_ok_active [OF ok])
  fix later assume "runs \<and> at \<le> later"
  then show "core_deadline_remaining later (deadline_run ops t1) = max 0 (timeout - int (used + (later - at)))"
    using clock_ok_remaining [of temporary "nat timeout" at used _ later] ok max by auto
qed (rule remaining_nonneg, rule deadline_limit_exact)

theorem deadline_scope_witness:
  "let t = \<lparr>deadline_ready = True, deadline_at = (\<lambda>_. \<lparr>until_ms = 9, paused_ms = 0, active = True\<rparr>), deadline_key = Some 3\<rparr>;
       t1 = snd (core_deadline_scope_begin True 100 t 2 50); t2 = deadline_run [Pause 120, Resume 500] t1
   in core_deadline_remaining 510 t2 = 20 \<and> core_deadline_limit 510 t2 (- 1) = 20 \<and> core_deadline_limit 510 t2 7 = 7 \<and>
      deadline_key (core_deadline_scope_end t2 (Some 3)) = Some 3"
proof -
  define t where "t = \<lparr>deadline_ready = True, deadline_at = (\<lambda>_. \<lparr>until_ms = 9, paused_ms = 0, active = True\<rparr>), deadline_key = Some 3\<rparr>"
  define t1 where "t1 = snd (core_deadline_scope_begin True 100 t 2 50)"
  define t2 where "t2 = deadline_run [Pause 120, Resume 500] t1"
  have "core_deadline_scope_begin True 100 t 2 50 = (Some (Some 3), t1)" and key: "deadline_key t = Some 3"
    by (simp_all add: core_deadline_scope_begin_def core_deadline_attach_def deadline_current_def Let_def t_def t1_def)
  note scope = deadline_scope [OF this(1), of "[Pause 120, Resume 500]", folded t2_def, simplified key, simplified]
  have scope: "core_deadline_active t2 \<and> (\<forall>later. 500 \<le> later \<longrightarrow> core_deadline_remaining later t2 = max 0 (50 - int (20 + (later - 500))))"
    "\<forall>later wait. core_deadline_limit later t2 wait = (if \<not> core_deadline_active t2 then wait
         else if wait < 0 then core_deadline_remaining later t2 else min wait (core_deadline_remaining later t2))"
    "deadline_key (core_deadline_scope_end t2 (Some 3)) = Some 3"
    using scope by (auto simp add: INT_MAX_def SIZE_MAX_def)
  then have "core_deadline_remaining 510 t2 = 20" by simp
  then show ?thesis unfolding Let_def using scope unfolding t2_def t1_def t_def by simp
qed

text \<open>
  Pausing a deadline stops its clock.  While it is paused nothing is bounded, and when it is
  resumed, however much later, exactly the time that remained is granted again; an expired deadline stays
  expired.
\<close>

lemma deadline_pause_resume:
  assumes "deadline_current t = Some p" and "active (deadline_at t p)"
    and "now2 + nat (core_deadline_remaining now1 t) < SIZE_MAX"
  shows "\<not> core_deadline_active (core_deadline_pause now1 t) \<and>
    core_deadline_remaining now3 (core_deadline_pause now1 t) = INT_MAX \<and>
    core_deadline_remaining now2 (core_deadline_resume now2 (core_deadline_pause now1 t)) = core_deadline_remaining now1 t"
proof -
  define left where "left = nat (core_deadline_remaining now1 t)"
  have left: "int left = core_deadline_remaining now1 t" using remaining_nonneg by (simp add: left_def)
  have max: "core_deadline_remaining now1 t \<le> INT_MAX"
    by (auto simp: core_deadline_remaining_def INT_MAX_def Let_def split: option.splits)
  have r: "deadline_ready t" "deadline_key t = Some p" using assms(1) by (auto simp: deadline_current_def split: if_splits)
  have s: "szadd left 1 = left + 1" "szadd now2 (left + 1) = now2 + left + 1" "szsub (now2 + left + 1) 1 = now2 + left"
    using assms(3) by (simp_all add: szadd_exact szsub_exact left_def)
  have pause: "core_deadline_pause now1 t = put_deadline t p ((deadline_at t p)\<lparr>paused_ms := left + 1, active := False\<rparr>)"
    using assms(1,2) s(1) by (simp add: core_deadline_pause_def left_def)
  have resume: "core_deadline_resume now2 (core_deadline_pause now1 t) =
      put_deadline (core_deadline_pause now1 t) p \<lparr>until_ms = now2 + left, paused_ms = 0, active = True\<rparr>"
    unfolding pause using r s(2,3) by (simp add: core_deadline_resume_def deadline_current_def put_deadline_def Let_def)
  have "core_deadline_remaining now2 (core_deadline_resume now2 (core_deadline_pause now1 t)) = int left"
    unfolding resume using r left max
    by (simp add: pause core_deadline_remaining_def [of now2] deadline_current_def put_deadline_def Let_def)
  moreover have "\<not> core_deadline_active (core_deadline_pause now1 t)" "core_deadline_remaining now3 (core_deadline_pause now1 t) = INT_MAX"
    using r by (simp_all add: pause core_deadline_active_def core_deadline_remaining_def deadline_current_def put_deadline_def)
  ultimately show ?thesis using left by simp
qed

lemma deadline_pause_resume_witness:
  "let t = \<lparr>deadline_ready = True, deadline_at = (\<lambda>_. \<lparr>until_ms = 150, paused_ms = 0, active = True\<rparr>), deadline_key = Some 1\<rparr>
   in core_deadline_remaining 900 (core_deadline_resume 900 (core_deadline_pause 120 t)) = 30"
proof -
  let ?t = "\<lparr>deadline_ready = True, deadline_at = (\<lambda>_. \<lparr>until_ms = 150, paused_ms = 0, active = True\<rparr>), deadline_key = Some 1\<rparr>"
  have "core_deadline_remaining 120 ?t = 30" by (simp add: core_deadline_remaining_def deadline_current_def INT_MAX_def Let_def)
  then show ?thesis
    using deadline_pause_resume [of ?t 1 900 120 500] by (simp add: deadline_current_def SIZE_MAX_def)
qed

end
