(* ===== verification/Socks5.thy ===== *)
theory Socks5
  imports Requests Deadline
begin

text \<open>
  The SOCKS5 server side of the local proxy, \<^verbatim>\<open>src/src/socks5.c\<close>.  A socket is the script of what
  its peer does: the pieces that successive receives find (an empty piece, or the end of the list, is the
  end of the stream or an error), how many bytes successive sends accept (zero, or the end of the list, is
  a failure), and the bytes sent so far; that is what \<^verbatim>\<open>core_recv\<close> and \<^verbatim>\<open>core_send\<close> return.
  \<^verbatim>\<open>inet_ntop\<close> is a parameter.
\<close>

section \<open>Sockets\<close>

record sock =
  inbox :: "bytes list"
  accepts :: "nat list"
  sent :: bytes

definition core_recv :: "sock \<Rightarrow> nat \<Rightarrow> bytes option \<times> sock" where
  "core_recv k n =
     (case inbox k of
        [] \<Rightarrow> (None, k)
      | c # cs \<Rightarrow>
          if c = [] then (None, k\<lparr>inbox := cs\<rparr>)
          else if length c \<le> n then (Some c, k\<lparr>inbox := cs\<rparr>)
          else (Some (take n c), k\<lparr>inbox := drop n c # cs\<rparr>))"

definition core_send :: "sock \<Rightarrow> bytes \<Rightarrow> nat \<times> sock" where
  "core_send k data =
     (case accepts k of
        [] \<Rightarrow> (0, k)
      | a # as \<Rightarrow> (min a (length data), k\<lparr>accepts := as, sent := sent k @ take a data\<rparr>))"

function read_exact :: "sock \<Rightarrow> nat \<Rightarrow> bytes option \<times> sock" where
  "read_exact k len =
     (if len = 0 then (Some [], k)
      else case core_recv k len of
             (None, k1) \<Rightarrow> (None, k1)
           | (Some xs, k1) \<Rightarrow>
               (case read_exact k1 (len - length xs) of (r, k2) \<Rightarrow> (map_option (\<lambda>ys. xs @ ys) r, k2)))"
  by auto
termination
  by (relation "measure snd") (auto simp: core_recv_def split: list.splits if_splits)

function write_exact :: "sock \<Rightarrow> bytes \<Rightarrow> bool \<times> sock" where
  "write_exact k data =
     (if data = [] then (True, k)
      else case core_send k data of
             (n, k1) \<Rightarrow> if n = 0 then (False, k1) else write_exact k1 (drop n data))"
  by auto
termination
  by (relation "measure (\<lambda>(k, data). length data)") auto

declare read_exact.simps [simp del] write_exact.simps [simp del]

section \<open>Negotiation\<close>

datatype socks5_error = Negotiation_Failed | SOCKS5_NEGOTIATION_REJECTED | SOCKS5_COMMAND_UNSUPPORTED | SOCKS5_ADDRESS_UNSUPPORTED

definition SOCKS5_NEGOTIATION_TIMEOUT_MS :: int where "SOCKS5_NEGOTIATION_TIMEOUT_MS = 10000"

definition socks5_domain_valid :: "bytes \<Rightarrow> bool" where
  "socks5_domain_valid domain \<longleftrightarrow> domain \<noteq> [] \<and> length domain \<le> 255 \<and> list_all (\<lambda>b. \<not> (unat b \<le> 0x20 \<or> unat b = 0x7F)) domain"

definition socks5_error_reply :: "errno \<Rightarrow> byte" where
  "socks5_error_reply e =
     (if e = EACCES \<or> e = EPERM then 2
      else if e = ENETUNREACH \<or> e = ENETDOWN then 3
      else if e = EHOSTUNREACH \<or> e = EHOSTDOWN then 4
      else if e = ECONNREFUSED then 5
      else if e = EAFNOSUPPORT then 8
      else 1)"

definition socks5_request_reply :: "socks5_error \<Rightarrow> byte" where
  "socks5_request_reply r = (if r = SOCKS5_COMMAND_UNSUPPORTED then 7 else if r = SOCKS5_ADDRESS_UNSUPPORTED then 8 else 1)"

definition socks5_reply :: "byte \<Rightarrow> bytes" where
  "socks5_reply rep = [0x05, rep, 0x00, 0x01, 0, 0, 0, 0, 0, 0]"

definition socks5_send_success :: "sock \<Rightarrow> bool \<times> sock" where
  "socks5_send_success k = write_exact k (socks5_reply 0)"

text \<open>\<open>settable\<close>, \<open>now\<close> and \<open>temporary\<close> are the arguments of the scope's begin.\<close>

definition socks5_send_failure :: "bool \<Rightarrow> nat \<Rightarrow> deadlines \<Rightarrow> nat \<Rightarrow> sock \<Rightarrow> byte \<Rightarrow> bool \<times> deadlines \<times> sock" where
  "socks5_send_failure settable now t temporary k rep =
     (case core_deadline_scope_begin settable now t temporary 100 of
        (None, t1) \<Rightarrow> (False, t1, k)
      | (Some previous, t1) \<Rightarrow>
          (case write_exact k (socks5_reply rep) of (ok, k1) \<Rightarrow> (ok, core_deadline_scope_end t1 previous, k1)))"

text \<open>The text forms of addresses.\<close>

record ntop =
  ntop4 :: "bytes \<Rightarrow> string"
  ntop6 :: "bytes \<Rightarrow> string"

definition ntop_fits :: "nat \<Rightarrow> string \<Rightarrow> string option" where
  "ntop_fits host_cap s = (if length s + 1 > host_cap then None else Some s)"

text \<open>The address of a request of type \<open>atyp\<close>.\<close>

definition read_address :: "ntop \<Rightarrow> nat \<Rightarrow> byte \<Rightarrow> sock \<Rightarrow> (socks5_error + string) \<times> sock" where
  "read_address net host_cap atyp k =
     (if atyp = 0x01 then
        (case read_exact k 4 of
           (None, k1) \<Rightarrow> (Inl Negotiation_Failed, k1)
         | (Some ip4, k1) \<Rightarrow>
             ((case ntop_fits host_cap (ntop4 net ip4) of None \<Rightarrow> Inl Negotiation_Failed | Some h \<Rightarrow> Inr h), k1))
      else if atyp = 0x03 then
        (case read_exact k 1 of
           (None, k1) \<Rightarrow> (Inl Negotiation_Failed, k1)
         | (Some d, k1) \<Rightarrow>
             (let dlen = unat (hd d)
              in if dlen = 0 \<or> dlen + 1 > host_cap then (Inl Negotiation_Failed, k1)
                 else case read_exact k1 dlen of
                        (None, k2) \<Rightarrow> (Inl Negotiation_Failed, k2)
                      | (Some host, k2) \<Rightarrow>
                          if \<not> socks5_domain_valid host then (Inl Negotiation_Failed, k2) else (Inr (bytes_text host), k2)))
      else if atyp = 0x04 then
        (case read_exact k 16 of
           (None, k1) \<Rightarrow> (Inl Negotiation_Failed, k1)
         | (Some ip6, k1) \<Rightarrow>
             ((case ntop_fits host_cap (ntop6 net ip6) of None \<Rightarrow> Inl Negotiation_Failed | Some h \<Rightarrow> Inr h), k1))
      else (Inl SOCKS5_ADDRESS_UNSUPPORTED, k))"

text \<open>The request, after the methods are agreed.\<close>

definition read_request :: "ntop \<Rightarrow> nat \<Rightarrow> sock \<Rightarrow> (socks5_error + string \<times> nat) \<times> sock" where
  "read_request net host_cap k =
     (case read_exact k 4 of
        (None, k1) \<Rightarrow> (Inl Negotiation_Failed, k1)
      | (Some req, k1) \<Rightarrow>
          if req ! 0 \<noteq> 0x05 \<or> req ! 2 \<noteq> 0x00 then (Inl Negotiation_Failed, k1)
          else if req ! 1 \<noteq> 0x01 then (Inl SOCKS5_COMMAND_UNSUPPORTED, k1)
          else case read_address net host_cap (req ! 3) k1 of
                 (Inl e, k2) \<Rightarrow> (Inl e, k2)
               | (Inr host, k2) \<Rightarrow>
                   (case read_exact k2 2 of
                      (None, k3) \<Rightarrow> (Inl Negotiation_Failed, k3)
                    | (Some p, k3) \<Rightarrow>
                        (let port = word16 (p ! 0) (p ! 1)
                         in if port \<noteq> 0 then (Inr (host, port), k3) else (Inl Negotiation_Failed, k3))))"

definition negotiate_target :: "ntop \<Rightarrow> nat \<Rightarrow> sock \<Rightarrow> (socks5_error + string \<times> nat) \<times> sock" where
  "negotiate_target net host_cap k =
     (if host_cap = 0 then (Inl Negotiation_Failed, k)
      else case read_exact k 2 of
             (None, k1) \<Rightarrow> (Inl Negotiation_Failed, k1)
           | (Some hello, k1) \<Rightarrow>
               if hello ! 0 \<noteq> 0x05 then (Inl Negotiation_Failed, k1)
               else if hello ! 1 = 0 then (Inl Negotiation_Failed, k1)
               else case read_exact k1 (unat (hello ! 1)) of
                      (None, k2) \<Rightarrow> (Inl Negotiation_Failed, k2)
                    | (Some methods, k2) \<Rightarrow>
                        (let no_auth = (0 \<in> set methods)
                         in case write_exact k2 [0x05, if no_auth then 0x00 else 0xFF] of
                              (False, k3) \<Rightarrow> (Inl Negotiation_Failed, k3)
                            | (True, k3) \<Rightarrow>
                                if \<not> no_auth then (Inl SOCKS5_NEGOTIATION_REJECTED, k3)
                                else read_request net host_cap k3))"

text \<open>The clock is read before the scope, when it begins, and when the target is known.\<close>

definition socks5_negotiate_and_get_target ::
  "bool \<Rightarrow> nat \<Rightarrow> nat \<Rightarrow> nat \<Rightarrow> deadlines \<Rightarrow> nat \<Rightarrow> ntop \<Rightarrow> nat \<Rightarrow> sock \<Rightarrow>
   (socks5_error + string \<times> nat) \<times> deadlines \<times> sock" where
  "socks5_negotiate_and_get_target settable now0 now1 now2 t temporary net host_cap k =
     (let remaining = core_deadline_limit now0 t SOCKS5_NEGOTIATION_TIMEOUT_MS
      in if remaining = 0 then (Inl Negotiation_Failed, t, k)
         else case core_deadline_scope_begin settable now1 t temporary remaining of
                (None, t1) \<Rightarrow> (Inl Negotiation_Failed, t1, k)
              | (Some previous, t1) \<Rightarrow>
                  (case negotiate_target net host_cap k of
                     (r, k1) \<Rightarrow>
                       ((case r of
                           Inr target \<Rightarrow> if core_deadline_remaining now2 t1 = 0 then Inl Negotiation_Failed else Inr target
                         | Inl e \<Rightarrow> Inl e),
                        core_deadline_scope_end t1 previous, k1)))"

section \<open>Reading is independent of how the stream is cut\<close>

definition sock_open :: "sock \<Rightarrow> bool" where
  "sock_open k \<longleftrightarrow> [] \<notin> set (inbox k)"

definition pending :: "sock \<Rightarrow> bytes" where
  "pending k = concat (inbox k)"

lemma core_recv_open:
  assumes "sock_open k" and "0 < n"
  shows "pending k = [] \<and> core_recv k n = (None, k) \<or>
    (\<exists>xs k1. core_recv k n = (Some xs, k1) \<and> xs \<noteq> [] \<and> length xs \<le> n \<and> pending k = xs @ pending k1 \<and>
       sock_open k1 \<and> accepts k1 = accepts k \<and> sent k1 = sent k)"
proof (cases "inbox k")
  case (Cons c cs)
  then have "c \<noteq> []" "[] \<notin> set cs" using assms(1) by (auto simp: sock_open_def)
  then show ?thesis using Cons assms(2)
    by (cases "length c \<le> n") (auto simp: core_recv_def pending_def sock_open_def)
qed (simp add: core_recv_def pending_def)

lemma read_exact_open:
  "sock_open k \<Longrightarrow>
   (if n \<le> length (pending k)
    then \<exists>k1. read_exact k n = (Some (take n (pending k)), k1) \<and> pending k1 = drop n (pending k) \<and>
           sock_open k1 \<and> accepts k1 = accepts k \<and> sent k1 = sent k
    else \<exists>k1. read_exact k n = (None, k1) \<and> sent k1 = sent k)"
proof (induction k n rule: read_exact.induct)
  case (1 k n)
  show ?case
  proof (cases "n = 0")
    case True
    then show ?thesis using 1(2) by (simp add: read_exact.simps)
  next
    case False
    then consider "pending k = []" "core_recv k n = (None, k)"
      | xs k1 where "core_recv k n = (Some xs, k1)" "xs \<noteq> []" "length xs \<le> n" "pending k = xs @ pending k1"
          "sock_open k1" "accepts k1 = accepts k" "sent k1 = sent k"
      using core_recv_open [OF 1(2), of n] by blast
    then show ?thesis
    proof cases
      case 1
      then show ?thesis using False by (simp add: read_exact.simps)
    next
      case (2 xs k1)
      note ih = 1(1) [OF False 2(1) [symmetric] refl 2(5)]
      have step: "read_exact k n = (case read_exact k1 (n - length xs) of (r, k2) \<Rightarrow> (map_option ((@) xs) r, k2))"
        using False 2(1) by (subst read_exact.simps) simp
      show ?thesis
        using ih 2 unfolding step by (auto split: if_splits)
    qed
  qed
qed

lemma read_exactE:
  assumes "sock_open k" and "pending k = xs @ r" and "length xs = n"
  obtains k1 where "read_exact k n = (Some xs, k1)" "pending k1 = r" "sock_open k1" "accepts k1 = accepts k" "sent k1 = sent k"
  using read_exact_open [OF assms(1), of n] assms(2,3) by auto

lemma write_exact_accepted:
  assumes "0 \<notin> set (accepts k)" and "length data \<le> length (accepts k)"
  shows "\<exists>k1. write_exact k data = (True, k1) \<and> sent k1 = sent k @ data \<and> inbox k1 = inbox k \<and>
    0 \<notin> set (accepts k1) \<and> length (accepts k) \<le> length data + length (accepts k1)"
  using assms
proof (induction k data rule: write_exact.induct)
  case (1 k data)
  show ?case
  proof (cases "data = []")
    case False
    then obtain a as where a: "accepts k = a # as" using 1(3) by (cases "accepts k") auto
    then have "0 < a" "0 \<notin> set as" using 1(2) by auto
    define k1 where "k1 = k\<lparr>accepts := as, sent := sent k @ take a data\<rparr>"
    have s: "core_send k data = (min a (length data), k1)" using a by (simp add: core_send_def k1_def)
    have nz: "min a (length data) \<noteq> 0" using \<open>0 < a\<close> False by simp
    have "length (drop (min a (length data)) data) \<le> length (accepts k1)"
      using a 1(3) \<open>0 < a\<close> False by (auto simp: k1_def min_def)
    then obtain k2 where "write_exact k1 (drop (min a (length data)) data) = (True, k2)"
      "sent k2 = sent k1 @ drop (min a (length data)) data" "inbox k2 = inbox k1"
      "0 \<notin> set (accepts k2)" "length (accepts k1) \<le> length (drop (min a (length data)) data) + length (accepts k2)"
      using 1(1) [OF False s [symmetric] nz] \<open>0 \<notin> set as\<close> by (auto simp: k1_def)
    moreover obtain n where "length data = Suc n" using False by (cases data) auto
    ultimately show ?thesis
      using False s nz a by (subst write_exact.simps) (simp add: k1_def min_def split: if_splits)
  qed (use 1(2) in \<open>simp add: write_exact.simps\<close>)
qed

section \<open>What a client gets\<close>

definition ntop_sizes :: "ntop \<Rightarrow> bool" where
  "ntop_sizes net \<longleftrightarrow> (\<forall>a. length (ntop4 net a) < 16 \<and> length (ntop6 net a) < 46)"

definition socks5_target_ok :: "target \<Rightarrow> bool" where
  "socks5_target_ok t =
     (case t of Target4 a \<Rightarrow> length a = 4 | Target6 a \<Rightarrow> length a = 16 | Target_Domain d \<Rightarrow> socks5_domain_valid (text_bytes d))"

definition target_text :: "ntop \<Rightarrow> target \<Rightarrow> string" where
  "target_text net t = (case t of Target4 a \<Rightarrow> ntop4 net a | Target6 a \<Rightarrow> ntop6 net a | Target_Domain d \<Rightarrow> d)"

lemma read_address_target:
  assumes "ntop_sizes net" and "socks5_target_ok t" and "sock_open k"
    and "atyp # pending k = address_bytes 1 3 4 t @ r" and "256 \<le> cap"
  obtains k1 where "read_address net cap atyp k = (Inr (target_text net t), k1)" "pending k1 = r" "sock_open k1" "sent k1 = sent k"
proof (cases t)
  case (Target4 a)
  then have p: "pending k = a @ r" "length a = 4" "atyp = 1" using assms by (auto simp: address_bytes_def socks5_target_ok_def)
  obtain k1 where k1: "read_exact k 4 = (Some a, k1)" "pending k1 = r" "sock_open k1" "sent k1 = sent k" using read_exactE [OF assms(3) p(1,2)] by blast
  have "length (ntop4 net a) < 16" using assms(1) by (simp add: ntop_sizes_def)
  then show ?thesis using that [of k1] k1 p(3) Target4 assms(5) by (simp add: read_address_def ntop_fits_def target_text_def)
next
  case (Target6 a)
  then have p: "pending k = a @ r" "length a = 16" "atyp = 4" using assms by (auto simp: address_bytes_def socks5_target_ok_def)
  obtain k1 where k1: "read_exact k 16 = (Some a, k1)" "pending k1 = r" "sock_open k1" "sent k1 = sent k" using read_exactE [OF assms(3) p(1,2)] by blast
  have "length (ntop6 net a) < 46" using assms(1) by (simp add: ntop_sizes_def)
  then show ?thesis using that [of k1] k1 p(3) Target6 assms(5) by (simp add: read_address_def ntop_fits_def target_text_def)
next
  case (Target_Domain d)
  then have v: "socks5_domain_valid (text_bytes d)" and p: "pending k = [of_nat (length d)] @ text_bytes d @ r" "atyp = 3"
    using assms by (auto simp: address_bytes_def socks5_target_ok_def)
  have n: "0 < length d" "length d < 256" using v by (auto simp: socks5_domain_valid_def text_bytes_def)
  obtain k1 where k1: "read_exact k 1 = (Some [of_nat (length d)], k1)" "pending k1 = text_bytes d @ r" "sock_open k1" "sent k1 = sent k"
    using read_exactE [OF assms(3) p(1), of 1] by auto
  obtain k2 where k2: "read_exact k1 (length d) = (Some (text_bytes d), k2)" "pending k2 = r" "sock_open k2" "sent k2 = sent k1"
    using read_exactE [OF k1(3,2), of "length d"] by auto
  show ?thesis using that [of k2] k1 k2 v n p(2) unat_small [OF n(2)] Target_Domain assms(5)
    by (simp add: read_address_def Let_def target_text_def)
qed

lemma read_exact_sent: "read_exact k n = (r, k1) \<Longrightarrow> sent k1 = sent k"
proof (induction k n arbitrary: r k1 rule: read_exact.induct)
  case (1 k n)
  obtain x k0 where c: "core_recv k n = (x, k0)" by (metis surj_pair)
  then have s0: "sent k0 = sent k" by (auto simp: core_recv_def split: list.splits if_splits)
  show ?case
  proof (cases "n = 0 \<or> x = None")
    case True
    then show ?thesis using 1(2) c s0 by (subst (asm) read_exact.simps) (auto split: if_splits)
  next
    case False
    then obtain xs where x: "x = Some xs" by auto
    obtain r1 k2 where k2: "read_exact k0 (n - length xs) = (r1, k2)" by (metis surj_pair)
    have "sent k2 = sent k0" using 1(1) [OF _ c [symmetric] x k2] False by simp
    moreover have "k1 = k2" using 1(2) False c x k2 by (subst (asm) read_exact.simps) simp
    ultimately show ?thesis using s0 by simp
  qed
qed

lemma read_address_sent: "read_address net cap atyp k = (r, k1) \<Longrightarrow> sent k1 = sent k"
  by (auto simp: read_address_def Let_def split: if_splits prod.splits option.splits dest!: read_exact_sent)

lemma read_request_sent: "read_request net cap k = (r, k1) \<Longrightarrow> sent k1 = sent k"
  by (auto simp: read_request_def Let_def split: if_splits prod.splits option.splits sum.splits dest!: read_exact_sent read_address_sent)

lemma read_request_target:
  assumes "ntop_sizes net" and "sock_open k" and "socks5_target_ok t" and "0 < port" "port < 65536" and "256 \<le> cap"
    and p: "pending k = [5, 1, 0] @ address_bytes 1 3 4 t @ be16 port @ rest"
  shows "\<exists>k'. read_request net cap k = (Inr (target_text net t, port), k') \<and> pending k' = rest"
proof -
  obtain atyp body where a: "address_bytes 1 3 4 t = atyp # body" by (cases t) (simp_all add: address_bytes_def)
  obtain k1 where k1: "read_exact k 4 = (Some [5, 1, 0, atyp], k1)" "pending k1 = body @ be16 port @ rest" "sock_open k1"
    using read_exactE [OF assms(2), of "[5, 1, 0, atyp]" "body @ be16 port @ rest" 4] p a by auto
  obtain k2 where k2: "read_address net cap atyp k1 = (Inr (target_text net t), k2)" "pending k2 = be16 port @ rest" "sock_open k2"
    using read_address_target [OF assms(1,3) k1(3), of atyp "be16 port @ rest" cap] k1(2) a assms(6) by auto
  obtain k3 where k3: "read_exact k2 2 = (Some (be16 port), k3)" "pending k3 = rest"
    using read_exactE [OF k2(3,2), of 2] by auto
  have "word16 (be16 port ! 0) (be16 port ! 1) = port" using word16_be16 [OF assms(5)] by (simp add: be16_def)
  then show ?thesis using k1 k2 k3 assms(4) by (simp add: read_request_def Let_def)
qed

lemma read_request_refused:
  assumes "sock_open k"
  shows "pending k = 5 # cmd # 0 # atyp # rest \<Longrightarrow> cmd \<noteq> 1 \<Longrightarrow> fst (read_request net cap k) = Inl SOCKS5_COMMAND_UNSUPPORTED"
    and "pending k = 5 # 1 # 0 # atyp # rest \<Longrightarrow> atyp \<notin> {1, 3, 4} \<Longrightarrow> fst (read_request net cap k) = Inl SOCKS5_ADDRESS_UNSUPPORTED"
proof -
  have rd: "\<exists>k1. read_exact k 4 = (Some [5, c, 0, atyp], k1)" if "pending k = 5 # c # 0 # atyp # rest" for c
    using read_exactE [OF assms, of "[5, c, 0, atyp]" rest 4] that by auto
  show "fst (read_request net cap k) = Inl SOCKS5_COMMAND_UNSUPPORTED" if "pending k = 5 # cmd # 0 # atyp # rest" "cmd \<noteq> 1"
    using rd [OF that(1)] that(2) by (auto simp: read_request_def)
  show "fst (read_request net cap k) = Inl SOCKS5_ADDRESS_UNSUPPORTED" if "pending k = 5 # 1 # 0 # atyp # rest" "atyp \<notin> {1, 3, 4}"
    using rd [OF that(1)] that(2) by (auto simp: read_request_def read_address_def)
qed

lemma negotiate_step:
  assumes "sock_open k" and "0 \<notin> set (accepts k)" and "2 \<le> length (accepts k)"
    and "pending k = [5, of_nat (length methods)] @ methods @ request" and "0 < length methods" and "length methods < 256" and "256 \<le> cap"
  obtains k3 where "negotiate_target net cap k = (if 0 \<in> set methods then read_request net cap k3 else (Inl SOCKS5_NEGOTIATION_REJECTED, k3))"
    "sock_open k3" "pending k3 = request" "sent k3 = sent k @ [5, if 0 \<in> set methods then 0 else 0xFF]"
proof -
  obtain k1 where k1: "read_exact k 2 = (Some [5, of_nat (length methods)], k1)" "pending k1 = methods @ request" "sock_open k1"
    "accepts k1 = accepts k" "sent k1 = sent k"
    using read_exactE [OF assms(1,4), of 2] by auto
  obtain k2 where k2: "read_exact k1 (length methods) = (Some methods, k2)" "pending k2 = request" "sock_open k2"
    "accepts k2 = accepts k" "sent k2 = sent k"
    using read_exactE [OF k1(3,2), of "length methods"] k1 by auto
  obtain k3 where k3: "write_exact k2 [5, if 0 \<in> set methods then 0 else 0xFF] = (True, k3)"
    "sent k3 = sent k @ [5, if 0 \<in> set methods then 0 else 0xFF]" "inbox k3 = inbox k2"
    using write_exact_accepted [of k2 "[5, if 0 \<in> set methods then 0 else 0xFF]"] assms(2,3) k2 by auto
  have n: "unat (of_nat (length methods) :: byte) = length methods" using unat_small [OF assms(6)] .
  have nz: "(of_nat (length methods) :: byte) \<noteq> 0" using n assms(5) by (metis length_greater_0_conv length_0_conv unsigned_0)
  have "negotiate_target net cap k =
      (if 0 \<in> set methods then read_request net cap k3 else (Inl SOCKS5_NEGOTIATION_REJECTED, k3))"
    using k1(1) k2(1) k3(1) n nz assms(7) by (simp add: negotiate_target_def Let_def)
  then show thesis using that k3(2,3) k2(2,3) by (simp add: sock_open_def pending_def)
qed

lemma negotiate_connect:
  assumes "ntop_sizes net" and "sock_open k" and "0 \<notin> set (accepts k)" and "2 \<le> length (accepts k)"
    and "pending k = [5, of_nat (length methods)] @ methods @ [5, 1, 0] @ address_bytes 1 3 4 t @ be16 port @ rest"
    and "0 \<in> set methods" and "length methods < 256" and "256 \<le> cap" and "socks5_target_ok t" and "0 < port" and "port < 65536"
  shows "\<exists>k'. negotiate_target net cap k = (Inr (target_text net t, port), k') \<and> pending k' = rest"
proof -
  have "0 < length methods" using assms(6) by auto
  then obtain k3 where "negotiate_target net cap k = read_request net cap k3" "sock_open k3"
    "pending k3 = [5, 1, 0] @ address_bytes 1 3 4 t @ be16 port @ rest"
    using negotiate_step [OF assms(2-5) _ assms(7,8), of net] assms(6) by auto
  then show ?thesis using read_request_target [OF assms(1) _ assms(9-11,8)] by simp
qed

text \<open>
  Property C15: however the bytes of a client arrive, the methods it offers are answered with the method
  without authentication when it offers it and refused otherwise, and nothing else is sent; a well-formed
  connect request then yields its target and port, with the bytes after it left unread, another command
  and another address type give their own errors.
\<close>

theorem socks5_outcome:
  assumes "ntop_sizes net" and "sock_open k" and "0 \<notin> set (accepts k)" and "2 \<le> length (accepts k)"
    and "pending k = [5, of_nat (length methods)] @ methods @ request" and "0 < length methods" and "length methods < 256"
    and "256 \<le> cap" and "negotiate_target net cap k = (r, k')"
  shows "if 0 \<in> set methods then sent k' = sent k @ [5, 0] \<and>
      (\<forall>t port rest. request = [5, 1, 0] @ address_bytes 1 3 4 t @ be16 port @ rest \<and> socks5_target_ok t \<and> 0 < port \<and> port < 65536 \<longrightarrow>
         r = Inr (target_text net t, port) \<and> pending k' = rest) \<and>
      (\<forall>cmd atyp rest. request = 5 # cmd # 0 # atyp # rest \<and> cmd \<noteq> 1 \<longrightarrow> r = Inl SOCKS5_COMMAND_UNSUPPORTED) \<and>
      (\<forall>atyp rest. request = 5 # 1 # 0 # atyp # rest \<and> atyp \<notin> {1, 3, 4} \<longrightarrow> r = Inl SOCKS5_ADDRESS_UNSUPPORTED)
    else r = Inl SOCKS5_NEGOTIATION_REJECTED \<and> sent k' = sent k @ [5, 0xFF]"
proof -
  obtain k3 where step: "negotiate_target net cap k = (if 0 \<in> set methods then read_request net cap k3 else (Inl SOCKS5_NEGOTIATION_REJECTED, k3))"
    and o3: "sock_open k3" "pending k3 = request" and k3: "sent k3 = sent k @ [5, if 0 \<in> set methods then 0 else 0xFF]"
    using negotiate_step [OF assms(2-8)] by blast
  show ?thesis
  proof (cases "0 \<in> set methods")
    case True
    then have rr: "read_request net cap k3 = (r, k')" using step assms(9) by simp
    have "sent k' = sent k @ [5, 0]" using read_request_sent [OF rr] k3 True by simp
    moreover have "r = Inr (target_text net t, port) \<and> pending k' = rest"
      if "request = [5, 1, 0] @ address_bytes 1 3 4 t @ be16 port @ rest" "socks5_target_ok t" "0 < port" "port < 65536" for t port rest
      using read_request_target [OF assms(1) o3(1) that(2,3,4) assms(8), of rest] o3(2) that(1) rr by auto
    moreover have "r = Inl SOCKS5_COMMAND_UNSUPPORTED" if "request = 5 # cmd # 0 # atyp # rest" "cmd \<noteq> 1" for cmd atyp rest
      using read_request_refused(1) [OF o3(1), unfolded o3(2), OF that, of net cap] rr by simp
    moreover have "r = Inl SOCKS5_ADDRESS_UNSUPPORTED" if "request = 5 # 1 # 0 # atyp # rest" "atyp \<notin> {1, 3, 4}" for atyp rest
      using read_request_refused(2) [OF o3(1), unfolded o3(2), OF that, of net cap] rr by simp
    ultimately show ?thesis using True by auto
  next
    case False
    then show ?thesis using step assms(9) k3 by auto
  qed
qed

theorem socks5_outcome_witness:
  "let net = \<lparr>ntop4 = (\<lambda>_. ''1.2.3.4''), ntop6 = (\<lambda>_. [])\<rparr>;
       k = \<lparr>inbox = [[5], [1, 0, 5], [1, 0, 1, 1, 2], [3, 4, 0, 80, 7]], accepts = [1, 9], sent = []\<rparr>
   in fst (negotiate_target net 256 k) = Inr (''1.2.3.4'', 80) \<and> sent (snd (negotiate_target net 256 k)) = [5, 0]"
proof -
  let ?net = "\<lparr>ntop4 = (\<lambda>_. ''1.2.3.4''), ntop6 = (\<lambda>_. [])\<rparr>"
  let ?k = "\<lparr>inbox = [[5], [1, 0, 5], [1, 0, 1, 1, 2], [3, 4, 0, 80, 7]], accepts = [1, 9], sent = []\<rparr>"
  have net: "ntop_sizes ?net" by (simp add: ntop_sizes_def)
  have k: "sock_open ?k" "pending ?k = [5, of_nat (length [0])] @ [0] @ ([5, 1, 0] @ address_bytes 1 3 4 (Target4 [1, 2, 3, 4]) @ be16 80 @ [7])"
    by (simp_all add: sock_open_def pending_def address_bytes_def be16_def)
  obtain r k' where n: "negotiate_target ?net 256 ?k = (r, k')" by (metis surj_pair)
  from socks5_outcome [OF net k(1) _ _ k(2) _ _ _ n]
  have "sent k' = [5, 0] \<and> r = Inr (target_text ?net (Target4 [1, 2, 3, 4]), 80)"
    by (auto simp: socks5_target_ok_def)
  then show ?thesis using n by (simp add: Let_def target_text_def)
qed

end
