(* ===== verification/Hpack.thy ===== *)
theory Hpack
  imports Requests
begin

text \<open>
  Header compression of HTTP/2, \<^verbatim>\<open>src/src/hpack.c\<close>, with the media type of gRPC from
  \<^verbatim>\<open>src/src/grpc.c\<close> that it checks: prefix integers, the Huffman code, the static and the dynamic
  table, and the decoding of a header block into the facts the client needs of a response.  A position in
  a block is the list of the bytes that are left; the integers are natural numbers, which the guards of
  the code keep below \<^verbatim>\<open>2^32\<close>.  \<open>got k n\<close> is the answer to the \<open>k\<close>-th request for
  memory.  The theorems: integers and Huffman strings read back what a conforming peer writes, and the
  dynamic table keeps its size exact and within its limits for every block, so its array never overflows.
\<close>

section \<open>Integers\<close>

definition UINT32_MAX :: nat where "UINT32_MAX = 2 ^ 32 - 1"

fun hpack_int_loop :: "nat \<Rightarrow> nat \<Rightarrow> bytes \<Rightarrow> (nat \<times> bytes) option" where
  "hpack_int_loop v m [] = None"
| "hpack_int_loop v m (b # r) =
     (if m > 28 then None
      else let d = unat b mod 128
           in if d > (UINT32_MAX - v) div 2 ^ m then None
              else let v1 = v + d * 2 ^ m
                   in if unat b < 128 then Some (v1, r) else hpack_int_loop v1 (m + 7) r)"

definition core_hpack_decode_int :: "nat \<Rightarrow> bytes \<Rightarrow> (nat \<times> bytes) option" where
  "core_hpack_decode_int pbits buf =
     (case buf of
        [] \<Rightarrow> None
      | b # r \<Rightarrow>
          if pbits = 0 \<or> pbits > 8 then None
          else let v = unat b mod 2 ^ pbits
               in if v \<noteq> 2 ^ pbits - 1 then Some (v, r) else hpack_int_loop v 0 r)"

section \<open>Strings\<close>

definition huffman_counts :: "nat list" where
  "huffman_counts =
    [0, 0, 0, 0, 0, 10, 26, 32, 6, 0, 5, 3, 2, 6, 2, 3, 0, 0, 0, 3, 8, 13, 26, 29, 12, 4, 15, 19, 29, 0, 4]"

definition huffman_symbols :: "nat list" where
  "huffman_symbols =
   [48, 49, 50, 97, 99, 101, 105, 111, 115, 116, 32, 37, 45, 46, 47, 51, 52, 53, 54, 55, 56, 57, 61,
    65, 95, 98, 100, 102, 103, 104, 108, 109, 110, 112, 114, 117, 58, 66, 67, 68, 69, 70, 71, 72,
    73, 74, 75, 76, 77, 78, 79, 80, 81, 82, 83, 84, 85, 86, 87, 89, 106, 107, 113, 118, 119, 120,
    121, 122, 38, 42, 44, 59, 88, 90, 33, 34, 40, 41, 63, 39, 43, 124, 35, 62, 0, 36, 64, 91, 93,
    126, 94, 125, 60, 96, 123, 92, 195, 208, 128, 130, 131, 162, 184, 194, 224, 226, 153, 161, 167,
    172, 176, 177, 179, 209, 216, 217, 227, 229, 230, 129, 132, 133, 134, 136, 146, 154, 156, 160,
    163, 164, 169, 170, 173, 178, 181, 185, 186, 187, 189, 190, 196, 198, 228, 232, 233, 1, 135,
    137, 138, 139, 140, 141, 143, 147, 149, 150, 151, 152, 155, 157, 158, 165, 166, 168, 174, 175,
    180, 182, 183, 188, 191, 197, 231, 239, 9, 142, 144, 145, 148, 159, 171, 206, 215, 225, 236,
    237, 199, 207, 234, 235, 192, 193, 200, 201, 202, 205, 210, 213, 218, 219, 238, 240, 242, 243,
    255, 203, 204, 211, 212, 214, 221, 222, 223, 241, 244, 245, 246, 247, 248, 250, 251, 252, 253,
    254, 2, 3, 4, 5, 6, 7, 8, 11, 12, 14, 15, 16, 17, 18, 19, 20, 21, 23, 24, 25, 26, 27, 28, 29,
    30, 31, 127, 220, 249, 10, 13, 22, 256]"

text \<open>The bits of a byte from the highest, and the state of the decoder between bits.\<close>

definition byte_bits :: "byte \<Rightarrow> nat list" where
  "byte_bits b = map (\<lambda>i. unat b div 2 ^ i mod 2) [7, 6, 5, 4, 3, 2, 1, 0]"

record huffman =
  hf_code :: nat
  hf_first :: nat
  hf_base :: nat
  hf_bits :: nat

definition huffman_start :: huffman where
  "huffman_start = \<lparr>hf_code = 0, hf_first = 0, hf_base = 0, hf_bits = 0\<rparr>"

text \<open>One bit: failure, the next state, or a symbol.\<close>

definition huffman_step :: "huffman \<Rightarrow> nat \<Rightarrow> (nat option \<times> huffman) option" where
  "huffman_step h x =
     (let code = hf_code h * 2 + x; bits = hf_bits h + 1
      in if code \<ge> hf_first h \<and> code - hf_first h < huffman_counts ! bits then
           (let symbol = huffman_symbols ! (hf_base h + code - hf_first h)
            in if symbol = 256 then None else Some (Some symbol, huffman_start))
         else if bits = 30 then None
         else Some (None, \<lparr>hf_code = code, hf_first = (hf_first h + huffman_counts ! bits) * 2,
                           hf_base = hf_base h + huffman_counts ! bits, hf_bits = bits\<rparr>))"

fun huffman_run :: "huffman \<Rightarrow> nat list \<Rightarrow> (bytes \<times> huffman) option" where
  "huffman_run h [] = Some ([], h)"
| "huffman_run h (x # xs) =
     (case huffman_step h x of
        None \<Rightarrow> None
      | Some (None, h1) \<Rightarrow> huffman_run h1 xs
      | Some (Some s, h1) \<Rightarrow> map_option (\<lambda>(out, h2). (of_nat s # out, h2)) (huffman_run h1 xs))"

text \<open>What is stored in an output of \<open>out_cap\<close> bytes, and the whole length.\<close>

definition stored :: "nat \<Rightarrow> bytes \<Rightarrow> bytes \<times> nat" where
  "stored out_cap text = (take (out_cap - 1) text, length text)"

definition core_hpack_decode_huffman :: "bytes \<Rightarrow> nat \<Rightarrow> (bytes \<times> nat) option" where
  "core_hpack_decode_huffman buf out_cap =
     (case huffman_run huffman_start (concat (map byte_bits buf)) of
        None \<Rightarrow> None
      | Some (text, h) \<Rightarrow>
          if hf_bits h > 7 \<or> hf_code h \<noteq> 2 ^ hf_bits h - 1 then None else Some (stored out_cap text))"

text \<open>\<open>SIZE_MAX\<close> when the length does not fit; the width of a symbol is the first with that symbol.\<close>

fun huffman_width :: "nat list \<Rightarrow> nat list \<Rightarrow> nat \<Rightarrow> nat \<Rightarrow> nat" where
  "huffman_width [] syms width s = 0"
| "huffman_width (c # cs) syms width s =
     (if s \<in> set (take c syms) then width else huffman_width cs (drop c syms) (width + 1) s)"

fun huffman_bits_loop :: "bytes \<Rightarrow> nat \<Rightarrow> nat" where
  "huffman_bits_loop [] count = count"
| "huffman_bits_loop (b # r) count =
     (let bits = huffman_width (drop 1 huffman_counts) huffman_symbols 1 (unat b)
      in if bits = 0 \<or> count > SIZE_MAX - bits then SIZE_MAX else huffman_bits_loop r (count + bits))"

definition core_hpack_huffman_bits :: "bytes \<Rightarrow> nat" where
  "core_hpack_huffman_bits data = huffman_bits_loop data 0"

definition core_hpack_read_string :: "bytes \<Rightarrow> nat \<Rightarrow> ((bytes \<times> nat) \<times> bytes) option" where
  "core_hpack_read_string buf out_cap =
     (case buf of
        [] \<Rightarrow> None
      | b # _ \<Rightarrow>
          (case core_hpack_decode_int 7 buf of
             None \<Rightarrow> None
           | Some (slen, r) \<Rightarrow>
               if slen > length r then None
               else if unat b \<ge> 128 then
                 map_option (\<lambda>res. (res, drop slen r)) (core_hpack_decode_huffman (take slen r) out_cap)
               else Some (stored out_cap (take slen r), drop slen r)))"

section \<open>The tables\<close>

definition CORE_HPACK_TABLE_LIMIT :: nat where "CORE_HPACK_TABLE_LIMIT = 4096"
definition CORE_HPACK_HEADER_LIMIT :: nat where "CORE_HPACK_HEADER_LIMIT = 65536"

definition static_table :: "(string \<times> string) list" where
  "static_table =
   [('':authority'', ''''), ('':method'', ''GET''), ('':method'', ''POST''), ('':path'', ''/''),
    ('':path'', ''/index.html''), ('':scheme'', ''http''), ('':scheme'', ''https''), ('':status'', ''200''),
    ('':status'', ''204''), ('':status'', ''206''), ('':status'', ''304''), ('':status'', ''400''),
    ('':status'', ''404''), ('':status'', ''500''), (''accept-charset'', ''''),
    (''accept-encoding'', ''gzip, deflate''), (''accept-language'', ''''), (''accept-ranges'', ''''),
    (''accept'', ''''), (''access-control-allow-origin'', ''''), (''age'', ''''), (''allow'', ''''),
    (''authorization'', ''''), (''cache-control'', ''''), (''content-disposition'', ''''),
    (''content-encoding'', ''''), (''content-language'', ''''), (''content-length'', ''''),
    (''content-location'', ''''), (''content-range'', ''''), (''content-type'', ''''), (''cookie'', ''''),
    (''date'', ''''), (''etag'', ''''), (''expect'', ''''), (''expires'', ''''), (''from'', ''''),
    (''host'', ''''), (''if-match'', ''''), (''if-modified-since'', ''''), (''if-none-match'', ''''),
    (''if-range'', ''''), (''if-unmodified-since'', ''''), (''last-modified'', ''''), (''link'', ''''),
    (''location'', ''''), (''max-forwards'', ''''), (''proxy-authenticate'', ''''),
    (''proxy-authorization'', ''''), (''range'', ''''), (''referer'', ''''), (''refresh'', ''''),
    (''retry-after'', ''''), (''server'', ''''), (''set-cookie'', ''''), (''strict-transport-security'', ''''),
    (''transfer-encoding'', ''''), (''user-agent'', ''''), (''vary'', ''''), (''via'', ''''),
    (''www-authenticate'', '''')]"

record hpack_entry =
  e_name :: bytes
  e_value :: bytes
  e_size :: nat

record hpack =
  entries :: "hpack_entry list"
  h_size :: nat
  h_maximum :: nat
  h_initialized :: bool
  h_requests :: nat

definition core_hpack_init :: "hpack \<Rightarrow> hpack" where
  "core_hpack_init h = h\<lparr>entries := [], h_size := 0, h_maximum := CORE_HPACK_TABLE_LIMIT, h_initialized := True\<rparr>"

definition core_hpack_clear :: "hpack \<Rightarrow> hpack" where
  "core_hpack_clear h = h\<lparr>entries := [], h_size := 0, h_maximum := 0, h_initialized := False\<rparr>"

definition hpack_alloc :: "(nat \<Rightarrow> nat \<Rightarrow> bool) \<Rightarrow> hpack \<Rightarrow> nat \<Rightarrow> bool \<times> hpack" where
  "hpack_alloc got h n = (got (h_requests h) n, h\<lparr>h_requests := h_requests h + 1\<rparr>)"

function evict_to :: "hpack \<Rightarrow> nat \<Rightarrow> hpack" where
  "evict_to h n =
     (if entries h \<noteq> [] \<and> h_size h > n then
        evict_to (h\<lparr>entries := butlast (entries h), h_size := szsub (h_size h) (e_size (last (entries h)))\<rparr>) n
      else h)"
  by auto
termination
  by (relation "measure (\<lambda>(h, n). length (entries h))") auto

declare evict_to.simps [simp del]

definition lookup :: "hpack \<Rightarrow> nat \<Rightarrow> (bytes \<times> bytes) option" where
  "lookup h index =
     (if index = 0 then None
      else if index \<le> length static_table then
        (case static_table ! (index - 1) of (n, v) \<Rightarrow> Some (text_bytes n, text_bytes v))
      else let i = index - (length static_table + 1)
           in if i \<ge> length (entries h) then None
              else Some (e_name (entries h ! i), e_value (entries h ! i)))"

definition hpack_insert :: "(nat \<Rightarrow> nat \<Rightarrow> bool) \<Rightarrow> hpack \<Rightarrow> bytes \<Rightarrow> bytes \<Rightarrow> bool \<times> hpack" where
  "hpack_insert got h name val =
     (let s = length name + length val + 32
      in if s > h_maximum h then (True, evict_to h 0)
         else case hpack_alloc got h (length name + 1) of
                (ok1, h1) \<Rightarrow>
                  (case hpack_alloc got h1 (length val + 1) of
                     (ok2, h2) \<Rightarrow>
                       if \<not> ok1 \<or> \<not> ok2 then (False, h2)
                       else let h3 = evict_to h2 (h_maximum h2 - s)
                            in if length (entries h3) \<ge> 128 then (False, h3)
                               else (True, h3\<lparr>entries := \<lparr>e_name = name, e_value = val, e_size = s\<rparr> # entries h3,
                                              h_size := szadd (h_size h3) s\<rparr>)))"

definition read_allocated_string :: "(nat \<Rightarrow> nat \<Rightarrow> bool) \<Rightarrow> hpack \<Rightarrow> bytes \<Rightarrow> (bytes \<times> bytes) option \<times> hpack" where
  "read_allocated_string got h block =
     (case core_hpack_read_string block 0 of
        None \<Rightarrow> (None, h)
      | Some ((_, decoded), r) \<Rightarrow>
          if decoded > CORE_HPACK_HEADER_LIMIT then (None, h)
          else case hpack_alloc got h (decoded + 1) of
                 (ok, h1) \<Rightarrow>
                   if \<not> ok then (None, h1)
                   else (case core_hpack_read_string block (decoded + 1) of
                           None \<Rightarrow> (None, h1)
                         | Some ((text, actual), _) \<Rightarrow>
                             if actual \<noteq> decoded then (None, h1) else (Some (text, r), h1)))"

section \<open>The media type of gRPC\<close>

definition to_lower_byte :: "byte \<Rightarrow> byte" where
  "to_lower_byte b = (if 65 \<le> unat b \<and> unat b \<le> 90 then b + 32 else b)"

definition same_text :: "bytes \<Rightarrow> string \<Rightarrow> bool" where
  "same_text xs s \<longleftrightarrow> map to_lower_byte xs = text_bytes (map tolower s)"

definition media_token :: "byte \<Rightarrow> bool" where
  "media_token b \<longleftrightarrow> isalnum (char_of (unat b)) \<or> char_of (unat b) \<in> set ''!#$%&'*+-.^_`|~''"

abbreviation blank :: "byte \<Rightarrow> bool" where
  "blank b \<equiv> b = 32 \<or> b = 9"

text \<open>The inside of a quoted string: what follows the closing quote.\<close>

fun quoted_rest :: "bytes \<Rightarrow> bytes option" where
  "quoted_rest [] = None"
| "quoted_rest (b # r) =
     (if b = 34 then Some r
      else if b = 92 then
        (case r of
           [] \<Rightarrow> None
         | c # r1 \<Rightarrow> if unat c < 0x20 \<and> c \<noteq> 9 \<or> unat c = 0x7F then None else quoted_rest r1)
      else if unat b < 0x20 \<and> b \<noteq> 9 \<or> unat b = 0x7F then None
      else quoted_rest r)"

lemma quoted_rest_shorter: "quoted_rest xs = Some r \<Longrightarrow> length r < length xs"
proof (induction xs arbitrary: r rule: quoted_rest.induct)
  case (2 b s)
  then show ?case by (cases s) (fastforce split: if_splits)+
qed simp

text \<open>One parameter \<^verbatim>\<open>; name=value\<close>: what follows it.\<close>

definition media_parameter :: "bytes \<Rightarrow> bytes option" where
  "media_parameter xs =
     (case dropWhile blank xs of
        [] \<Rightarrow> None
      | c # r \<Rightarrow>
          if c \<noteq> 59 then None
          else let r1 = dropWhile blank r
               in if takeWhile media_token r1 = [] then None
                  else (case dropWhile media_token r1 of
                          [] \<Rightarrow> None
                        | e # r2 \<Rightarrow>
                            if e \<noteq> 61 then None
                            else if r2 \<noteq> [] \<and> hd r2 = 34 then quoted_rest (tl r2)
                            else if takeWhile media_token r2 = [] then None
                            else Some (dropWhile media_token r2)))"

lemma media_parameter_shorter: "media_parameter xs = Some r \<Longrightarrow> length r < length xs"
proof -
  assume p: "media_parameter xs = Some r"
  obtain c s where c: "dropWhile blank xs = c # s" using p by (auto simp: media_parameter_def split: list.splits)
  obtain e t where e: "dropWhile media_token (dropWhile blank s) = e # t"
    using p c by (auto simp: media_parameter_def Let_def split: list.splits if_splits)
  have "length r \<le> length t"
    using p c e quoted_rest_shorter [of "tl t" r] length_dropWhile_le [of media_token t]
    by (cases t) (auto simp: media_parameter_def Let_def split: if_splits)
  moreover have "length (dropWhile media_token (dropWhile blank s)) \<le> length s"
    using length_dropWhile_le [of media_token "dropWhile blank s"] length_dropWhile_le [of blank s] by linarith
  moreover have "length (dropWhile blank xs) \<le> length xs" by (rule length_dropWhile_le)
  ultimately show ?thesis using c e by simp
qed

function media_parameters :: "bytes \<Rightarrow> bool" where
  "media_parameters xs =
     (if xs = [] then True
      else case media_parameter xs of None \<Rightarrow> False | Some r \<Rightarrow> media_parameters r)"
  by auto
termination
  by (relation "measure length") (auto simp: media_parameter_shorter)

declare media_parameters.simps [simp del]

definition core_grpc_content_type :: "bytes \<Rightarrow> bool" where
  "core_grpc_content_type val =
     (if length val < 16 \<or> \<not> same_text (take 16 val) ''application/grpc'' then False
      else let r = drop 16 val
           in if r \<noteq> [] \<and> hd r = 43 then
                takeWhile media_token (tl r) \<noteq> [] \<and> media_parameters (dropWhile media_token (tl r))
              else media_parameters r)"

section \<open>Headers\<close>

record hpack_headers =
  status :: nat
  grpc_status :: int
  has_grpc_status :: bool
  decoded_size :: nat
  regular_seen :: bool
  other_pseudo :: "nat set"
  status_seen :: nat
  has_content_length :: bool
  has_te :: bool
  content_type_seen :: nat
  grpc_content_type :: bool
  content_length :: nat

definition no_headers :: hpack_headers where
  "no_headers = \<lparr>status = 0, grpc_status = 0, has_grpc_status = False, decoded_size = 0, regular_seen = False,
     other_pseudo = {}, status_seen = 0, has_content_length = False, has_te = False, content_type_seen = 0,
     grpc_content_type = False, content_length = 0\<rparr>"

definition field_is :: "bytes \<Rightarrow> string \<Rightarrow> bool" where
  "field_is field expected \<longleftrightarrow> field = text_bytes expected"

definition header_name_byte :: "byte \<Rightarrow> bool" where
  "header_name_byte b \<longleftrightarrow> (let c = char_of (unat b) in
     97 \<le> unat b \<and> unat b \<le> 122 \<or> isdigit c \<or> c \<in> set ''!#$%&'*+-.^_`|~'')"

text \<open>The bit of a pseudo header; bit 31 stands for the others.\<close>

definition pseudo_flag :: "bytes \<Rightarrow> nat option" where
  "pseudo_flag name =
     (if field_is name '':method'' then Some 0 else if field_is name '':scheme'' then Some 1
      else if field_is name '':authority'' then Some 2 else if field_is name '':path'' then Some 3
      else if field_is name '':protocol'' then Some 4 else None)"

definition digit_byte :: "byte \<Rightarrow> bool" where
  "digit_byte b \<longleftrightarrow> 48 \<le> unat b \<and> unat b \<le> 57"

fun length_digits :: "nat \<Rightarrow> bytes \<Rightarrow> nat \<times> bool" where
  "length_digits parsed [] = (parsed, True)"
| "length_digits parsed (b # r) =
     (if \<not> digit_byte b \<or> parsed > (SIZE_MAX - (unat b - 48)) div 10 then (parsed, False)
      else length_digits (parsed * 10 + (unat b - 48)) r)"

fun status_digits :: "nat \<Rightarrow> bytes \<Rightarrow> nat \<times> bool" where
  "status_digits st [] = (st, True)"
| "status_digits st (b # r) =
     (if \<not> digit_byte b then (st, False)
      else status_digits (if st \<le> 16 then st * 10 + (unat b - 48) else st) r)"

text \<open>The parts of \<^verbatim>\<open>emit_header\<close>: each returns whether the field is invalid.\<close>

definition emit_size :: "hpack_headers \<Rightarrow> bytes \<Rightarrow> bytes \<Rightarrow> bool \<times> hpack_headers" where
  "emit_size h name val =
     (let s = length name + length val + 32
      in if decoded_size h > CORE_HPACK_HEADER_LIMIT \<or> s > CORE_HPACK_HEADER_LIMIT - decoded_size h
         then (True, h\<lparr>decoded_size := CORE_HPACK_HEADER_LIMIT + 1\<rparr>)
         else (False, h\<lparr>decoded_size := decoded_size h + s\<rparr>))"

definition name_invalid :: "bytes \<Rightarrow> bool" where
  "name_invalid name \<longleftrightarrow> name = [] \<or> \<not> list_all header_name_byte (if hd name = 58 then tl name else name)"

definition emit_pseudo :: "hpack_headers \<Rightarrow> bytes \<Rightarrow> bool \<times> hpack_headers" where
  "emit_pseudo h name =
     (if name \<noteq> [] \<and> hd name = 58 then
        (let bad = (regular_seen h \<or> length name = 1)
         in if field_is name '':status'' then (bad, h)
            else (case pseudo_flag name of
                    None \<Rightarrow> (True, h\<lparr>other_pseudo := insert 31 (other_pseudo h)\<rparr>)
                  | Some f \<Rightarrow> (bad \<or> f \<in> other_pseudo h, h\<lparr>other_pseudo := insert f (other_pseudo h)\<rparr>)))
      else (False, h\<lparr>regular_seen := True\<rparr>))"

definition value_invalid :: "bytes \<Rightarrow> bool" where
  "value_invalid val \<longleftrightarrow> (\<exists>b\<in>set val. unat b < 0x20 \<and> b \<noteq> 9 \<or> unat b = 0x7F) \<or>
     val \<noteq> [] \<and> (blank (hd val) \<or> blank (last val))"

definition name_forbidden :: "bytes \<Rightarrow> bool" where
  "name_forbidden name \<longleftrightarrow> (\<exists>f\<in>set [''connection'', ''proxy-connection'', ''keep-alive'', ''transfer-encoding'', ''upgrade'']. field_is name f)"

definition emit_status :: "hpack_headers \<Rightarrow> bytes \<Rightarrow> bool \<times> hpack_headers" where
  "emit_status h val =
     (let h1 = h\<lparr>status_seen := status_seen h + 1\<rparr>
      in if status_seen h \<noteq> 0 \<or> length val \<noteq> 3 \<or> unat (val ! 0) < 49 \<or> unat (val ! 0) > 53 \<or>
            \<not> digit_byte (val ! 1) \<or> \<not> digit_byte (val ! 2) then (True, h1)
         else (False, h1\<lparr>status := (unat (val ! 0) - 48) * 100 + (unat (val ! 1) - 48) * 10 + (unat (val ! 2) - 48)\<rparr>))"

definition emit_length :: "hpack_headers \<Rightarrow> bytes \<Rightarrow> bool \<times> hpack_headers" where
  "emit_length h val =
     (case length_digits 0 val of
        (parsed, ok) \<Rightarrow>
          (\<not> (val \<noteq> [] \<and> ok) \<or> has_content_length h \<and> content_length h \<noteq> parsed,
           h\<lparr>has_content_length := True, content_length := parsed\<rparr>))"

definition emit_grpc_status :: "hpack_headers \<Rightarrow> bytes \<Rightarrow> bool \<times> hpack_headers" where
  "emit_grpc_status h val =
     (case status_digits 0 val of
        (st, digits) \<Rightarrow>
          (let valid = (val \<noteq> [] \<and> (length val = 1 \<or> hd val \<noteq> 48) \<and> digits)
           in (has_grpc_status h \<or> val = [] \<or> \<not> valid,
               h\<lparr>has_grpc_status := True, grpc_status := (if valid then if st > 16 then 2 else int st else -1)\<rparr>)))"

definition emit_header :: "hpack_headers \<Rightarrow> bytes \<Rightarrow> bytes \<Rightarrow> bool \<times> hpack_headers" where
  "emit_header h name val =
     (case emit_size h name val of (i1, h1) \<Rightarrow>
      case emit_pseudo h1 name of (i2, h2) \<Rightarrow>
      case (if field_is name ''te'' then (\<not> field_is val ''trailers'', h2\<lparr>has_te := True\<rparr>) else (False, h2)) of (i3, h3) \<Rightarrow>
      case (if field_is name ''content-type''
            then h3\<lparr>content_type_seen := content_type_seen h3 + 1, grpc_content_type := core_grpc_content_type val\<rparr> else h3) of h4 \<Rightarrow>
      case (if field_is name '':status'' then emit_status h4 val else (False, h4)) of (i5, h5) \<Rightarrow>
      case (if field_is name ''content-length'' then emit_length h5 val else (False, h5)) of (i6, h6) \<Rightarrow>
      case (if field_is name ''grpc-status'' then emit_grpc_status h6 val else (False, h6)) of (i7, h7) \<Rightarrow>
        (i1 \<or> name_invalid name \<or> i2 \<or> value_invalid val \<or> name_forbidden name \<or> i3 \<or> i5 \<or> i6 \<or> i7, h7))"

section \<open>Blocks\<close>

datatype hpack_result = Hpack_Ok | Hpack_Invalid | Hpack_Error

text \<open>
  The steps of a block: a change of the table size, an indexed field, and a literal, whose name is
  indexed or read.
\<close>

definition size_update :: "hpack \<Rightarrow> bytes \<Rightarrow> (hpack \<times> bytes) option" where
  "size_update h block =
     (case core_hpack_decode_int 5 block of
        None \<Rightarrow> None
      | Some (index, r) \<Rightarrow>
          if index > CORE_HPACK_TABLE_LIMIT then None else Some (evict_to (h\<lparr>h_maximum := index\<rparr>) index, r))"

definition indexed_field :: "hpack \<Rightarrow> bytes \<Rightarrow> ((bytes \<times> bytes) \<times> bytes) option" where
  "indexed_field h block =
     (case core_hpack_decode_int 7 block of
        None \<Rightarrow> None
      | Some (index, r) \<Rightarrow> map_option (\<lambda>f. (f, r)) (lookup h index))"

definition literal_name :: "(nat \<Rightarrow> nat \<Rightarrow> bool) \<Rightarrow> hpack \<Rightarrow> bool \<Rightarrow> bytes \<Rightarrow> (bytes \<times> bytes) option \<times> hpack" where
  "literal_name got h indexing block =
     (case core_hpack_decode_int (if indexing then 6 else 4) block of
        None \<Rightarrow> (None, h)
      | Some (index, r) \<Rightarrow>
          if index \<noteq> 0 then (map_option (\<lambda>(n, _). (n, r)) (lookup h index), h)
          else read_allocated_string got h r)"

definition literal_field ::
  "(nat \<Rightarrow> nat \<Rightarrow> bool) \<Rightarrow> hpack \<Rightarrow> bool \<Rightarrow> bytes \<Rightarrow> ((bytes \<times> bytes) \<times> bytes) option \<times> hpack" where
  "literal_field got h indexing block =
     (case literal_name got h indexing block of
        (None, h1) \<Rightarrow> (None, h1)
      | (Some (name, r), h1) \<Rightarrow>
          (case read_allocated_string got h1 r of
             (None, h2) \<Rightarrow> (None, h2)
           | (Some (val, r2), h2) \<Rightarrow> (Some ((name, val), r2), h2)))"

lemma hpack_int_loop_shorter: "hpack_int_loop v m xs = Some (n, r) \<Longrightarrow> length r < length xs"
  by (induction v m xs rule: hpack_int_loop.induct) (fastforce simp: Let_def split: if_splits)+

lemma decode_int_shorter: "core_hpack_decode_int p xs = Some (n, r) \<Longrightarrow> length r < length xs"
  by (auto simp: core_hpack_decode_int_def Let_def split: list.splits if_splits dest: hpack_int_loop_shorter)

lemma read_string_shorter: "core_hpack_read_string xs c = Some (t, r) \<Longrightarrow> length r < length xs"
  by (auto simp: core_hpack_read_string_def split: list.splits option.splits if_splits dest!: decode_int_shorter)

lemma read_allocated_shorter: "read_allocated_string got h xs = (Some (t, r), h1) \<Longrightarrow> length r < length xs"
  by (auto simp: read_allocated_string_def split: option.splits prod.splits if_splits dest!: read_string_shorter)

lemma literal_field_shorter: "literal_field got h ix xs = (Some (f, r), h1) \<Longrightarrow> length r < length xs"
  by (auto simp: literal_field_def literal_name_def split: option.splits prod.splits if_splits
      dest!: read_allocated_shorter decode_int_shorter)

function hpack_loop ::
  "(nat \<Rightarrow> nat \<Rightarrow> bool) \<Rightarrow> hpack \<Rightarrow> hpack_headers \<Rightarrow> bool \<Rightarrow> bool \<Rightarrow> bytes \<Rightarrow> hpack_result \<times> hpack \<times> hpack_headers" where
  "hpack_loop got h hs saw bad0 [] = ((if bad0 then Hpack_Invalid else Hpack_Ok), h, hs)"
| "hpack_loop got h hs saw bad0 (b # r) =
     (if unat b div 32 = 1 then
        (if saw then (Hpack_Error, h, hs)
         else case size_update h (b # r) of
                None \<Rightarrow> (Hpack_Error, h, hs)
              | Some (h1, r1) \<Rightarrow> hpack_loop got h1 hs saw bad0 r1)
      else if unat b \<ge> 128 then
        (case indexed_field h (b # r) of
           None \<Rightarrow> (Hpack_Error, h, hs)
         | Some ((name, val), r1) \<Rightarrow>
             (case emit_header hs name val of (bad, hs1) \<Rightarrow> hpack_loop got h hs1 True (bad0 \<or> bad) r1))
      else
        let indexing = (unat b div 64 = 1)
        in case literal_field got h indexing (b # r) of
             (None, h1) \<Rightarrow> (Hpack_Error, h1, hs)
           | (Some ((name, val), r1), h1) \<Rightarrow>
               (case emit_header hs name val of (bad, hs1) \<Rightarrow>
                case (if indexing then hpack_insert got h1 name val else (True, h1)) of (ok, h2) \<Rightarrow>
                  if \<not> ok then (Hpack_Error, h2, hs1) else hpack_loop got h2 hs1 True (bad0 \<or> bad) r1))"
  by pat_completeness auto
termination
  by (relation "measure (\<lambda>(got, h, hs, saw, bad0, xs). length xs)")
    (auto simp: size_update_def indexed_field_def split: option.splits if_splits
      dest!: decode_int_shorter literal_field_shorter [OF sym])

definition core_hpack_decode :: "(nat \<Rightarrow> nat \<Rightarrow> bool) \<Rightarrow> hpack \<Rightarrow> bytes \<Rightarrow> hpack_result \<times> hpack \<times> hpack_headers" where
  "core_hpack_decode got h block =
     hpack_loop got (if h_initialized h then h else core_hpack_init h) no_headers False False block"

definition core_hpack_status :: "(nat \<Rightarrow> nat \<Rightarrow> bool) \<Rightarrow> bytes \<Rightarrow> int" where
  "core_hpack_status got block =
     (case core_hpack_decode got \<lparr>entries = [], h_size = 0, h_maximum = 0, h_initialized = False, h_requests = 0\<rparr> block of
        (r, _, hs) \<Rightarrow> if r = Hpack_Ok then int (status hs) else -1)"

section \<open>Integers read back\<close>

text \<open>The encoding of RFC 7541, section 5.1: \<open>high\<close> are the bits above the prefix.\<close>

fun hpack_int_tail :: "nat \<Rightarrow> bytes" where
  "hpack_int_tail n = (if n < 128 then [of_nat n] else of_nat (n mod 128 + 128) # hpack_int_tail (n div 128))"

declare hpack_int_tail.simps [simp del]

definition hpack_int_text :: "nat \<Rightarrow> nat \<Rightarrow> nat \<Rightarrow> bytes" where
  "hpack_int_text pbits high n =
     (if n < 2 ^ pbits - 1 then [of_nat (high * 2 ^ pbits + n)]
      else of_nat (high * 2 ^ pbits + (2 ^ pbits - 1)) # hpack_int_tail (n - (2 ^ pbits - 1)))"

lemma hpack_int_loop_tail:
  assumes "v + n * 2 ^ (7 * j) \<le> UINT32_MAX" and "j \<le> 4"
  shows "hpack_int_loop v (7 * j) (hpack_int_tail n @ r) = Some (v + n * 2 ^ (7 * j), r)"
  using assms
proof (induction n arbitrary: v j rule: hpack_int_tail.induct)
  case (1 n)
  have m: "\<not> 7 * j > 28" using 1(3) by simp
  show ?case
  proof (cases "n < 128")
    case True
    then have "n * 2 ^ (7 * j) \<le> UINT32_MAX - v" using 1(2) by linarith
    then have "n \<le> (UINT32_MAX - v) div 2 ^ (7 * j)" by (simp add: less_eq_div_iff_mult_less_eq)
    then show ?thesis using True m unat_small [of n] by (subst hpack_int_tail.simps) (simp add: Let_def)
  next
    case False
    define q d where "q = n div 128" and "d = n mod 128"
    have n: "n = q * 128 + d" "d < 128" by (simp_all add: q_def d_def)
    have split: "v + n * 2 ^ (7 * j) = v + d * 2 ^ (7 * j) + q * 2 ^ (7 * (j + 1))"
      by (simp add: n(1) power_add algebra_simps)
    have "d * 2 ^ (7 * j) \<le> UINT32_MAX - v" using 1(2) split by linarith
    then have fits: "d \<le> (UINT32_MAX - v) div 2 ^ (7 * j)" by (simp add: less_eq_div_iff_mult_less_eq)
    have j: "j + 1 \<le> 4"
    proof (rule ccontr)
      assume "\<not> j + 1 \<le> 4"
      then have "j = 4" using 1(3) by simp
      moreover have "128 * 2 ^ (7 * j) \<le> n * 2 ^ (7 * j)" using False by simp
      ultimately show False using 1(2) by (simp add: UINT32_MAX_def)
    qed
    have ih: "hpack_int_loop (v + d * 2 ^ (7 * j)) (7 * (j + 1)) (hpack_int_tail q @ r) = Some (v + n * 2 ^ (7 * j), r)"
      using 1(1) [OF False, folded q_def, of "v + d * 2 ^ (7 * j)" "j + 1"] 1(2) split j by simp
    have b: "unat (of_nat (d + 128) :: byte) = d + 128" using n(2) by (intro unat_small) simp
    have "hpack_int_tail n = of_nat (d + 128) # hpack_int_tail q" using False by (subst hpack_int_tail.simps) (simp add: d_def q_def)
    then show ?thesis
      using m fits ih b n(2) by (simp add: Let_def algebra_simps del: of_nat_add)
  qed
qed

text \<open>
  Property C31: every 32-bit number that a peer writes as a prefix integer, with any prefix of one to eight
  bits and any flag bits above it, is read back as that number, and the bytes after it are left.
\<close>

theorem hpack_int_roundtrip:
  assumes "1 \<le> pbits" and "pbits \<le> 8" and "high < 2 ^ (8 - pbits)" and "n \<le> UINT32_MAX"
  shows "core_hpack_decode_int pbits (hpack_int_text pbits high n @ r) = Some (n, r)"
proof -
  have p: "(2 :: nat) ^ pbits > 0" by simp
  have "high + 1 \<le> 2 ^ (8 - pbits)" using assms(3) by simp
  then have "(high + 1) * 2 ^ pbits \<le> 2 ^ (8 - pbits) * 2 ^ pbits" by (rule mult_le_mono1)
  also have "\<dots> = (256 :: nat)" using assms(2) by (simp flip: power_add)
  finally have "high * 2 ^ pbits + 2 ^ pbits \<le> 256" by simp
  then have b: "unat (of_nat (high * 2 ^ pbits + k) :: byte) = high * 2 ^ pbits + k" if "k < 2 ^ pbits" for k
    using that by (intro unat_small) linarith
  have v: "(high * 2 ^ pbits + k) mod 2 ^ pbits = k" if "k < 2 ^ pbits" for k :: nat using that by simp
  show ?thesis
  proof (cases "n < 2 ^ pbits - 1")
    case True
    then have "n < 2 ^ pbits" by simp
    then show ?thesis using True assms(1,2) b [of n] v [of n] by (simp add: core_hpack_decode_int_def hpack_int_text_def Let_def)
  next
    case False
    have k: "2 ^ pbits - 1 < (2 :: nat) ^ pbits" by simp
    have "hpack_int_loop (2 ^ pbits - 1) (7 * 0) (hpack_int_tail (n - (2 ^ pbits - 1)) @ r) = Some (n, r)"
      using hpack_int_loop_tail [of "2 ^ pbits - 1" "n - (2 ^ pbits - 1)" 0 r] False assms(4) by simp
    then show ?thesis
      using False assms(1,2) b [OF k] v [OF k]
      by (simp add: core_hpack_decode_int_def hpack_int_text_def Let_def del: of_nat_add of_nat_mult)
  qed
qed

theorem hpack_int_roundtrip_witness:
  "core_hpack_decode_int 5 [0x3F, 0x9A, 0x0A, 7] = Some (1337, [7])"
proof -
  have "hpack_int_text 5 1 1337 = [0x3F, 0x9A, 0x0A]" by (simp add: hpack_int_text_def hpack_int_tail.simps)
  then show ?thesis using hpack_int_roundtrip [of 5 1 1337 "[7]"] by (simp add: UINT32_MAX_def)
qed

section \<open>The dynamic table keeps its bounds\<close>

text \<open>
  The size that is kept is the sum of the entries' sizes, each at least 32, and within the maximum, which
  is within the limit the client announces.
\<close>

definition entry_ok :: "hpack_entry \<Rightarrow> bool" where
  "entry_ok e \<longleftrightarrow> e_size e = length (e_name e) + length (e_value e) + 32"

definition hpack_inv :: "hpack \<Rightarrow> bool" where
  "hpack_inv h \<longleftrightarrow> list_all entry_ok (entries h) \<and> h_size h = sum_list (map e_size (entries h)) \<and>
     h_size h \<le> h_maximum h \<and> h_maximum h \<le> CORE_HPACK_TABLE_LIMIT"

lemma entries_bound: "list_all entry_ok es \<Longrightarrow> length es * 32 \<le> sum_list (map e_size es)"
  by (induction es) (auto simp: entry_ok_def)

text \<open>Eviction drops oldest entries until the size fits, or all of them.\<close>

lemma evict_to_spec:
  assumes "list_all entry_ok (entries h)" and "h_size h = sum_list (map e_size (entries h))" and "h_size h \<le> SIZE_MAX"
  shows "list_all entry_ok (entries (evict_to h n)) \<and> h_size (evict_to h n) = sum_list (map e_size (entries (evict_to h n))) \<and>
    h_size (evict_to h n) \<le> n \<and> h_size (evict_to h n) \<le> h_size h \<and> h_maximum (evict_to h n) = h_maximum h \<and>
    h_requests (evict_to h n) = h_requests h \<and> h_initialized (evict_to h n) = h_initialized h"
  using assms
proof (induction h n rule: evict_to.induct)
  case (1 h n)
  show ?case
  proof (cases "entries h \<noteq> [] \<and> h_size h > n")
    case True
    define h1 where "h1 = h\<lparr>entries := butlast (entries h), h_size := szsub (h_size h) (e_size (last (entries h)))\<rparr>"
    obtain es e where es: "entries h = es @ [e]" using True by (cases "entries h" rule: rev_cases) auto
    have sz: "h_size h1 = sum_list (map e_size es)" "h_size h1 \<le> h_size h"
      using 1(3,4) es by (simp_all add: h1_def szsub_exact)
    have "list_all entry_ok (entries h1)" "h_size h1 = sum_list (map e_size (entries h1))" "h_size h1 \<le> SIZE_MAX"
      using 1(2,4) es sz by (simp_all add: h1_def)
    from 1(1) [OF True, folded h1_def, OF this] have "list_all entry_ok (entries (evict_to h1 n)) \<and>
        h_size (evict_to h1 n) = sum_list (map e_size (entries (evict_to h1 n))) \<and> h_size (evict_to h1 n) \<le> n \<and>
        h_size (evict_to h1 n) \<le> h_size h1 \<and> h_maximum (evict_to h1 n) = h_maximum h1 \<and>
        h_requests (evict_to h1 n) = h_requests h1 \<and> h_initialized (evict_to h1 n) = h_initialized h1" .
    moreover have "evict_to h n = evict_to h1 n" using True by (subst evict_to.simps) (simp add: h1_def)
    moreover have "h_maximum h1 = h_maximum h" "h_requests h1 = h_requests h" "h_initialized h1 = h_initialized h" by (simp_all add: h1_def)
    ultimately show ?thesis using sz(2) by simp
  next
    case False
    then have "evict_to h n = h" by (subst evict_to.simps) auto
    then show ?thesis using 1(2-) False by auto
  qed
qed

lemma hpack_inv_size: "hpack_inv h \<Longrightarrow> h_size h \<le> SIZE_MAX"
  by (simp add: hpack_inv_def CORE_HPACK_TABLE_LIMIT_def SIZE_MAX_def)

lemma hpack_inv_count: "hpack_inv h \<Longrightarrow> length (entries h) \<le> 128"
  using entries_bound [of "entries h"] by (simp add: hpack_inv_def CORE_HPACK_TABLE_LIMIT_def)

lemma hpack_inv_requests [simp]: "hpack_inv (h\<lparr>h_requests := k\<rparr>) = hpack_inv h"
  by (simp add: hpack_inv_def)

lemma hpack_alloc_inv: "hpack_alloc got h n = (ok, h1) \<Longrightarrow> hpack_inv h1 = hpack_inv h"
  by (auto simp: hpack_alloc_def)

text \<open>Insertion keeps the bounds, and fails only when memory is refused.\<close>

lemma hpack_insert_inv:
  assumes inv: "hpack_inv h" and r: "hpack_insert got h name val = (ok, h1)"
  shows "hpack_inv h1 \<and> (\<not> ok \<longrightarrow> (\<exists>k n. \<not> got k n))"
proof (cases "length name + length val + 32 > h_maximum h")
  case True
  then have "h1 = evict_to h 0" "ok" using r by (auto simp: hpack_insert_def)
  then show ?thesis
    using evict_to_spec [of h 0] inv hpack_inv_size [OF inv] by (auto simp: hpack_inv_def)
next
  case False
  let ?s = "length name + length val + 32"
  let ?h2 = "h\<lparr>h_requests := Suc (Suc (h_requests h))\<rparr>"
  define h3 where "h3 = evict_to ?h2 (h_maximum h - ?s)"
  have e: "list_all entry_ok (entries h3)" "h_size h3 = sum_list (map e_size (entries h3))" "h_size h3 \<le> h_maximum h - ?s"
    "h_maximum h3 = h_maximum h"
    using evict_to_spec [of ?h2 "h_maximum h - ?s"] inv hpack_inv_size [OF inv] by (auto simp: hpack_inv_def h3_def)
  have lim: "h_maximum h \<le> 4096" using inv by (simp add: hpack_inv_def CORE_HPACK_TABLE_LIMIT_def)
  have "length (entries h3) * 32 \<le> 4096 - 32" using entries_bound [OF e(1)] e(2,3) lim by linarith
  then have room: "\<not> length (entries h3) \<ge> 128" by simp
  have "h_size h3 + ?s \<le> SIZE_MAX" using e(3) lim False by (simp add: SIZE_MAX_def)
  then have "hpack_inv (h3\<lparr>entries := \<lparr>e_name = name, e_value = val, e_size = ?s\<rparr> # entries h3, h_size := szadd (h_size h3) ?s\<rparr>)"
    using e False inv by (simp add: hpack_inv_def entry_ok_def szadd_exact)
  moreover have "hpack_inv h3" using e lim by (simp add: hpack_inv_def CORE_HPACK_TABLE_LIMIT_def)
  moreover have "hpack_insert got h name val =
      (if \<not> got (h_requests h) (length name + 1) \<or> \<not> got (Suc (h_requests h)) (length val + 1) then (False, ?h2)
       else (True, h3\<lparr>entries := \<lparr>e_name = name, e_value = val, e_size = ?s\<rparr> # entries h3, h_size := szadd (h_size h3) ?s\<rparr>))"
    using False room by (simp add: hpack_insert_def hpack_alloc_def Let_def flip: h3_def)
  ultimately show ?thesis using r inv by (auto split: if_splits)
qed

lemma read_allocated_inv: "read_allocated_string got h b = (x, h1) \<Longrightarrow> hpack_inv h1 = hpack_inv h"
  by (auto simp: read_allocated_string_def hpack_alloc_def split: option.splits prod.splits if_splits)

lemma literal_field_inv: "literal_field got h ix b = (x, h1) \<Longrightarrow> hpack_inv h1 = hpack_inv h"
  by (auto simp: literal_field_def literal_name_def split: option.splits prod.splits if_splits dest!: read_allocated_inv)

lemma size_update_inv: "size_update h b = Some (h1, r) \<Longrightarrow> hpack_inv h \<Longrightarrow> hpack_inv h1"
proof -
  assume u: "size_update h b = Some (h1, r)" and inv: "hpack_inv h"
  then obtain i where i: "h1 = evict_to (h\<lparr>h_maximum := i\<rparr>) i" "i \<le> CORE_HPACK_TABLE_LIMIT"
    by (auto simp: size_update_def split: option.splits if_splits)
  show ?thesis
    using evict_to_spec [of "h\<lparr>h_maximum := i\<rparr>" i] inv hpack_inv_size [OF inv] i by (auto simp: hpack_inv_def)
qed

lemma hpack_loop_inv: "hpack_inv h \<Longrightarrow> hpack_loop got h hs saw bad0 b = (res, h1, hs1) \<Longrightarrow> hpack_inv h1"
proof (induction got h hs saw bad0 b rule: hpack_loop.induct)
  case (2 got h hs saw bad0 b r)
  show ?case
  proof (cases "unat b div 32 = 1")
    case True
    then show ?thesis using 2 by (auto split: if_splits option.splits prod.splits dest: size_update_inv)
  next
    case nu: False
    show ?thesis
    proof (cases "unat b \<ge> 128")
      case True
      then show ?thesis using 2(2) [OF nu True] 2(4,5) nu by (auto split: option.splits prod.splits)
    next
      case nx: False
      obtain f ha where f: "literal_field got h (unat b div 64 = 1) (b # r) = (f, ha)" by (metis surj_pair)
      have inva: "hpack_inv ha" using literal_field_inv [OF f] 2(4) by simp
      show ?thesis
      proof (cases f)
        case (Some p)
        then obtain name val r1 where p: "f = Some ((name, val), r1)" by (cases p) auto
        obtain bad hs' where e: "emit_header hs name val = (bad, hs')" by (metis surj_pair)
        obtain ok hb where i: "(if unat b div 64 = 1 then hpack_insert got ha name val else (True, ha)) = (ok, hb)" by (metis surj_pair)
        have invb: "hpack_inv hb" using i inva hpack_insert_inv [OF inva] by (auto split: if_splits)
        have "hpack_loop got h hs saw bad0 (b # r) = (if \<not> ok then (Hpack_Error, hb, hs') else hpack_loop got hb hs' True (bad0 \<or> bad) r1)"
          using nu nx f p e i by (simp add: Let_def)
        then show ?thesis
          using 2(3) [OF nu nx refl f [symmetric] p refl refl e [symmetric] i [symmetric]] 2(5) invb by (auto split: if_splits)
      qed (use 2(5) nu nx f inva in \<open>simp add: Let_def\<close>)
    qed
  qed
qed simp

text \<open>
  Property C11: whatever header blocks a peer sends, the dynamic table stays well-formed: its recorded
  size is the sum of its entries' sizes, at most the current maximum, which is at most 4096, so at most
  128 entries are held, which is the length of the array; and an insertion fails only for want of memory.
\<close>

theorem hpack_table_bounded:
  assumes "h_initialized h \<longrightarrow> hpack_inv h" and "core_hpack_decode got h block = (res, h1, headers)"
  shows "hpack_inv h1 \<and> length (entries h1) \<le> 128 \<and>
    (\<forall>name val h2. (\<forall>k n. got k n) \<longrightarrow> hpack_insert got h1 name val \<noteq> (False, h2))"
proof -
  have "hpack_inv (core_hpack_init h)" by (simp add: hpack_inv_def core_hpack_init_def)
  then have "hpack_inv (if h_initialized h then h else core_hpack_init h)" using assms(1) by simp
  from hpack_loop_inv [OF this] have inv: "hpack_inv h1" using assms(2) by (simp add: core_hpack_decode_def)
  moreover have "hpack_insert got h1 name val \<noteq> (False, h2)" if "\<forall>k n. got k n" for name val h2
    using hpack_insert_inv [OF inv, of got name val False h2] that by blast
  ultimately show ?thesis using hpack_inv_count by blast
qed

theorem hpack_table_bounded_witness:
  "let h = \<lparr>entries = [], h_size = 0, h_maximum = 0, h_initialized = False, h_requests = 0\<rparr>
   in length (entries (fst (snd (core_hpack_decode (\<lambda>_ _. True) h [0x40, 1, 97, 1, 98])))) \<le> 128"
proof -
  let ?h = "\<lparr>entries = [], h_size = 0, h_maximum = 0, h_initialized = False, h_requests = 0\<rparr>"
  obtain res h1 hs where r: "core_hpack_decode (\<lambda>_ _. True) ?h [0x40, 1, 97, 1, 98] = (res, h1, hs)" by (metis prod_cases3)
  from hpack_table_bounded [OF _ r] have "length (entries h1) \<le> 128" by simp
  then show ?thesis using r by (simp add: Let_def)
qed

section \<open>Huffman strings read back\<close>

text \<open>
  The canonical code of the tables: before the codes of width \<open>w + 1\<close> the first code is \<open>code_first w\<close>
  and the first index \<open>code_base w\<close>.
\<close>

fun code_first :: "nat \<Rightarrow> nat" where
  "code_first 0 = 0"
| "code_first (Suc w) = (code_first w + huffman_counts ! Suc w) * 2"

fun code_base :: "nat \<Rightarrow> nat" where
  "code_base 0 = 0"
| "code_base (Suc w) = code_base w + huffman_counts ! Suc w"

fun code_bits :: "nat \<Rightarrow> nat \<Rightarrow> nat list" where
  "code_bits 0 v = []"
| "code_bits (Suc w) v = code_bits w (v div 2) @ [v mod 2]"

text \<open>The width and the code of a symbol: its place among the symbols of the first width that has it.\<close>

fun find_code :: "nat list \<Rightarrow> nat list \<Rightarrow> nat \<Rightarrow> nat \<Rightarrow> nat \<Rightarrow> nat \<times> nat" where
  "find_code [] syms start width s = (0, 0)"
| "find_code (c # cs) syms start width s =
     (if s \<in> set (take c syms) then (width, start + length (takeWhile (\<lambda>x. x \<noteq> s) syms))
      else find_code cs (drop c syms) ((start + c) * 2) (width + 1) s)"

text \<open>
  The code of RFC 7541, appendix B, as it is printed there: the code and its length in bits of each of the
  symbols 0 to 255 and of the end-of-string symbol.  The text of a message is written with it; nothing
  of the decoder's own tables is used.
\<close>

definition rfc7541_code :: "(nat \<times> nat) list" where
  "rfc7541_code =
   [(0x1ff8, 13), (0x7fffd8, 23), (0xfffffe2, 28), (0xfffffe3, 28), (0xfffffe4, 28),
    (0xfffffe5, 28), (0xfffffe6, 28), (0xfffffe7, 28), (0xfffffe8, 28), (0xffffea, 24),
    (0x3ffffffc, 30), (0xfffffe9, 28), (0xfffffea, 28), (0x3ffffffd, 30), (0xfffffeb, 28),
    (0xfffffec, 28), (0xfffffed, 28), (0xfffffee, 28), (0xfffffef, 28), (0xffffff0, 28),
    (0xffffff1, 28), (0xffffff2, 28), (0x3ffffffe, 30), (0xffffff3, 28), (0xffffff4, 28),
    (0xffffff5, 28), (0xffffff6, 28), (0xffffff7, 28), (0xffffff8, 28), (0xffffff9, 28),
    (0xffffffa, 28), (0xffffffb, 28), (0x14, 6), (0x3f8, 10), (0x3f9, 10), (0xffa, 12),
    (0x1ff9, 13), (0x15, 6), (0xf8, 8), (0x7fa, 11), (0x3fa, 10), (0x3fb, 10), (0xf9, 8),
    (0x7fb, 11), (0xfa, 8), (0x16, 6), (0x17, 6), (0x18, 6), (0x0, 5), (0x1, 5), (0x2, 5),
    (0x19, 6), (0x1a, 6), (0x1b, 6), (0x1c, 6), (0x1d, 6), (0x1e, 6), (0x1f, 6), (0x5c, 7),
    (0xfb, 8), (0x7ffc, 15), (0x20, 6), (0xffb, 12), (0x3fc, 10), (0x1ffa, 13), (0x21, 6),
    (0x5d, 7), (0x5e, 7), (0x5f, 7), (0x60, 7), (0x61, 7), (0x62, 7), (0x63, 7), (0x64, 7),
    (0x65, 7), (0x66, 7), (0x67, 7), (0x68, 7), (0x69, 7), (0x6a, 7), (0x6b, 7), (0x6c, 7),
    (0x6d, 7), (0x6e, 7), (0x6f, 7), (0x70, 7), (0x71, 7), (0x72, 7), (0xfc, 8), (0x73, 7),
    (0xfd, 8), (0x1ffb, 13), (0x7fff0, 19), (0x1ffc, 13), (0x3ffc, 14), (0x22, 6), (0x7ffd, 15),
    (0x3, 5), (0x23, 6), (0x4, 5), (0x24, 6), (0x5, 5), (0x25, 6), (0x26, 6), (0x27, 6), (0x6, 5),
    (0x74, 7), (0x75, 7), (0x28, 6), (0x29, 6), (0x2a, 6), (0x7, 5), (0x2b, 6), (0x76, 7),
    (0x2c, 6), (0x8, 5), (0x9, 5), (0x2d, 6), (0x77, 7), (0x78, 7), (0x79, 7), (0x7a, 7), (0x7b, 7),
    (0x7ffe, 15), (0x7fc, 11), (0x3ffd, 14), (0x1ffd, 13), (0xffffffc, 28), (0xfffe6, 20),
    (0x3fffd2, 22), (0xfffe7, 20), (0xfffe8, 20), (0x3fffd3, 22), (0x3fffd4, 22), (0x3fffd5, 22),
    (0x7fffd9, 23), (0x3fffd6, 22), (0x7fffda, 23), (0x7fffdb, 23), (0x7fffdc, 23), (0x7fffdd, 23),
    (0x7fffde, 23), (0xffffeb, 24), (0x7fffdf, 23), (0xffffec, 24), (0xffffed, 24), (0x3fffd7, 22),
    (0x7fffe0, 23), (0xffffee, 24), (0x7fffe1, 23), (0x7fffe2, 23), (0x7fffe3, 23), (0x7fffe4, 23),
    (0x1fffdc, 21), (0x3fffd8, 22), (0x7fffe5, 23), (0x3fffd9, 22), (0x7fffe6, 23), (0x7fffe7, 23),
    (0xffffef, 24), (0x3fffda, 22), (0x1fffdd, 21), (0xfffe9, 20), (0x3fffdb, 22), (0x3fffdc, 22),
    (0x7fffe8, 23), (0x7fffe9, 23), (0x1fffde, 21), (0x7fffea, 23), (0x3fffdd, 22), (0x3fffde, 22),
    (0xfffff0, 24), (0x1fffdf, 21), (0x3fffdf, 22), (0x7fffeb, 23), (0x7fffec, 23), (0x1fffe0, 21),
    (0x1fffe1, 21), (0x3fffe0, 22), (0x1fffe2, 21), (0x7fffed, 23), (0x3fffe1, 22), (0x7fffee, 23),
    (0x7fffef, 23), (0xfffea, 20), (0x3fffe2, 22), (0x3fffe3, 22), (0x3fffe4, 22), (0x7ffff0, 23),
    (0x3fffe5, 22), (0x3fffe6, 22), (0x7ffff1, 23), (0x3ffffe0, 26), (0x3ffffe1, 26), (0xfffeb, 20),
    (0x7fff1, 19), (0x3fffe7, 22), (0x7ffff2, 23), (0x3fffe8, 22), (0x1ffffec, 25), (0x3ffffe2, 26),
    (0x3ffffe3, 26), (0x3ffffe4, 26), (0x7ffffde, 27), (0x7ffffdf, 27), (0x3ffffe5, 26),
    (0xfffff1, 24), (0x1ffffed, 25), (0x7fff2, 19), (0x1fffe3, 21), (0x3ffffe6, 26),
    (0x7ffffe0, 27), (0x7ffffe1, 27), (0x3ffffe7, 26), (0x7ffffe2, 27), (0xfffff2, 24),
    (0x1fffe4, 21), (0x1fffe5, 21), (0x3ffffe8, 26), (0x3ffffe9, 26), (0xffffffd, 28),
    (0x7ffffe3, 27), (0x7ffffe4, 27), (0x7ffffe5, 27), (0xfffec, 20), (0xfffff3, 24), (0xfffed, 20),
    (0x1fffe6, 21), (0x3fffe9, 22), (0x1fffe7, 21), (0x1fffe8, 21), (0x7ffff3, 23), (0x3fffea, 22),
    (0x3fffeb, 22), (0x1ffffee, 25), (0x1ffffef, 25), (0xfffff4, 24), (0xfffff5, 24),
    (0x3ffffea, 26), (0x7ffff4, 23), (0x3ffffeb, 26), (0x7ffffe6, 27), (0x3ffffec, 26),
    (0x3ffffed, 26), (0x7ffffe7, 27), (0x7ffffe8, 27), (0x7ffffe9, 27), (0x7ffffea, 27),
    (0x7ffffeb, 27), (0xffffffe, 28), (0x7ffffec, 27), (0x7ffffed, 27), (0x7ffffee, 27),
    (0x7ffffef, 27), (0x7fffff0, 27), (0x3ffffee, 26), (0x3fffffff, 30)]"

definition huffman_text :: "bytes \<Rightarrow> nat list" where
  "huffman_text xs = concat (map (\<lambda>b. case rfc7541_code ! unat b of (v, w) \<Rightarrow> code_bits w v) xs)"

lemma huffman_sizes: "length huffman_counts = 31" "length huffman_symbols = 257"
  by (simp_all add: huffman_counts_def huffman_symbols_def)

lemma code_numeral:
  "code_first (numeral k) = (code_first (pred_numeral k) + huffman_counts ! numeral k) * 2"
  "code_base (numeral k) = code_base (pred_numeral k) + huffman_counts ! numeral k"
  "code_first 1 = (code_first 0 + huffman_counts ! 1) * 2" "code_base 1 = code_base 0 + huffman_counts ! 1"
  by (simp_all add: numeral_eq_Suc)

lemma code_fits: "w < 30 \<Longrightarrow> code_first w + huffman_counts ! Suc w \<le> 2 ^ Suc w"
proof -
  have "list_all (\<lambda>w. code_first w + huffman_counts ! Suc w \<le> 2 ^ Suc w) [0..<30]"
    by (simp add: huffman_counts_def code_numeral upt_rec)
  then show "w < 30 \<Longrightarrow> ?thesis" by (simp add: list_all_iff)
qed

lemma upt_256:
  "[0..<256] =
     [0, 1, 2, 3, 4, 5, 6, 7, 8, 9, 10, 11, 12, 13, 14, 15, 16, 17, 18, 19, 20, 21, 22, 23, 24, 25,
      26, 27, 28, 29, 30, 31, 32, 33, 34, 35, 36, 37, 38, 39, 40, 41, 42, 43, 44, 45, 46, 47, 48, 49,
      50, 51, 52, 53, 54, 55, 56, 57, 58, 59, 60, 61, 62, 63, 64, 65, 66, 67, 68, 69, 70, 71, 72, 73,
      74, 75, 76, 77, 78, 79, 80, 81, 82, 83, 84, 85, 86, 87, 88, 89, 90, 91, 92, 93, 94, 95, 96, 97,
      98, 99, 100, 101, 102, 103, 104, 105, 106, 107, 108, 109, 110, 111, 112, 113, 114, 115, 116,
      117, 118, 119, 120, 121, 122, 123, 124, 125, 126, 127, 128, 129, 130, 131, 132, 133, 134, 135,
      136, 137, 138, 139, 140, 141, 142, 143, 144, 145, 146, 147, 148, 149, 150, 151, 152, 153, 154,
      155, 156, 157, 158, 159, 160, 161, 162, 163, 164, 165, 166, 167, 168, 169, 170, 171, 172, 173,
      174, 175, 176, 177, 178, 179, 180, 181, 182, 183, 184, 185, 186, 187, 188, 189, 190, 191, 192,
      193, 194, 195, 196, 197, 198, 199, 200, 201, 202, 203, 204, 205, 206, 207, 208, 209, 210, 211,
      212, 213, 214, 215, 216, 217, 218, 219, 220, 221, 222, 223, 224, 225, 226, 227, 228, 229, 230,
      231, 232, 233, 234, 235, 236, 237, 238, 239, 240, 241, 242, 243, 244, 245, 246, 247, 248, 249,
      250, 251, 252, 253, 254, 255]"
  by (simp add: upt_rec [of 0] upt_rec [of "Suc 0"] flip: numeral_2_eq_2)

lemma symbols_all: "s < 256 \<Longrightarrow> s \<in> set huffman_symbols"
proof -
  have "list_all (\<lambda>s. s \<in> set huffman_symbols) [0..<256]" unfolding upt_256 by (simp add: huffman_symbols_def)
  then show "s < 256 \<Longrightarrow> ?thesis" by (simp add: list_all_iff)
qed

text \<open>The place of a symbol in its width, as the decoder computes it.\<close>

definition code_of :: "nat \<Rightarrow> nat \<Rightarrow> nat \<Rightarrow> bool" where
  "code_of s w v \<longleftrightarrow> w < 30 \<and> code_first w \<le> v \<and> v - code_first w < huffman_counts ! Suc w \<and>
     huffman_symbols ! (code_base w + v - code_first w) = s"

text \<open>The codes of the RFC are the codes that the tables of the decoder stand for.\<close>

lemma code_starts:
  "code_first 4 = 0" "code_first 5 = 20" "code_first 6 = 92" "code_first 7 = 248"
  "code_first 9 = 1016" "code_first 10 = 2042" "code_first 11 = 4090" "code_first 12 = 8184"
  "code_first 13 = 16380" "code_first 14 = 32764" "code_first 18 = 524272" "code_first 19 = 1048550"
  "code_first 20 = 2097116" "code_first 21 = 4194258" "code_first 22 = 8388568"
  "code_first 23 = 16777194" "code_first 24 = 33554412" "code_first 25 = 67108832"
  "code_first 26 = 134217694" "code_first 27 = 268435426" "code_first 29 = 1073741820"
  "code_base 4 = 0" "code_base 5 = 10" "code_base 6 = 36" "code_base 7 = 68" "code_base 9 = 74"
  "code_base 10 = 79" "code_base 11 = 82" "code_base 12 = 84" "code_base 13 = 90"
  "code_base 14 = 92" "code_base 18 = 95" "code_base 19 = 98" "code_base 20 = 106"
  "code_base 21 = 119" "code_base 22 = 145" "code_base 23 = 174" "code_base 24 = 186"
  "code_base 25 = 190" "code_base 26 = 205" "code_base 27 = 224" "code_base 29 = 253"
  by (simp_all add: huffman_counts_def code_numeral)

lemma rfc7541_codes: "list_all (\<lambda>(s, v, w). 0 < w \<and> code_of s (w - 1) v) (zip [0..<256] rfc7541_code)"
  unfolding upt_256 by (simp add: code_of_def huffman_symbols_def rfc7541_code_def huffman_counts_def code_starts)

lemma rfc7541_code_of: "\<exists>w v. rfc7541_code ! unat (b :: byte) = (v, Suc w) \<and> code_of (unat b) w v"
proof -
  obtain v w where c: "rfc7541_code ! unat b = (v, w)" by (cases "rfc7541_code ! unat b")
  have len: "length rfc7541_code = 257" by (simp add: rfc7541_code_def)
  have b: "unat b < length [0..<256]" "unat b < length rfc7541_code" using unat_byte_less [of b] unfolding len by (simp_all only: length_upt)
  then have "[0..<256] ! unat b = unat b" using nth_upt [of 0 "unat b" 256] by simp
  then have "zip [0..<256] rfc7541_code ! unat b = (unat b, v, w)" "unat b < length (zip [0..<256] rfc7541_code)"
    using nth_zip [OF b] c b by (simp_all only: length_zip min_less_iff_conj)
  then have "(unat b, v, w) \<in> set (zip [0..<256] rfc7541_code)" by (metis nth_mem)
  then have "0 < w \<and> code_of (unat b) (w - 1) v" using rfc7541_codes by (fastforce simp: list_all_iff)
  then show ?thesis using c by (intro exI [of _ "w - 1"] exI [of _ v]) simp
qed

text \<open>Every symbol occurs once, so its width and its code are determined.\<close>

lemma huffman_symbols_distinct: "distinct huffman_symbols"
proof (rule card_distinct)
  have "256 \<in> set huffman_symbols" by (simp add: huffman_symbols_def)
  then have "{..<257} \<subseteq> set huffman_symbols" using symbols_all by (metis lessThan_iff less_Suc_eq_le nat_less_le numeral_eq_Suc pred_numeral_simps(3) subsetI)
  then have "257 \<le> card (set huffman_symbols)" using card_mono [of "set huffman_symbols" "{..<257}"] by simp
  then show "card (set huffman_symbols) = length huffman_symbols"
    using card_length [of huffman_symbols] huffman_sizes(2) by linarith
qed

lemma code_base_mono: "a \<le> b \<Longrightarrow> code_base a \<le> code_base b"
  by (induction b) (auto simp: le_Suc_eq)

lemma code_of_unique:
  assumes "code_of s w v" and "code_of s w' v'"
  shows "w = w' \<and> v = v'"
proof -
  have pos: "code_base x + u - code_first x < 257 \<and> code_base x \<le> code_base x + u - code_first x \<and>
      code_base x + u - code_first x < code_base (Suc x)" if "code_of s x u" for x u
  proof -
    have "code_base (Suc x) \<le> code_base 30" using that by (intro code_base_mono) (simp add: code_of_def)
    also have "code_base 30 = 257" by (simp add: huffman_counts_def code_numeral)
    finally have "code_base x + huffman_counts ! Suc x \<le> 257" by simp
    moreover have "code_first x \<le> u" "u - code_first x < huffman_counts ! Suc x" using that by (simp_all add: code_of_def)
    ultimately show ?thesis unfolding code_base.simps by linarith
  qed
  have "code_base w + v - code_first w = code_base w' + v' - code_first w'"
    using assms pos [OF assms(1)] pos [OF assms(2)] huffman_symbols_distinct huffman_sizes(2)
    by (simp add: code_of_def flip: nth_eq_iff_index_eq [of huffman_symbols])
  moreover from this have "w = w'"
    using pos [OF assms(1)] pos [OF assms(2)] code_base_mono [of "Suc w" w'] code_base_mono [of "Suc w'" w]
    by (metis Suc_leI leD le_less_trans linorder_neqE_nat)
  ultimately show ?thesis using assms by (auto simp: code_of_def)
qed

lemma find_code_at:
  assumes "s \<in> set (drop (code_base w) huffman_symbols)" and "w \<le> 30"
  shows "\<exists>w' v. find_code (drop (Suc w) huffman_counts) (drop (code_base w) huffman_symbols) (code_first w) (Suc w) s = (Suc w', v) \<and> code_of s w' v"
  using assms
proof (induction "30 - w" arbitrary: w)
  case 0
  then have "w = 30" by simp
  have "code_base 30 = 257" by (simp add: huffman_counts_def code_numeral)
  then show ?case using 0(2) \<open>w = 30\<close> huffman_sizes(2) by simp
next
  case (Suc k)
  then have w: "w < 30" by simp
  define c where "c = huffman_counts ! Suc w"
  define syms where "syms = drop (code_base w) huffman_symbols"
  have cs: "drop (Suc w) huffman_counts = c # drop (Suc (Suc w)) huffman_counts"
    using w huffman_sizes(1) by (simp add: c_def Cons_nth_drop_Suc)
  show ?case
  proof (cases "s \<in> set (take c syms)")
    case True
    define i where "i = length (takeWhile (\<lambda>x. x \<noteq> s) syms)"
    obtain j where j: "j < length (take c syms)" "take c syms ! j = s" using True by (auto simp: in_set_conv_nth)
    have "i \<le> j"
    proof (rule leI, rule notI)
      assume "j < i"
      then have j': "j < length (takeWhile (\<lambda>x. x \<noteq> s) syms)" by (simp add: i_def)
      from set_takeWhileD [OF nth_mem [OF j']] have "syms ! j \<noteq> s" by (simp add: takeWhile_nth [OF j'])
      then show False using j by simp
    qed
    then have "i < c" using j by simp
    have "i < length syms" using j \<open>i \<le> j\<close> by simp
    then have "syms ! i = s" using nth_length_takeWhile [of "\<lambda>x. x \<noteq> s" syms] by (simp add: i_def)
    then have "code_of s w (code_first w + i)"
      using w \<open>i < c\<close> \<open>i < length syms\<close> by (simp add: code_of_def c_def syms_def)
    then show ?thesis using True by (simp add: cs i_def flip: syms_def)
  next
    case False
    have "s \<in> set (drop (code_base (Suc w)) huffman_symbols)"
    proof -
      have "s \<in> set (take c syms @ drop c syms)" using Suc(3) by (simp only: append_take_drop_id syms_def)
      then have "s \<in> set (drop c syms)" using False unfolding set_append by blast
      then show ?thesis by (simp add: syms_def c_def add.commute)
    qed
    from Suc(1) [OF _ this] Suc(2) w
    have "\<exists>w' v. find_code (drop (Suc (Suc w)) huffman_counts) (drop (code_base (Suc w)) huffman_symbols)
        (code_first (Suc w)) (Suc (Suc w)) s = (Suc w', v) \<and> code_of s w' v" by simp
    then show ?thesis using False by (simp add: cs syms_def c_def add.commute)
  qed
qed

text \<open>Codes of greater width lie above all codes of smaller width.\<close>

lemma code_first_mono: "b \<le> w \<Longrightarrow> code_first b * 2 ^ (w - b) \<le> code_first w"
proof (induction w)
  case (Suc w)
  show ?case
  proof (cases "b = Suc w")
    case False
    then have "b \<le> w" using Suc(2) by simp
    then have "code_first b * 2 ^ (Suc w - b) = code_first b * 2 ^ (w - b) * 2" by (simp add: Suc_diff_le)
    also have "\<dots> \<le> code_first w * 2" using Suc(1) [OF \<open>b \<le> w\<close>] by simp
    finally show ?thesis by simp
  qed simp
qed simp

lemma code_above:
  assumes "b < w" and "code_first w \<le> v"
  shows "code_first b + huffman_counts ! Suc b \<le> v div 2 ^ (w - b)"
proof -
  have "(code_first b + huffman_counts ! Suc b) * 2 ^ (w - b) = code_first (Suc b) * 2 ^ (w - Suc b)"
    using assms(1) by (simp add: Suc_diff_Suc [symmetric] mult.assoc)
  also have "\<dots> \<le> code_first w" using assms(1) by (intro code_first_mono) simp
  finally have "(code_first b + huffman_counts ! Suc b) * 2 ^ (w - b) \<le> v" using assms(2) by simp
  then show ?thesis by (simp add: less_eq_div_iff_mult_less_eq)
qed

definition huffman_at :: "nat \<Rightarrow> nat \<Rightarrow> huffman" where
  "huffman_at b c = \<lparr>hf_code = c, hf_first = code_first b, hf_base = code_base b, hf_bits = b\<rparr>"

text \<open>A prefix that no code of its widths has leaves the decoder waiting.\<close>

lemma huffman_prefix:
  assumes "b < 30" and "v < 2 ^ b" and "\<forall>i<b. code_first i + huffman_counts ! Suc i \<le> v div 2 ^ (b - Suc i)"
  shows "huffman_run huffman_start (code_bits b v @ r) = huffman_run (huffman_at b v) r"
  using assms
proof (induction b arbitrary: v r)
  case 0
  then show ?case by (simp add: huffman_start_def huffman_at_def)
next
  case (Suc b)
  have "code_first i + huffman_counts ! Suc i \<le> v div 2 div 2 ^ (b - Suc i)" if "i < b" for i
    using Suc(4) [rule_format, of i] that by (simp add: Suc_diff_Suc [symmetric] div_mult2_eq [symmetric] mult.commute)
  then have ih: "huffman_run huffman_start (code_bits b (v div 2) @ v mod 2 # r) = huffman_run (huffman_at b (v div 2)) (v mod 2 # r)"
    using Suc(1) [of "v div 2" "v mod 2 # r"] Suc(2,3) by simp
  have "code_first b + huffman_counts ! Suc b \<le> v" using Suc(4) [rule_format, of b] by simp
  then have "huffman_step (huffman_at b (v div 2)) (v mod 2) = Some (None, huffman_at (Suc b) v)"
    using Suc(2) by (simp add: huffman_step_def huffman_at_def Let_def)
  then show ?case using ih by simp
qed

lemma huffman_symbol:
  assumes "code_of s w v" and "s < 256"
  shows "huffman_run huffman_start (code_bits (Suc w) v @ r) = map_option (\<lambda>(out, h). (of_nat s # out, h)) (huffman_run huffman_start r)"
proof -
  have c: "w < 30" "code_first w \<le> v" "v - code_first w < huffman_counts ! Suc w" "huffman_symbols ! (code_base w + v - code_first w) = s"
    using assms(1) by (auto simp: code_of_def)
  have "v < 2 ^ Suc w" using code_fits [OF c(1)] c(2,3) by linarith
  then have v: "v div 2 < 2 ^ w" by simp
  have "code_first i + huffman_counts ! Suc i \<le> v div 2 div 2 ^ (w - Suc i)" if "i < w" for i
    using code_above [OF that c(2)] that by (simp add: Suc_diff_Suc [symmetric] div_mult2_eq [symmetric] mult.commute)
  then have "huffman_run huffman_start (code_bits w (v div 2) @ v mod 2 # r) = huffman_run (huffman_at w (v div 2)) (v mod 2 # r)"
    using huffman_prefix [of w "v div 2"] c(1) v by blast
  moreover have "huffman_step (huffman_at w (v div 2)) (v mod 2) = Some (Some s, huffman_start)"
    using c assms(2) by (simp add: huffman_step_def huffman_at_def Let_def)
  ultimately show ?thesis by simp
qed

lemma huffman_run_text:
  "huffman_run huffman_start (huffman_text xs @ r) = map_option (\<lambda>(out, h). (xs @ out, h)) (huffman_run huffman_start r)"
proof (induction xs)
  case (Cons b xs)
  obtain w v where f: "rfc7541_code ! unat b = (v, Suc w)" and c: "code_of (unat b) w v"
    using rfc7541_code_of [of b] by blast
  have "huffman_text (b # xs) = code_bits (Suc w) v @ huffman_text xs" using f by (simp add: huffman_text_def)
  then show ?case using huffman_symbol [OF c, of "huffman_text xs @ r"] Cons
    by (simp add: option.map_comp comp_def case_prod_unfold del: code_bits.simps)
qed (cases "huffman_run huffman_start r"; simp add: huffman_text_def)+

lemma pred_mult_div: "0 < m \<Longrightarrow> 0 < a \<Longrightarrow> (a * m - 1) div m = a - (1 :: nat)"
  by (cases a; cases m) (auto intro!: div_nat_eqI simp: algebra_simps)

lemma huffman_run_ones:
  assumes "k \<le> 7"
  shows "huffman_run huffman_start (replicate k 1) = Some ([], huffman_at k (2 ^ k - 1))"
proof -
  have ones: "code_bits k (2 ^ k - 1) = replicate k 1" for k
  proof (induction k)
    case (Suc k)
    have "(2 ^ Suc k - 1) div 2 = (2 :: nat) ^ k - 1" "(2 ^ Suc k - 1) mod 2 = (1 :: nat)"
      by (simp_all add: mod_2_eq_odd)
    then show ?case using Suc by (simp only: code_bits.simps replicate_append_same [symmetric]) (simp add: replicate_append_same)
  qed simp
  have free: "code_first i + huffman_counts ! Suc i \<le> 2 ^ Suc i - 1" if "i < 7" for i
  proof -
    have "list_all (\<lambda>i. code_first i + huffman_counts ! Suc i \<le> 2 ^ Suc i - 1) [0..<7]"
      by (simp add: huffman_counts_def code_numeral upt_rec)
    then show ?thesis using that by (simp add: list_all_iff)
  qed
  have "(2 ^ k - 1) div 2 ^ (k - Suc i) = (2 :: nat) ^ Suc i - 1" if "i < k" for i
  proof -
    have "(2 :: nat) ^ k = 2 ^ Suc i * 2 ^ (k - Suc i)" using that by (simp flip: power_add power_Suc)
    then show ?thesis using pred_mult_div [of "2 ^ (k - Suc i)" "2 ^ Suc i"] by simp
  qed
  then have "\<forall>i<k. code_first i + huffman_counts ! Suc i \<le> (2 ^ k - 1) div 2 ^ (k - Suc i)" using free assms by simp
  then show ?thesis using huffman_prefix [of k "2 ^ k - 1" "[]"] assms ones by simp
qed

lemma find_code_width: "fst (find_code cs syms start width s) = huffman_width cs syms width s"
  by (induction cs syms start width s rule: find_code.induct) simp_all

lemma length_code_bits [simp]: "length (code_bits w v) = w"
  by (induction w v rule: code_bits.induct) simp_all

lemma huffman_byte_width:
  "huffman_width (drop 1 huffman_counts) huffman_symbols 1 (unat (b :: byte)) = snd (rfc7541_code ! unat b)"
  "0 < snd (rfc7541_code ! unat b)" "snd (rfc7541_code ! unat b) \<le> 30"
proof -
  have "unat b \<in> set (drop (code_base 0) huffman_symbols)" using symbols_all [of "unat b"] by simp
  from find_code_at [OF this] obtain w v where
    f: "find_code (drop 1 huffman_counts) huffman_symbols 0 1 (unat b) = (Suc w, v)" "code_of (unat b) w v" by auto
  obtain w' v' where r: "rfc7541_code ! unat b = (v', Suc w')" "code_of (unat b) w' v'" using rfc7541_code_of [of b] by blast
  have "w = w'" using code_of_unique [OF f(2) r(2)] by simp
  then show "huffman_width (drop 1 huffman_counts) huffman_symbols 1 (unat b) = snd (rfc7541_code ! unat b)"
    using find_code_width [of "drop 1 huffman_counts" huffman_symbols 0 1 "unat b"] f(1) r(1) by simp
  show "0 < snd (rfc7541_code ! unat b)" "snd (rfc7541_code ! unat b) \<le> 30" using r by (simp_all add: code_of_def)
qed

lemma huffman_bits_loop_length:
  "n + 30 * length xs \<le> SIZE_MAX \<Longrightarrow> huffman_bits_loop xs n = n + length (huffman_text xs)"
proof (induction xs arbitrary: n)
  case (Cons b xs)
  define w where "w = huffman_width (drop 1 huffman_counts) huffman_symbols 1 (unat b)"
  have t: "length (huffman_text (b # xs)) = w + length (huffman_text xs)"
    unfolding w_def huffman_byte_width(1) by (simp add: huffman_text_def case_prod_unfold)
  have w: "0 < w" "w \<le> 30" using huffman_byte_width [of b] by (simp_all only: w_def)
  then have "n + w + 30 * length xs \<le> SIZE_MAX" "\<not> n > SIZE_MAX - w" using Cons.prems by simp_all
  then show ?case using Cons.IH [of "n + w"] t w(1) by (simp only: huffman_bits_loop.simps Let_def w_def [symmetric]) simp
qed (simp add: huffman_text_def)

text \<open>
  Property C30: bytes that carry the RFC 7541 Huffman code of a text, taken from the table the RFC prints,
  followed by fewer than eight one bits decode to
  that text, for every text over all 256 byte values, stored up to the capacity and reported with its whole
  length; and the length function counts exactly the bits of that code.
\<close>

theorem hpack_huffman_roundtrip:
  assumes "concat (map byte_bits buf) = huffman_text xs @ replicate k 1" and "k \<le> 7"
  shows "core_hpack_decode_huffman buf out_cap = Some (take (out_cap - 1) xs, length xs) \<and>
    (30 * length xs \<le> SIZE_MAX \<longrightarrow> core_hpack_huffman_bits xs = length (huffman_text xs))"
proof -
  have "huffman_run huffman_start (concat (map byte_bits buf)) = Some (xs, huffman_at k (2 ^ k - 1))"
    unfolding assms(1) huffman_run_text huffman_run_ones [OF assms(2)] by simp
  then have "core_hpack_decode_huffman buf out_cap = Some (take (out_cap - 1) xs, length xs)"
    using assms(2) by (simp add: core_hpack_decode_huffman_def huffman_at_def stored_def)
  then show ?thesis using huffman_bits_loop_length [of 0 xs] by (simp add: core_hpack_huffman_bits_def)
qed

theorem hpack_huffman_roundtrip_witness:
  "core_hpack_decode_huffman [0x1F] 9 = Some ([97], 1) \<and> core_hpack_huffman_bits [97] = 5"
proof -
  have c3: "rfc7541_code ! 97 = (3, 5)" by (simp add: rfc7541_code_def)
  have cb: "code_bits 5 3 = [0, 0, 0, 1, 1]" by code_simp
  have t: "huffman_text [97] = [0, 0, 0, 1, 1]" using c3
    by (simp add: huffman_text_def cb)
  then have "concat (map byte_bits [0x1F]) = huffman_text [97] @ replicate 3 1"
    unfolding t by (simp add: byte_bits_def numeral_3_eq_3)
  from hpack_huffman_roundtrip [OF this, of 9] show ?thesis by (simp add: t SIZE_MAX_def)
qed

end
