(* ===== verification/Http2.thy ===== *)
theory Http2
  imports Hpack Deadline
begin

text \<open>
  The rules of HTTP/2 that the client enforces on its peer, \<^verbatim>\<open>src/src/http2.c\<close>: the validation of a
  frame against the state of the connection, the settings in the ALPS extension, and the life of one
  response (its headers, its data and its declared length).  Frames are checked by theorems against the
  grammar of a connection, and the counters of a response against its content length.
\<close>

section \<open>Frames\<close>

datatype error_scope = CORE_HTTP2_ERROR_NONE | CORE_HTTP2_ERROR_CONNECTION | CORE_HTTP2_ERROR_STREAM

record http2_validation =
  continuation :: nat
  settings_received :: bool
  settings_pending :: nat
  frame_fault :: "error_scope \<times> nat"

datatype frame_verdict = Frame_Ok | Connection_Error | Stream_Error

definition value32 :: "bytes \<Rightarrow> nat" where
  "value32 data = word32 (data ! 0) (data ! 1) (data ! 2) (data ! 3)"

definition frame_error :: "http2_validation \<Rightarrow> error_scope \<Rightarrow> nat \<Rightarrow> frame_verdict \<times> http2_validation" where
  "frame_error st scope c =
     ((if scope = CORE_HTTP2_ERROR_STREAM then Stream_Error else Connection_Error), st\<lparr>frame_fault := (scope, c)\<rparr>)"

text \<open>The loop over the settings of a frame: the error, if one is found.\<close>

function check_settings :: "http2_validation \<Rightarrow> bytes \<Rightarrow> (frame_verdict \<times> http2_validation) option" where
  "check_settings st data =
     (if data = [] then None
      else let id = word16 (data ! 0) (data ! 1); v = value32 (drop 2 data)
           in if id = 4 \<and> int v > INT_MAX then Some (frame_error st CORE_HTTP2_ERROR_CONNECTION 3)
              else if id = 2 \<and> v \<noteq> 0 \<or> id = 5 \<and> (v < 16384 \<or> v > 16777215) then Some (Connection_Error, st)
              else check_settings st (drop 6 data))"
  by auto
termination
  by (relation "measure (\<lambda>(st, data). length data)") auto

declare check_settings.simps [simp del]

text \<open>The result of the checks that do not leave early.\<close>

definition frame_ok :: "http2_validation \<Rightarrow> frame_verdict \<times> http2_validation" where
  "frame_ok st = (Frame_Ok, st\<lparr>frame_fault := (CORE_HTTP2_ERROR_NONE, 0)\<rparr>)"

definition check_headers :: "http2_validation \<Rightarrow> byte \<Rightarrow> nat \<Rightarrow> bytes \<Rightarrow> frame_verdict \<times> http2_validation" where
  "check_headers st flags stream data =
     (if stream = 0 then (Connection_Error, st)
      else if bit flags 3 \<and> (data = [] \<or> unat (hd data) \<ge> length data) then (Connection_Error, st)
      else let start = (if bit flags 3 then 1 else 0); stop = length data - (if bit flags 3 then unat (hd data) else 0)
           in if bit flags 5 \<and> szsub stop start < 5 then frame_error st CORE_HTTP2_ERROR_CONNECTION 6
              else let self = (bit flags 5 \<and> value32 (drop start data) mod 2 ^ 31 = stream);
                       st1 = (if \<not> bit flags 2 then st\<lparr>continuation := stream\<rparr> else st)
                   in if self then frame_error st1 CORE_HTTP2_ERROR_STREAM 1 else frame_ok st1)"

definition check_settings_frame :: "http2_validation \<Rightarrow> byte \<Rightarrow> nat \<Rightarrow> bytes \<Rightarrow> frame_verdict \<times> http2_validation" where
  "check_settings_frame st flags stream data =
     (if stream \<noteq> 0 then (Connection_Error, st)
      else if (if bit flags 0 then data \<noteq> [] else length data mod 6 \<noteq> 0) then frame_error st CORE_HTTP2_ERROR_CONNECTION 6
      else if bit flags 0 then
        (if settings_pending st = 0 then (Connection_Error, st)
         else frame_ok (st\<lparr>settings_pending := settings_pending st - 1\<rparr>))
      else case check_settings st data of
             Some e \<Rightarrow> e
           | None \<Rightarrow>
               frame_ok ((if \<not> settings_received st then st\<lparr>settings_pending := 1\<rparr> else st)\<lparr>settings_received := True\<rparr>))"

definition core_http2_validate_frame ::
  "http2_validation \<Rightarrow> nat \<Rightarrow> byte \<Rightarrow> nat \<Rightarrow> bytes \<Rightarrow> frame_verdict \<times> http2_validation" where
  "core_http2_validate_frame st0 type flags stream data =
     (let st = st0\<lparr>frame_fault := (CORE_HTTP2_ERROR_CONNECTION, 1)\<rparr>; bad = (Connection_Error, st)
      in if stream > 0x7FFFFFFF then bad
         else if length data > 16384 then frame_error st CORE_HTTP2_ERROR_CONNECTION 6
         else if \<not> settings_received st \<and> (type \<noteq> 4 \<or> bit flags 0 \<or> stream \<noteq> 0) then bad
         else if continuation st \<noteq> 0 \<and> (type \<noteq> 9 \<or> stream \<noteq> continuation st) then bad
         else if type = 0 then
           (if stream = 0 \<or> bit flags 3 \<and> (data = [] \<or> unat (hd data) \<ge> length data) then bad else frame_ok st)
         else if type = 1 then check_headers st flags stream data
         else if type = 2 then
           (if stream = 0 then bad
            else if length data \<noteq> 5 then frame_error st CORE_HTTP2_ERROR_STREAM 6
            else if value32 data mod 2 ^ 31 = stream then frame_error st CORE_HTTP2_ERROR_STREAM 1
            else frame_ok st)
         else if type = 3 then
           (if stream = 0 then bad
            else if length data \<noteq> 4 then frame_error st CORE_HTTP2_ERROR_CONNECTION 6 else frame_ok st)
         else if type = 4 then check_settings_frame st flags stream data
         else if type = 5 then bad
         else if type = 6 then
           (if stream \<noteq> 0 then bad
            else if length data \<noteq> 8 then frame_error st CORE_HTTP2_ERROR_CONNECTION 6 else frame_ok st)
         else if type = 7 then
           (if stream \<noteq> 0 then bad
            else if length data < 8 then frame_error st CORE_HTTP2_ERROR_CONNECTION 6 else frame_ok st)
         else if type = 8 then
           (if length data \<noteq> 4 then frame_error st CORE_HTTP2_ERROR_CONNECTION 6
            else if value32 data mod 2 ^ 31 = 0 then
              frame_error st (if stream \<noteq> 0 then CORE_HTTP2_ERROR_STREAM else CORE_HTTP2_ERROR_CONNECTION) 1
            else frame_ok st)
         else if type = 9 then
           (if continuation st = 0 \<or> stream \<noteq> continuation st then bad
            else frame_ok (if bit flags 2 then st\<lparr>continuation := 0\<rparr> else st))
         else frame_ok st)"

section \<open>Settings in ALPS\<close>

record http2_settings =
  table_size :: nat
  concurrency :: nat
  initial_window :: nat
  max_frame :: nat
  header_limit :: nat
  settings_seen :: bool

definition default_settings :: http2_settings where
  "default_settings = \<lparr>table_size = 4096, concurrency = UINT32_MAX, initial_window = 65535, max_frame = 16384,
     header_limit = 8192, settings_seen = False\<rparr>"

function apply_settings :: "http2_settings \<Rightarrow> bytes \<Rightarrow> http2_settings" where
  "apply_settings s body =
     (if body = [] then s
      else let id = word16 (body ! 0) (body ! 1); v = value32 (drop 2 body);
               s1 = (if id = 1 then s\<lparr>table_size := v\<rparr> else if id = 3 then s\<lparr>concurrency := v\<rparr>
                     else if id = 4 then s\<lparr>initial_window := v\<rparr> else if id = 5 then s\<lparr>max_frame := v\<rparr>
                     else if id = 6 then s\<lparr>header_limit := v\<rparr> else s)
           in apply_settings s1 (drop 6 body))"
  by auto
termination
  by (relation "measure (\<lambda>(s, body). length body)") auto

declare apply_settings.simps [simp del]

text \<open>The pairs of counted fields of an ACCEPT\_CH frame; \<open>second\<close> is set inside a pair.\<close>

function accept_ch_fields :: "bool \<Rightarrow> bytes \<Rightarrow> bool" where
  "accept_ch_fields second body =
     (if body = [] \<and> \<not> second then True
      else if length body < 2 then False
      else let n = word16 (body ! 0) (body ! 1)
           in if n > length body - 2 then False else accept_ch_fields (\<not> second) (drop (2 + n) body))"
  by auto
termination
  by (relation "measure (\<lambda>(second, body). length body)") auto

declare accept_ch_fields.simps [simp del]

definition alps_frame :: "http2_settings \<Rightarrow> nat \<Rightarrow> byte \<Rightarrow> nat \<Rightarrow> bytes \<Rightarrow> http2_settings option" where
  "alps_frame s type flags stream body =
     (if type \<le> 9 \<and> type \<noteq> 4 then None
      else if type = 4 then
        (if bit flags 0 \<or> fst (core_http2_validate_frame \<lparr>continuation = 0, settings_received = True, settings_pending = 0,
              frame_fault = (CORE_HTTP2_ERROR_NONE, 0)\<rparr> 4 flags stream body) \<noteq> Frame_Ok then None
         else Some (apply_settings (s\<lparr>settings_seen := True\<rparr>) body))
      else if type = 0x89 then
        (if stream \<noteq> 0 \<or> flags \<noteq> 0 then None else if accept_ch_fields False body then Some s else None)
      else Some s)"

function alps_loop :: "http2_settings \<Rightarrow> bytes \<Rightarrow> http2_settings option" where
  "alps_loop s data =
     (if data = [] then Some s
      else if length data < 9 then None
      else let n = word24 (data ! 0) (data ! 1) (data ! 2); body = take n (drop 9 data)
           in if n > 16384 \<or> n > length data - 9 then None
              else case alps_frame s (unat (data ! 3)) (data ! 4) (value32 (drop 5 data) mod 2 ^ 31) body of
                     None \<Rightarrow> None
                   | Some s1 \<Rightarrow> alps_loop s1 (drop (9 + n) data))"
  by auto
termination
  by (relation "measure (\<lambda>(s, data). length data)") auto

declare alps_loop.simps [simp del]

definition core_http2_alps_parse :: "bytes \<Rightarrow> http2_settings option" where
  "core_http2_alps_parse data = (if length data > 65535 then None else alps_loop default_settings data)"

section \<open>Responses\<close>

record http2_response =
  r_content_length :: nat
  r_received :: nat
  r_headers :: bool
  r_ended :: bool
  r_has_content_length :: bool
  r_no_body :: bool

definition finish_response :: "http2_response \<Rightarrow> bool \<Rightarrow> bool \<times> http2_response" where
  "finish_response st fin =
     (if \<not> fin then (True, st)
      else if r_has_content_length st \<and> \<not> r_no_body st \<and> r_received st \<noteq> r_content_length st then (False, st)
      else (True, st\<lparr>r_ended := True\<rparr>))"

definition core_http2_response_headers :: "http2_response \<Rightarrow> hpack_headers \<Rightarrow> bool \<Rightarrow> bool \<times> http2_response" where
  "core_http2_response_headers st hs fin =
     (if r_ended st \<or> other_pseudo hs \<noteq> {} \<or> has_te hs \<or> status hs = 101 then (False, st)
      else if status hs \<ge> 100 \<and> status hs < 200 then (\<not> (r_headers st \<or> fin \<or> has_content_length hs), st)
      else if \<not> r_headers st then
        (if status_seen hs = 0 \<or> status hs < 200 \<or> status hs > 599 then (False, st)
         else let st1 = st\<lparr>r_headers := True, r_has_content_length := has_content_length hs, r_content_length := content_length hs,
                           r_no_body := r_no_body st \<or> status hs = 204 \<or> status hs = 304\<rparr>
              in if status hs = 204 \<and> has_content_length hs then (False, st1) else finish_response st1 fin)
      else if status_seen hs \<noteq> 0 \<or> \<not> fin \<or> has_content_length hs then (False, st)
      else finish_response st fin)"

definition core_http2_response_data :: "http2_response \<Rightarrow> nat \<Rightarrow> bool \<Rightarrow> bool \<times> http2_response" where
  "core_http2_response_data st n fin =
     (if \<not> r_headers st \<or> r_ended st \<or> r_no_body st \<and> n \<noteq> 0 \<or> n > SIZE_MAX - r_received st then (False, st)
      else let st1 = st\<lparr>r_received := r_received st + n\<rparr>
           in if r_has_content_length st1 \<and> r_received st1 > r_content_length st1 then (False, st1)
              else finish_response st1 fin)"

section \<open>The order of frames\<close>

record http2_frame =
  f_type :: nat
  f_flags :: byte
  f_stream :: nat
  f_data :: bytes

definition validation_start :: http2_validation where
  "validation_start = \<lparr>continuation = 0, settings_received = False, settings_pending = 0, frame_fault = (CORE_HTTP2_ERROR_NONE, 0)\<rparr>"

text \<open>A connection lives through its frames until one is a connection error.\<close>

fun frames_run :: "http2_validation \<Rightarrow> http2_frame list \<Rightarrow> http2_validation option" where
  "frames_run st [] = Some st"
| "frames_run st (f # fs) =
     (case core_http2_validate_frame st (f_type f) (f_flags f) (f_stream f) (f_data f) of (v, st1) \<Rightarrow>
        if v = Connection_Error then None else frames_run st1 fs)"

text \<open>A frame that leaves its header block open.\<close>

definition leaves_open :: "http2_frame \<Rightarrow> bool" where
  "leaves_open f \<longleftrightarrow> (f_type f = 1 \<or> f_type f = 9) \<and> \<not> bit (f_flags f) 2"

lemma frames_run_append: "frames_run st (fs @ gs) = (case frames_run st fs of None \<Rightarrow> None | Some st1 \<Rightarrow> frames_run st1 gs)"
  by (induction st fs rule: frames_run.induct) (auto split: prod.splits)

lemma check_settings_state: "check_settings st data = Some (v, st1) \<Longrightarrow> v = Connection_Error"
  by (induction st data rule: check_settings.induct) (subst (asm) (2) check_settings.simps, auto simp: frame_error_def Let_def split: if_splits)

lemma check_headers_state:
  assumes "check_headers st flags stream data = (v, st1)" and "v \<noteq> Connection_Error"
  shows "continuation st1 = (if bit flags 2 then continuation st else stream) \<and> settings_received st1 = settings_received st"
proof -
  define start stop where "start = (if bit flags 3 then 1 else 0 :: nat)"
    and "stop = length data - (if bit flags 3 then unat (hd data) else 0)"
  define st2 where "st2 = (if \<not> bit flags 2 then st\<lparr>continuation := stream\<rparr> else st)"
  have "continuation st1 = continuation st2 \<and> settings_received st1 = settings_received st2"
    using assms unfolding check_headers_def Let_def start_def [symmetric] stop_def [symmetric] st2_def [symmetric]
    by (simp add: frame_error_def frame_ok_def split: if_split_asm) auto
  then show ?thesis by (simp add: st2_def)
qed

lemma check_settings_frame_state:
  assumes "check_settings_frame st flags stream data = (v, st1)" and "v \<noteq> Connection_Error"
  shows "continuation st1 = continuation st \<and> (settings_received st \<or> \<not> bit flags 0 \<longrightarrow> settings_received st1)"
proof (cases "bit flags 0")
  case True
  then show ?thesis using assms by (simp add: check_settings_frame_def frame_error_def frame_ok_def split: if_split_asm) auto
next
  case False
  with assms have "check_settings st data = None" "v = Frame_Ok"
    by (auto simp: check_settings_frame_def frame_error_def frame_ok_def dest: check_settings_state split: if_split_asm option.split_asm)
  then show ?thesis using False assms by (auto simp: check_settings_frame_def frame_error_def frame_ok_def split: if_split_asm)
qed

lemma validate_guards:
  assumes "core_http2_validate_frame st type flags stream data = (v, st1)" and "v \<noteq> Connection_Error"
  shows "stream \<le> 0x7FFFFFFF" "length data \<le> 16384" "\<not> (\<not> settings_received st \<and> (type \<noteq> 4 \<or> bit flags 0 \<or> stream \<noteq> 0))"
    "\<not> (continuation st \<noteq> 0 \<and> (type \<noteq> 9 \<or> stream \<noteq> continuation st))" "type = 9 \<Longrightarrow> continuation st = stream \<and> stream \<noteq> 0"
      apply (rule ccontr, use assms in \<open>simp add: core_http2_validate_frame_def Let_def\<close>)
     apply (rule ccontr, use assms in \<open>simp add: core_http2_validate_frame_def frame_error_def Let_def split: if_split_asm\<close>)
    apply (rule notI, use assms in \<open>simp add: core_http2_validate_frame_def frame_error_def Let_def split: if_split_asm\<close>)
   apply (rule notI, use assms in \<open>simp add: core_http2_validate_frame_def frame_error_def Let_def split: if_split_asm\<close>)
  apply (rule ccontr, use assms in \<open>simp add: core_http2_validate_frame_def frame_error_def Let_def split: if_split_asm\<close>)
  done

lemma validate_other:
  assumes "core_http2_validate_frame st type flags stream data = (v, st1)" and "v \<noteq> Connection_Error"
    and "type \<noteq> 1" "type \<noteq> 4" "type \<noteq> 9"
  shows "continuation st1 = continuation st \<and> settings_received st1 = settings_received st"
proof -
  have w: "v = fst (core_http2_validate_frame st type flags stream data)" "st1 = snd (core_http2_validate_frame st type flags stream data)"
    using assms(1) by simp_all
  show ?thesis using assms(3-5) unfolding w(2)
    by (simp add: core_http2_validate_frame_def Let_def frame_error_def frame_ok_def)
qed

lemma validate_state:
  assumes "core_http2_validate_frame st type flags stream data = (v, st1)" and "v \<noteq> Connection_Error"
  shows "continuation st1 = (if (type = 1 \<or> type = 9) \<and> \<not> bit flags 2 then stream else 0) \<and> settings_received st1 \<and>
    (settings_received st \<or> type = 4 \<and> \<not> bit flags 0 \<and> stream = 0) \<and>
    (if continuation st \<noteq> 0 then type = 9 \<and> stream = continuation st else type \<noteq> 9)"
proof -
  note g = validate_guards [OF assms]
  consider "type = 1" | "type = 4" | "type = 9" | "type \<noteq> 1" "type \<noteq> 4" "type \<noteq> 9" by blast
  then show ?thesis
  proof cases
    case 1
    then have "check_headers (st\<lparr>frame_fault := (CORE_HTTP2_ERROR_CONNECTION, 1)\<rparr>) flags stream data = (v, st1)"
      using assms(1) g by (simp add: core_http2_validate_frame_def Let_def not_less)
    from check_headers_state [OF this assms(2)] show ?thesis using 1 g by auto
  next
    case 2
    then have "check_settings_frame (st\<lparr>frame_fault := (CORE_HTTP2_ERROR_CONNECTION, 1)\<rparr>) flags stream data = (v, st1)"
      using assms(1) g by (auto simp: core_http2_validate_frame_def Let_def not_less split: if_split_asm)
    from check_settings_frame_state [OF this assms(2)] show ?thesis using 2 g by auto
  next
    case 3
    then have "st1 = snd (core_http2_validate_frame st 9 flags stream data)" using assms(1) by simp
    then have "st1 = snd (frame_ok ((if bit flags 2 then st\<lparr>continuation := 0\<rparr> else st)\<lparr>frame_fault := (CORE_HTTP2_ERROR_CONNECTION, 1)\<rparr>))"
      using 3 g by (simp add: core_http2_validate_frame_def Let_def frame_ok_def)
    then show ?thesis using 3 g by (simp add: frame_ok_def)
  next
    case 4
    then show ?thesis using validate_other [OF assms 4] g by auto
  qed
qed

lemma frames_run_snoc:
  assumes "frames_run st (fs @ [f]) = Some st2"
  obtains st0 v where "frames_run st fs = Some st0"
    "core_http2_validate_frame st0 (f_type f) (f_flags f) (f_stream f) (f_data f) = (v, st2)" "v \<noteq> Connection_Error"
  using assms by (auto simp: frames_run_append split: option.splits prod.splits if_splits)

lemma frames_run_state:
  "frames_run validation_start fs = Some st \<Longrightarrow>
   continuation st = (if fs \<noteq> [] \<and> leaves_open (last fs) then f_stream (last fs) else 0) \<and> (fs \<noteq> [] \<longrightarrow> settings_received st)"
proof (induction fs arbitrary: st rule: rev_induct)
  case (snoc f fs)
  from snoc(2) obtain st0 v where "core_http2_validate_frame st0 (f_type f) (f_flags f) (f_stream f) (f_data f) = (v, st)"
    "v \<noteq> Connection_Error" by (rule frames_run_snoc)
  from validate_state [OF this] show ?case by (simp add: leaves_open_def)
qed (simp add: validation_start_def)

text \<open>
  Property C19: a connection that survives its frames saw a well-formed sequence: it opens with a
  SETTINGS frame that is no acknowledgement, and a CONTINUATION frame comes exactly after a frame that
  leaves its header block open, on the same stream, so header blocks are never interleaved.
\<close>

theorem http2_frame_order:
  assumes "frames_run validation_start fs = Some st"
  shows "(fs \<noteq> [] \<longrightarrow> f_type (hd fs) = 4 \<and> \<not> bit (f_flags (hd fs)) 0 \<and> f_stream (hd fs) = 0) \<and>
    (\<forall>i. Suc i < length fs \<longrightarrow>
       (f_type (fs ! Suc i) = 9 \<longleftrightarrow> leaves_open (fs ! i) \<and> f_stream (fs ! i) \<noteq> 0) \<and>
       (leaves_open (fs ! i) \<and> f_stream (fs ! i) \<noteq> 0 \<longrightarrow> f_stream (fs ! Suc i) = f_stream (fs ! i)))"
proof (intro conjI allI impI)
  assume "fs \<noteq> []"
  then obtain f gs where f: "fs = f # gs" by (cases fs) auto
  then obtain v st1 where "core_http2_validate_frame validation_start (f_type f) (f_flags f) (f_stream f) (f_data f) = (v, st1)" "v \<noteq> Connection_Error"
    using assms by (auto split: prod.splits if_splits)
  from validate_state [OF this] show "f_type (hd fs) = 4" "\<not> bit (f_flags (hd fs)) 0" "f_stream (hd fs) = 0"
    by (auto simp: f validation_start_def)
next
  fix i
  assume i: "Suc i < length fs"
  have "fs = take (Suc i) fs @ fs ! Suc i # drop (Suc (Suc i)) fs" using i by (simp add: id_take_nth_drop)
  then obtain st0 where s0: "frames_run validation_start (take (Suc i) fs) = Some st0"
    and r: "frames_run st0 (fs ! Suc i # drop (Suc (Suc i)) fs) = Some st"
    using assms frames_run_append [of validation_start "take (Suc i) fs" "fs ! Suc i # drop (Suc (Suc i)) fs"]
    by (auto split: option.splits)
  obtain v st1 where v: "core_http2_validate_frame st0 (f_type (fs ! Suc i)) (f_flags (fs ! Suc i)) (f_stream (fs ! Suc i)) (f_data (fs ! Suc i)) = (v, st1)"
    "v \<noteq> Connection_Error" using r by (auto split: prod.splits if_splits)
  have "take (Suc i) fs \<noteq> []" "last (take (Suc i) fs) = fs ! i" using i by (auto simp: take_Suc_conv_app_nth)
  then have c: "continuation st0 = (if leaves_open (fs ! i) then f_stream (fs ! i) else 0)" using frames_run_state [OF s0] by simp
  show "(f_type (fs ! Suc i) = 9) = (leaves_open (fs ! i) \<and> f_stream (fs ! i) \<noteq> 0)"
    "leaves_open (fs ! i) \<and> f_stream (fs ! i) \<noteq> 0 \<Longrightarrow> f_stream (fs ! Suc i) = f_stream (fs ! i)"
    using validate_state [OF v] c by (auto split: if_splits)
qed

theorem http2_frame_order_witness:
  "let fs = [\<lparr>f_type = 4, f_flags = 0, f_stream = 0, f_data = []\<rparr>, \<lparr>f_type = 1, f_flags = 0, f_stream = 1, f_data = []\<rparr>,
             \<lparr>f_type = 9, f_flags = 4, f_stream = 1, f_data = []\<rparr>]
   in frames_run validation_start fs \<noteq> None \<and> f_stream (fs ! 2) = f_stream (fs ! 1)"
proof -
  let ?fs = "[\<lparr>f_type = 4, f_flags = 0, f_stream = 0, f_data = []\<rparr>, \<lparr>f_type = 1, f_flags = 0, f_stream = 1, f_data = []\<rparr>,
              \<lparr>f_type = 9, f_flags = 4, f_stream = 1, f_data = []\<rparr>]"
  have b: "bit (4 :: byte) 2" by (simp add: bit_numeral_rec)
  have "frames_run validation_start ?fs \<noteq> None"
    using b by (simp add: core_http2_validate_frame_def check_headers_def check_settings_frame_def check_settings.simps
        frame_ok_def validation_start_def Let_def)
  then obtain st where "frames_run validation_start ?fs = Some st" by blast
  with http2_frame_order [OF this] show ?thesis by (auto simp: Let_def leaves_open_def numeral_2_eq_2 dest!: spec [of _ 1])
qed

section \<open>Settings stay in their ranges\<close>

definition settings_ok :: "http2_settings \<Rightarrow> bool" where
  "settings_ok s \<longleftrightarrow> 16384 \<le> max_frame s \<and> max_frame s \<le> 16777215 \<and> int (initial_window s) \<le> INT_MAX"

lemma apply_settings_ok:
  "check_settings st data = None \<Longrightarrow> settings_ok s \<Longrightarrow> settings_ok (apply_settings s data)"
proof (induction s data rule: apply_settings.induct)
  case (1 s data)
  show ?case
  proof (cases "data = []")
    case False
    define id v where "id = word16 (data ! 0) (data ! 1)" and "v = value32 (drop 2 data)"
    define s1 where "s1 = (if id = 1 then s\<lparr>table_size := v\<rparr> else if id = 3 then s\<lparr>concurrency := v\<rparr>
      else if id = 4 then s\<lparr>initial_window := v\<rparr> else if id = 5 then s\<lparr>max_frame := v\<rparr>
      else if id = 6 then s\<lparr>header_limit := v\<rparr> else s)"
    have c: "\<not> (id = 4 \<and> int v > INT_MAX)" "\<not> (id = 5 \<and> (v < 16384 \<or> v > 16777215))" "check_settings st (drop 6 data) = None"
      using 1(2) False by (subst (asm) check_settings.simps, auto simp: Let_def id_def v_def split: if_splits)+
    have "settings_ok s1" using 1(3) c(1,2) by (auto simp: settings_ok_def s1_def)
    then have "settings_ok (apply_settings s1 (drop 6 data))" using 1(1) [OF False id_def v_def s1_def c(3)] by blast
    moreover have "apply_settings s data = apply_settings s1 (drop 6 data)"
      by (subst apply_settings.simps) (simp only: False if_False Let_def id_def v_def s1_def)
    ultimately show ?thesis by simp
  qed (use 1(3) in \<open>simp add: apply_settings.simps\<close>)
qed

lemma alps_frame_ok: "alps_frame s type flags stream body = Some s1 \<Longrightarrow> settings_ok s \<Longrightarrow> settings_ok s1"
proof -
  assume f: "alps_frame s type flags stream body = Some s1" and s: "settings_ok s"
  show ?thesis
  proof (cases "type = 4")
    case True
    let ?st = "\<lparr>continuation = 0, settings_received = True, settings_pending = 0, frame_fault = (CORE_HTTP2_ERROR_CONNECTION, 1)\<rparr>"
    have "check_settings ?st body = None" "s1 = apply_settings (s\<lparr>settings_seen := True\<rparr>) body"
      using f True by (auto simp: alps_frame_def core_http2_validate_frame_def check_settings_frame_def Let_def frame_error_def
          split: if_splits option.splits dest: check_settings_state)
    then show ?thesis using apply_settings_ok [of ?st body "s\<lparr>settings_seen := True\<rparr>"] s by (simp add: settings_ok_def)
  next
    case False
    then show ?thesis using f s by (auto simp: alps_frame_def split: if_splits)
  qed
qed

text \<open>
  Whatever bytes a server puts into its ALPS settings, if they are accepted the frame size
  stays between 16384 and 16777215 and the initial window within 31 bits.
\<close>

lemma http2_alps_bounds:
  assumes "core_http2_alps_parse data = Some s"
  shows "16384 \<le> max_frame s \<and> max_frame s \<le> 16777215 \<and> int (initial_window s) \<le> INT_MAX"
proof -
  have "settings_ok s1" if "alps_loop s0 xs = Some s1" "settings_ok s0" for s0 s1 xs
    using that
  proof (induction s0 xs rule: alps_loop.induct)
    case (1 s0 xs)
    show ?case
    proof (cases "xs = []")
      case False
      then obtain s2 where s2: "alps_frame s0 (unat (xs ! 3)) (xs ! 4) (value32 (drop 5 xs) mod 2 ^ 31)
          (take (word24 (xs ! 0) (xs ! 1) (xs ! 2)) (drop 9 xs)) = Some s2"
        and g: "\<not> length xs < 9" "\<not> (word24 (xs ! 0) (xs ! 1) (xs ! 2) > 16384 \<or> word24 (xs ! 0) (xs ! 1) (xs ! 2) > length xs - 9)"
        and r: "alps_loop s2 (drop (9 + word24 (xs ! 0) (xs ! 1) (xs ! 2)) xs) = Some s1"
        using 1(2) by (subst (asm) alps_loop.simps) (auto simp: Let_def split: if_splits option.splits)
      show ?thesis using 1(1) [OF False g(1) refl refl g(2) s2 r] alps_frame_ok [OF s2 1(3)] by blast
    qed (use 1 in \<open>simp add: alps_loop.simps\<close>)
  qed
  then have "settings_ok s"
    using assms by (auto simp: core_http2_alps_parse_def default_settings_def settings_ok_def INT_MAX_def split: if_splits)
  then show ?thesis by (simp add: settings_ok_def)
qed

lemma http2_alps_bounds_witness:
  "\<exists>s. core_http2_alps_parse [] = Some s \<and> 16384 \<le> max_frame s"
proof -
  have "core_http2_alps_parse [] = Some default_settings" by (simp add: core_http2_alps_parse_def alps_loop.simps)
  then show ?thesis using http2_alps_bounds by blast
qed

section \<open>A response keeps its length\<close>

text \<open>The events of a response that are accepted; \<open>no_body\<close> may be set at the start, for a HEAD request.\<close>

inductive response_step :: "http2_response \<Rightarrow> http2_response \<Rightarrow> bool" where
  headers: "core_http2_response_headers st hs fin = (True, st1) \<Longrightarrow> response_step st st1"
| data: "core_http2_response_data st n fin = (True, st1) \<Longrightarrow> response_step st st1"

definition response_begin :: "bool \<Rightarrow> http2_response" where
  "response_begin no_body = \<lparr>r_content_length = 0, r_received = 0, r_headers = False, r_ended = False,
     r_has_content_length = False, r_no_body = no_body\<rparr>"

definition response_inv :: "http2_response \<Rightarrow> bool" where
  "response_inv st \<longleftrightarrow> (\<not> r_headers st \<longrightarrow> r_received st = 0 \<and> \<not> r_ended st) \<and> (r_no_body st \<longrightarrow> r_received st = 0) \<and>
     (r_has_content_length st \<longrightarrow> r_received st \<le> r_content_length st) \<and>
     (r_ended st \<and> r_has_content_length st \<and> \<not> r_no_body st \<longrightarrow> r_received st = r_content_length st)"

lemma response_step_inv: "response_step st st1 \<Longrightarrow> response_inv st \<Longrightarrow> response_inv st1 \<and> \<not> r_ended st"
  by (induction rule: response_step.induct)
    (auto simp: response_inv_def core_http2_response_headers_def core_http2_response_data_def finish_response_def Let_def split: if_splits)

text \<open>
  Property C34: in every response, body bytes come only after its headers, never when it has no body, and
  never beyond its content length; one that ends has delivered exactly its content length, and accepts
  nothing more.
\<close>

theorem http2_response_exact:
  assumes "response_step\<^sup>*\<^sup>* (response_begin no_body) st"
  shows "(r_received st > 0 \<longrightarrow> r_headers st \<and> \<not> r_no_body st) \<and>
    (r_has_content_length st \<longrightarrow> r_received st \<le> r_content_length st) \<and>
    (r_ended st \<longrightarrow> (\<forall>st1. \<not> response_step st st1) \<and>
       (r_has_content_length st \<and> \<not> r_no_body st \<longrightarrow> r_received st = r_content_length st))"
proof -
  from assms have "response_inv st"
  proof (induction rule: rtranclp_induct)
    case base
    show ?case by (simp add: response_inv_def response_begin_def)
  next
    case (step y z)
    then show ?case using response_step_inv by blast
  qed
  then show ?thesis using response_step_inv [of st] by (auto simp: response_inv_def)
qed

theorem http2_response_exact_witness:
  "\<exists>st. response_step\<^sup>*\<^sup>* (response_begin False) st \<and> r_ended st \<and> r_received st = 5 \<and> r_content_length st = 5"
proof -
  let ?hs = "no_headers\<lparr>status := 200, status_seen := 1, has_content_length := True, content_length := 5\<rparr>"
  let ?s1 = "(response_begin False)\<lparr>r_headers := True, r_has_content_length := True, r_content_length := 5\<rparr>"
  let ?s2 = "?s1\<lparr>r_received := 5, r_ended := True\<rparr>"
  have "response_step (response_begin False) ?s1"
    by (rule response_step.headers [of _ ?hs False])
      (simp add: core_http2_response_headers_def response_begin_def no_headers_def finish_response_def Let_def)
  moreover have "response_step ?s1 ?s2"
    by (rule response_step.data [of _ 5 True])
      (simp add: core_http2_response_data_def response_begin_def finish_response_def SIZE_MAX_def Let_def)
  ultimately have r: "response_step\<^sup>*\<^sup>* (response_begin False) ?s2" by (rule converse_rtranclp_into_rtranclp [OF _ r_into_rtranclp])
  with http2_response_exact [OF r] have "r_received ?s2 = r_content_length ?s2" by (simp add: response_begin_def)
  with r show ?thesis by (intro exI [of _ ?s2]) (simp add: response_begin_def)
qed

end
