(* ===== verification/Http1.thy ===== *)
theory Http1
  imports Hpack
begin

text \<open>
  The reader of HTTP/1 responses, \<^verbatim>\<open>src/src/http1.c\<close>: status line and header fields, bodies of a
  declared length, chunked bodies with extensions and trailers, and bodies that last until the
  connection closes.  The parser is called with the bytes that are buffered and reports one event.  Its
  loop would not end in an unknown state, so it is a partial function; the theorems show that it returns
  in every state the parser can have, that its events stay inside the buffer, and that a chunked body is
  read back exactly.
\<close>

section \<open>Lines, numbers and tokens\<close>

abbreviation ctl :: "byte \<Rightarrow> bool" where
  "ctl b \<equiv> unat b < 0x20 \<and> b \<noteq> 9 \<or> unat b = 0x7F"

text \<open>The length of the first line with its end, zero when there is none.\<close>

fun line_length :: "bytes \<Rightarrow> nat" where
  "line_length (a # b # r) =
     (if a = 13 \<and> b = 10 then 2 else let n = line_length (b # r) in if n = 0 then 0 else Suc n)"
| "line_length _ = 0"

fun header_end :: "bytes \<Rightarrow> nat" where
  "header_end [] = 0"
| "header_end (a # r) =
     (if take 4 (a # r) = [13, 10, 13, 10] then 4 else let n = header_end r in if n = 0 then 0 else Suc n)"

definition digit_of :: "byte \<Rightarrow> nat" where
  "digit_of b =
     (let n = unat b
      in if 48 \<le> n \<and> n \<le> 57 then n - 48 else if 97 \<le> n \<and> n \<le> 102 then n - 97 + 10
         else if 65 \<le> n \<and> n \<le> 70 then n - 65 + 10 else 255)"

text \<open>The number is stored as it is read, also when the text turns out to be invalid.\<close>

fun number_loop :: "nat \<Rightarrow> nat \<Rightarrow> bytes \<Rightarrow> bool \<times> nat" where
  "number_loop base v [] = (True, v)"
| "number_loop base v (b # r) =
     (let d = digit_of b
      in if d \<ge> base \<or> v > (SIZE_MAX - d) div base then (False, v) else number_loop base (v * base + d) r)"

definition number :: "bytes \<Rightarrow> nat \<Rightarrow> nat \<Rightarrow> bool \<times> nat" where
  "number data base old = (if data = [] then (False, old) else number_loop base 0 data)"

definition token :: "bytes \<Rightarrow> bool" where
  "token data \<longleftrightarrow> data \<noteq> [] \<and> list_all media_token data"

text \<open>One chunk extension \<^verbatim>\<open>;name\<close> or \<^verbatim>\<open>;name=value\<close>: what follows it.\<close>

definition chunk_extension :: "bytes \<Rightarrow> bytes option" where
  "chunk_extension xs =
     (case dropWhile blank xs of
        [] \<Rightarrow> None
      | c # r \<Rightarrow>
          if c \<noteq> 59 then None
          else let r1 = dropWhile blank r; r2 = dropWhile media_token r1; r3 = dropWhile blank r2
               in if takeWhile media_token r1 = [] then None
                  else if r3 = [] \<or> hd r3 \<noteq> 61 then Some r2
                  else let r4 = dropWhile blank (tl r3)
                       in if r4 \<noteq> [] \<and> hd r4 = 34 then quoted_rest (tl r4)
                          else if takeWhile media_token r4 = [] then None
                          else Some (dropWhile media_token r4))"

lemma chunk_extension_shorter: "chunk_extension xs = Some r \<Longrightarrow> length r < length xs"
proof -
  assume p: "chunk_extension xs = Some r"
  obtain c s where c: "dropWhile blank xs = c # s" using p by (auto simp: chunk_extension_def split: list.splits)
  define t where "t = dropWhile media_token (dropWhile blank s)"
  define u where "u = dropWhile blank (tl (dropWhile blank t))"
  have le: "length t \<le> length s" "length u \<le> length t"
    using length_dropWhile_le [of media_token "dropWhile blank s"] length_dropWhile_le [of blank s]
      length_dropWhile_le [of blank "tl (dropWhile blank t)"] length_dropWhile_le [of blank t]
    by (simp_all add: t_def u_def)
  have "length r \<le> length t"
    using p c le quoted_rest_shorter [of "tl u" r] length_dropWhile_le [of media_token u]
    by (auto simp: chunk_extension_def Let_def t_def [symmetric] u_def [symmetric] split: if_splits)
  then show ?thesis using le c length_dropWhile_le [of blank xs] by simp
qed

function chunk_extensions :: "bytes \<Rightarrow> bool" where
  "chunk_extensions xs =
     (if xs = [] then True
      else case chunk_extension xs of None \<Rightarrow> False | Some r \<Rightarrow> chunk_extensions r)"
  by auto
termination
  by (relation "measure length") (auto dest: chunk_extension_shorter)

declare chunk_extensions.simps [simp del]

definition trim_end :: "bytes \<Rightarrow> bytes" where
  "trim_end xs = rev (dropWhile blank (rev xs))"

text \<open>Whether a comma-separated list has a word, in any case.\<close>

function contains_token :: "bytes \<Rightarrow> string \<Rightarrow> bool" where
  "contains_token xs word =
     (if xs = [] then False
      else let r = dropWhile (\<lambda>b. blank b \<or> b = 44) xs; part = takeWhile (\<lambda>b. b \<noteq> 44) r
           in if same_text (trim_end part) word then True else contains_token (dropWhile (\<lambda>b. b \<noteq> 44) r) word)"
  by auto
termination
proof (relation "measure (\<lambda>(xs, word). length xs)")
  fix xs :: bytes and word :: string and r part
  assume x: "xs \<noteq> []" "r = dropWhile (\<lambda>b. blank b \<or> b = 44) xs"
  have "length (dropWhile (\<lambda>b. b \<noteq> 44) r) < length xs"
  proof (cases r)
    case Nil
    show ?thesis unfolding Nil using x(1) by simp
  next
    case (Cons a s)
    have "dropWhile (\<lambda>b. blank b \<or> b = 44) xs = a # s" using x(2) Cons by simp
    then have "\<not> (blank a \<or> a = 44)" unfolding dropWhile_eq_Cons_conv by (rule conjunct2)
    then have "length (dropWhile (\<lambda>b. b \<noteq> 44) r) < length r" using Cons by (simp add: le_imp_less_Suc length_dropWhile_le)
    also have "length r \<le> length xs" unfolding x(2) by (rule length_dropWhile_le)
    finally show ?thesis .
  qed
  then show "((dropWhile (\<lambda>b. b \<noteq> 44) r, word), (xs, word)) \<in> measure (\<lambda>(xs, word). length xs)" by simp
qed simp

declare contains_token.simps [simp del]

section \<open>Headers\<close>

record http1_response =
  p_state :: nat
  p_chunked :: bool
  p_close :: bool
  p_close_delimited :: bool
  p_head :: bool
  p_remaining :: nat
  p_header_bytes :: nat

record http1_event =
  e_kind :: nat
  e_status :: nat
  e_close :: bool
  e_consumed :: nat
  e_offset :: nat
  e_length :: nat

definition no_event :: http1_event where
  "no_event = \<lparr>e_kind = 0, e_status = 0, e_close = False, e_consumed = 0, e_offset = 0, e_length = 0\<rparr>"

datatype http1_result = Http1_Event | Http1_More | Http1_Invalid

text \<open>What the fields of a header say about its body.\<close>

record http1_fields =
  seen_length :: bool
  seen_encoding :: bool
  close_connection :: bool
  body_length :: nat

definition header_field :: "bool \<Rightarrow> bytes \<Rightarrow> http1_fields \<Rightarrow> http1_fields option" where
  "header_field old_version line f =
     (let name = takeWhile (\<lambda>b. b \<noteq> 58) line;
          val = trim_end (dropWhile blank (drop (length name + 1) line))
      in if length name = length line \<or> \<not> token name then None
         else if list_ex ctl val then None
         else if same_text name ''Content-Length'' then
           (case number val 10 0 of (ok, parsed) \<Rightarrow>
              if \<not> ok \<or> seen_length f \<and> parsed \<noteq> body_length f then None
              else Some (f\<lparr>body_length := parsed, seen_length := True\<rparr>))
         else if same_text name ''Transfer-Encoding'' then
           (if seen_encoding f \<or> \<not> same_text val ''chunked'' then None else Some (f\<lparr>seen_encoding := True\<rparr>))
         else if same_text name ''Connection'' then
           (if contains_token val ''close'' then Some (f\<lparr>close_connection := True\<rparr>)
            else if old_version \<and> contains_token val ''keep-alive'' then Some (f\<lparr>close_connection := False\<rparr>)
            else Some f)
         else Some f)"

function header_fields :: "bool \<Rightarrow> bytes \<Rightarrow> http1_fields \<Rightarrow> http1_fields option" where
  "header_fields old_version xs f =
     (if length xs \<le> 2 then Some f
      else let n = line_length xs
           in if n = 0 \<or> n = 2 then Some f
              else case header_field old_version (take (n - 2) xs) f of
                     None \<Rightarrow> None
                   | Some f1 \<Rightarrow> header_fields old_version (drop n xs) f1)"
  by auto
termination
  by (relation "measure (\<lambda>(old_version, xs, f). length xs)") auto

declare header_fields.simps [simp del]

definition status_line :: "bytes \<Rightarrow> nat \<Rightarrow> nat option" where
  "status_line data line =
     (if line < 14 \<or> take 9 data \<noteq> text_bytes ''HTTP/1.1 '' \<and> take 9 data \<noteq> text_bytes ''HTTP/1.0 '' \<or>
         unat (data ! 9) < 49 \<or> unat (data ! 9) > 53 \<or> unat (data ! 10) < 48 \<or> unat (data ! 10) > 57 \<or>
         unat (data ! 11) < 48 \<or> unat (data ! 11) > 57 \<or> data ! 12 \<noteq> 32 then None
      else if list_ex ctl (take (line - 2 - 13) (drop 13 data)) then None
      else let scode = (unat (data ! 9) - 48) * 100 + (unat (data ! 10) - 48) * 10 + (unat (data ! 11) - 48)
           in if scode = 101 then None else Some scode)"

text \<open>The state of the parser after the header of a final response.\<close>

definition begin_body :: "http1_response \<Rightarrow> nat \<Rightarrow> http1_fields \<Rightarrow> http1_response" where
  "begin_body p scode f =
     (if p_head p then p\<lparr>p_remaining := 0, p_state := 1, p_close := close_connection f\<rparr>
      else let p1 = p\<lparr>p_chunked := seen_encoding f, p_close := close_connection f,
                      p_close_delimited := \<not> seen_length f \<and> \<not> seen_encoding f,
                      p_remaining := (if seen_length f then body_length f else SIZE_MAX),
                      p_state := (if seen_encoding f then 2 else 1)\<rparr>;
               p2 = (if \<not> seen_encoding f \<and> \<not> seen_length f then p1\<lparr>p_close := True\<rparr> else p1)
           in if scode = 204 \<or> scode = 304 then p2\<lparr>p_remaining := 0, p_state := 1\<rparr> else p2)"

definition headers :: "http1_response \<Rightarrow> bytes \<Rightarrow> http1_result \<times> http1_response \<times> http1_event" where
  "headers p data =
     (let fin = header_end data; line = line_length (take fin data)
      in if fin = 0 then (if length data > 65536 then Http1_Invalid else Http1_More, p, no_event)
         else if fin > 65536 then (Http1_Invalid, p, no_event)
         else case status_line data line of
                None \<Rightarrow> (Http1_Invalid, p, no_event)
              | Some scode \<Rightarrow>
                  (case header_fields (data ! 7 = 48) (drop line (take fin data))
                          \<lparr>seen_length = False, seen_encoding = False, close_connection = (data ! 7 = 48), body_length = 0\<rparr> of
                     None \<Rightarrow> (Http1_Invalid, p, no_event)
                   | Some f \<Rightarrow>
                       if seen_encoding f \<and> seen_length f then (Http1_Invalid, p, no_event)
                       else let ev = no_event\<lparr>e_kind := 1, e_status := scode, e_consumed := fin\<rparr>
                            in if scode < 200 then (Http1_Event, p, ev)
                               else let p1 = begin_body p scode f in (Http1_Event, p1, ev\<lparr>e_close := p_close p1\<rparr>)))"

section \<open>Bodies\<close>

text \<open>A part of an iteration leaves with a result (\<open>Inl\<close>) or goes on with the bytes that remain.\<close>

type_synonym http1_out = "http1_result \<times> http1_response \<times> http1_event"
type_synonym http1_work = "http1_response \<times> bytes \<times> http1_event"

definition body_part :: "http1_response \<Rightarrow> bytes \<Rightarrow> bool \<Rightarrow> nat \<Rightarrow> http1_event \<Rightarrow> http1_out + http1_work" where
  "body_part p data eof capacity ev =
     (if p_remaining p = 0 then
        (if p_state p = 3 then Inr (p\<lparr>p_state := 4\<rparr>, data, ev)
         else Inl (Http1_Event, p\<lparr>p_state := 7\<rparr>, ev\<lparr>e_kind := 3, e_close := p_close p\<rparr>))
      else if data = [] then
        (if eof \<and> p_state p = 1 \<and> p_close_delimited p then Inr (p\<lparr>p_remaining := 0\<rparr>, data, ev)
         else Inl (if eof then Http1_Invalid else Http1_More, p, ev))
      else if capacity = 0 then Inl (Http1_More, p, ev)
      else let n = min (min (length data) capacity) (p_remaining p)
           in Inl (Http1_Event, (if \<not> p_close_delimited p then p\<lparr>p_remaining := p_remaining p - n\<rparr> else p),
                   ev\<lparr>e_kind := 2, e_offset := e_consumed ev, e_length := n, e_consumed := e_consumed ev + n\<rparr>))"

definition chunk_crlf :: "http1_response \<Rightarrow> bytes \<Rightarrow> bool \<Rightarrow> http1_event \<Rightarrow> http1_out + http1_work" where
  "chunk_crlf p data eof ev =
     (if length data < 2 then Inl (if eof then Http1_Invalid else Http1_More, p, ev)
      else if take 2 data \<noteq> [13, 10] then Inl (Http1_Invalid, p, ev)
      else Inr (p\<lparr>p_state := 2\<rparr>, drop 2 data, ev\<lparr>e_consumed := e_consumed ev + 2\<rparr>))"

definition is_hex_digit :: "byte \<Rightarrow> bool" where
  "is_hex_digit b \<longleftrightarrow> digit_of b < 16"

definition chunk_line :: "http1_response \<Rightarrow> bytes \<Rightarrow> bool \<Rightarrow> http1_event \<Rightarrow> http1_out + http1_work" where
  "chunk_line p data eof ev =
     (let line = line_length data; digits = takeWhile is_hex_digit (take (line - 2) data)
      in if line = 0 then Inl (if eof \<or> length data > 1024 then Http1_Invalid else Http1_More, p, ev)
         else case number digits 16 (p_remaining p) of (ok, v) \<Rightarrow>
           if \<not> ok \<or> \<not> chunk_extensions (drop (length digits) (take (line - 2) data)) then
             Inl (Http1_Invalid, p\<lparr>p_remaining := v\<rparr>, ev)
           else Inr (p\<lparr>p_remaining := v, p_state := (if v \<noteq> 0 then 3 else 5)\<rparr>, drop line data,
                     ev\<lparr>e_consumed := e_consumed ev + line\<rparr>))"

definition trailer_ok :: "bytes \<Rightarrow> bool" where
  "trailer_ok line =
     (let name = takeWhile (\<lambda>b. b \<noteq> 58) line
      in length name \<noteq> length line \<and> token name \<and>
         \<not> (same_text name ''Content-Length'' \<or> same_text name ''Transfer-Encoding'' \<or> same_text name ''Trailer'') \<and>
         \<not> list_ex ctl (drop (length name + 1) line))"

definition trailer_line :: "http1_response \<Rightarrow> bytes \<Rightarrow> bool \<Rightarrow> http1_event \<Rightarrow> http1_out + http1_work" where
  "trailer_line p data eof ev =
     (let line = line_length data
      in if line = 0 then
           Inl (if eof \<or> szadd (p_header_bytes p) (length data) > 65536 then Http1_Invalid else Http1_More, p, ev)
         else let p1 = p\<lparr>p_header_bytes := szadd (p_header_bytes p) line\<rparr>
              in if p_header_bytes p1 > 65536 then Inl (Http1_Invalid, p1, ev)
                 else if line > 2 \<and> \<not> trailer_ok (take (line - 2) data) then Inl (Http1_Invalid, p1, ev)
                 else let ev1 = ev\<lparr>e_consumed := e_consumed ev + line\<rparr>
                      in if line = 2 then Inl (Http1_Event, p1\<lparr>p_state := 7\<rparr>, ev1\<lparr>e_kind := 3, e_close := p_close p1\<rparr>)
                         else Inr (p1, drop line data, ev1))"

text \<open>One pass through the body of the loop.\<close>

definition http1_pass :: "http1_response \<Rightarrow> bytes \<Rightarrow> bool \<Rightarrow> nat \<Rightarrow> http1_event \<Rightarrow> http1_out + http1_work" where
  "http1_pass p data eof capacity ev =
     (if p_state p = 1 \<or> p_state p = 3 then body_part p data eof capacity ev
      else case (if p_state p = 4 then chunk_crlf p data eof ev else Inr (p, data, ev)) of
             Inl out \<Rightarrow> Inl out
           | Inr (p1, data1, ev1) \<Rightarrow>
               (case (if p_state p1 = 2 then chunk_line p1 data1 eof ev1 else Inr (p1, data1, ev1)) of
                  Inl out \<Rightarrow> Inl out
                | Inr (p2, data2, ev2) \<Rightarrow>
                    (if p_state p2 = 5 then trailer_line p2 data2 eof ev2 else Inr (p2, data2, ev2))))"

partial_function (option) http1_loop ::
  "http1_response \<Rightarrow> bytes \<Rightarrow> bool \<Rightarrow> nat \<Rightarrow> http1_event \<Rightarrow> http1_out option" where
  "http1_loop p data eof capacity ev =
     (case http1_pass p data eof capacity ev of
        Inl out \<Rightarrow> Some out
      | Inr (p1, data1, ev1) \<Rightarrow> http1_loop p1 data1 eof capacity ev1)"

definition core_http1_next :: "http1_response \<Rightarrow> bytes \<Rightarrow> bool \<Rightarrow> nat \<Rightarrow> http1_out option" where
  "core_http1_next p data eof capacity =
     (if p_state p = 0 then
        (case headers p data of (result, p1, ev) \<Rightarrow>
           Some (if result = Http1_More \<and> eof then Http1_Invalid else result, p1, ev))
      else if p_state p = 7 then Some (if data \<noteq> [] then Http1_Invalid else Http1_More, p, no_event)
      else http1_loop p data eof capacity no_event)"

section \<open>Every call returns\<close>

lemma line_length_bounds: "line_length xs \<le> length xs \<and> (line_length xs \<noteq> 0 \<longrightarrow> 2 \<le> line_length xs)"
  by (induction xs rule: line_length.induct) (auto simp: Let_def)

lemma header_end_bounds: "header_end xs \<le> length xs"
  by (induction xs rule: header_end.induct) (auto simp: Let_def dest: arg_cong [of _ _ length] split: if_splits)

definition known_state :: "http1_response \<Rightarrow> bool" where
  "known_state p \<longleftrightarrow> p_state p \<in> {0, 1, 2, 3, 4, 5, 7}"

text \<open>
  What a part of an iteration may do: leave with an event that lies in the buffer, or go on in a known
  state after consuming some bytes.
\<close>

definition part_ok :: "nat \<Rightarrow> bytes \<Rightarrow> http1_event \<Rightarrow> http1_out + http1_work \<Rightarrow> bool" where
  "part_ok capacity data ev x \<longleftrightarrow>
     (case x of
        Inl (r, p1, ev1) \<Rightarrow>
          known_state p1 \<and> e_consumed ev1 \<le> e_consumed ev + length data \<and> e_offset ev1 + e_length ev1 \<le> e_consumed ev1 \<and>
          (r = Http1_Event \<longrightarrow>
             e_kind ev1 = 3 \<and> p_state p1 = 7 \<or> e_kind ev1 = 2 \<and> 0 < e_length ev1 \<and> e_length ev1 \<le> capacity)
      | Inr (p1, data1, ev1) \<Rightarrow>
          p_state p1 \<in> {1, 2, 3, 4, 5} \<and>
          (\<exists>n \<le> length data. data1 = drop n data \<and> ev1 = ev\<lparr>e_consumed := e_consumed ev + n\<rparr>))"

abbreviation event_ok :: "http1_event \<Rightarrow> bool" where
  "event_ok ev \<equiv> e_offset ev + e_length ev \<le> e_consumed ev"

definition loop_weight :: "http1_response \<Rightarrow> bytes \<Rightarrow> nat" where
  "loop_weight p data = 2 * length data + (if p_state p = 3 \<or> p_state p = 1 \<and> p_remaining p \<noteq> 0 then 1 else 0)"

lemma part_ok_then:
  assumes "part_ok capacity data ev (Inr (p1, data1, ev1))" and "part_ok capacity data1 ev1 x"
  shows "part_ok capacity data ev x"
proof -
  obtain n where n: "n \<le> length data" "data1 = drop n data" "ev1 = ev\<lparr>e_consumed := e_consumed ev + n\<rparr>"
    using assms(1) by (auto simp: part_ok_def)
  show ?thesis
  proof (cases x)
    case (Inl out)
    then show ?thesis using assms(2) n by (cases out) (auto simp: part_ok_def)
  next
    case (Inr work)
    obtain p2 data2 ev2 where w: "work = (p2, data2, ev2)" by (cases work)
    obtain k where k: "k \<le> length data1" "data2 = drop k data1" "ev2 = ev1\<lparr>e_consumed := e_consumed ev1 + k\<rparr>"
      and s: "p_state p2 \<in> {1, 2, 3, 4, 5}"
      using assms(2) Inr w by (auto simp: part_ok_def)
    have "k + n \<le> length data" "data2 = drop (k + n) data" "ev2 = ev\<lparr>e_consumed := e_consumed ev + (k + n)\<rparr>" using k n by simp_all
    then show ?thesis using Inr w s unfolding part_ok_def by auto
  qed
qed

lemma body_part_ok:
  assumes "p_state p = 1 \<or> p_state p = 3" and "event_ok ev"
  shows "part_ok capacity data ev (body_part p data eof capacity ev)"
  using assms by (auto simp: body_part_def part_ok_def known_state_def Let_def intro: exI [of _ 0])

lemma body_part_less:
  assumes "p_state p = 1 \<or> p_state p = 3" and "body_part p data eof capacity ev = Inr (p1, data1, ev1)"
  shows "loop_weight p1 data1 < loop_weight p data"
  using assms by (auto simp: body_part_def loop_weight_def Let_def split: if_splits)

lemma chunk_crlf_ok:
  assumes "p_state p = 4" and "event_ok ev"
  shows "part_ok capacity data ev (chunk_crlf p data eof ev)"
  using assms by (auto simp: chunk_crlf_def part_ok_def known_state_def intro: exI [of _ 2])

lemma chunk_line_ok:
  assumes "p_state p = 2" and "event_ok ev"
  shows "part_ok capacity data ev (chunk_line p data eof ev)"
  using assms line_length_bounds [of data]
  by (auto simp: chunk_line_def part_ok_def known_state_def Let_def split: prod.splits)

lemma trailer_line_ok:
  assumes "p_state p = 5" and "event_ok ev"
  shows "part_ok capacity data ev (trailer_line p data eof ev)"
  using assms line_length_bounds [of data] by (auto simp: trailer_line_def part_ok_def known_state_def Let_def)

lemma parts_shrink:
  "chunk_crlf p data eof ev = Inr (p1, data1, ev1) \<Longrightarrow> length data1 < length data \<and> p_state p1 = 2"
  "chunk_line p data eof ev = Inr (p1, data1, ev1) \<Longrightarrow> length data1 < length data"
  "trailer_line p data eof ev = Inr (p1, data1, ev1) \<Longrightarrow> length data1 < length data"
  using line_length_bounds [of data]
  by (auto simp: chunk_crlf_def chunk_line_def trailer_line_def Let_def split: if_splits prod.splits)

lemma part_ok_event: "part_ok capacity data ev (Inr (p1, data1, ev1)) \<Longrightarrow> event_ok ev \<Longrightarrow> event_ok ev1"
  by (auto simp: part_ok_def)

lemma part_ok_skip: "p_state p \<in> {1, 2, 3, 4, 5} \<Longrightarrow> part_ok capacity data ev (Inr (p, data, ev))"
  by (auto simp: part_ok_def intro: exI [of _ 0])

text \<open>A pass of the loop is three optional parts in sequence, each of which keeps to the buffer.\<close>

lemma http1_pass_ok:
  assumes "p_state p \<in> {1, 2, 3, 4, 5}" and "event_ok ev"
  shows "part_ok capacity data ev (http1_pass p data eof capacity ev)"
proof (cases "p_state p = 1 \<or> p_state p = 3")
  case True
  then show ?thesis using body_part_ok assms(2) by (simp add: http1_pass_def)
next
  case F: False
  define x where "x = (if p_state p = 4 then chunk_crlf p data eof ev else Inr (p, data, ev))"
  have x: "part_ok capacity data ev x" using assms by (auto simp: x_def intro!: chunk_crlf_ok part_ok_skip)
  show ?thesis
  proof (cases x)
    case (Inl out)
    then show ?thesis using F x by (simp add: http1_pass_def x_def [symmetric])
  next
    case (Inr work)
    obtain p1 data1 ev1 where w: "work = (p1, data1, ev1)" by (cases work)
    have ok1: "part_ok capacity data ev (Inr (p1, data1, ev1))" using x Inr w by simp
    note e1 = part_ok_event [OF ok1 assms(2)]
    have s1: "p_state p1 \<in> {1, 2, 3, 4, 5}" using ok1 by (auto simp: part_ok_def)
    define y where "y = (if p_state p1 = 2 then chunk_line p1 data1 eof ev1 else Inr (p1, data1, ev1))"
    have y: "part_ok capacity data1 ev1 y" using e1 s1 by (auto simp: y_def intro!: chunk_line_ok part_ok_skip)
    show ?thesis
    proof (cases y)
      case Inly: (Inl out)
      then have "http1_pass p data eof capacity ev = y"
        using F Inr w by (simp add: http1_pass_def x_def [symmetric] y_def [symmetric])
      then show ?thesis using part_ok_then [OF ok1 y] by simp
    next
      case Inry: (Inr work2)
      obtain p2 data2 ev2 where w2: "work2 = (p2, data2, ev2)" by (cases work2)
      have ok2: "part_ok capacity data1 ev1 (Inr (p2, data2, ev2))" using y Inry w2 by simp
      have s2: "p_state p2 \<in> {1, 2, 3, 4, 5}" using ok2 by (auto simp: part_ok_def)
      have "part_ok capacity data2 ev2 (if p_state p2 = 5 then trailer_line p2 data2 eof ev2 else Inr (p2, data2, ev2))"
        using part_ok_event [OF ok2 e1] s2 by (auto intro!: trailer_line_ok part_ok_skip)
      then show ?thesis using F Inr w Inry w2 part_ok_then [OF ok1 part_ok_then [OF ok2]]
        by (simp add: http1_pass_def x_def [symmetric] y_def [symmetric])
    qed
  qed
qed

lemma http1_pass_less:
  assumes "p_state p \<in> {1, 2, 3, 4, 5}" and "http1_pass p data eof capacity ev = Inr (p1, data1, ev1)"
  shows "loop_weight p1 data1 < loop_weight p data"
proof (cases "p_state p = 1 \<or> p_state p = 3")
  case True
  then show ?thesis using body_part_less assms(2) by (simp add: http1_pass_def)
next
  case False
  have "length data1 < length data"
    using assms False parts_shrink [of p data eof ev] parts_shrink(2,3)
    by (fastforce simp: http1_pass_def split: if_splits sum.splits prod.splits dest: parts_shrink)
  then show ?thesis using False by (simp add: loop_weight_def)
qed

lemma http1_loop_returns:
  assumes "p_state p \<in> {1, 2, 3, 4, 5}" and "event_ok ev"
  shows "\<exists>out. http1_loop p data eof capacity ev = Some out \<and> part_ok capacity data ev (Inl out)"
  using assms
proof (induction "loop_weight p data" arbitrary: p data ev rule: less_induct)
  case less
  note ok = http1_pass_ok [OF less(2,3), of capacity data eof]
  show ?case
  proof (cases "http1_pass p data eof capacity ev")
    case (Inl out)
    then show ?thesis using ok by (subst http1_loop.simps) simp
  next
    case (Inr work)
    obtain p1 data1 ev1 where w: "work = (p1, data1, ev1)" by (cases work)
    have ok1: "part_ok capacity data ev (Inr (p1, data1, ev1))" using ok Inr w by simp
    then have "p_state p1 \<in> {1, 2, 3, 4, 5}" by (auto simp: part_ok_def)
    from less(1) [OF http1_pass_less [OF less(2) Inr [unfolded w]] this part_ok_event [OF ok1 less(3)]]
    obtain out where "http1_loop p1 data1 eof capacity ev1 = Some out" "part_ok capacity data1 ev1 (Inl out)" by auto
    then show ?thesis using Inr w part_ok_then [OF ok1] by (subst http1_loop.simps) simp
  qed
qed

lemma header_end_found: "header_end data \<noteq> 0 \<Longrightarrow> 0 < header_end data \<and> header_end data \<le> length data"
  using header_end_bounds by simp

lemma headers_ok:
  assumes "known_state p" and "headers p data = (r, p1, ev)"
  shows "known_state p1 \<and> e_consumed ev \<le> length data \<and> e_offset ev + e_length ev \<le> e_consumed ev \<and>
    (r = Http1_Event \<longrightarrow> e_kind ev = 1 \<and> 0 < e_consumed ev)"
proof -
  have "known_state (begin_body p scode f)" for scode f
    by (simp add: begin_body_def Let_def known_state_def)
  then show ?thesis using assms header_end_found [of data]
    by (auto simp: headers_def Let_def no_event_def split: if_splits option.splits)
qed

text \<open>
  Property C13: in every state the parser can have, a call of the HTTP/1 reader returns, whatever bytes are
  buffered: the loop ends.  It leaves a state the parser can have; what it reports as consumed lies in the
  buffer and the body bytes it reports lie in what is consumed; and a call that reports an event either
  consumes bytes, the body bytes within the capacity, or ends the response.
\<close>

theorem http1_returns:
  assumes "p_state p \<in> {0, 1, 2, 3, 4, 5, 7}"
  shows "\<exists>r p1 ev. core_http1_next p data eof capacity = Some (r, p1, ev) \<and> p_state p1 \<in> {0, 1, 2, 3, 4, 5, 7} \<and>
    e_consumed ev \<le> length data \<and> e_offset ev + e_length ev \<le> e_consumed ev \<and>
    (r = Http1_Event \<longrightarrow> e_kind ev = 1 \<and> 0 < e_consumed ev \<or>
       e_kind ev = 2 \<and> 0 < e_length ev \<and> e_length ev \<le> capacity \<or> e_kind ev = 3 \<and> p_state p1 = 7)"
proof (cases "p_state p = 0")
  case True
  obtain r p1 ev where h: "headers p data = (r, p1, ev)" by (cases "headers p data")
  have "known_state p" using assms by (simp add: known_state_def)
  from headers_ok [OF this h] show ?thesis using True h by (auto simp: core_http1_next_def known_state_def)
next
  case F: False
  show ?thesis
  proof (cases "p_state p = 7")
    case True
    then show ?thesis by (simp add: core_http1_next_def no_event_def)
  next
    case False
    then have "p_state p \<in> {1, 2, 3, 4, 5}" using F assms by auto
    from http1_loop_returns [OF this, of no_event data eof capacity]
    obtain r p1 ev where "http1_loop p data eof capacity no_event = Some (r, p1, ev)"
      "part_ok capacity data no_event (Inl (r, p1, ev))" by (auto simp: no_event_def)
    then show ?thesis using F False by (auto simp: core_http1_next_def part_ok_def known_state_def no_event_def)
  qed
qed

theorem http1_returns_witness:
  "\<exists>r p1 ev. core_http1_next \<lparr>p_state = 3, p_chunked = True, p_close = False, p_close_delimited = False, p_head = False,
       p_remaining = 0, p_header_bytes = 0\<rparr> [13, 10, 48] False 8 = Some (r, p1, ev) \<and> e_consumed ev \<le> 3"
proof -
  let ?p = "\<lparr>p_state = 3, p_chunked = True, p_close = False, p_close_delimited = False, p_head = False,
       p_remaining = 0, p_header_bytes = 0\<rparr>"
  have "p_state ?p \<in> {0, 1, 2, 3, 4, 5, 7}" by simp
  from http1_returns [OF this, of "[13, 10, 48]" False 8] show ?thesis by auto
qed

section \<open>Chunked bodies are read back\<close>

definition hex_digit_byte :: "nat \<Rightarrow> byte" where
  "hex_digit_byte n = of_nat (if n < 10 then 48 + n else 87 + n)"

fun hex_size :: "nat \<Rightarrow> bytes" where
  "hex_size n = (if n < 16 then [hex_digit_byte n] else hex_size (n div 16) @ [hex_digit_byte (n mod 16)])"

declare hex_size.simps [simp del]

text \<open>A body in chunks, as a server sends it.\<close>

fun chunked_body :: "bytes list \<Rightarrow> bytes" where
  "chunked_body [] = [48, 13, 10, 13, 10]"
| "chunked_body (c # cs) = hex_size (length c) @ [13, 10] @ c @ [13, 10] @ chunked_body cs"

text \<open>A caller that takes events until the response ends: the body and the bytes that follow it.\<close>

fun http1_drain :: "nat \<Rightarrow> http1_response \<Rightarrow> bytes \<Rightarrow> bool \<Rightarrow> nat \<Rightarrow> (bytes \<times> bytes) option" where
  "http1_drain 0 p data eof capacity = None"
| "http1_drain (Suc n) p data eof capacity =
     (case core_http1_next p data eof capacity of
        Some (Http1_Event, p1, ev) \<Rightarrow>
          if e_kind ev = 3 then Some ([], drop (e_consumed ev) data)
          else map_option (\<lambda>(body, rest). (take (e_length ev) (drop (e_offset ev) data) @ body, rest))
                 (http1_drain n p1 (drop (e_consumed ev) data) eof capacity)
      | _ \<Rightarrow> None)"

lemma digit_of_hex: "n < 16 \<Longrightarrow> digit_of (hex_digit_byte n) = n"
  using unat_small [of "48 + n"] unat_small [of "87 + n"] by (simp add: digit_of_def hex_digit_byte_def Let_def)

lemma number_loop_append:
  "number_loop base v (xs @ ys) = (case number_loop base v xs of (ok, w) \<Rightarrow> if ok then number_loop base w ys else (False, w))"
  by (induction xs arbitrary: v) (auto simp: Let_def)

lemma number_loop_hex: "n \<le> SIZE_MAX \<Longrightarrow> number_loop 16 0 (hex_size n) = (True, n)"
proof (induction n rule: hex_size.induct)
  case (1 n)
  show ?case
  proof (cases "n < 16")
    case True
    then show ?thesis by (simp add: hex_size.simps digit_of_hex Let_def)
  next
    case False
    have "n div 16 \<le> (SIZE_MAX - n mod 16) div 16"
    proof -
      have "n div 16 * 16 \<le> SIZE_MAX - n mod 16" using 1(2) div_mult_mod_eq [of n 16] by linarith
      then show ?thesis by (simp add: less_eq_div_iff_mult_less_eq)
    qed
    moreover have "n div 16 \<le> SIZE_MAX" using 1(2) div_le_dividend [of n 16] by linarith
    ultimately show ?thesis using 1(1) [OF False] False
      by (subst hex_size.simps) (simp add: number_loop_append digit_of_hex Let_def)
  qed
qed

lemma hex_size_digits: "hex_size n \<noteq> [] \<and> (\<forall>b \<in> set (hex_size n). digit_of b < 16)"
proof (induction n rule: hex_size.induct)
  case (1 n)
  then show ?case by (subst (1 2) hex_size.simps) (auto simp: digit_of_hex)
qed

lemma line_length_first: "13 \<notin> set xs \<Longrightarrow> line_length (xs @ 13 # 10 # r) = length xs + 2"
proof (induction xs)
  case (Cons a xs)
  then show ?case by (cases xs) (auto simp: Let_def)
qed simp

text \<open>The line before a chunk.\<close>

lemma chunk_line_size:
  assumes "n \<le> SIZE_MAX"
  shows "chunk_line p (hex_size n @ 13 # 10 # r) eof ev =
    Inr (p\<lparr>p_remaining := n, p_state := (if n \<noteq> 0 then 3 else 5)\<rparr>, r, ev\<lparr>e_consumed := e_consumed ev + (length (hex_size n) + 2)\<rparr>)"
proof -
  have d: "\<forall>b \<in> set (hex_size n). is_hex_digit b" using hex_size_digits by (simp add: is_hex_digit_def)
  have "13 \<notin> set (hex_size n)" using d by (auto simp: is_hex_digit_def digit_of_def Let_def)
  then have l: "line_length (hex_size n @ 13 # 10 # r) = length (hex_size n) + 2" by (rule line_length_first)
  have t: "takeWhile is_hex_digit (hex_size n) = hex_size n" using d by (simp add: takeWhile_eq_all_conv)
  show ?thesis
    unfolding chunk_line_def Let_def l
    using number_loop_hex [OF assms] hex_size_digits [of n]
    by (simp add: t number_def chunk_extensions.simps)
qed

abbreviation at :: "nat \<Rightarrow> http1_event" where
  "at k \<equiv> no_event\<lparr>e_consumed := k\<rparr>"

lemma loop_last:
  assumes "p_state p = 2" and "p_header_bytes p + 2 \<le> 65536"
  shows "\<exists>p1. http1_loop p (chunked_body [] @ rest) eof capacity (at k) =
    Some (Http1_Event, p1, (at (k + 5))\<lparr>e_kind := 3, e_close := p_close p\<rparr>)"
proof -
  have "chunked_body [] @ rest = hex_size 0 @ 13 # 10 # 13 # 10 # rest" by (simp add: hex_size.simps hex_digit_byte_def)
  moreover have "szadd (p_header_bytes p) 2 = p_header_bytes p + 2" using assms(2) by (intro szadd_exact) (simp add: SIZE_MAX_def)
  ultimately have "http1_pass p (chunked_body [] @ rest) eof capacity (at k) =
    Inl (Http1_Event, p\<lparr>p_remaining := 0, p_state := 7, p_header_bytes := p_header_bytes p + 2\<rparr>,
      (at (k + 5))\<lparr>e_kind := 3, e_close := p_close p\<rparr>)"
    using assms chunk_line_size [of 0 p "13 # 10 # rest" eof "at k"]
    by (simp add: http1_pass_def trailer_line_def Let_def no_event_def hex_size.simps)
  then show ?thesis by (subst http1_loop.simps) simp
qed

lemma loop_chunk:
  assumes "p_state p = 2" and "\<not> p_close_delimited p" and "c \<noteq> []" and "length c \<le> SIZE_MAX" and "capacity > 0"
  defines "n \<equiv> min capacity (length c)" and "h \<equiv> length (hex_size (length c)) + 2"
  shows "http1_loop p (chunked_body (c # cs) @ rest) eof capacity (at k) =
    Some (Http1_Event, p\<lparr>p_remaining := length c - n, p_state := 3\<rparr>,
      (at (k + h + n))\<lparr>e_kind := 2, e_offset := k + h, e_length := n\<rparr>)"
proof -
  have len: "min (min (Suc (Suc (length c + length r))) capacity) (length c) = n" for r :: bytes by (simp add: n_def)
  have "http1_pass p (chunked_body (c # cs) @ rest) eof capacity (at k) =
    Inr (p\<lparr>p_remaining := length c, p_state := 3\<rparr>, c @ [13, 10] @ chunked_body cs @ rest, at (k + h))"
    using assms(1,3) chunk_line_size [OF assms(4), of p "c @ [13, 10] @ chunked_body cs @ rest" eof "at k"]
    by (simp add: http1_pass_def h_def no_event_def)
  moreover have "http1_pass (p\<lparr>p_remaining := length c, p_state := 3\<rparr>) (c @ [13, 10] @ chunked_body cs @ rest) eof capacity (at (k + h)) =
    Inl (Http1_Event, p\<lparr>p_remaining := length c - n, p_state := 3\<rparr>,
      (at (k + h + n))\<lparr>e_kind := 2, e_offset := k + h, e_length := n\<rparr>)"
    using assms(2,3,5) by (simp add: http1_pass_def body_part_def Let_def no_event_def n_def min.assoc)
  ultimately show ?thesis by (subst http1_loop.simps, simp, subst http1_loop.simps, simp)
qed

text \<open>The line after a chunk leads to the state before the next.\<close>

lemma loop_between:
  assumes "p_state p = 3" and "p_remaining p = 0"
  shows "http1_loop p ([13, 10] @ data) eof capacity (at k) = http1_loop (p\<lparr>p_state := 2\<rparr>) data eof capacity (at (k + 2))"
proof -
  have a: "http1_pass p ([13, 10] @ data) eof capacity (at k) = Inr (p\<lparr>p_state := 4\<rparr>, [13, 10] @ data, at k)"
    using assms by (simp add: http1_pass_def body_part_def)
  have b: "http1_pass (p\<lparr>p_state := 4\<rparr>) ([13, 10] @ data) eof capacity (at k) = http1_pass (p\<lparr>p_state := 2\<rparr>) data eof capacity (at (k + 2))"
    by (simp add: http1_pass_def chunk_crlf_def no_event_def)
  show ?thesis by (subst http1_loop.simps, simp only: a sum.case prod.case, subst (1 2) http1_loop.simps, simp only: b)
qed

definition in_chunks :: "http1_response \<Rightarrow> bool" where
  "in_chunks p \<longleftrightarrow> \<not> p_close_delimited p \<and> p_header_bytes p + 2 \<le> 65536"

definition chunks_ok :: "bytes list \<Rightarrow> bool" where
  "chunks_ok cs \<longleftrightarrow> (\<forall>c \<in> set cs. c \<noteq> [] \<and> length c \<le> SIZE_MAX)"

text \<open>What the caller takes from a parser inside a chunk.\<close>

definition drains_chunks :: "nat \<Rightarrow> bool \<Rightarrow> nat \<Rightarrow> bytes \<Rightarrow> bool" where
  "drains_chunks m eof capacity rest \<longleftrightarrow>
     (\<forall>p c cs. in_chunks p \<and> p_state p = 3 \<and> p_remaining p = length c \<and> chunks_ok cs \<and> length (c @ concat cs) < m \<longrightarrow>
        http1_drain m p (c @ [13, 10] @ chunked_body cs @ rest) eof capacity = Some (c @ concat cs, rest))"

lemma drain_before_chunk:
  assumes h: "drains_chunks m eof capacity rest"
    and q: "core_http1_next q (pre @ chunked_body cs @ rest) eof capacity = http1_loop p (chunked_body cs @ rest) eof capacity (at (length pre))"
    and p: "in_chunks p" "p_state p = 2" and cs: "chunks_ok cs" "length (concat cs) \<le> m" and cap: "capacity > 0"
  shows "http1_drain (Suc m) q (pre @ chunked_body cs @ rest) eof capacity = Some (concat cs, rest)"
proof (cases cs)
  case Nil
  have "p_header_bytes p + 2 \<le> 65536" using p(1) by (simp add: in_chunks_def)
  from loop_last [OF p(2) this, of rest eof capacity "length pre"] show ?thesis using q Nil by (auto simp: no_event_def)
next
  case (Cons c ds)
  define n x where "n = min capacity (length c)" and "x = hex_size (length c)"
  have c: "c \<noteq> []" "length c \<le> SIZE_MAX" "chunks_ok ds" using cs Cons by (auto simp: chunks_ok_def)
  have cd: "\<not> p_close_delimited p" using p(1) by (simp add: in_chunks_def)
  note l = loop_chunk [OF p(2) cd c(1,2) cap, of ds rest eof "length pre", folded n_def x_def]
  have n: "0 < n" "n \<le> length c" using c(1) cap by (auto simp: n_def)
  define p1 where "p1 = p\<lparr>p_remaining := length c - n, p_state := 3\<rparr>"
  have p1: "in_chunks p1 \<and> p_state p1 = 3 \<and> p_remaining p1 = length (drop n c) \<and> chunks_ok ds \<and> length (drop n c @ concat ds) < m"
    using p(1) c(3) n cs(2) Cons by (simp add: p1_def in_chunks_def)
  from h p1 have d: "http1_drain m p1 (drop n c @ [13, 10] @ chunked_body ds @ rest) eof capacity = Some (drop n c @ concat ds, rest)"
    unfolding drains_chunks_def by blast
  have data: "pre @ chunked_body cs @ rest = pre @ (x @ [13, 10]) @ c @ [13, 10] @ chunked_body ds @ rest"
    by (simp add: Cons x_def)
  have "core_http1_next q (pre @ chunked_body cs @ rest) eof capacity = Some (Http1_Event, p1,
     (at (length pre + (length x + 2) + n))\<lparr>e_kind := 2, e_offset := length pre + (length x + 2), e_length := n\<rparr>)"
    using q l Cons by (simp add: p1_def)
  moreover have "drop (length pre + (length x + 2) + n) (pre @ chunked_body cs @ rest) = drop n c @ [13, 10] @ chunked_body ds @ rest"
    "take n (drop (length pre + (length x + 2)) (pre @ chunked_body cs @ rest)) = take n c"
    unfolding data using n(2) by simp_all
  ultimately have "http1_drain (Suc m) q (pre @ chunked_body cs @ rest) eof capacity = Some (take n c @ drop n c @ concat ds, rest)"
    using d by simp
  then show ?thesis using Cons by (simp add: append_assoc [symmetric] del: append_assoc)
qed

lemma drain_in_chunk:
  assumes "capacity > 0"
  shows "drains_chunks m eof capacity rest"
proof (induction m)
  case (Suc m)
  show ?case unfolding drains_chunks_def
  proof (intro allI impI, elim conjE)
    fix p c cs
    assume p: "in_chunks p" "p_state p = 3" "p_remaining p = length c" and cs: "chunks_ok cs" "length (c @ concat cs) < Suc m"
    show "http1_drain (Suc m) p (c @ [13, 10] @ chunked_body cs @ rest) eof capacity = Some (c @ concat cs, rest)"
    proof (cases "c = []")
      case True
      have "core_http1_next p ([13, 10] @ chunked_body cs @ rest) eof capacity =
        http1_loop (p\<lparr>p_state := 2\<rparr>) (chunked_body cs @ rest) eof capacity (at (length [13, 10 :: byte]))"
        using p True loop_between [of p "chunked_body cs @ rest" eof capacity 0] by (simp add: core_http1_next_def no_event_def)
      from drain_before_chunk [OF Suc this] show ?thesis using p True cs assms by (simp add: in_chunks_def)
    next
      case False
      define n where "n = min capacity (length c)"
      have n: "0 < n" "n \<le> length c" using False assms by (auto simp: n_def)
      define p1 where "p1 = p\<lparr>p_remaining := length c - n\<rparr>"
      have "http1_pass p (c @ [13, 10] @ chunked_body cs @ rest) eof capacity no_event =
        Inl (Http1_Event, p1, (at n)\<lparr>e_kind := 2, e_offset := 0, e_length := n\<rparr>)"
        using p False assms by (simp add: http1_pass_def body_part_def in_chunks_def Let_def no_event_def p1_def n_def min.assoc)
      then have "core_http1_next p (c @ [13, 10] @ chunked_body cs @ rest) eof capacity =
        Some (Http1_Event, p1, (at n)\<lparr>e_kind := 2, e_offset := 0, e_length := n\<rparr>)"
        using p(2) by (simp add: core_http1_next_def http1_loop.simps)
      moreover have "http1_drain m p1 (drop n c @ [13, 10] @ chunked_body cs @ rest) eof capacity = Some (drop n c @ concat cs, rest)"
        using Suc p cs n unfolding drains_chunks_def by (simp add: p1_def in_chunks_def)
      ultimately show ?thesis using n(2) by (simp add: append_assoc [symmetric] del: append_assoc)
    qed
  qed
qed (simp add: drains_chunks_def)

text \<open>
  Property C18: a body that a server sends in chunks is read back exactly.  Whatever capacity the caller
  offers, the events of the reader deliver the bytes of the chunks in order, then the end of the
  response, and leave exactly the bytes that follow the body.
\<close>

theorem http1_chunked_roundtrip:
  assumes "p_state p = 2" and "\<not> p_close_delimited p" and "p_header_bytes p + 2 \<le> 65536"
    and "\<forall>c \<in> set chunks. c \<noteq> [] \<and> length c \<le> SIZE_MAX" and "capacity > 0"
  shows "http1_drain (Suc (length (concat chunks))) p (chunked_body chunks @ rest) eof capacity = Some (concat chunks, rest)"
proof -
  have "core_http1_next p ([] @ chunked_body chunks @ rest) eof capacity =
    http1_loop p (chunked_body chunks @ rest) eof capacity (at (length ([] :: bytes)))"
    using assms(1) by (simp add: core_http1_next_def no_event_def)
  from drain_before_chunk [OF drain_in_chunk [OF assms(5)] this, of "length (concat chunks)"] show ?thesis
    using assms by (simp add: in_chunks_def chunks_ok_def)
qed

theorem http1_chunked_roundtrip_witness:
  "http1_drain 6 \<lparr>p_state = 2, p_chunked = True, p_close = False, p_close_delimited = False, p_head = False,
       p_remaining = SIZE_MAX, p_header_bytes = 0\<rparr> (chunked_body [[1, 2, 3], [4, 5]] @ [9]) False 2 = Some ([1, 2, 3, 4, 5], [9])"
proof -
  have "length [1, 2, 3 :: byte] \<le> SIZE_MAX" "length [4, 5 :: byte] \<le> SIZE_MAX" by (simp_all add: SIZE_MAX_def)
  then show ?thesis
    using http1_chunked_roundtrip [of "\<lparr>p_state = 2, p_chunked = True, p_close = False, p_close_delimited = False, p_head = False,
       p_remaining = SIZE_MAX, p_header_bytes = 0\<rparr>" "[[1, 2, 3], [4, 5]]" 2 "[9]" False] by (simp add: numeral_eq_Suc del: chunked_body.simps http1_drain.simps)
qed

end
