(* ===== verification/Websocket.thy ===== *)
theory Websocket
  imports Http1 Utils
begin

text \<open>
  The WebSocket protocol of \<^verbatim>\<open>src/src/websocket.c\<close>: the check of the upgrade response, the
  decoder of frames with its UTF-8 automaton, and the early-data parameter that hides in the path.  The
  arrays of the decoder are the lists of their used bytes; that they never outgrow the arrays is a
  theorem.  The loop of the decoder is a partial function, and the theorems show that it returns.
\<close>

section \<open>The upgrade response\<close>

definition upgrade_token :: "bytes \<Rightarrow> bool" where
  "upgrade_token data \<longleftrightarrow> data \<noteq> [] \<and> list_all media_token data"

function upgrade_list :: "bool \<Rightarrow> string \<Rightarrow> bytes \<Rightarrow> bool option" where
  "upgrade_list found expected xs =
     (if xs = [] then Some found
      else let r = dropWhile blank xs; word = trim_end (takeWhile (\<lambda>b. b \<noteq> 44) r); after = dropWhile (\<lambda>b. b \<noteq> 44) r
           in if \<not> upgrade_token word then None
              else if after = [] then Some (found \<or> same_text word expected)
              else if tl after = [] then None
              else upgrade_list (found \<or> same_text word expected) expected (tl after))"
  by auto
termination
proof (relation "measure (\<lambda>(found, expected, xs). length xs)")
  fix found :: bool and expected :: string and xs r word after :: bytes
  assume "xs \<noteq> []" "r = dropWhile blank xs" "after = dropWhile (\<lambda>b. b \<noteq> 44) r" "after \<noteq> []"
  then have "length (tl after) < length xs"
    using tl_dropWhile_shorter [of "\<lambda>b. b \<noteq> 44" r] length_dropWhile_le [of blank xs] by simp
  then show "((found \<or> same_text word expected, expected, tl after), found, expected, xs) \<in>
      measure (\<lambda>(found, expected, xs). length xs)" by simp
qed simp

declare upgrade_list.simps [simp del]

definition upgrade_tokens :: "bytes \<Rightarrow> string \<Rightarrow> bool option" where
  "upgrade_tokens data expected = (if data = [] then None else upgrade_list False expected data)"

record upgrade_seen =
  has_upgrade :: bool
  has_connection :: bool
  has_accept :: bool
  has_protocol :: bool

definition upgrade_field :: "string \<Rightarrow> string option \<Rightarrow> upgrade_seen \<Rightarrow> bytes \<Rightarrow> upgrade_seen option" where
  "upgrade_field accept protocol f line =
     (let name = takeWhile (\<lambda>b. b \<noteq> 58) line; raw = dropWhile blank (drop (length name + 1) line); val = trim_end raw
      in if length name = length line \<or> \<not> upgrade_token name then None
         else if list_ex ctl raw then None
         else if same_text name ''Upgrade'' then
           map_option (\<lambda>r. f\<lparr>has_upgrade := has_upgrade f \<or> r\<rparr>) (upgrade_tokens val ''websocket'')
         else if same_text name ''Connection'' then
           map_option (\<lambda>r. f\<lparr>has_connection := has_connection f \<or> r\<rparr>) (upgrade_tokens val ''upgrade'')
         else if same_text name ''Sec-WebSocket-Accept'' then
           (if has_accept f \<or> val \<noteq> text_bytes accept then None else Some (f\<lparr>has_accept := True\<rparr>))
         else if same_text name ''Sec-WebSocket-Protocol'' then
           (case protocol of
              None \<Rightarrow> None
            | Some p \<Rightarrow>
                if has_protocol f \<or> p = [] \<or> val \<noteq> text_bytes p then None else Some (f\<lparr>has_protocol := True\<rparr>))
         else if same_text name ''Sec-WebSocket-Extensions'' then None
         else Some f)"

function upgrade_fields :: "string \<Rightarrow> string option \<Rightarrow> upgrade_seen \<Rightarrow> bytes \<Rightarrow> bool" where
  "upgrade_fields accept protocol f xs =
     (let n = line_length xs
      in if n = 0 then False
         else if n = 2 then length xs = 2 \<and> has_upgrade f \<and> has_connection f \<and> has_accept f
         else case upgrade_field accept protocol f (take (n - 2) xs) of
                None \<Rightarrow> False
              | Some f1 \<Rightarrow> upgrade_fields accept protocol f1 (drop n xs))"
  by auto
termination
proof (relation "measure (\<lambda>(accept, protocol, f, xs). length xs)")
  fix accept :: string and protocol :: "string option" and f f1 :: upgrade_seen and xs :: bytes and n
  assume "n = line_length xs" "n \<noteq> 0"
  then show "((accept, protocol, f1, drop n xs), accept, protocol, f, xs) \<in> measure (\<lambda>(accept, protocol, f, xs). length xs)"
    using line_length_bounds [of xs] by auto
qed simp

declare upgrade_fields.simps [simp del]

definition core_ws_validate_upgrade :: "bytes \<Rightarrow> string \<Rightarrow> string option \<Rightarrow> bool" where
  "core_ws_validate_upgrade data accept protocol =
     (if length data > 32768 \<or> length data < 17 \<or> take 13 data \<noteq> text_bytes ''HTTP/1.1 101 '' then False
      else let n = line_length data
           in if n = 0 \<or> list_ex ctl (take (n - 2) data) then False
              else upgrade_fields accept protocol
                     \<lparr>has_upgrade = False, has_connection = False, has_accept = False, has_protocol = False\<rparr> (drop n data))"

section \<open>UTF-8\<close>

text \<open>The bytes that are missing and the range of the next one.\<close>

record utf_state =
  utf_left :: nat
  utf_min :: nat
  utf_max :: nat

definition utf8_byte :: "utf_state \<Rightarrow> byte \<Rightarrow> bool \<times> utf_state" where
  "utf8_byte u b =
     (let n = unat b
      in if utf_left u \<noteq> 0 then
           (if n < utf_min u \<or> n > utf_max u then (False, u)
            else (True, \<lparr>utf_left = utf_left u - 1, utf_min = 0x80, utf_max = 0xBF\<rparr>))
         else if n \<ge> 0x80 then
           let u1 = u\<lparr>utf_min := 0x80, utf_max := 0xBF\<rparr>
           in if n \<ge> 0xC2 \<and> n \<le> 0xDF then (True, u1\<lparr>utf_left := 1\<rparr>)
              else if n \<ge> 0xE0 \<and> n \<le> 0xEF then
                (True, u1\<lparr>utf_left := 2, utf_min := (if n = 0xE0 then 0xA0 else 0x80),
                          utf_max := (if n = 0xED then 0x9F else 0xBF)\<rparr>)
              else if n \<ge> 0xF0 \<and> n \<le> 0xF4 then
                (True, u1\<lparr>utf_left := 3, utf_min := (if n = 0xF0 then 0x90 else 0x80),
                          utf_max := (if n = 0xF4 then 0x8F else 0xBF)\<rparr>)
              else (False, u1)
         else (True, u))"

fun utf8 :: "utf_state \<Rightarrow> bytes \<Rightarrow> bool \<times> utf_state" where
  "utf8 u [] = (True, u)"
| "utf8 u (b # r) = (case utf8_byte u b of (ok, u1) \<Rightarrow> if ok then utf8 u1 r else (False, u1))"

definition utf_start :: utf_state where
  "utf_start = \<lparr>utf_left = 0, utf_min = 0, utf_max = 0\<rparr>"

section \<open>Frames\<close>

definition CORE_WS_MESSAGE_LIMIT :: nat where "CORE_WS_MESSAGE_LIMIT = 16 * 1024 * 1024"

record ws_decoder =
  ws_header :: bytes
  ws_control :: bytes
  ws_remaining :: nat
  ws_message_length :: nat
  ws_active :: bool
  ws_opcode :: nat
  ws_fin :: bool
  ws_fragmented :: bool
  ws_text :: bool
  ws_utf :: utf_state
  ws_closed :: bool
  ws_failed :: bool

definition ws_begin :: ws_decoder where
  "ws_begin = \<lparr>ws_header = [], ws_control = [], ws_remaining = 0, ws_message_length = 0, ws_active = False, ws_opcode = 0,
     ws_fin = False, ws_fragmented = False, ws_text = False, ws_utf = utf_start, ws_closed = False, ws_failed = False\<rparr>"

text \<open>An event is its opcode and its data; opcode zero stands for no event.\<close>

type_synonym ws_event = "nat \<times> bytes"

datatype ws_result = Ws_None | Ws_Event | Ws_Invalid

definition size_of_bytes :: "bytes \<Rightarrow> nat" where
  "size_of_bytes xs = foldl (\<lambda>n b. (n * 256 + unat b) mod 2 ^ 64) 0 xs"

definition ws_frame_size :: "bytes \<Rightarrow> nat option" where
  "ws_frame_size header =
     (let c = unat (header ! 1) mod 128; n = size_of_bytes (drop 2 header)
      in if c < 126 then Some c
         else if c = 126 \<and> n < 126 \<or> c = 127 \<and> (n \<le> 65535 \<or> bit (header ! 2) 7) then None else Some n)"

definition frame_header :: "ws_decoder \<Rightarrow> bool \<times> ws_decoder" where
  "frame_header st0 =
     (let header = ws_header st0; opcode = unat (header ! 0) mod 16;
          st = st0\<lparr>ws_fin := bit (header ! 0) 7, ws_opcode := opcode\<rparr>
      in if (header ! 0) AND 0x70 \<noteq> 0 \<or> bit (header ! 1) 7 then (False, st)
         else if opcode \<notin> {0, 1, 2, 8, 9, 10} then (False, st)
         else case ws_frame_size header of
                None \<Rightarrow> (False, st)
              | Some n \<Rightarrow>
                  if opcode \<ge> 8 then
                    (if \<not> ws_fin st \<or> n > 125 \<or> opcode = 8 \<and> n = 1 then (False, st)
                     else (True, st\<lparr>ws_control := [], ws_remaining := n, ws_active := True\<rparr>))
                  else if opcode = 0 \<and> \<not> ws_fragmented st \<or> opcode \<noteq> 0 \<and> ws_fragmented st then (False, st)
                  else let st1 = (if opcode \<noteq> 0 then
                                    st\<lparr>ws_text := (opcode = 1), ws_message_length := 0, ws_utf := (ws_utf st)\<lparr>utf_left := 0\<rparr>,
                                       ws_fragmented := \<not> ws_fin st\<rparr>
                                  else st)
                       in if n > szsub CORE_WS_MESSAGE_LIMIT (ws_message_length st1) then (False, st1)
                          else (True, st1\<lparr>ws_message_length := ws_message_length st1 + n, ws_remaining := n, ws_active := True\<rparr>))"

definition close_payload_ok :: "bytes \<Rightarrow> bool" where
  "close_payload_ok control =
     (let c = word16 (control ! 0) (control ! 1)
      in (1000 \<le> c \<and> c \<le> 1014 \<and> c \<notin> {1004, 1005, 1006} \<or> 3000 \<le> c \<and> c \<le> 4999) \<and>
         (case utf8 utf_start (drop 2 control) of (ok, u) \<Rightarrow> ok \<and> utf_left u = 0))"

text \<open>The end of a frame: \<open>None\<close> when it is invalid, otherwise the event of a control frame.\<close>

definition frame_end :: "ws_decoder \<Rightarrow> (ws_event option \<times> ws_decoder) option" where
  "frame_end st =
     (let opcode = ws_opcode st
      in if opcode < 8 \<and> ws_fin st \<and> ws_text st \<and> utf_left (ws_utf st) \<noteq> 0 then None
         else let st1 = (if opcode < 8 \<and> ws_fin st then st\<lparr>ws_fragmented := False, ws_message_length := 0\<rparr> else st)
              in if opcode = 8 \<and> length (ws_control st) \<ge> 2 \<and> \<not> close_payload_ok (ws_control st) then None
                 else let st2 = (if opcode = 8 then st1\<lparr>ws_closed := True\<rparr> else st1);
                          st3 = st2\<lparr>ws_active := False, ws_header := []\<rparr>
                      in Some (if opcode \<ge> 8 then Some (opcode, ws_control st3) else None, st3))"

type_synonym ws_out = "ws_result \<times> ws_decoder \<times> nat \<times> ws_event"
type_synonym ws_work = "ws_decoder \<times> bytes \<times> nat"

definition ws_invalid :: "ws_decoder \<Rightarrow> nat \<Rightarrow> ws_out" where
  "ws_invalid st consumed = (Ws_Invalid, st\<lparr>ws_failed := True\<rparr>, consumed, (0, []))"

definition header_needed :: "bytes \<Rightarrow> nat" where
  "header_needed header =
     (if length header < 2 then 2
      else let c = unat (header ! 1) mod 128 in if c = 126 then 4 else if c = 127 then 10 else 2)"

text \<open>
  The payload of a frame.  An invalid text leaves the automaton where it stopped; the decoder is marked
  as failed and never used again.
\<close>

definition ws_payload :: "ws_decoder \<Rightarrow> bytes \<Rightarrow> nat \<Rightarrow> ws_out + ws_work" where
  "ws_payload st data consumed =
     (let n = min (length data) (ws_remaining st); part = take n data
      in if n = 0 then Inl (Ws_None, st, consumed, (0, []))
         else case (if ws_opcode st < 8 then
                      (if ws_text st then (case utf8 (ws_utf st) part of (ok, u) \<Rightarrow> (ok, st\<lparr>ws_utf := u\<rparr>)) else (True, st))
                    else (True, st\<lparr>ws_control := ws_control st @ part\<rparr>)) of (ok, st1) \<Rightarrow>
           if \<not> ok then Inl (ws_invalid st1 consumed)
           else let ev = (if ws_opcode st < 8 then (if ws_text st then 1 else 2, part) else (0, []));
                    st2 = st1\<lparr>ws_remaining := ws_remaining st - n\<rparr>
                in if ws_remaining st2 = 0 then
                     (case frame_end st2 of
                        None \<Rightarrow> Inl (ws_invalid st2 (consumed + n))
                      | Some (Some control, st3) \<Rightarrow> Inl (Ws_Event, st3, consumed + n, control)
                      | Some (None, st3) \<Rightarrow>
                          if snd ev \<noteq> [] then Inl (Ws_Event, st3, consumed + n, ev) else Inr (st3, drop n data, consumed + n))
                   else if snd ev \<noteq> [] then Inl (Ws_Event, st2, consumed + n, ev)
                   else Inr (st2, drop n data, consumed + n))"

text \<open>The header of a frame, then what follows it in the same pass.\<close>

definition ws_pass :: "ws_decoder \<Rightarrow> bytes \<Rightarrow> nat \<Rightarrow> ws_out + ws_work" where
  "ws_pass st data consumed =
     (if ws_active st then ws_payload st data consumed
      else let n = min (szsub (header_needed (ws_header st)) (length (ws_header st))) (length data);
               st1 = st\<lparr>ws_header := ws_header st @ take n data\<rparr>
           in if length (ws_header st1) < 2 \<or> length (ws_header st1) < header_needed (ws_header st1) then
                Inr (st1, drop n data, consumed + n)
              else case frame_header st1 of (ok, st2) \<Rightarrow>
                if \<not> ok then Inl (ws_invalid st2 (consumed + n))
                else if ws_remaining st2 = 0 then
                  (case frame_end st2 of
                     None \<Rightarrow> Inl (ws_invalid st2 (consumed + n))
                   | Some (Some control, st3) \<Rightarrow> Inl (Ws_Event, st3, consumed + n, control)
                   | Some (None, st3) \<Rightarrow> Inr (st3, drop n data, consumed + n))
                else ws_payload st2 (drop n data) (consumed + n))"

partial_function (option) ws_loop :: "ws_decoder \<Rightarrow> bytes \<Rightarrow> nat \<Rightarrow> ws_out option" where
  "ws_loop st data consumed =
     (if data = [] then Some (Ws_None, st, consumed, (0, []))
      else case ws_pass st data consumed of
             Inl out \<Rightarrow> Some out
           | Inr (st1, data1, consumed1) \<Rightarrow> ws_loop st1 data1 consumed1)"

definition core_ws_decode :: "ws_decoder \<Rightarrow> bytes \<Rightarrow> ws_out option" where
  "core_ws_decode st input =
     (if ws_failed st \<or> ws_closed st \<and> input \<noteq> [] then Some (Ws_Invalid, st, 0, (0, [])) else ws_loop st input 0)"

section \<open>Early data in the path\<close>

fun integer_loop :: "nat \<Rightarrow> nat \<Rightarrow> string \<Rightarrow> nat option" where
  "integer_loop maximum result [] = Some result"
| "integer_loop maximum result (c # s) =
     (if \<not> isdigit c \<or> result > maximum div 10 then None
      else let r = (result * 10 + (code c - 48)) mod 2 ^ 32 in if r > maximum then None else integer_loop maximum r s)"

definition integer :: "string \<Rightarrow> nat \<Rightarrow> nat option" where
  "integer s maximum = (if s = [] then None else integer_loop maximum 0 s)"

record ws_config =
  xhttp_path :: string
  ws_early_data :: nat
  ws_early_explicit :: bool

text \<open>One item of the query: the path so far and the embedded value, if it was seen.\<close>

definition query_item :: "string \<times> nat option \<Rightarrow> string \<Rightarrow> (string \<times> nat option) option" where
  "query_item acc item =
     (case acc of (result, seen) \<Rightarrow>
        let key = takeWhile (\<lambda>c. c \<noteq> CHR ''='') item
        in if length key \<ge> 256 then None
           else case percent_decode key 256 of
                  None \<Rightarrow> None
                | Some decoded \<Rightarrow>
                    if decoded = ''ed'' then
                      (if seen \<noteq> None \<or> length key = length item then None
                       else let val = drop (length key + 1) item
                            in if length val \<ge> 256 then None
                               else case percent_decode val 256 of
                                      None \<Rightarrow> None
                                    | Some v \<Rightarrow> map_option (\<lambda>n. (result, Some n)) (integer v 16384))
                    else if length item + 1 \<ge> szsub 256 (length result) then None
                    else Some (result @ (if CHR ''?'' \<in> set result then CHR ''&'' else CHR ''?'') # item, seen))"

function query_items :: "string \<times> nat option \<Rightarrow> string \<Rightarrow> (string \<times> nat option) option" where
  "query_items acc s =
     (if s = [] then Some acc
      else let item = takeWhile (\<lambda>c. c \<noteq> CHR ''&'') s; after = dropWhile (\<lambda>c. c \<noteq> CHR ''&'') s
           in case query_item acc item of
                None \<Rightarrow> None
              | Some acc1 \<Rightarrow> if after = [] then Some acc1 else query_items acc1 (tl after))"
  by auto
termination
proof (relation "measure (\<lambda>(acc, s). length s)")
  fix acc acc1 :: "string \<times> nat option" and s after :: string
  assume "s \<noteq> []" "after = dropWhile (\<lambda>c. c \<noteq> CHR ''&'') s" "after \<noteq> []"
  then show "((acc1, tl after), acc, s) \<in> measure (\<lambda>(acc, s). length s)"
    using tl_dropWhile_shorter [of "\<lambda>c. c \<noteq> CHR ''&''" s] by simp
qed simp

declare query_items.simps [simp del]

definition core_ws_configure :: "ws_config \<Rightarrow> ws_config option" where
  "core_ws_configure config =
     (case split_first (CHR ''?'') (xhttp_path config) of
        None \<Rightarrow> Some config
      | Some (path, query) \<Rightarrow>
          (case query_items (path, None) query of
             None \<Rightarrow> None
           | Some (result, seen) \<Rightarrow>
               Some (config\<lparr>ws_early_data := (case seen of Some n \<Rightarrow> if ws_early_explicit config then ws_early_data config else n
                                             | None \<Rightarrow> ws_early_data config),
                            xhttp_path := result\<rparr>)))"

section \<open>The decoder keeps to its arrays and returns\<close>

definition arrays_ok :: "ws_decoder \<Rightarrow> bool" where
  "arrays_ok st \<longleftrightarrow> length (ws_header st) \<le> 10 \<and> length (ws_control st) \<le> 125 \<and> ws_message_length st \<le> CORE_WS_MESSAGE_LIMIT"

definition ready :: "ws_decoder \<Rightarrow> bool" where
  "ready st \<longleftrightarrow> arrays_ok st \<and>
     (ws_active st \<longrightarrow> 0 < ws_remaining st \<and> (8 \<le> ws_opcode st \<longrightarrow> length (ws_control st) + ws_remaining st \<le> 125)) \<and>
     (\<not> ws_active st \<longrightarrow> length (ws_header st) < header_needed (ws_header st))"

text \<open>
  What a pass may do with the input from \<open>consumed\<close> on: leave with a report about it, or go on
  after taking some bytes.
\<close>

definition report_ok :: "bytes \<Rightarrow> nat \<Rightarrow> ws_out \<Rightarrow> bool" where
  "report_ok input consumed out \<longleftrightarrow>
     (case out of (r, st1, c1, ev) \<Rightarrow>
        arrays_ok st1 \<and> consumed \<le> c1 \<and> c1 \<le> length input \<and>
        (r = Ws_Invalid \<longrightarrow> ws_failed st1) \<and> (r \<noteq> Ws_Invalid \<longrightarrow> ready st1) \<and>
        (r = Ws_None \<longrightarrow> c1 = length input) \<and>
        (r = Ws_Event \<longrightarrow> consumed < c1 \<and> (fst ev < 8 \<longrightarrow> snd ev \<noteq> [] \<and> (\<exists>p. take c1 input = p @ snd ev))))"

definition pass_ok :: "bytes \<Rightarrow> nat \<Rightarrow> ws_out + ws_work \<Rightarrow> bool" where
  "pass_ok input consumed x \<longleftrightarrow>
     (case x of
        Inl out \<Rightarrow> report_ok input consumed out
      | Inr (st1, data1, c1) \<Rightarrow> ready st1 \<and> consumed < c1 \<and> c1 \<le> length input \<and> data1 = drop c1 input)"

lemma frame_end_ok:
  assumes "frame_end st = Some (ev, st1)" and "arrays_ok st"
  shows "ready st1 \<and> (\<forall>c. ev = Some c \<longrightarrow> 8 \<le> fst c)"
  using assms by (auto simp: frame_end_def ready_def arrays_ok_def header_needed_def Let_def split: if_splits)

lemma header_needed_le: "header_needed h \<le> 10" "2 \<le> header_needed h"
  by (simp_all add: header_needed_def Let_def)

lemma frame_header_ok:
  assumes "frame_header st = (ok, st1)" and "arrays_ok st"
  shows "arrays_ok st1" and "ok \<Longrightarrow> ws_active st1 \<and> (8 \<le> ws_opcode st1 \<longrightarrow> length (ws_control st1) + ws_remaining st1 \<le> 125)"
proof -
  have m: "ws_message_length st \<le> CORE_WS_MESSAGE_LIMIT" using assms(2) by (simp add: arrays_ok_def)
  have s: "n \<le> CORE_WS_MESSAGE_LIMIT \<Longrightarrow> szsub CORE_WS_MESSAGE_LIMIT n = CORE_WS_MESSAGE_LIMIT - n" for n
    by (rule szsub_exact) (simp_all add: CORE_WS_MESSAGE_LIMIT_def SIZE_MAX_def)
  show "arrays_ok st1"
    using assms m s [OF m] s [of 0]
    by (auto simp: frame_header_def arrays_ok_def Let_def split: if_splits option.splits)
  show "ws_active st1 \<and> (8 \<le> ws_opcode st1 \<longrightarrow> length (ws_control st1) + ws_remaining st1 \<le> 125)" if "ok"
    using assms(1) that by (auto simp: frame_header_def Let_def split: if_splits option.splits)
qed

lemma ws_payload_ok:
  assumes "arrays_ok st" and "0 < ws_remaining st" and "ws_active st"
    and "8 \<le> ws_opcode st \<longrightarrow> length (ws_control st) + ws_remaining st \<le> 125"
    and "consumed \<le> length input"
  shows "pass_ok input consumed (ws_payload st (drop consumed input) consumed)"
proof -
  define data where "data = drop consumed input"
  define n where "n = min (length data) (ws_remaining st)"
  define part where "part = take n data"
  show ?thesis
  proof (cases "n = 0")
    case True
    then have "ws_payload st data consumed = Inl (Ws_None, st, consumed, (0, []))"
      by (simp add: ws_payload_def Let_def n_def [symmetric])
    moreover have "length input = consumed" using True assms(2,5) by (simp add: n_def data_def)
    ultimately show ?thesis using assms by (simp add: pass_ok_def report_ok_def ready_def data_def)
  next
    case False
    have n: "consumed + n \<le> length input" "n \<le> ws_remaining st" "0 < n" using False assms(5) by (auto simp: n_def data_def)
    have part: "part \<noteq> []" "length part = n" "take (consumed + n) input = take consumed input @ part"
      using n by (auto simp: part_def n_def data_def take_add)
    obtain ok st1 where s1: "(if ws_opcode st < 8 then
          (if ws_text st then (case utf8 (ws_utf st) part of (ok, u) \<Rightarrow> (ok, st\<lparr>ws_utf := u\<rparr>)) else (True, st))
        else (True, st\<lparr>ws_control := ws_control st @ part\<rparr>)) = (ok, st1)" by (meson surj_pair)
    have f: "ws_header st1 = ws_header st" "ws_message_length st1 = ws_message_length st" "ws_active st1" "ws_opcode st1 = ws_opcode st"
      "8 \<le> ws_opcode st \<Longrightarrow> length (ws_control st1) = length (ws_control st) + n" "ws_opcode st < 8 \<Longrightarrow> ws_control st1 = ws_control st"
      using s1 part(2) assms(3) by (auto split: if_splits prod.splits)
    have a1: "arrays_ok st1" using assms(1,4) f n by (cases "ws_opcode st < 8") (auto simp: arrays_ok_def)
    define st2 where "st2 = st1\<lparr>ws_remaining := ws_remaining st - n\<rparr>"
    have a2: "arrays_ok st2" using a1 by (simp add: st2_def arrays_ok_def)
    have r2: "ready st2" if "ws_remaining st2 \<noteq> 0"
      using that a2 f assms(3,4) n by (auto simp: ready_def st2_def)
    have eq: "ws_payload st data consumed =
      (if \<not> ok then Inl (ws_invalid st1 consumed)
       else let ev = (if ws_opcode st < 8 then (if ws_text st then 1 else 2, part) else (0, []))
            in if ws_remaining st2 = 0 then
                 (case frame_end st2 of
                    None \<Rightarrow> Inl (ws_invalid st2 (consumed + n))
                  | Some (Some control, st3) \<Rightarrow> Inl (Ws_Event, st3, consumed + n, control)
                  | Some (None, st3) \<Rightarrow>
                      if snd ev \<noteq> [] then Inl (Ws_Event, st3, consumed + n, ev) else Inr (st3, drop n data, consumed + n))
               else if snd ev \<noteq> [] then Inl (Ws_Event, st2, consumed + n, ev)
               else Inr (st2, drop n data, consumed + n))"
      using False s1 by (simp only: ws_payload_def Let_def n_def [symmetric] part_def [symmetric] prod.case if_False st2_def)
    have inv: "report_ok input consumed (ws_invalid x (consumed + k))" if "arrays_ok x" "k \<le> n" for x k
      using that n by (simp add: report_ok_def ws_invalid_def arrays_ok_def)
    have pre: "\<exists>p. take (consumed + n) input = p @ part" using part(3) by blast
    have work: "drop n data = drop (consumed + n) input" by (simp add: data_def add.commute)
    consider "\<not> ok" | "ok" "ws_remaining st2 \<noteq> 0" | "ok" "ws_remaining st2 = 0" by blast
    then show ?thesis
    proof cases
      case 1
      then show ?thesis unfolding data_def [symmetric] eq using inv [OF a1, of 0] by (simp add: pass_ok_def)
    next
      case 2
      then show ?thesis unfolding data_def [symmetric] eq using n part(1) a2 r2 pre
        by (cases "ws_opcode st < 8") (simp_all add: Let_def pass_ok_def report_ok_def work)
    next
      case 3
      show ?thesis
      proof (cases "frame_end st2")
        case None
        then show ?thesis unfolding data_def [symmetric] eq using 3 inv [OF a2, of n] by (simp add: pass_ok_def)
      next
        case (Some x)
        obtain ev st3 where x: "x = (ev, st3)" by (cases x)
        note e = frame_end_ok [OF Some [unfolded x] a2]
        have "arrays_ok st3" using e by (simp add: ready_def)
        then show ?thesis unfolding data_def [symmetric] eq using 3 Some x e n part(1) pre
          by (cases ev; cases "ws_opcode st < 8") (simp_all add: Let_def pass_ok_def report_ok_def work)
      qed
    qed
  qed
qed

lemma pass_ok_later: "pass_ok input c x \<Longrightarrow> consumed \<le> c \<Longrightarrow> pass_ok input consumed x"
  by (auto simp: pass_ok_def report_ok_def split: sum.splits)

lemma ws_pass_ok:
  assumes "ready st" and "consumed < length input"
  shows "pass_ok input consumed (ws_pass st (drop consumed input) consumed)"
proof (cases "ws_active st")
  case True
  then show ?thesis using assms ws_payload_ok [of st consumed input] by (simp add: ws_pass_def ready_def)
next
  case False
  define data where "data = drop consumed input"
  define h where "h = ws_header st"
  have lt: "length h < header_needed h" using assms(1) False by (simp add: ready_def h_def)
  define n where "n = min (header_needed h - length h) (length data)"
  have sz: "szsub (header_needed h) (length h) = header_needed h - length h"
    using lt header_needed_le(1) [of h] by (intro szsub_exact) (auto simp: SIZE_MAX_def)
  have n: "0 < n" "consumed + n \<le> length input" "n \<le> length data" using lt assms(2) by (auto simp: n_def data_def)
  define st1 where "st1 = st\<lparr>ws_header := h @ take n data\<rparr>"
  have "length (h @ take n data) \<le> header_needed h" using lt by (simp add: n_def)
  then have a1: "arrays_ok st1" using assms(1) header_needed_le(1) [of h] by (auto simp: ready_def arrays_ok_def st1_def)
  have work: "drop n data = drop (consumed + n) input" by (simp add: data_def add.commute)
  have eq: "ws_pass st data consumed =
      (if length (ws_header st1) < 2 \<or> length (ws_header st1) < header_needed (ws_header st1) then Inr (st1, drop n data, consumed + n)
       else case frame_header st1 of (ok, st2) \<Rightarrow>
         if \<not> ok then Inl (ws_invalid st2 (consumed + n))
         else if ws_remaining st2 = 0 then
           (case frame_end st2 of
              None \<Rightarrow> Inl (ws_invalid st2 (consumed + n))
            | Some (Some control, st3) \<Rightarrow> Inl (Ws_Event, st3, consumed + n, control)
            | Some (None, st3) \<Rightarrow> Inr (st3, drop n data, consumed + n))
         else ws_payload st2 (drop n data) (consumed + n))"
    using False by (simp only: ws_pass_def Let_def h_def [symmetric] sz n_def [symmetric] st1_def [symmetric] if_False)
  obtain ok st2 where f: "frame_header st1 = (ok, st2)" by (cases "frame_header st1")
  note h2 = frame_header_ok [OF f a1]
  have inv: "pass_ok input consumed (Inl (ws_invalid st2 (consumed + n)))"
    using h2(1) n by (simp add: pass_ok_def report_ok_def ws_invalid_def arrays_ok_def)
  consider "length (ws_header st1) < 2 \<or> length (ws_header st1) < header_needed (ws_header st1)"
    | "\<not> (length (ws_header st1) < 2 \<or> length (ws_header st1) < header_needed (ws_header st1))" "\<not> ok"
    | "\<not> (length (ws_header st1) < 2 \<or> length (ws_header st1) < header_needed (ws_header st1))" ok "ws_remaining st2 = 0"
    | "\<not> (length (ws_header st1) < 2 \<or> length (ws_header st1) < header_needed (ws_header st1))" ok "ws_remaining st2 \<noteq> 0" by blast
  then show ?thesis
  proof cases
    case 1
    have "length (ws_header st1) < header_needed (ws_header st1)" using 1 header_needed_le(2) [of "ws_header st1"] by linarith
    then have "ready st1" using a1 False by (simp add: ready_def st1_def)
    then show ?thesis unfolding data_def [symmetric] eq using 1 n by (simp add: pass_ok_def work)
  next
    case 2
    then show ?thesis unfolding data_def [symmetric] eq if_not_P [OF 2(1)] using f inv by simp
  next
    case 3
    show ?thesis
    proof (cases "frame_end st2")
      case None
      then show ?thesis unfolding data_def [symmetric] eq if_not_P [OF 3(1)] using f 3(2,3) inv by simp
    next
      case (Some x)
      obtain ev st3 where x: "x = (ev, st3)" by (cases x)
      note e = frame_end_ok [OF Some [unfolded x] h2(1)]
      have "arrays_ok st3" using e by (simp add: ready_def)
      then show ?thesis unfolding data_def [symmetric] eq if_not_P [OF 3(1)] using f 3(2,3) Some x e n
        by (cases ev) (simp_all add: pass_ok_def report_ok_def work)
    qed
  next
    case 4
    then have "pass_ok input (consumed + n) (ws_payload st2 (drop (consumed + n) input) (consumed + n))"
      using ws_payload_ok [OF h2(1)] h2(2) n(2) by simp
    from pass_ok_later [OF this, of consumed] show ?thesis
      unfolding data_def [symmetric] eq if_not_P [OF 4(1)] work using f 4(2,3) by simp
  qed
qed

lemma ws_loop_ok:
  assumes "ready st" and "consumed \<le> length input"
  shows "\<exists>out. ws_loop st (drop consumed input) consumed = Some out \<and> report_ok input consumed out"
  using assms
proof (induction "length input - consumed" arbitrary: st consumed rule: less_induct)
  case less
  show ?case
  proof (cases "drop consumed input = []")
    case True
    then have "report_ok input consumed (Ws_None, st, consumed, (0, []))" using less(2,3) by (simp add: report_ok_def ready_def)
    then show ?thesis using True by (subst ws_loop.simps) simp
  next
    case False
    then have lt: "consumed < length input" by simp
    note ok = ws_pass_ok [OF less(2) lt]
    show ?thesis
    proof (cases "ws_pass st (drop consumed input) consumed")
      case (Inl out)
      then show ?thesis using ok False by (subst ws_loop.simps) (simp add: pass_ok_def)
    next
      case (Inr work)
      then obtain st1 c1 where w: "work = (st1, drop c1 input, c1)" "ready st1" "consumed < c1" "c1 \<le> length input"
        using ok by (cases work) (auto simp: pass_ok_def)
      have "length input - c1 < length input - consumed" using w(3,4) by simp
      from less(1) [OF this w(2,4)] obtain out where "ws_loop st1 (drop c1 input) c1 = Some out" "report_ok input c1 out" by blast
      moreover have "report_ok input consumed out" using calculation(2) w(3) by (auto simp: report_ok_def split: prod.splits)
      ultimately show ?thesis using Inr w False by (subst ws_loop.simps) simp
    qed
  qed
qed

text \<open>The decoders that exist: a fresh one, and what calls make of it.\<close>

inductive ws_reachable :: "ws_decoder \<Rightarrow> bool" where
  start: "ws_reachable ws_begin"
| decode: "ws_reachable st \<Longrightarrow> core_ws_decode st input = Some (r, st1, consumed, ev) \<Longrightarrow> ws_reachable st1"

lemma core_ws_decode_live:
  "\<not> (ws_failed st \<or> ws_closed st \<and> input \<noteq> []) \<Longrightarrow> core_ws_decode st input = ws_loop st (drop 0 input) 0"
  by (simp only: core_ws_decode_def if_False drop_0)

lemma ws_reachable_inv: "ws_reachable st \<Longrightarrow> arrays_ok st \<and> (ready st \<or> ws_failed st)"
proof (induction rule: ws_reachable.induct)
  case start
  show ?case by (simp add: ready_def arrays_ok_def ws_begin_def header_needed_def)
next
  case (decode st input r st1 consumed ev)
  show ?case
  proof (cases "ws_failed st \<or> ws_closed st \<and> input \<noteq> []")
    case True
    then show ?thesis using decode by (simp add: core_ws_decode_def)
  next
    case False
    then obtain out where "ws_loop st (drop 0 input) 0 = Some out" "report_ok input 0 out"
      using ws_loop_ok [of st 0 input] decode(3) by blast
    then have "report_ok input 0 (r, st1, consumed, ev)" using decode(2) by (simp only: core_ws_decode_live [OF False]) simp
    then show ?thesis by (cases r) (simp_all add: report_ok_def)
  qed
qed

text \<open>
  Property C12: whatever a server sends and however it arrives, the WebSocket decoder returns and never
  writes outside its header and control arrays, and no message outgrows 16 MiB.  It consumes no more
  than it was given; without an event it consumed everything; a data event is not empty and is the tail
  of what was consumed; and after an error the decoder stays unusable.
\<close>

theorem ws_decoder_safe:
  assumes "ws_reachable st"
  shows "\<exists>r st1 consumed ev. core_ws_decode st input = Some (r, st1, consumed, ev) \<and>
    length (ws_header st1) \<le> 10 \<and> length (ws_control st1) \<le> 125 \<and> ws_message_length st1 \<le> CORE_WS_MESSAGE_LIMIT \<and>
    consumed \<le> length input \<and> (r = Ws_None \<longrightarrow> consumed = length input) \<and>
    (r = Ws_Event \<longrightarrow> 0 < consumed \<and> (fst ev < 8 \<longrightarrow> snd ev \<noteq> [] \<and> (\<exists>p. take consumed input = p @ snd ev))) \<and>
    (r = Ws_Invalid \<longrightarrow> (\<forall>more. more \<noteq> [] \<longrightarrow> core_ws_decode st1 more = Some (Ws_Invalid, st1, 0, (0, []))))"
proof (cases "ws_failed st \<or> ws_closed st \<and> input \<noteq> []")
  case True
  then show ?thesis using ws_reachable_inv [OF assms] by (auto simp: core_ws_decode_def arrays_ok_def)
next
  case False
  then obtain r st1 c ev where l: "ws_loop st (drop 0 input) 0 = Some (r, st1, c, ev)" "report_ok input 0 (r, st1, c, ev)"
    using ws_loop_ok [of st 0 input] ws_reachable_inv [OF assms] by fastforce
  have d: "core_ws_decode st input = Some (r, st1, c, ev)" using l(1) core_ws_decode_live [OF False] by simp
  show ?thesis
    by (rule exI [of _ r], rule exI [of _ st1], rule exI [of _ c], rule exI [of _ ev])
      (use d l(2) in \<open>auto simp: core_ws_decode_def [of st1] report_ok_def arrays_ok_def\<close>)
qed

theorem ws_decoder_safe_witness:
  "\<exists>r st1 consumed ev. core_ws_decode ws_begin [0x82, 2, 7, 8, 0x89] = Some (r, st1, consumed, ev) \<and> consumed \<le> 5"
  using ws_decoder_safe [OF ws_reachable.start, of "[0x82, 2, 7, 8, 0x89]"] by auto

section \<open>The automaton accepts exactly UTF-8\<close>

text \<open>The Unicode scalar values and their encoding.\<close>

definition scalar_value :: "nat \<Rightarrow> bool" where
  "scalar_value c \<longleftrightarrow> c < 0x110000 \<and> \<not> (0xD800 \<le> c \<and> c \<le> 0xDFFF)"

definition utf8_encode :: "nat \<Rightarrow> bytes" where
  "utf8_encode c =
     (if c < 0x80 then [of_nat c]
      else if c < 0x800 then [of_nat (0xC0 + c div 64), of_nat (0x80 + c mod 64)]
      else if c < 0x10000 then [of_nat (0xE0 + c div 64 div 64), of_nat (0x80 + c div 64 mod 64), of_nat (0x80 + c mod 64)]
      else [of_nat (0xF0 + c div 64 div 64 div 64), of_nat (0x80 + c div 64 div 64 mod 64), of_nat (0x80 + c div 64 mod 64),
            of_nat (0x80 + c mod 64)])"

definition utf8_accepts :: "utf_state \<Rightarrow> bytes \<Rightarrow> bool" where
  "utf8_accepts u xs \<longleftrightarrow> (case utf8 u xs of (ok, v) \<Rightarrow> ok \<and> utf_left v = 0)"

abbreviation expecting :: "nat \<Rightarrow> nat \<Rightarrow> nat \<Rightarrow> utf_state" where
  "expecting k lo hi \<equiv> \<lparr>utf_left = k, utf_min = lo, utf_max = hi\<rparr>"

lemma utf8_accepts_Nil: "utf8_accepts u [] \<longleftrightarrow> utf_left u = 0"
  by (simp add: utf8_accepts_def)

lemma utf8_accepts_Cons: "utf8_accepts u (b # r) \<longleftrightarrow> (case utf8_byte u b of (ok, v) \<Rightarrow> ok \<and> utf8_accepts v r)"
  by (auto simp: utf8_accepts_def split: prod.splits)

lemma accepts_expecting:
  "utf8_accepts (expecting (Suc k) lo hi) xs \<longleftrightarrow>
   (\<exists>b r. xs = b # r \<and> lo \<le> unat b \<and> unat b \<le> hi \<and> utf8_accepts (expecting k 0x80 0xBF) r)"
  by (cases xs) (auto simp: utf8_accepts_Nil utf8_accepts_Cons utf8_byte_def Let_def)

text \<open>The first byte decides how many follow and where they lie.\<close>

lemma accepts_first:
  assumes "utf_left u = 0"
  shows "utf8_accepts u (b # r) \<longleftrightarrow>
    (let n = unat b
     in if n < 0x80 then utf8_accepts u r
        else if n < 0xC2 then False
        else if n < 0xE0 then utf8_accepts (expecting (Suc 0) 0x80 0xBF) r
        else if n < 0xF0 then
          utf8_accepts (expecting (Suc (Suc 0)) (if n = 0xE0 then 0xA0 else 0x80) (if n = 0xED then 0x9F else 0xBF)) r
        else if n < 0xF5 then
          utf8_accepts (expecting (Suc (Suc (Suc 0))) (if n = 0xF0 then 0x90 else 0x80) (if n = 0xF4 then 0x8F else 0xBF)) r
        else False)"
  using assms by (cases u) (auto simp: utf8_accepts_Cons utf8_byte_def Let_def numeral_eq_Suc [of "num.Bit0 num.One"] numeral_eq_Suc [of "num.Bit1 num.One"])

lemma digits64:
  assumes "x < 64"
  shows "(a * 64 + x) div 64 = a" "(a * 64 + x) mod 64 = (x :: nat)"
  using assms by simp_all

text \<open>The encodings of two, three and four bytes by their digits.\<close>

lemma encode2:
  assumes "2 \<le> a" "a < 32" "x < 64"
  shows "scalar_value (a * 64 + x)" "utf8_encode (a * 64 + x) = [of_nat (0xC0 + a), of_nat (0x80 + x)]"
  using assms digits64 [OF assms(3), of a] by (simp_all add: scalar_value_def utf8_encode_def)

definition digits3 :: "nat \<Rightarrow> nat \<Rightarrow> nat \<Rightarrow> bool" where
  "digits3 a x y \<longleftrightarrow> a < 16 \<and> x < 64 \<and> y < 64 \<and> (a = 0 \<longrightarrow> 32 \<le> x) \<and> (a = 13 \<longrightarrow> x < 32)"

lemma digits3_range: "digits3 a x y \<Longrightarrow> 0x800 \<le> (a * 64 + x) * 64 + y \<and> (a * 64 + x) * 64 + y < 0x10000"
  by (auto simp: digits3_def)

lemma encode3:
  assumes "digits3 a x y"
  shows "scalar_value ((a * 64 + x) * 64 + y)"
    "utf8_encode ((a * 64 + x) * 64 + y) = [of_nat (0xE0 + a), of_nat (0x80 + x), of_nat (0x80 + y)]"
proof -
  define c where "c = (a * 64 + x) * 64 + y"
  have xy: "x < 64" "y < 64" using assms by (simp_all add: digits3_def)
  have range: "0x800 \<le> c" "c < 0x10000" using digits3_range [OF assms] by (simp_all add: c_def)
  have d: "c mod 64 = y" "c div 64 = a * 64 + x" unfolding c_def by (simp_all only: digits64 [OF xy(2)])
  consider "a \<le> 12" | "a = 13" | "14 \<le> a" by linarith
  then have "\<not> (0xD800 \<le> c \<and> c \<le> 0xDFFF)" using assms by cases (auto simp: c_def digits3_def)
  then show "scalar_value c" using range by (simp add: scalar_value_def)
  show "utf8_encode c = [of_nat (0xE0 + a), of_nat (0x80 + x), of_nat (0x80 + y)]"
    using range digits64 [OF xy(1), of a] by (simp add: utf8_encode_def d)
qed

definition digits4 :: "nat \<Rightarrow> nat \<Rightarrow> nat \<Rightarrow> nat \<Rightarrow> bool" where
  "digits4 a x y z \<longleftrightarrow> a < 5 \<and> x < 64 \<and> y < 64 \<and> z < 64 \<and> (a = 0 \<longrightarrow> 16 \<le> x) \<and> (a = 4 \<longrightarrow> x < 16)"

lemma encode4:
  assumes "digits4 a x y z"
  shows "scalar_value (((a * 64 + x) * 64 + y) * 64 + z)"
    "utf8_encode (((a * 64 + x) * 64 + y) * 64 + z) = [of_nat (0xF0 + a), of_nat (0x80 + x), of_nat (0x80 + y), of_nat (0x80 + z)]"
proof -
  define c where "c = ((a * 64 + x) * 64 + y) * 64 + z"
  have xyz: "x < 64" "y < 64" "z < 64" using assms by (simp_all add: digits4_def)
  have range: "0x10000 \<le> c" "c < 0x110000" using assms by (auto simp: c_def digits4_def)
  have d: "c mod 64 = z" "c div 64 = (a * 64 + x) * 64 + y" unfolding c_def by (simp_all only: digits64 [OF xyz(3)])
  have e: "((a * 64 + x) * 64 + y) mod 64 = y" "((a * 64 + x) * 64 + y) div 64 = a * 64 + x" by (simp_all only: digits64 [OF xyz(2)])
  show "scalar_value c" using range by (simp add: scalar_value_def)
  show "utf8_encode c = [of_nat (0xF0 + a), of_nat (0x80 + x), of_nat (0x80 + y), of_nat (0x80 + z)]"
    using range digits64 [OF xyz(1), of a] by (simp only: utf8_encode_def d e) simp
qed

text \<open>A text that is accepted starts with the encoding of a scalar value.\<close>

lemma accepts_decode:
  assumes "utf8_accepts u (b # r)" and "utf_left u = 0"
  shows "\<exists>c r1 v. scalar_value c \<and> b # r = utf8_encode c @ r1 \<and> utf_left v = 0 \<and> utf8_accepts v r1"
proof -
  define n where "n = unat b"
  note first = assms(1) [unfolded accepts_first [OF assms(2)] Let_def n_def [symmetric]]
  consider "n < 0x80" | "0x80 \<le> n" "n < 0xE0" | "0xE0 \<le> n" "n < 0xF0" | "0xF0 \<le> n" by linarith
  then show ?thesis
  proof cases
    case 1
    then have "utf8_accepts u r" using first by simp
    moreover have "b # r = utf8_encode n @ r" using 1 by (simp add: utf8_encode_def n_def)
    ultimately show ?thesis using 1 assms(2) by (intro exI [of _ n] exI [of _ r] exI [of _ u]) (simp add: scalar_value_def)
  next
    case 2
    then obtain b2 r2 where r: "r = b2 # r2" "0x80 \<le> unat b2" "unat b2 \<le> 0xBF" "utf8_accepts (expecting 0 0x80 0xBF) r2" and n: "0xC2 \<le> n"
      using first by (auto simp: accepts_expecting split: if_splits)
    define a x where "a = n - 0xC0" and "x = unat b2 - 0x80"
    have b: "b = of_nat (0xC0 + a)" "b2 = of_nat (0x80 + x)" "2 \<le> a" "a < 32" "x < 64" using 2 n r by (simp_all add: a_def x_def n_def)
    then show ?thesis using r(1,4) encode2 [OF b(3-5)] by (intro exI [of _ "a * 64 + x"] exI [of _ r2] exI [of _ "expecting 0 0x80 0xBF"]) simp
  next
    case 3
    then obtain b2 b3 r3 where r: "r = b2 # b3 # r3" "0x80 \<le> unat b2" "unat b2 \<le> 0xBF" "n = 0xE0 \<longrightarrow> 0xA0 \<le> unat b2"
      "n = 0xED \<longrightarrow> unat b2 \<le> 0x9F" "0x80 \<le> unat b3" "unat b3 \<le> 0xBF" "utf8_accepts (expecting 0 0x80 0xBF) r3"
      using first by (auto simp: accepts_expecting split: if_splits)
    define a x y where "a = n - 0xE0" and "x = unat b2 - 0x80" and "y = unat b3 - 0x80"
    have b: "b = of_nat (0xE0 + a)" "b2 = of_nat (0x80 + x)" "b3 = of_nat (0x80 + y)" using 3 r by (simp_all add: a_def x_def y_def n_def)
    have d: "digits3 a x y" using 3 r(2-7) by (auto simp: digits3_def a_def x_def y_def)
    show ?thesis using r(1,8) b encode3 [OF d]
      by (intro exI [of _ "(a * 64 + x) * 64 + y"] exI [of _ r3] exI [of _ "expecting 0 0x80 0xBF"]) simp
  next
    case 4
    then obtain b2 b3 b4 r4 where r: "r = b2 # b3 # b4 # r4" "0x80 \<le> unat b2" "unat b2 \<le> 0xBF" "n = 0xF0 \<longrightarrow> 0x90 \<le> unat b2"
      "n = 0xF4 \<longrightarrow> unat b2 \<le> 0x8F" "0x80 \<le> unat b3" "unat b3 \<le> 0xBF" "0x80 \<le> unat b4" "unat b4 \<le> 0xBF"
      "utf8_accepts (expecting 0 0x80 0xBF) r4" and n: "n < 0xF5"
      using first by (auto simp: accepts_expecting split: if_splits)
    define a x y z where "a = n - 0xF0" and "x = unat b2 - 0x80" and "y = unat b3 - 0x80" and "z = unat b4 - 0x80"
    have b: "b = of_nat (0xF0 + a)" "b2 = of_nat (0x80 + x)" "b3 = of_nat (0x80 + y)" "b4 = of_nat (0x80 + z)"
      using 4 r by (simp_all add: a_def x_def y_def z_def n_def)
    have d: "digits4 a x y z" using 4 n r(2-9) by (auto simp: digits4_def a_def x_def y_def z_def)
    show ?thesis using r(1,10) b encode4 [OF d]
      by (intro exI [of _ "((a * 64 + x) * 64 + y) * 64 + z"] exI [of _ r4] exI [of _ "expecting 0 0x80 0xBF"]) simp
  qed
qed

text \<open>The encoding of a scalar value is accepted.\<close>

lemma scalar_cases:
  assumes "scalar_value c"
  obtains "c < 0x80" | a x where "c = a * 64 + x" "2 \<le> a" "a < 32" "x < 64"
    | a x y where "c = (a * 64 + x) * 64 + y" "digits3 a x y"
    | a x y z where "c = ((a * 64 + x) * 64 + y) * 64 + z" "digits4 a x y z"
proof -
  define q x where "q = c div 64" and "x = c mod 64"
  have c: "c = q * 64 + x" "x < 64" by (simp_all add: q_def x_def)
  define q1 x1 where "q1 = q div 64" and "x1 = q mod 64"
  have q: "q = q1 * 64 + x1" "x1 < 64" by (simp_all add: q1_def x1_def)
  define q2 x2 where "q2 = q1 div 64" and "x2 = q1 mod 64"
  have q1: "q1 = q2 * 64 + x2" "x2 < 64" by (simp_all add: q2_def x2_def)
  consider "c < 0x80" | "0x80 \<le> c" "c < 0x800" | "0x800 \<le> c" "c < 0x10000" | "0x10000 \<le> c" by linarith
  then show thesis
  proof cases
    case 1
    then show thesis by (rule that(1))
  next
    case 2
    then show thesis using c by (intro that(2) [of q x]) auto
  next
    case 3
    have "digits3 q1 x1 x" using 3 assms c q by (auto simp: digits3_def scalar_value_def)
    then show thesis using c q by (intro that(3) [of q1 x1 x]) auto
  next
    case 4
    have "digits4 q2 x2 x1 x" using 4 assms c q q1 by (auto simp: digits4_def scalar_value_def)
    then show thesis using c q q1 by (intro that(4) [of q2 x2 x1 x]) auto
  qed
qed

lemma accepts_encode:
  assumes "scalar_value c" and "utf_left u = 0"
  shows "\<exists>v. utf_left v = 0 \<and> (\<forall>r. utf8_accepts u (utf8_encode c @ r) = utf8_accepts v r)"
  using assms(1)
proof (cases rule: scalar_cases)
  case 1
  then show ?thesis using assms(2) unat_small [of c] by (intro exI [of _ u]) (simp add: utf8_encode_def accepts_first)
next
  case (2 a x)
  then show ?thesis using assms(2) encode2(2) [OF 2(2-4)] unat_small [of "0xC0 + a"] unat_small [of "0x80 + x"]
    by (intro exI [of _ "expecting 0 0x80 0xBF"]) (simp add: accepts_first accepts_expecting)
next
  case (3 a x y)
  have d: "a < 16" "x < 64" "y < 64" "a = 0 \<longrightarrow> 32 \<le> x" "a = 13 \<longrightarrow> x \<le> 31" using 3(2) by (auto simp: digits3_def)
  then show ?thesis
    using assms(2) 3(1) encode3(2) [OF 3(2)] unat_small [of "0xE0 + a"] unat_small [of "0x80 + x"] unat_small [of "0x80 + y"]
    by (intro exI [of _ "expecting 0 0x80 0xBF"]) (simp add: accepts_first accepts_expecting)
next
  case (4 a x y z)
  have d: "a < 5" "x < 64" "y < 64" "z < 64" "a = 0 \<longrightarrow> 16 \<le> x" "a = 4 \<longrightarrow> x \<le> 15" using 4(2) by (auto simp: digits4_def)
  then show ?thesis
    using assms(2) 4(1) encode4(2) [OF 4(2)] unat_small [of "0xF0 + a"] unat_small [of "0x80 + x"] unat_small [of "0x80 + y"]
      unat_small [of "0x80 + z"]
    by (intro exI [of _ "expecting 0 0x80 0xBF"]) (simp add: accepts_first accepts_expecting)
qed

lemma utf8_accepts_iff:
  assumes "utf_left u = 0"
  shows "utf8_accepts u xs \<longleftrightarrow> (\<exists>cs. (\<forall>c \<in> set cs. scalar_value c) \<and> xs = concat (map utf8_encode cs))"
proof
  assume "utf8_accepts u xs"
  then show "\<exists>cs. (\<forall>c \<in> set cs. scalar_value c) \<and> xs = concat (map utf8_encode cs)" using assms
  proof (induction "length xs" arbitrary: xs u rule: less_induct)
    case less
    show ?case
    proof (cases xs)
      case Nil
      then show ?thesis by (intro exI [of _ "[]"]) simp
    next
      case (Cons b r)
      then obtain c r1 v where c: "scalar_value c" "xs = utf8_encode c @ r1" "utf_left v = 0" "utf8_accepts v r1"
        using accepts_decode less(2,3) by metis
      have "utf8_encode c \<noteq> []" by (simp add: utf8_encode_def)
      then obtain cs where "\<forall>d \<in> set cs. scalar_value d" "r1 = concat (map utf8_encode cs)" using less(1) [OF _ c(4,3)] c(2) by auto
      then show ?thesis using c(1,2) by (intro exI [of _ "c # cs"]) simp
    qed
  qed
next
  assume "\<exists>cs. (\<forall>c \<in> set cs. scalar_value c) \<and> xs = concat (map utf8_encode cs)"
  then obtain cs where "\<forall>c \<in> set cs. scalar_value c" "xs = concat (map utf8_encode cs)" by blast
  then show "utf8_accepts u xs" using assms
  proof (induction cs arbitrary: xs u)
    case Nil
    then show ?case by (simp add: utf8_accepts_Nil)
  next
    case (Cons c cs)
    obtain v where "utf_left v = 0" "\<forall>r. utf8_accepts u (utf8_encode c @ r) = utf8_accepts v r"
      using accepts_encode [of c u] Cons(2,4) by auto
    then show ?case using Cons by simp
  qed
qed

text \<open>
  Property C17: the UTF-8 automaton, started afresh, accepts a byte string and is not inside a character
  exactly when the string is the UTF-8 encoding of Unicode scalar values: no overlong form, no
  surrogate, nothing beyond U+10FFFF, nothing cut off.  Cutting the string into pieces changes nothing.
\<close>

theorem ws_utf8_exact:
  "(\<exists>u. utf8 utf_start xs = (True, u) \<and> utf_left u = 0) =
     (\<exists>cs. list_all scalar_value cs \<and> xs = concat (map utf8_encode cs)) \<and>
   utf8 st (ys @ zs) = (case utf8 st ys of (ok, st1) \<Rightarrow> if ok then utf8 st1 zs else (False, st1))"
proof
  have "utf8_accepts utf_start xs = (\<exists>u. utf8 utf_start xs = (True, u) \<and> utf_left u = 0)"
    by (auto simp: utf8_accepts_def split: prod.splits)
  then show "(\<exists>u. utf8 utf_start xs = (True, u) \<and> utf_left u = 0) =
      (\<exists>cs. list_all scalar_value cs \<and> xs = concat (map utf8_encode cs))"
    using utf8_accepts_iff [of utf_start xs] by (simp add: utf_start_def list_all_iff)
  show "utf8 st (ys @ zs) = (case utf8 st ys of (ok, st1) \<Rightarrow> if ok then utf8 st1 zs else (False, st1))"
    by (induction ys arbitrary: st) (auto split: prod.splits)
qed

end
