(* ===== verification/Http2_Queue.thy ===== *)
theory Http2_Queue
  imports Relay_Memory
begin

text \<open>
  The byte queues of the HTTP/2 streams, \<^verbatim>\<open>src/src/http2_queue.c\<close>.  A queue with the stream
  limit is a chain of blocks of 16 KiB that are taken from a cache or allocated; any other limit gives a
  flat buffer that doubles.  Memory is charged to the queue's own budget or to a shared account, in the
  store of budgets of \<^verbatim>\<open>buffer_budget.c\<close>.  A block is the bytes below its end; cached blocks are
  counted, since their bytes are never read.  \<open>got k\<close> is the allocator's answer to the request number
  \<open>k\<close> of a call.  The theorems show that a queue delivers exactly what was accepted, in order.
\<close>

section \<open>Queues\<close>

definition CORE_HTTP2_QUEUE_BLOCK :: nat where "CORE_HTTP2_QUEUE_BLOCK = 16384"
definition CORE_HTTP2_QUEUE_CACHE :: nat where "CORE_HTTP2_QUEUE_CACHE = 256 * 1024"
definition CORE_HTTP2_STREAM_LIMIT :: nat where "CORE_HTTP2_STREAM_LIMIT = 256 * 1024"

text \<open>\<^verbatim>\<open>sizeof(core_http2_block_t)\<close> with pointers and sizes of eight bytes.\<close>

definition block_size :: nat where "block_size = 24 + 16384"

record http2_block =
  blk_start :: nat
  blk_data :: bytes

record http2_queue =
  q_data :: "bytes option"
  q_start :: nat
  q_length :: nat
  q_capacity :: nat
  q_blocks :: "http2_block list"
  q_memory :: nat
  q_account :: "nat option"

record block_cache =
  cached :: "nat \<Rightarrow> nat"
  cache_bytes :: "nat \<Rightarrow> nat"
  cache_memory :: "nat \<Rightarrow> nat"

definition queue_memory :: "http2_queue \<Rightarrow> nat" where
  "queue_memory q = (case q_account q of Some a \<Rightarrow> a | None \<Rightarrow> q_memory q)"

definition memory_direction :: "budget_state \<Rightarrow> nat \<Rightarrow> nat" where
  "memory_direction s mem = (case budgets s mem of Some b \<Rightarrow> direction b | None \<Rightarrow> 0)"

text \<open>The blocks of all queues share the cache and the budgets.\<close>

type_synonym block_state = "block_cache \<times> budget_state"

definition block_new :: "bool \<Rightarrow> nat \<Rightarrow> block_state \<Rightarrow> bool \<times> block_state" where
  "block_new got mem cs =
     (case cs of (c, s) \<Rightarrow>
        let d = memory_direction s mem;
            (e, s1) = (if cached c d \<noteq> 0 then core_buffer_transfer s (cache_memory c d) mem block_size else (Some EINVAL, s))
        in if e = None then
             (True, c\<lparr>cached := (cached c)(d := cached c d - 1),
                      cache_bytes := (cache_bytes c)(d := szsub (cache_bytes c d) block_size)\<rparr>, s1)
           else case core_buffer_alloc got s1 mem block_size of (ok, s2) \<Rightarrow> (ok, c, s2))"

definition block_free :: "nat \<Rightarrow> block_state \<Rightarrow> block_state" where
  "block_free mem cs =
     (case cs of (c, s) \<Rightarrow>
        let d = memory_direction s mem;
            (e, s1) = (if block_size \<le> szsub CORE_HTTP2_QUEUE_CACHE (cache_bytes c d)
                       then core_buffer_transfer s mem (cache_memory c d) block_size else (Some EINVAL, s))
        in if e = None then
             (c\<lparr>cached := (cached c)(d := cached c d + 1),
                cache_bytes := (cache_bytes c)(d := szadd (cache_bytes c d) block_size)\<rparr>, s1)
           else (c, core_buffer_free s1 mem True block_size))"

definition update_view :: "http2_queue \<Rightarrow> http2_queue" where
  "update_view q =
     (case q_blocks q of
        [] \<Rightarrow> q\<lparr>q_data := None, q_start := 0\<rparr>
      | b # _ \<Rightarrow> q\<lparr>q_data := Some (blk_data b), q_start := blk_start b\<rparr>)"

definition core_http2_queue_reservation :: "nat \<Rightarrow> nat" where
  "core_http2_queue_reservation n =
     (if n > CORE_BUFFER_TOTAL_LIMIT then SIZE_MAX
      else ((n + CORE_HTTP2_QUEUE_BLOCK - 1) div CORE_HTTP2_QUEUE_BLOCK + 1) * block_size)"

section \<open>Appending\<close>

text \<open>
  The doubling of a flat buffer.  It starts from a capacity that is not zero, and the caller has checked
  that the limit suffices, so the loop ends when it takes the limit.
\<close>

function queue_grow :: "nat \<Rightarrow> nat \<Rightarrow> nat \<Rightarrow> nat" where
  "queue_grow limit needed capacity =
     (if capacity = 0 \<or> needed \<le> capacity then capacity
      else if capacity > limit div 2 then limit
      else queue_grow limit needed (capacity * 2))"
  by auto
termination
  by (relation "measure (\<lambda>(limit, needed, capacity). needed - capacity)") auto

declare queue_grow.simps [simp del]

text \<open>The bytes below \<open>start + length\<close> of a flat buffer.\<close>

definition flat_bytes :: "http2_queue \<Rightarrow> bytes" where
  "flat_bytes q = (case q_data q of Some d \<Rightarrow> d | None \<Rightarrow> [])"

definition flat_append ::
  "(nat \<Rightarrow> bool) \<Rightarrow> block_state \<Rightarrow> http2_queue \<Rightarrow> bytes \<Rightarrow> bytes \<Rightarrow> nat \<Rightarrow> bool \<times> http2_queue \<times> block_state" where
  "flat_append got cs q prefix data limit =
     (let n = length prefix + length data;
          write = (\<lambda>q cs. (True, q\<lparr>q_data := Some (flat_bytes q @ prefix @ data), q_length := q_length q + n\<rparr>, cs))
      in if szadd (szadd (q_start q) (q_length q)) n > q_capacity q then
           let q1 = (if q_start q \<noteq> 0 then q\<lparr>q_data := Some (drop (q_start q) (flat_bytes q)), q_start := 0\<rparr> else q)
           in if q_length q1 + n > q_capacity q1 then
                let capacity = queue_grow limit (q_length q1 + n) (if q_capacity q1 \<noteq> 0 then q_capacity q1 else 4096)
                in case core_buffer_realloc (got 0) (snd cs) (queue_memory q1) (q_data q1 \<noteq> None) (q_capacity q1) capacity of
                     (e, ok, s1) \<Rightarrow>
                       if \<not> ok then (False, q1, fst cs, s1) else write (q1\<lparr>q_capacity := capacity\<rparr>) (fst cs, s1)
              else write q1 cs
         else write q cs)"

text \<open>The blocks an append needs, all or none.\<close>

fun free_blocks :: "nat \<Rightarrow> nat \<Rightarrow> block_state \<Rightarrow> block_state" where
  "free_blocks mem 0 cs = cs"
| "free_blocks mem (Suc k) cs = free_blocks mem k (block_free mem cs)"

fun take_blocks :: "(nat \<Rightarrow> bool) \<Rightarrow> nat \<Rightarrow> nat \<Rightarrow> nat \<Rightarrow> block_state \<Rightarrow> bool \<times> block_state" where
  "take_blocks got mem k 0 cs = (True, cs)"
| "take_blocks got mem k (Suc n) cs =
     (case block_new (got k) mem cs of (ok, cs1) \<Rightarrow>
        if ok then take_blocks got mem (Suc k) n cs1 else (False, free_blocks mem k cs1))"

definition empty_block :: http2_block where
  "empty_block = \<lparr>blk_start = 0, blk_data = []\<rparr>"

text \<open>The amount one \<^verbatim>\<open>memcpy\<close> moves, and the loop over the blocks from the first with room on.\<close>

definition write_amount :: "nat \<Rightarrow> nat \<Rightarrow> nat \<Rightarrow> nat \<Rightarrow> nat" where
  "write_amount plen n offset used =
     (let amount = min (CORE_HTTP2_QUEUE_BLOCK - used) (n - offset)
      in if offset < plen \<and> amount > plen - offset then plen - offset else amount)"

function write_blocks :: "bytes \<Rightarrow> bytes \<Rightarrow> nat \<Rightarrow> http2_block list \<Rightarrow> http2_block list" where
  "write_blocks prefix data offset bs =
     (case bs of
        [] \<Rightarrow> []
      | b # r \<Rightarrow>
          if offset \<ge> length prefix + length data then bs
          else let amount = write_amount (length prefix) (length prefix + length data) offset (length (blk_data b));
                   piece = (if offset < length prefix then take amount (drop offset prefix)
                            else take amount (drop (offset - length prefix) data));
                   b1 = b\<lparr>blk_data := blk_data b @ piece\<rparr>
               in if length (blk_data b) + amount \<ge> CORE_HTTP2_QUEUE_BLOCK then b1 # write_blocks prefix data (offset + amount) r
                  else write_blocks prefix data (offset + amount) (b1 # r))"
  by pat_completeness auto
termination
  by (relation "measures [\<lambda>(prefix, data, offset, bs). length bs, \<lambda>(prefix, data, offset, bs). length prefix + length data - offset]")
    (auto simp: write_amount_def Let_def split: if_splits)

declare write_blocks.simps [simp del]

definition block_append ::
  "(nat \<Rightarrow> bool) \<Rightarrow> block_state \<Rightarrow> http2_queue \<Rightarrow> bytes \<Rightarrow> bytes \<Rightarrow> bool \<times> http2_queue \<times> block_state" where
  "block_append got cs q prefix data =
     (let n = length prefix + length data; bs = q_blocks q;
          room = (if bs \<noteq> [] then CORE_HTTP2_QUEUE_BLOCK - length (blk_data (last bs)) else 0);
          needed = (if n > room then (n - room + CORE_HTTP2_QUEUE_BLOCK - 1) div CORE_HTTP2_QUEUE_BLOCK else 0)
      in case take_blocks got (queue_memory q) 0 needed cs of (ok, cs1) \<Rightarrow>
           if \<not> ok then (False, q, cs1)
           else let fresh = replicate needed empty_block;
                    written = (if bs \<noteq> [] then butlast bs @ write_blocks prefix data 0 (last bs # fresh)
                               else write_blocks prefix data 0 fresh)
                in (True, update_view (q\<lparr>q_blocks := written, q_length := q_length q + n,
                      q_capacity := q_capacity q + needed * CORE_HTTP2_QUEUE_BLOCK\<rparr>), cs1))"

definition core_http2_queue_append_parts ::
  "(nat \<Rightarrow> bool) \<Rightarrow> block_state \<Rightarrow> http2_queue \<Rightarrow> bytes \<Rightarrow> bytes \<Rightarrow> nat \<Rightarrow> bool \<times> http2_queue \<times> block_state" where
  "core_http2_queue_append_parts got cs q prefix data limit =
     (if length prefix > SIZE_MAX - length data then (False, q, cs)
      else let n = length prefix + length data
           in if q_length q > limit \<or> n > limit - q_length q then (False, q, cs)
              else if n = 0 then (True, q, cs)
              else if limit \<noteq> CORE_HTTP2_STREAM_LIMIT then flat_append got cs q prefix data limit
              else block_append got cs q prefix data)"

definition core_http2_queue_append ::
  "(nat \<Rightarrow> bool) \<Rightarrow> block_state \<Rightarrow> http2_queue \<Rightarrow> bytes \<Rightarrow> nat \<Rightarrow> bool \<times> http2_queue \<times> block_state" where
  "core_http2_queue_append got cs q data limit = core_http2_queue_append_parts got cs q [] data limit"

section \<open>Consuming\<close>

fun consume_blocks :: "nat \<Rightarrow> nat \<Rightarrow> http2_block list \<Rightarrow> nat \<Rightarrow> block_state \<Rightarrow> http2_block list \<times> nat \<times> block_state" where
  "consume_blocks mem n [] capacity cs = ([], capacity, cs)"
| "consume_blocks mem n (b # r) capacity cs =
     (if n = 0 then (b # r, capacity, cs)
      else let amount = min (length (blk_data b) - blk_start b) n; b1 = b\<lparr>blk_start := blk_start b + amount\<rparr>
           in if blk_start b1 = length (blk_data b1) then
                consume_blocks mem (n - amount) r (szsub capacity CORE_HTTP2_QUEUE_BLOCK) (block_free mem cs)
              else (b1 # r, capacity, cs))"

definition core_http2_queue_consume :: "block_state \<Rightarrow> http2_queue \<Rightarrow> nat \<Rightarrow> http2_queue \<times> block_state" where
  "core_http2_queue_consume cs q0 amount =
     (let n = (if amount > q_length q0 then q_length q0 else amount); q = q0\<lparr>q_length := q_length q0 - n\<rparr>
      in if q_blocks q = [] then
           let q1 = q\<lparr>q_start := q_start q + n\<rparr>
           in if q_length q1 = 0 then
                (q1\<lparr>q_data := None, q_start := 0, q_capacity := 0\<rparr>, fst cs,
                 core_buffer_free (snd cs) (queue_memory q1) (q_data q1 \<noteq> None) (q_capacity q1))
              else (q1, cs)
         else case consume_blocks (queue_memory q) n (q_blocks q) (q_capacity q) cs of (bs, capacity, cs1) \<Rightarrow>
                (update_view (q\<lparr>q_blocks := bs, q_capacity := capacity\<rparr>), cs1))"

definition core_http2_queue_clear :: "block_state \<Rightarrow> http2_queue \<Rightarrow> http2_queue \<times> block_state" where
  "core_http2_queue_clear cs q =
     (case core_http2_queue_consume cs q (q_length q) of (q1, c, s) \<Rightarrow>
        let (q2, s2) = (if q_data q1 \<noteq> None then
                          (q1\<lparr>q_data := None, q_capacity := 0, q_start := 0\<rparr>, core_buffer_free s (queue_memory q1) True (q_capacity q1))
                        else (q1, s))
        in (q2, c, if q_account q2 = None then snd (core_buffer_budget_clear s2 (q_memory q2)) else s2))"

definition core_http2_queue_span :: "http2_queue \<Rightarrow> nat" where
  "core_http2_queue_span q =
     (case q_blocks q of b # _ \<Rightarrow> length (blk_data b) - blk_start b | [] \<Rightarrow> q_length q)"

fun copy_blocks :: "http2_block list \<Rightarrow> nat \<Rightarrow> bytes" where
  "copy_blocks [] n = []"
| "copy_blocks (b # r) n =
     (if n = 0 then []
      else let amount = min (length (blk_data b) - blk_start b) n
           in take amount (drop (blk_start b) (blk_data b)) @ copy_blocks r (n - amount))"

definition core_http2_queue_copy :: "http2_queue \<Rightarrow> nat \<Rightarrow> bytes" where
  "core_http2_queue_copy q n =
     (if q_blocks q = [] then take n (drop (q_start q) (flat_bytes q)) else copy_blocks (q_blocks q) n)"

text \<open>Emptying the cache, one direction after the other.\<close>

fun drop_cached :: "nat \<Rightarrow> nat \<Rightarrow> budget_state \<Rightarrow> budget_state" where
  "drop_cached mem 0 s = s"
| "drop_cached mem (Suc k) s = drop_cached mem k (core_buffer_free s mem True block_size)"

definition core_http2_queue_cache_clear :: "block_state \<Rightarrow> block_state" where
  "core_http2_queue_cache_clear cs =
     foldl (\<lambda>(c, s) d. (c\<lparr>cached := (cached c)(d := 0), cache_bytes := (cache_bytes c)(d := 0)\<rparr>,
                        drop_cached (cache_memory c d) (cached c d) s)) cs [0..<CORE_BUFFER_DIRECTIONS]"

section \<open>Queues of bytes\<close>

text \<open>
  What a client relies on: bytes that are put in come out once and in order.  \<open>queue_run\<close> drives a
  queue through a sequence of operations and collects what it accepted and what it delivered.
\<close>

datatype 'x queue_op = Put 'x | Get nat

fun queue_run ::
  "('s \<Rightarrow> 'q \<Rightarrow> 'x \<Rightarrow> bool \<times> 'q \<times> 's) \<Rightarrow> ('s \<Rightarrow> 'q \<Rightarrow> nat \<Rightarrow> bytes \<times> 'q \<times> 's) \<Rightarrow> ('x \<Rightarrow> bytes) \<Rightarrow>
     'x queue_op list \<Rightarrow> 's \<Rightarrow> 'q \<Rightarrow> bytes \<times> bytes \<times> 'q \<times> 's" where
  "queue_run put_q get_q payload [] s q = ([], [], q, s)"
| "queue_run put_q get_q payload (Put x # ops) s q =
     (case put_q s q x of (ok, q1, s1) \<Rightarrow>
        case queue_run put_q get_q payload ops s1 q1 of (acc, del, r) \<Rightarrow> ((if ok then payload x else []) @ acc, del, r))"
| "queue_run put_q get_q payload (Get n # ops) s q =
     (case get_q s q n of (out, q1, s1) \<Rightarrow>
        case queue_run put_q get_q payload ops s1 q1 of (acc, del, r) \<Rightarrow> (acc, out @ del, r))"

locale byte_queue =
  fixes put_q :: "'s \<Rightarrow> 'q \<Rightarrow> 'x \<Rightarrow> bool \<times> 'q \<times> 's"
    and get_q :: "'s \<Rightarrow> 'q \<Rightarrow> nat \<Rightarrow> bytes \<times> 'q \<times> 's"
    and payload :: "'x \<Rightarrow> bytes"
    and contents :: "'q \<Rightarrow> bytes"
    and wf_q :: "'q \<Rightarrow> bool"
  assumes put_law: "wf_q q \<Longrightarrow> put_q s q x = (ok, q1, s1) \<Longrightarrow> wf_q q1 \<and> contents q1 = contents q @ (if ok then payload x else [])"
    and get_law: "wf_q q \<Longrightarrow> get_q s q n = (out, q1, s1) \<Longrightarrow> wf_q q1 \<and> contents q = out @ contents q1"
begin

lemma run_fifo:
  "wf_q q \<Longrightarrow> queue_run put_q get_q payload ops s q = (acc, del, q1, s1) \<Longrightarrow>
   wf_q q1 \<and> contents q @ acc = del @ contents q1"
proof (induction ops arbitrary: s q acc del)
  case (Cons op ops)
  show ?case
  proof (cases op)
    case (Put x)
    obtain ok q2 s2 where p: "put_q s q x = (ok, q2, s2)" by (cases "put_q s q x")
    then obtain acc1 where "queue_run put_q get_q payload ops s2 q2 = (acc1, del, q1, s1)" "acc = (if ok then payload x else []) @ acc1"
      using Cons(3) Put by (auto split: prod.splits)
    then show ?thesis using Cons(1) [of q2 s2 acc1 del] put_law [OF Cons(2) p] by auto
  next
    case (Get n)
    obtain out q2 s2 where g: "get_q s q n = (out, q2, s2)" by (cases "get_q s q n")
    then obtain del1 where "queue_run put_q get_q payload ops s2 q2 = (acc, del1, q1, s1)" "del = out @ del1"
      using Cons(3) Get by (auto split: prod.splits)
    then show ?thesis using Cons(1) [of q2 s2 acc del1] get_law [OF Cons(2) g] by auto
  qed
qed simp

end

section \<open>Chains of blocks\<close>

abbreviation rest_of :: "http2_block \<Rightarrow> bytes" where
  "rest_of b \<equiv> drop (blk_start b) (blk_data b)"

definition chain_bytes :: "http2_block list \<Rightarrow> bytes" where
  "chain_bytes bs = concat (map rest_of bs)"

definition block_ok :: "http2_block \<Rightarrow> bool" where
  "block_ok b \<longleftrightarrow> blk_start b < length (blk_data b) \<and> length (blk_data b) \<le> CORE_HTTP2_QUEUE_BLOCK"

fun chain_ok :: "http2_block list \<Rightarrow> bool" where
  "chain_ok [] \<longleftrightarrow> True"
| "chain_ok [b] \<longleftrightarrow> block_ok b"
| "chain_ok (b # c # r) \<longleftrightarrow> block_ok b \<and> length (blk_data b) = CORE_HTTP2_QUEUE_BLOCK \<and> chain_ok (c # r)"

text \<open>What writing into a block and \<open>k\<close> fresh ones leaves, by the room in each.\<close>

fun fill :: "http2_block \<Rightarrow> bytes \<Rightarrow> nat \<Rightarrow> http2_block list" where
  "fill b xs 0 = [b\<lparr>blk_data := blk_data b @ xs\<rparr>]"
| "fill b xs (Suc k) =
     (let room = CORE_HTTP2_QUEUE_BLOCK - length (blk_data b)
      in b\<lparr>blk_data := blk_data b @ take room xs\<rparr> # fill empty_block (drop room xs) k)"

lemma fill_step:
  assumes "a \<le> CORE_HTTP2_QUEUE_BLOCK - length (blk_data b)"
  shows "fill (b\<lparr>blk_data := blk_data b @ take a xs\<rparr>) (drop a xs) k = fill b xs k"
proof (cases k)
  case (Suc j)
  define room where "room = CORE_HTTP2_QUEUE_BLOCK - length (blk_data b)"
  have r: "a + (room - a) = room" "CORE_HTTP2_QUEUE_BLOCK - (length (blk_data b) + a) = room - a" using assms by (simp_all add: room_def)
  have t: "take a xs @ take (room - a) (drop a xs) = take room xs" using take_add [of a "room - a" xs] r(1) by simp
  have d: "drop (room - a) (drop a xs) = drop room xs" by (simp only: drop_drop) (simp add: r(1) add.commute [of "room - a"])
  show ?thesis
  proof (cases "length xs \<le> a")
    case True
    then show ?thesis using Suc r by (simp add: Let_def room_def [symmetric])
  next
    case False
    then have "length (take a xs) = a" by simp
    then show ?thesis using Suc t d r(2) by (simp add: Let_def room_def [symmetric])
  qed
qed simp

lemma fill_nil: "fill b [] k = b # replicate k empty_block"
  by (induction k arbitrary: b) (simp_all add: Let_def)

lemma fill_bytes: "blk_start b \<le> length (blk_data b) \<Longrightarrow> chain_bytes (fill b xs k) = rest_of b @ xs"
proof (induction k arbitrary: b xs)
  case (Suc k)
  then show ?case using Suc(1) [of empty_block] by (simp add: chain_bytes_def Let_def empty_block_def)
qed (simp add: chain_bytes_def)

lemma fill_length [simp]: "length (fill b xs k) = Suc k"
  by (induction k arbitrary: b xs) (simp_all add: Let_def)

lemma fill_ok:
  assumes "block_ok b \<or> b = empty_block" and "xs \<noteq> []"
    and "length xs \<le> CORE_HTTP2_QUEUE_BLOCK - length (blk_data b) + k * CORE_HTTP2_QUEUE_BLOCK"
    and "\<forall>j. k = Suc j \<longrightarrow> CORE_HTTP2_QUEUE_BLOCK - length (blk_data b) + j * CORE_HTTP2_QUEUE_BLOCK < length xs"
  shows "chain_ok (fill b xs k)"
  using assms
proof (induction k arbitrary: b xs)
  case 0
  then show ?case by (auto simp: block_ok_def empty_block_def)
next
  case (Suc k)
  define room where "room = CORE_HTTP2_QUEUE_BLOCK - length (blk_data b)"
  have len: "length (blk_data b) + room = CORE_HTTP2_QUEUE_BLOCK" using Suc(2) by (auto simp: room_def block_ok_def empty_block_def)
  have more: "room + k * CORE_HTTP2_QUEUE_BLOCK < length xs" "length xs \<le> room + Suc k * CORE_HTTP2_QUEUE_BLOCK"
    using Suc(4,5) by (auto simp: room_def)
  have "chain_ok (fill empty_block (drop room xs) k)"
  proof (rule Suc(1))
    show "drop room xs \<noteq> []" using more(1) by simp
    show "length (drop room xs) \<le> CORE_HTTP2_QUEUE_BLOCK - length (blk_data empty_block) + k * CORE_HTTP2_QUEUE_BLOCK"
      using more(2) by (simp add: empty_block_def)
    show "\<forall>j. k = Suc j \<longrightarrow> CORE_HTTP2_QUEUE_BLOCK - length (blk_data empty_block) + j * CORE_HTTP2_QUEUE_BLOCK < length (drop room xs)"
      using more(1) by (auto simp: empty_block_def)
  qed simp
  moreover have "block_ok (b\<lparr>blk_data := blk_data b @ take room xs\<rparr>)" "length (blk_data b @ take room xs) = CORE_HTTP2_QUEUE_BLOCK"
    using Suc(2) len more(1) by (auto simp: block_ok_def empty_block_def CORE_HTTP2_QUEUE_BLOCK_def)
  moreover obtain c r where "fill empty_block (drop room xs) k = c # r" using fill_length [of empty_block "drop room xs" k] by (cases "fill empty_block (drop room xs) k") auto
  ultimately show ?case by (simp add: Let_def room_def [symmetric])
qed

text \<open>The copying loop writes exactly that, whatever the boundary between prefix and data.\<close>

lemma write_blocks_fill:
  assumes "length (blk_data b) \<le> CORE_HTTP2_QUEUE_BLOCK"
    and "length (drop offset (prefix @ data)) \<le> CORE_HTTP2_QUEUE_BLOCK - length (blk_data b) + k * CORE_HTTP2_QUEUE_BLOCK"
  shows "write_blocks prefix data offset (b # replicate k empty_block) = fill b (drop offset (prefix @ data)) k"
  using assms
proof (induction prefix data offset "b # replicate k empty_block" arbitrary: b k rule: write_blocks.induct)
  case (1 prefix data offset b k)
  define xs where "xs = drop offset (prefix @ data)"
  show ?case
  proof (cases "offset \<ge> length prefix + length data")
    case True
    then show ?thesis by (subst write_blocks.simps) (simp add: fill_nil)
  next
    case False
    define a where "a = write_amount (length prefix) (length prefix + length data) offset (length (blk_data b))"
    define room where "room = CORE_HTTP2_QUEUE_BLOCK - length (blk_data b)"
    define piece where "piece = (if offset < length prefix then take a (drop offset prefix) else take a (drop (offset - length prefix) data))"
    define b1 where "b1 = b\<lparr>blk_data := blk_data b @ piece\<rparr>"
    have a: "a \<le> room" "a \<le> length xs" "offset < length prefix \<longrightarrow> a \<le> length prefix - offset"
      using False by (auto simp: a_def write_amount_def room_def xs_def Let_def)
    have piece: "piece = take a xs" using a(3) by (auto simp: piece_def xs_def)
    have next_xs: "drop (offset + a) (prefix @ data) = drop a xs" by (simp only: xs_def drop_drop add.commute)
    have len1: "length (blk_data b1) = length (blk_data b) + a" using a(2) by (simp add: b1_def piece)
    have lx: "length xs \<le> room + k * CORE_HTTP2_QUEUE_BLOCK" using 1(4) by (simp only: xs_def room_def)
    have eq: "write_blocks prefix data offset (b # replicate k empty_block) =
        (if length (blk_data b) + a \<ge> CORE_HTTP2_QUEUE_BLOCK then b1 # write_blocks prefix data (offset + a) (replicate k empty_block)
         else write_blocks prefix data (offset + a) (b1 # replicate k empty_block))"
      by (subst write_blocks.simps)
        (simp only: list.case False if_False Let_def a_def [symmetric] piece_def [symmetric] b1_def [symmetric])
    show ?thesis
    proof (cases "length (blk_data b) + a \<ge> CORE_HTTP2_QUEUE_BLOCK")
      case True
      then have full: "a = room" using a(1) 1(3) by (simp add: room_def)
      show ?thesis
      proof (cases k)
        case 0
        then have "a = length xs" using 1(4) full a(2) by (simp add: xs_def room_def)
        then show ?thesis unfolding eq xs_def [symmetric] using True 0 by (simp add: write_blocks.simps b1_def piece)
      next
        case (Suc j)
        have shape: "b # replicate k empty_block = b # empty_block # replicate j empty_block" using Suc by simp
        have "write_blocks prefix data (offset + a) (empty_block # replicate j empty_block) = fill empty_block (drop a xs) j"
          unfolding next_xs [symmetric] by (rule 1(1) [OF shape False a_def piece_def b1_def True], unfold next_xs)
            (use Suc lx full in \<open>simp_all add: empty_block_def\<close>)
        then show ?thesis unfolding eq xs_def [symmetric] using True Suc full by (simp add: Let_def room_def b1_def piece)
      qed
    next
      case notfull: False
      have "write_blocks prefix data (offset + a) (b1 # replicate k empty_block) = fill b1 (drop a xs) k"
        unfolding next_xs [symmetric] by (rule 1(2) [OF refl False a_def piece_def b1_def notfull], unfold next_xs len1)
          (use lx notfull a in \<open>simp_all add: room_def\<close>)
      then show ?thesis unfolding eq xs_def [symmetric] using notfull fill_step [of a b xs k] a(1)
        by (simp add: b1_def piece room_def)
    qed
  qed
qed

lemma ceil_blocks:
  fixes m :: nat
  assumes "0 < size_of_block"
  defines "k \<equiv> (m + size_of_block - 1) div size_of_block"
  shows "m \<le> k * size_of_block" and "k = Suc j \<Longrightarrow> j * size_of_block < m"
proof -
  define r where "r = (m + size_of_block - 1) mod size_of_block"
  have r: "m + size_of_block - 1 = k * size_of_block + r" "r < size_of_block" using assms by (simp_all add: r_def k_def)
  then show "m \<le> k * size_of_block" using assms(1) by linarith
  show "k = Suc j \<Longrightarrow> j * size_of_block < m" using r assms(1) by simp
qed

lemma chain_bytes_simps [simp]:
  "chain_bytes [] = []" "chain_bytes (b # r) = rest_of b @ chain_bytes r" "chain_bytes (as @ bs) = chain_bytes as @ chain_bytes bs"
  by (simp_all add: chain_bytes_def)

lemma chain_ok_Cons:
  "chain_ok (b # r) \<longleftrightarrow> block_ok b \<and> (r \<noteq> [] \<longrightarrow> length (blk_data b) = CORE_HTTP2_QUEUE_BLOCK) \<and> chain_ok r"
  by (cases r) auto

lemma chain_ok_extend: "chain_ok (as @ [b]) \<Longrightarrow> chain_ok cs \<Longrightarrow> cs \<noteq> [] \<Longrightarrow> chain_ok (as @ cs)"
  by (induction as) (auto simp: chain_ok_Cons)

lemma chain_ok_last: "chain_ok (as @ [b]) \<Longrightarrow> block_ok b"
  by (induction as) (auto simp: chain_ok_Cons)

text \<open>Every block of a chain holds at least a byte.\<close>

lemma chain_length: "chain_ok bs \<Longrightarrow> length bs \<le> length (chain_bytes bs)"
  by (induction bs) (auto simp: chain_ok_Cons block_ok_def)

section \<open>Well-formed queues\<close>

definition queue_bytes :: "http2_queue \<Rightarrow> bytes" where
  "queue_bytes q = (if q_blocks q = [] then drop (q_start q) (flat_bytes q) else chain_bytes (q_blocks q))"

definition wf_chain :: "http2_queue \<Rightarrow> bool" where
  "wf_chain q \<longleftrightarrow> chain_ok (q_blocks q) \<and> q_length q = length (chain_bytes (q_blocks q)) \<and>
     q_capacity q = length (q_blocks q) * CORE_HTTP2_QUEUE_BLOCK \<and> update_view q = q"

definition wf_flat :: "nat \<Rightarrow> http2_queue \<Rightarrow> bool" where
  "wf_flat limit q \<longleftrightarrow> q_blocks q = [] \<and> length (flat_bytes q) = q_start q + q_length q \<and>
     q_start q + q_length q \<le> q_capacity q \<and> q_capacity q \<le> max 4096 limit"

definition wf_queue :: "nat \<Rightarrow> http2_queue \<Rightarrow> bool" where
  "wf_queue limit q \<longleftrightarrow> limit \<le> 2 ^ 62 \<and> q_length q \<le> limit \<and>
     (if limit = CORE_HTTP2_STREAM_LIMIT then wf_chain q else wf_flat limit q)"

lemma update_view_simps [simp]:
  "q_blocks (update_view q) = q_blocks q" "q_length (update_view q) = q_length q" "q_capacity (update_view q) = q_capacity q"
  "update_view (update_view q) = update_view q"
  by (auto simp: update_view_def split: list.split)

lemma chain_queue_bytes: "wf_chain q \<Longrightarrow> queue_bytes q = chain_bytes (q_blocks q)"
proof (cases "q_blocks q")
  case Nil
  assume "wf_chain q"
  then have "q = q\<lparr>q_data := None, q_start := 0\<rparr>" using Nil by (simp add: wf_chain_def update_view_def)
  then have "q_data q = None" by (metis http2_queue.select_convs(1) http2_queue.surjective http2_queue.update_convs(1,2))
  then show ?thesis using Nil by (simp add: queue_bytes_def flat_bytes_def)
qed (simp add: queue_bytes_def)

text \<open>Writing an append into the chain.\<close>

lemma block_append_law:
  assumes w: "wf_chain q" and n: "prefix @ data \<noteq> []" and a: "block_append got cs q prefix data = (ok, q1, cs1)"
  shows "wf_chain q1 \<and> chain_bytes (q_blocks q1) = chain_bytes (q_blocks q) @ (if ok then prefix @ data else [])"
proof -
  define xs bs where "xs = prefix @ data" and "bs = q_blocks q"
  define room where "room = (if bs \<noteq> [] then CORE_HTTP2_QUEUE_BLOCK - length (blk_data (last bs)) else 0)"
  define needed where "needed = (if length xs > room then (length xs - room + CORE_HTTP2_QUEUE_BLOCK - 1) div CORE_HTTP2_QUEUE_BLOCK else 0)"
  define written where "written = (if bs \<noteq> [] then butlast bs @ write_blocks prefix data 0 (last bs # replicate needed empty_block)
      else write_blocks prefix data 0 (replicate needed empty_block))"
  have bp: "0 < CORE_HTTP2_QUEUE_BLOCK" by (simp add: CORE_HTTP2_QUEUE_BLOCK_def)
  have k: "length xs - room \<le> needed * CORE_HTTP2_QUEUE_BLOCK" "\<And>j. needed = Suc j \<Longrightarrow> j * CORE_HTTP2_QUEUE_BLOCK < length xs - room"
    using ceil_blocks [OF bp, of "length xs - room"] by (auto simp: needed_def split: if_splits)
  have eq: "block_append got cs q prefix data =
      (case take_blocks got (queue_memory q) 0 needed cs of (ok, cs1) \<Rightarrow>
        if \<not> ok then (False, q, cs1)
        else (True, update_view (q\<lparr>q_blocks := written, q_length := q_length q + length xs,
               q_capacity := q_capacity q + needed * CORE_HTTP2_QUEUE_BLOCK\<rparr>), cs1))"
    by (simp only: block_append_def Let_def xs_def bs_def [symmetric] length_append [symmetric] room_def needed_def written_def)
  have chain: "chain_ok bs" using w by (simp add: wf_chain_def bs_def)
  have xs: "xs \<noteq> []" "drop 0 (prefix @ data) = xs" using n by (simp_all add: xs_def)
  have "chain_ok written \<and> chain_bytes written = chain_bytes bs @ xs \<and> length written = length bs + needed"
  proof (cases "bs = []")
    case True
    obtain j where j: "needed = Suc j" using k(1) xs(1) True by (cases needed) (auto simp: room_def)
    have wr: "write_blocks prefix data 0 (empty_block # replicate j empty_block) = fill empty_block xs j"
      using write_blocks_fill [of empty_block 0 prefix data j, unfolded xs(2)] k(1) True j by (simp add: room_def empty_block_def)
    have "chain_ok (fill empty_block xs j)"
      by (rule fill_ok) (use k [unfolded j] True xs(1) in \<open>auto simp: room_def empty_block_def\<close>)
    then show ?thesis using True j wr fill_bytes [of empty_block xs j] by (simp add: written_def empty_block_def)
  next
    case False
    define as b where "as = butlast bs" and "b = last bs"
    have split: "bs = as @ [b]" using False by (simp add: as_def b_def)
    have b: "block_ok b" using chain chain_ok_last split by metis
    have fits: "length xs \<le> CORE_HTTP2_QUEUE_BLOCK - length (blk_data b) + needed * CORE_HTTP2_QUEUE_BLOCK"
      using k(1) False by (simp add: room_def b_def)
    have wr: "write_blocks prefix data 0 (b # replicate needed empty_block) = fill b xs needed"
      using write_blocks_fill [of b 0 prefix data needed, unfolded xs(2)] fits b by (simp add: block_ok_def)
    have "chain_ok (fill b xs needed)"
      by (rule fill_ok) (use b xs(1) fits k(2) False in \<open>auto simp: room_def b_def\<close>)
    then have "chain_ok (as @ fill b xs needed)" using chain_ok_extend chain split fill_length [of b xs needed]
      by (metis length_greater_0_conv zero_less_Suc)
    then show ?thesis using False wr split b fill_bytes [of b xs needed]
      by (simp add: written_def as_def [symmetric] b_def [symmetric] block_ok_def)
  qed
  then show ?thesis using a w unfolding eq
    by (auto simp: wf_chain_def bs_def xs_def algebra_simps split: prod.splits if_splits)
qed

text \<open>Growing a flat buffer covers the request and stays within the limit.\<close>

lemma queue_grow_bounds:
  assumes "0 < capacity" and "capacity \<le> max 4096 limit" and "needed \<le> limit"
  shows "needed \<le> queue_grow limit needed capacity \<and> queue_grow limit needed capacity \<le> max 4096 limit"
  using assms
proof (induction limit needed capacity rule: queue_grow.induct)
  case (1 limit needed capacity)
  consider "needed \<le> capacity" | "\<not> needed \<le> capacity" "capacity > limit div 2" | "\<not> needed \<le> capacity" "\<not> capacity > limit div 2" by blast
  then show ?case
  proof cases
    case 3
    have "capacity * 2 \<le> limit" using 3(2) by linarith
    then show ?thesis using 1(1) [OF _ 3(2)] 1(2,4) 3 by (subst (1 2) queue_grow.simps) simp
  qed (use 1(2-4) in \<open>simp_all add: queue_grow.simps\<close>)
qed

lemma flat_append_law:
  assumes w: "wf_flat limit q" and lim: "limit \<le> 2 ^ 62" "q_length q + length (prefix @ data) \<le> limit"
    and a: "flat_append got cs q prefix data limit = (ok, q1, cs1)"
  shows "wf_flat limit q1 \<and> q_length q1 = q_length q + (if ok then length (prefix @ data) else 0) \<and>
    queue_bytes q1 = queue_bytes q @ (if ok then prefix @ data else [])"
proof -
  define n where "n = length prefix + length data"
  define wrote where "wrote = (\<lambda>q cs :: block_state. (True, q\<lparr>q_data := Some (flat_bytes q @ prefix @ data), q_length := q_length q + n\<rparr>, cs))"
  have small: "q_capacity q \<le> max 4096 limit" "q_start q + q_length q \<le> q_capacity q" using w by (simp_all add: wf_flat_def)
  have sz: "szadd (szadd (q_start q) (q_length q)) n = q_start q + q_length q + n"
    using small lim by (simp add: szadd_def n_def max_def split: if_splits)
  have wr: "wf_flat limit (fst (snd (wrote p c))) \<and> queue_bytes (fst (snd (wrote p c))) = queue_bytes p @ prefix @ data \<and> fst (wrote p c) \<and>
      q_length (fst (snd (wrote p c))) = q_length p + n"
    if "wf_flat limit p" "q_start p + q_length p + n \<le> q_capacity p" for p c
    using that by (simp add: wrote_def wf_flat_def queue_bytes_def flat_bytes_def n_def)
  define p where "p = (if q_start q \<noteq> 0 then q\<lparr>q_data := Some (drop (q_start q) (flat_bytes q)), q_start := 0\<rparr> else q)"
  have p: "wf_flat limit p" "queue_bytes p = queue_bytes q" "q_start p = 0" "q_length p = q_length q" "q_capacity p = q_capacity q"
    using w by (auto simp: p_def wf_flat_def queue_bytes_def flat_bytes_def)
  define capacity where "capacity = queue_grow limit (q_length p + n) (if q_capacity p \<noteq> 0 then q_capacity p else 4096)"
  have eq: "flat_append got cs q prefix data limit =
     (if q_start q + q_length q + n > q_capacity q then
        if q_length p + n > q_capacity p then
          (case core_buffer_realloc (got 0) (snd cs) (queue_memory p) (q_data p \<noteq> None) (q_capacity p) capacity of (e, ok, s1) \<Rightarrow>
             if \<not> ok then (False, p, fst cs, s1) else wrote (p\<lparr>q_capacity := capacity\<rparr>) (fst cs, s1))
        else wrote p cs
      else wrote q cs)"
    by (simp only: flat_append_def Let_def n_def [symmetric] sz wrote_def p_def [symmetric] capacity_def)
  have cap: "q_length p + n \<le> capacity" "capacity \<le> max 4096 limit"
    using queue_grow_bounds [of "if q_capacity p \<noteq> 0 then q_capacity p else 4096" limit "q_length p + n"] lim p(4,5) small
    by (simp_all add: capacity_def n_def)
  consider "\<not> q_start q + q_length q + n > q_capacity q" | "q_start q + q_length q + n > q_capacity q" "\<not> q_length p + n > q_capacity p"
    | "q_start q + q_length q + n > q_capacity q" "q_length p + n > q_capacity p" by blast
  then show ?thesis
  proof cases
    case 1
    then have "wrote q cs = (ok, q1, cs1)" using a eq by simp
    then show ?thesis using wr [OF w, of cs] 1 by (simp add: n_def)
  next
    case 2
    then have "wrote p cs = (ok, q1, cs1)" using a eq by simp
    then show ?thesis using wr [OF p(1), of cs] 2 p by (simp add: n_def)
  next
    case 3
    obtain e ok1 s1 where r: "core_buffer_realloc (got 0) (snd cs) (queue_memory p) (q_data p \<noteq> None) (q_capacity p) capacity = (e, ok1, s1)"
      by (cases "core_buffer_realloc (got 0) (snd cs) (queue_memory p) (q_data p \<noteq> None) (q_capacity p) capacity")
    have g: "wf_flat limit (p\<lparr>q_capacity := capacity\<rparr>)" "queue_bytes (p\<lparr>q_capacity := capacity\<rparr>) = queue_bytes p"
      using p cap by (simp_all add: wf_flat_def queue_bytes_def flat_bytes_def)
    show ?thesis
    proof (cases ok1)
      case True
      then have "wrote (p\<lparr>q_capacity := capacity\<rparr>) (fst cs, s1) = (ok, q1, cs1)" using a eq 3 r by simp
      then show ?thesis using wr [OF g(1), of "(fst cs, s1)"] p cap(1) g(2) by (simp add: n_def)
    next
      case False
      then have "(False, p, fst cs, s1) = (ok, q1, cs1)" using a eq 3 r by simp
      then show ?thesis using p by auto
    qed
  qed
qed

lemma consume_blocks_law:
  assumes "chain_ok bs" and "n \<le> length (chain_bytes bs)" and "capacity = length bs * CORE_HTTP2_QUEUE_BLOCK" and "capacity \<le> SIZE_MAX"
    and "consume_blocks mem n bs capacity cs = (bs1, capacity1, cs1)"
  shows "chain_ok bs1 \<and> chain_bytes bs1 = drop n (chain_bytes bs) \<and> capacity1 = length bs1 * CORE_HTTP2_QUEUE_BLOCK"
  using assms
proof (induction mem n bs capacity cs rule: consume_blocks.induct)
  case (2 mem n b r capacity cs)
  define used amount where "used = length (blk_data b) - blk_start b" and "amount = min used n"
  have ok: "block_ok b" "chain_ok r" "r \<noteq> [] \<longrightarrow> length (blk_data b) = CORE_HTTP2_QUEUE_BLOCK" using 2(2) by (auto simp: chain_ok_Cons)
  have used: "length (rest_of b) = used" "0 < used" "blk_start b + used = length (blk_data b)"
    using ok(1) by (auto simp: used_def block_ok_def)
  show ?case
  proof (cases "n = 0")
    case True
    then show ?thesis using 2(2,4,6) by auto
  next
    case False
    show ?thesis
    proof (cases "used \<le> n")
      case True
      then have am: "amount = used" by (simp add: amount_def)
      have cap: "szsub capacity CORE_HTTP2_QUEUE_BLOCK = length r * CORE_HTTP2_QUEUE_BLOCK" using 2(4,5) by (subst szsub_exact) auto
      have "consume_blocks mem (n - used) r (szsub capacity CORE_HTTP2_QUEUE_BLOCK) (block_free mem cs) = (bs1, capacity1, cs1)"
        using 2(6) False True am used by (simp add: Let_def used_def [symmetric] amount_def [symmetric])
      moreover have "n - used \<le> length (chain_bytes r)" using 2(3) used True by simp
      moreover have "szsub capacity CORE_HTTP2_QUEUE_BLOCK \<le> SIZE_MAX" by simp
      ultimately have "chain_ok bs1 \<and> chain_bytes bs1 = drop (n - used) (chain_bytes r) \<and> capacity1 = length bs1 * CORE_HTTP2_QUEUE_BLOCK"
        using 2(1) [OF False amount_def [unfolded used_def] refl] am used ok(2) cap by (simp add: used_def [symmetric])
      then show ?thesis using True used by (simp add: drop_append del: length_drop)
    next
      case lt: False
      then have am: "amount = n" "blk_start b + n < length (blk_data b)" using used by (simp_all add: amount_def)
      have "bs1 = b\<lparr>blk_start := blk_start b + n\<rparr> # r" "capacity1 = capacity"
        using 2(6) False am by (simp_all add: Let_def used_def [symmetric] amount_def [symmetric])
      then show ?thesis using ok am 2(4) lt used
        by (simp add: chain_ok_Cons block_ok_def drop_drop add.commute del: length_drop)
    qed
  qed
qed simp

lemma copy_blocks_take: "chain_ok bs \<Longrightarrow> copy_blocks bs n = take n (chain_bytes bs)"
  by (induction bs arbitrary: n) (auto simp: Let_def chain_ok_Cons min_def)

section \<open>First in, first out\<close>

text \<open>The operations a client combines: an append with its allocator, and a copy that is then consumed.\<close>

type_synonym append_call = "(nat \<Rightarrow> bool) \<times> bytes \<times> bytes"

definition http2_put :: "nat \<Rightarrow> block_state \<Rightarrow> http2_queue \<Rightarrow> append_call \<Rightarrow> bool \<times> http2_queue \<times> block_state" where
  "http2_put limit cs q x = (case x of (got, prefix, data) \<Rightarrow> core_http2_queue_append_parts got cs q prefix data limit)"

definition http2_get :: "block_state \<Rightarrow> http2_queue \<Rightarrow> nat \<Rightarrow> bytes \<times> http2_queue \<times> block_state" where
  "http2_get cs q n = (let m = min n (q_length q) in (core_http2_queue_copy q m, core_http2_queue_consume cs q m))"

definition call_bytes :: "append_call \<Rightarrow> bytes" where
  "call_bytes x = (case x of (got, prefix, data) \<Rightarrow> prefix @ data)"

definition fresh_queue :: "nat \<Rightarrow> nat option \<Rightarrow> http2_queue" where
  "fresh_queue mem account = \<lparr>q_data = None, q_start = 0, q_length = 0, q_capacity = 0, q_blocks = [], q_memory = mem, q_account = account\<rparr>"

lemma wf_queue_length: "wf_queue limit q \<Longrightarrow> q_length q = length (queue_bytes q)"
  by (cases "limit = CORE_HTTP2_STREAM_LIMIT")
    (simp_all add: wf_queue_def chain_queue_bytes, simp_all add: wf_chain_def wf_flat_def queue_bytes_def)

lemma append_parts_law:
  assumes w: "wf_queue limit q" and a: "core_http2_queue_append_parts got cs q prefix data limit = (ok, q1, cs1)"
  shows "wf_queue limit q1 \<and> queue_bytes q1 = queue_bytes q @ (if ok then prefix @ data else [])"
proof -
  define n where "n = length prefix + length data"
  consider "(ok, q1, cs1) = (False, q, cs)" | "n = 0" "(ok, q1, cs1) = (True, q, cs)"
    | "n \<noteq> 0" "q_length q + n \<le> limit" "limit \<noteq> CORE_HTTP2_STREAM_LIMIT" "flat_append got cs q prefix data limit = (ok, q1, cs1)"
    | "n \<noteq> 0" "q_length q + n \<le> limit" "limit = CORE_HTTP2_STREAM_LIMIT" "block_append got cs q prefix data = (ok, q1, cs1)"
    using a by (auto simp: core_http2_queue_append_parts_def n_def [symmetric] Let_def split: if_splits)
  then show ?thesis
  proof cases
    case 1
    then show ?thesis using w by simp
  next
    case 2
    then show ?thesis using w by (simp add: n_def)
  next
    case 3
    have f: "wf_flat limit q" "limit \<le> 2 ^ 62" using w 3(3) by (simp_all add: wf_queue_def)
    have "q_length q + length (prefix @ data) \<le> limit" using 3(2) by (simp add: n_def)
    from flat_append_law [OF f this 3(4)] this show ?thesis using f(2) 3(3) by (auto simp: wf_queue_def)
  next
    case 4
    have c: "wf_chain q" "limit \<le> 2 ^ 62" using w 4(3) by (simp_all add: wf_queue_def)
    have "prefix @ data \<noteq> []" using 4(1) by (auto simp: n_def)
    note l = block_append_law [OF c(1) this 4(4)]
    then have "q_length q1 \<le> q_length q + n" using c(1) by (auto simp: wf_chain_def n_def split: if_splits)
    then show ?thesis using l c 4(2,3) by (simp add: wf_queue_def chain_queue_bytes)
  qed
qed

lemma copy_law: "wf_queue limit q \<Longrightarrow> core_http2_queue_copy q n = take n (queue_bytes q)"
  by (auto simp: core_http2_queue_copy_def queue_bytes_def wf_queue_def wf_chain_def wf_flat_def copy_blocks_take split: if_splits)

lemma consume_law:
  assumes w: "wf_queue limit q" and c: "core_http2_queue_consume cs q amount = (q1, cs1)"
  shows "wf_queue limit q1 \<and> queue_bytes q1 = drop amount (queue_bytes q)"
proof -
  define n where "n = min amount (q_length q)"
  have n: "(if amount > q_length q then q_length q else amount) = n" by (simp add: n_def)
  have d: "drop amount (queue_bytes q) = drop n (queue_bytes q)" using wf_queue_length [OF w] by (simp add: n_def min_def)
  show ?thesis
  proof (cases "q_blocks q = []")
    case flat: True
    have q1: "q1 = (if q_length q - n = 0 then q\<lparr>q_length := 0, q_data := None, q_start := 0, q_capacity := 0\<rparr>
        else q\<lparr>q_length := q_length q - n, q_start := q_start q + n\<rparr>)"
      using c flat by (auto simp: core_http2_queue_consume_def n Let_def)
    show ?thesis
    proof (cases "limit = CORE_HTTP2_STREAM_LIMIT")
      case True
      then have z: "wf_chain q" "q_length q = 0" using w flat by (auto simp: wf_queue_def wf_chain_def)
      then show ?thesis using q1 w flat True wf_queue_length [OF w] by (auto simp: wf_queue_def wf_chain_def update_view_def queue_bytes_def flat_bytes_def)
    next
      case False
      then have "wf_flat limit q" using w by (simp add: wf_queue_def)
      then show ?thesis unfolding d using q1 w False n_def
        by (auto simp: wf_queue_def wf_flat_def queue_bytes_def flat_bytes_def add.commute)
    qed
  next
    case False
    then have s: "limit = CORE_HTTP2_STREAM_LIMIT" "wf_chain q" using w by (auto simp: wf_queue_def wf_flat_def split: if_splits)
    obtain bs capacity cs2 where b: "consume_blocks (queue_memory q) n (q_blocks q) (q_capacity q) cs = (bs, capacity, cs2)"
      by (cases "consume_blocks (queue_memory q) n (q_blocks q) (q_capacity q) cs")
    have ch: "chain_ok (q_blocks q)" "n \<le> length (chain_bytes (q_blocks q))" "q_capacity q = length (q_blocks q) * CORE_HTTP2_QUEUE_BLOCK"
      using s(2) by (auto simp: wf_chain_def n_def)
    have "length (q_blocks q) \<le> CORE_HTTP2_STREAM_LIMIT"
      using chain_length [OF ch(1)] s w by (simp add: wf_chain_def wf_queue_def)
    then have "q_capacity q \<le> SIZE_MAX" unfolding ch(3) by (simp add: CORE_HTTP2_STREAM_LIMIT_def CORE_HTTP2_QUEUE_BLOCK_def SIZE_MAX_def)
    note l = consume_blocks_law [OF ch this b]
    have "queue_memory (q\<lparr>q_length := q_length q - n\<rparr>) = queue_memory q" by (simp add: queue_memory_def split: option.split)
    then have "q1 = update_view (q\<lparr>q_length := q_length q - n, q_blocks := bs, q_capacity := capacity\<rparr>)"
      using c False b by (simp add: core_http2_queue_consume_def n Let_def)
    then have "wf_chain q1" "q_blocks q1 = bs" "q_length q1 \<le> q_length q" using l s(2) by (simp_all add: wf_chain_def)
    then show ?thesis unfolding d using l s w by (simp add: wf_queue_def chain_queue_bytes)
  qed
qed

interpretation stream_queue: byte_queue "http2_put limit" http2_get call_bytes queue_bytes "wf_queue limit"
proof unfold_locales
  show "wf_queue limit q1 \<and> queue_bytes q1 = queue_bytes q @ (if ok then call_bytes x else [])"
    if "wf_queue limit q" "http2_put limit s q x = (ok, q1, s1)" for q s x ok q1 s1
    using append_parts_law that by (auto simp: http2_put_def call_bytes_def split: prod.splits)
  show "wf_queue limit q1 \<and> queue_bytes q = out @ queue_bytes q1"
    if w: "wf_queue limit q" and g: "http2_get s q n = (out, q1, s1)" for q s n out q1 s1
  proof -
    obtain q2 s2 where "core_http2_queue_consume s q (min n (q_length q)) = (q2, s2)"
      by (cases "core_http2_queue_consume s q (min n (q_length q))")
    then show ?thesis using consume_law [OF w] copy_law [OF w] g by (auto simp: http2_get_def Let_def)
  qed
qed

text \<open>
  Property C7: a stream queue delivers exactly the bytes it accepted, once and in order.  Through any
  sequence of appends and reads, with any answers of the allocator and any limit up to 2^62, in blocks or
  flat: what was accepted is what was delivered followed by what the queue still holds; its length counts
  that and stays within the limit, and the view for the caller is the first bytes of it.
\<close>

theorem http2_queue_fifo:
  assumes "limit \<le> 2 ^ 62" and "queue_run (http2_put limit) http2_get call_bytes ops cs (fresh_queue mem account) = (accepted, delivered, q, cs1)"
  shows "accepted = delivered @ queue_bytes q \<and> q_length q = length (queue_bytes q) \<and> q_length q \<le> limit \<and>
    (queue_bytes q \<noteq> [] \<longrightarrow> (\<exists>d. q_data q = Some d \<and> 0 < core_http2_queue_span q \<and>
       take (core_http2_queue_span q) (drop (q_start q) d) = take (core_http2_queue_span q) (queue_bytes q)))"
proof -
  have "wf_queue limit (fresh_queue mem account)" "queue_bytes (fresh_queue mem account) = []"
    using assms(1) by (simp_all add: wf_queue_def wf_chain_def wf_flat_def fresh_queue_def update_view_def queue_bytes_def flat_bytes_def)
  with stream_queue.run_fifo [OF _ assms(2)] have w: "wf_queue limit q" "accepted = delivered @ queue_bytes q" by simp_all
  have "\<exists>d. q_data q = Some d \<and> 0 < core_http2_queue_span q \<and>
       take (core_http2_queue_span q) (drop (q_start q) d) = take (core_http2_queue_span q) (queue_bytes q)" if ne: "queue_bytes q \<noteq> []"
  proof (cases "q_blocks q")
    case Nil
    then show ?thesis using ne wf_queue_length [OF w(1)] by (auto simp: queue_bytes_def flat_bytes_def core_http2_queue_span_def split: option.splits)
  next
    case (Cons b r)
    then have "wf_chain q" using w(1) by (auto simp: wf_queue_def wf_flat_def split: if_splits)
    then have "block_ok b" "q = q\<lparr>q_data := Some (blk_data b), q_start := blk_start b\<rparr>" using Cons by (auto simp: wf_chain_def chain_ok_Cons update_view_def)
    then have "block_ok b" "q_data q = Some (blk_data b)" "q_start q = blk_start b"
      by (metis http2_queue.select_convs(1,2) http2_queue.surjective http2_queue.update_convs(1,2))+
    then show ?thesis using Cons by (auto simp: queue_bytes_def core_http2_queue_span_def block_ok_def)
  qed
  then show ?thesis using w wf_queue_length [OF w(1)] by (auto simp: wf_queue_def)
qed

theorem http2_queue_fifo_witness:
  "\<exists>q cs1. queue_run (http2_put 100) http2_get call_bytes [Put ((\<lambda>_. True), [1], [2, 3]), Get 2]
     (\<lparr>cached = (\<lambda>_. 0), cache_bytes = (\<lambda>_. 0), cache_memory = id\<rparr>, initial_state\<lparr>budgets := [7 \<mapsto> zero_budget]\<rparr>)
     (fresh_queue 7 None) = ([1, 2, 3], [1, 2], q, cs1) \<and> queue_bytes q = [3]"
proof -
  let ?run = "queue_run (http2_put 100) http2_get call_bytes [Put ((\<lambda>_. True), [1], [2, 3]), Get 2]
     (\<lparr>cached = (\<lambda>_. 0), cache_bytes = (\<lambda>_. 0), cache_memory = id\<rparr>, initial_state\<lparr>budgets := [7 \<mapsto> zero_budget]\<rparr>)
     (fresh_queue 7 None)"
  have z: "szadd 0 4096 = 4096" "szsub SIZE_MAX 0 = SIZE_MAX" "szsub 4096 0 = 4096" "szsub CORE_BUFFER_TOTAL_LIMIT 0 = CORE_BUFFER_TOTAL_LIMIT"
    "szadd 0 0 = 0" "szadd 0 3 = 3" by (simp_all add: szadd_def szsub_def SIZE_MAX_def CORE_BUFFER_TOTAL_LIMIT_def)
  have "\<exists>q cs1. ?run = ([1, 2, 3], [1, 2], q, cs1)"
    by (simp add: http2_put_def http2_get_def call_bytes_def core_http2_queue_append_parts_def flat_append_def fresh_queue_def z
        core_http2_queue_copy_def core_http2_queue_consume_def flat_bytes_def queue_memory_def queue_grow.simps core_buffer_realloc_def
        claim_def initial_state_def zero_budget_def Let_def direction_defs CORE_HTTP2_STREAM_LIMIT_def)
      (simp add: SIZE_MAX_def CORE_BUFFER_TOTAL_LIMIT_def)
  then obtain q cs1 where r: "?run = ([1, 2, 3], [1, 2], q, cs1)" by blast
  have "(100 :: nat) \<le> 2 ^ 62" by simp
  from http2_queue_fifo [OF this r] r show ?thesis by auto
qed

end
