(* ===== verification/Grpc.thy ===== *)
theory Grpc
  imports Hpack Deadline
begin

text \<open>
  The gRPC transport, \<^verbatim>\<open>src/src/grpc.c\<close>: the decoder of messages with its protobuf reader, the
  chunks that hold a message until it is read, the reservation all decoders share, and the check of
  response headers.  The header array and the stack of groups are the lists of their used elements, a
  chunk the bytes below its length; \<open>got p k\<close> is the allocator's answer to request \<open>k\<close> of the append at
  input position \<open>p\<close>.  The loop of the decoder is a partial function, and the theorem shows that it
  returns, that it keeps to its arrays, and that the reservation is exact.
\<close>

unbundle bit_operations_syntax

section \<open>Messages\<close>

definition GRPC_BUFFER_LIMIT :: nat where "GRPC_BUFFER_LIMIT = 16 * 1024 * 1024"

record grpc_chunk =
  ch_start :: nat
  ch_capacity :: nat
  ch_data :: bytes

record grpc_decoder =
  g_header :: bytes
  g_phase :: nat
  g_wire :: nat
  g_field :: nat
  g_shift :: nat
  g_failed :: nat
  g_varint :: "64 word"
  g_remaining :: nat
  g_field_remaining :: nat
  g_reserved :: nat
  g_chunks :: "grpc_chunk list"
  g_multi :: bool
  g_ready :: bool
  g_groups :: "nat list"

definition grpc_zero :: grpc_decoder where
  "grpc_zero = \<lparr>g_header = [], g_phase = 0, g_wire = 0, g_field = 0, g_shift = 0, g_failed = 0, g_varint = 0, g_remaining = 0,
     g_field_remaining = 0, g_reserved = 0, g_chunks = [], g_multi = False, g_ready = False, g_groups = []\<rparr>"

definition clear_chunks :: "grpc_decoder \<Rightarrow> grpc_decoder" where
  "clear_chunks st = st\<lparr>g_chunks := []\<rparr>"

text \<open>The second component is \<^verbatim>\<open>grpc_reserved\<close>, which all decoders share.\<close>

definition release_message :: "grpc_decoder \<Rightarrow> nat \<Rightarrow> grpc_decoder \<times> nat" where
  "release_message st res = ((clear_chunks st)\<lparr>g_reserved := 0, g_ready := False\<rparr>, szsub res (g_reserved st))"

definition core_grpc_clear :: "grpc_decoder \<Rightarrow> nat \<Rightarrow> grpc_decoder \<times> nat" where
  "core_grpc_clear st res = (case release_message st res of (st1, res1) \<Rightarrow> (grpc_zero, res1))"

definition core_grpc_pending :: "grpc_decoder \<Rightarrow> bool" where
  "core_grpc_pending st \<longleftrightarrow> g_ready st"

definition core_grpc_complete :: "grpc_decoder \<Rightarrow> bool" where
  "core_grpc_complete st \<longleftrightarrow> g_failed st = 0 \<and> g_header st = []"

fun read_chunks :: "nat \<Rightarrow> grpc_chunk list \<Rightarrow> bytes \<times> grpc_chunk list" where
  "read_chunks capacity [] = ([], [])"
| "read_chunks capacity (c # r) =
     (if capacity = 0 then ([], c # r)
      else let n = min (length (ch_data c) - ch_start c) capacity; part = take n (drop (ch_start c) (ch_data c))
           in if ch_start c + n = length (ch_data c) then
                (case read_chunks (capacity - n) r of (after, r1) \<Rightarrow> (part @ after, r1))
              else (part, c\<lparr>ch_start := ch_start c + n\<rparr> # r))"

definition core_grpc_read :: "grpc_decoder \<Rightarrow> nat \<Rightarrow> nat \<Rightarrow> bool \<times> bytes \<times> grpc_decoder \<times> nat" where
  "core_grpc_read st res capacity =
     (if g_failed st \<noteq> 0 then (False, [], st, res)
      else if \<not> g_ready st then (True, [], st, res)
      else case read_chunks capacity (g_chunks st) of (data, r) \<Rightarrow>
             let st1 = st\<lparr>g_chunks := r\<rparr>
             in case (if r = [] then release_message st1 res else (st1, res)) of (st2, res2) \<Rightarrow> (True, data, st2, res2))"

text \<open>
  Storing a piece of the message.  A pass that makes room takes at least one byte while bytes of the field
  remain, so as many passes as there are bytes suffice.
\<close>

definition with_room :: "bool \<Rightarrow> nat \<Rightarrow> grpc_chunk list \<Rightarrow> grpc_chunk list option" where
  "with_room got remaining cs =
     (if cs = [] \<or> length (ch_data (last cs)) = ch_capacity (last cs) then
        if got then Some (cs @ [\<lparr>ch_start = 0, ch_capacity = (if remaining > 8192 then 8192 else remaining), ch_data = []\<rparr>]) else None
      else Some cs)"

fun append_loop :: "(nat \<Rightarrow> bool) \<Rightarrow> nat \<Rightarrow> nat \<Rightarrow> nat \<Rightarrow> grpc_chunk list \<Rightarrow> bytes \<Rightarrow> bool \<times> grpc_chunk list" where
  "append_loop got 0 k remaining cs data = (data = [], cs)"
| "append_loop got (Suc fuel) k remaining cs data =
     (if data = [] then (True, cs)
      else case with_room (got k) remaining cs of
             None \<Rightarrow> (False, cs)
           | Some cs1 \<Rightarrow>
               let c = last cs1; n = min (ch_capacity c - length (ch_data c)) (length data)
               in append_loop got fuel (Suc k) (szsub remaining n) (butlast cs1 @ [c\<lparr>ch_data := ch_data c @ take n data\<rparr>]) (drop n data))"

definition append_data :: "(nat \<Rightarrow> bool) \<Rightarrow> grpc_decoder \<Rightarrow> bytes \<Rightarrow> bool \<times> grpc_decoder" where
  "append_data got st data =
     (case append_loop got (length data) 0 (g_field_remaining st) (g_chunks st) data of (ok, cs) \<Rightarrow> (ok, st\<lparr>g_chunks := cs\<rparr>))"

section \<open>Decoding\<close>

text \<open>A number of the protobuf encoding is complete: a key, a length, or a value to skip.\<close>

definition grpc_key :: "grpc_decoder \<Rightarrow> 64 word \<Rightarrow> bool \<times> grpc_decoder" where
  "grpc_key st val =
     (let field = unat (drop_bit 3 val); wire = unat (val AND 7)
      in if field = 0 \<or> field > 0x1FFFFFFF then (False, st)
         else let st1 = st\<lparr>g_field := field, g_wire := wire\<rparr>
              in if wire = 0 then (True, st1\<lparr>g_phase := 3\<rparr>)
                 else if wire = 2 then (True, st1\<lparr>g_phase := 1\<rparr>)
                 else if wire = 1 \<or> wire = 5 then
                   let n = (if wire = 1 then 8 else 4); st2 = st1\<lparr>g_field_remaining := n\<rparr>
                   in if n > g_remaining st then (False, st2) else (True, st2\<lparr>g_phase := 2\<rparr>)
                 else if wire = 3 then
                   (if length (g_groups st) = 64 then (False, st1) else (True, st1\<lparr>g_groups := field # g_groups st\<rparr>))
                 else if wire = 4 then
                   (if g_groups st = [] \<or> hd (g_groups st) \<noteq> field then (False, st1) else (True, st1\<lparr>g_groups := tl (g_groups st)\<rparr>))
                 else (False, st1))"

definition grpc_value :: "grpc_decoder \<Rightarrow> 64 word \<Rightarrow> bool \<times> grpc_decoder" where
  "grpc_value st val =
     (if g_phase st = 0 then grpc_key st val
      else if g_phase st = 1 then
        (if unat val > g_remaining st then (False, st)
         else let st1 = (if g_groups st = [] \<and> g_field st = 1 \<and> \<not> g_multi st then clear_chunks st else st)
              in (True, st1\<lparr>g_field_remaining := unat val, g_phase := (if val \<noteq> 0 then 2 else 0)\<rparr>))
      else (True, st\<lparr>g_phase := 0\<rparr>))"

definition grpc_byte :: "grpc_decoder \<Rightarrow> byte \<Rightarrow> bool \<times> grpc_decoder" where
  "grpc_byte st0 b =
     (let st = st0\<lparr>g_remaining := szsub (g_remaining st0) 1\<rparr>
      in if g_shift st > 63 \<or> g_shift st = 63 \<and> b AND 0xFE \<noteq> 0 then (False, st)
         else let v = g_varint st OR push_bit (g_shift st) (ucast (b AND 127))
              in if bit b 7 then (True, st\<lparr>g_varint := v, g_shift := g_shift st + 7\<rparr>)
                 else grpc_value (st\<lparr>g_varint := 0, g_shift := 0\<rparr>) v)"

datatype grpc_result = Grpc_None | Grpc_Event | Grpc_Invalid

type_synonym grpc_out = "grpc_result \<times> grpc_decoder \<times> nat \<times> nat \<times> bytes"
type_synonym grpc_work = "grpc_decoder \<times> nat \<times> bytes \<times> nat"

definition grpc_invalid :: "nat \<Rightarrow> grpc_decoder \<Rightarrow> nat \<Rightarrow> nat \<Rightarrow> grpc_out + 'a" where
  "grpc_invalid failure st res consumed =
     (case release_message (st\<lparr>g_failed := failure\<rparr>) res of (st1, res1) \<Rightarrow> Inl (Grpc_Invalid, st1, res1, consumed, []))"

text \<open>
  The header of a message.  Its length is reserved for a decoder that keeps messages whole; \<open>Inr\<close> goes on,
  with \<open>True\<close> when the body of the message follows in the same pass.
\<close>

definition grpc_open :: "grpc_decoder \<Rightarrow> nat \<Rightarrow> bytes \<Rightarrow> nat \<Rightarrow> grpc_out + (bool \<times> grpc_work)" where
  "grpc_open st res data consumed =
     (let n = min (5 - length (g_header st)) (length data); h = g_header st @ take n data; c = consumed + n; after = drop n data;
          st1 = st\<lparr>g_header := h\<rparr>
      in if length h < 5 then Inr (False, st1, res, after, c)
         else let size_m = word32 (h ! 1) (h ! 2) (h ! 3) (h ! 4); st2 = st1\<lparr>g_remaining := size_m\<rparr>
              in if h ! 0 \<noteq> 0 \<or> size_m > 16 * 1024 * 1024 then grpc_invalid 1 st2 res c
                 else let st3 = st2\<lparr>g_phase := 0, g_shift := 0, g_varint := 0, g_groups := []\<rparr>
                      in if \<not> g_multi st3 \<and> size_m \<noteq> 0 \<and> size_m > szsub GRPC_BUFFER_LIMIT res then
                           Inl (Grpc_Invalid, st3\<lparr>g_failed := 2\<rparr>, res, c, [])
                         else let (st4, res4) = (if \<not> g_multi st3 \<and> size_m \<noteq> 0 then (st3\<lparr>g_reserved := size_m\<rparr>, szadd res size_m)
                                                 else (st3, res))
                              in if size_m = 0 then
                                   let st5 = st4\<lparr>g_header := []\<rparr>
                                   in if \<not> g_multi st5 then Inl (Grpc_Event, st5\<lparr>g_ready := True\<rparr>, res4, c, [])
                                      else Inr (False, st5, res4, after, c)
                                 else if after = [] then Inl (Grpc_None, st4, res4, c, [])
                                 else Inr (True, st4, res4, after, c))"

text \<open>The end of a pass: whether the message is complete.\<close>

definition grpc_close :: "grpc_decoder \<Rightarrow> nat \<Rightarrow> bytes \<Rightarrow> nat \<Rightarrow> bytes \<Rightarrow> grpc_out + grpc_work" where
  "grpc_close st res data consumed payload =
     (if g_remaining st = 0 \<and> (g_phase st \<noteq> 0 \<or> g_shift st \<noteq> 0 \<or> g_groups st \<noteq> []) then grpc_invalid 1 st res consumed
      else let st1 = (if g_remaining st = 0 then st\<lparr>g_header := []\<rparr> else st)
           in if g_remaining st = 0 \<and> \<not> g_multi st then Inl (Grpc_Event, st1\<lparr>g_ready := True\<rparr>, res, consumed, payload)
              else if payload \<noteq> [] then Inl (Grpc_Event, st1, res, consumed, payload)
              else Inr (st1, res, data, consumed))"

definition grpc_body :: "(nat \<Rightarrow> nat \<Rightarrow> bool) \<Rightarrow> grpc_decoder \<Rightarrow> nat \<Rightarrow> bytes \<Rightarrow> nat \<Rightarrow> grpc_out + grpc_work" where
  "grpc_body got st res data consumed =
     (if g_phase st = 2 then
        let n = min (g_field_remaining st) (length data); wanted = (g_groups st = [] \<and> g_field st = 1 \<and> g_wire st = 2)
        in case (if wanted \<and> \<not> g_multi st then append_data (got consumed) st (take n data) else (True, st)) of (ok, st1) \<Rightarrow>
             if \<not> ok then grpc_invalid 3 st1 res consumed
             else let left = szsub (g_field_remaining st1) n;
                      st2 = st1\<lparr>g_field_remaining := left, g_remaining := szsub (g_remaining st1) n,
                                g_phase := (if left = 0 then 0 else g_phase st1)\<rparr>
                  in grpc_close st2 res (drop n data) (consumed + n) (if wanted \<and> g_multi st then take n data else [])
      else case grpc_byte st (hd data) of (ok, st1) \<Rightarrow>
             if \<not> ok then grpc_invalid 1 st1 res (consumed + 1)
             else grpc_close st1 res (tl data) (consumed + 1) [])"

definition grpc_pass :: "(nat \<Rightarrow> nat \<Rightarrow> bool) \<Rightarrow> grpc_decoder \<Rightarrow> nat \<Rightarrow> bytes \<Rightarrow> nat \<Rightarrow> grpc_out + grpc_work" where
  "grpc_pass got st res data consumed =
     (if length (g_header st) < 5 then
        (case grpc_open st res data consumed of
           Inl out \<Rightarrow> Inl out
         | Inr (body, st1, res1, data1, c1) \<Rightarrow> if body then grpc_body got st1 res1 data1 c1 else Inr (st1, res1, data1, c1))
      else grpc_body got st res data consumed)"

partial_function (option) grpc_loop ::
  "(nat \<Rightarrow> nat \<Rightarrow> bool) \<Rightarrow> grpc_decoder \<Rightarrow> nat \<Rightarrow> bytes \<Rightarrow> nat \<Rightarrow> grpc_out option" where
  "grpc_loop got st res data consumed =
     (if data = [] then Some (Grpc_None, st, res, consumed, [])
      else case grpc_pass got st res data consumed of
             Inl out \<Rightarrow> Some out
           | Inr (st1, res1, data1, c1) \<Rightarrow> grpc_loop got st1 res1 data1 c1)"

definition core_grpc_decode :: "(nat \<Rightarrow> nat \<Rightarrow> bool) \<Rightarrow> grpc_decoder \<Rightarrow> nat \<Rightarrow> bytes \<Rightarrow> grpc_out option" where
  "core_grpc_decode got st res input =
     (if g_failed st \<noteq> 0 then Some (Grpc_Invalid, st, res, 0, [])
      else if g_ready st then Some (Grpc_Event, st, res, 0, [])
      else grpc_loop got st res input 0)"

section \<open>Response headers and parameters\<close>

text \<open>The outcome for the headers (\<open>initial\<close>) or trailers of a response: the gRPC status that fails it, if one does.\<close>

datatype grpc_verdict = Grpc_Accepted | Grpc_Bad_Response | Grpc_Status int

definition http_to_grpc :: "nat \<Rightarrow> int" where
  "http_to_grpc st =
     (if st = 400 then 13 else if st = 401 then 16 else if st = 403 then 7 else if st = 404 then 12
      else if st \<in> {429, 502, 503, 504} then 14 else 2)"

definition core_grpc_response_headers :: "hpack_headers \<Rightarrow> bool \<Rightarrow> bool \<Rightarrow> grpc_verdict" where
  "core_grpc_response_headers hs initial fin =
     (let verdict = (\<lambda>n. if n \<noteq> 0 then Grpc_Status n else Grpc_Accepted)
      in if initial \<and> status hs \<noteq> 200 then
           let n = (if fin \<and> has_grpc_status hs then grpc_status hs else http_to_grpc (status hs))
           in verdict (if n = 0 then 2 else n)
         else if initial \<and> (content_type_seen hs \<noteq> 1 \<or> \<not> grpc_content_type hs) then Grpc_Bad_Response
         else if \<not> initial \<and> content_type_seen hs \<noteq> 0 then Grpc_Bad_Response
         else if has_grpc_status hs \<and> \<not> fin then Grpc_Bad_Response
         else if fin \<and> \<not> has_grpc_status hs then Grpc_Bad_Response
         else if fin then verdict (grpc_status hs) else Grpc_Accepted)"

record grpc_config =
  grpc_user_agent :: string
  grpc_idle_timeout :: nat
  grpc_health_timeout :: nat
  grpc_permit_without_stream :: bool
  grpc_initial_window :: nat

fun grpc_number :: "nat \<Rightarrow> nat \<Rightarrow> string \<Rightarrow> nat option" where
  "grpc_number maximum result [] = Some result"
| "grpc_number maximum result (c # s) =
     (if \<not> isdigit c \<or> result > maximum div 10 then None
      else let r = (result * 10 + (code c - 48)) mod 2 ^ 32 in if r > maximum then None else grpc_number maximum r s)"

text \<open>A parameter of the URI: \<open>None\<close> when its value is invalid, otherwise whether the key is one of gRPC.\<close>

definition core_grpc_parameter :: "grpc_config \<Rightarrow> string \<Rightarrow> string \<Rightarrow> (bool \<times> grpc_config) option" where
  "core_grpc_parameter cfg key val =
     (let num = (\<lambda>maximum least upd. if val = [] then None
                   else case grpc_number maximum 0 val of
                          None \<Rightarrow> None
                        | Some n \<Rightarrow> if n < least then None else Some (True, upd n cfg))
      in if key = ''useragent'' then
           (if val = [] \<or> length val \<ge> 256 \<or> list_ex (\<lambda>c. code c < 0x20 \<or> code c = 0x7F) val then None
            else Some (True, cfg\<lparr>grpc_user_agent := val\<rparr>))
         else if key = ''permitwithoutstream'' then
           (if val \<noteq> ''0'' \<and> val \<noteq> ''1'' \<and> map tolower val \<noteq> ''true'' \<and> map tolower val \<noteq> ''false'' then None
            else Some (True, cfg\<lparr>grpc_permit_without_stream := (val = ''1'' \<or> map tolower val = ''true'')\<rparr>))
         else if key = ''idletimeout'' then num (nat INT_MAX) 0 (\<lambda>n c. c\<lparr>grpc_idle_timeout := n\<rparr>)
         else if key = ''healthchecktimeout'' then num (nat INT_MAX) 0 (\<lambda>n c. c\<lparr>grpc_health_timeout := n\<rparr>)
         else if key = ''initialwindowssize'' then num (256 * 1024) 1 (\<lambda>n c. c\<lparr>grpc_initial_window := n\<rparr>)
         else Some (False, cfg))"

section \<open>Chunks\<close>

text \<open>
  Every chunk but the last is full, and the room in the last is at most what the field still brings, so the
  memory of the chunks never exceeds what the field announced.
\<close>

definition chunks_ok :: "grpc_chunk list \<Rightarrow> nat \<Rightarrow> bool" where
  "chunks_ok cs rest \<longleftrightarrow> (\<forall>c \<in> set cs. ch_start c \<le> length (ch_data c) \<and> length (ch_data c) \<le> ch_capacity c) \<and>
     (\<forall>c \<in> set (butlast cs). length (ch_data c) = ch_capacity c) \<and>
     (cs \<noteq> [] \<longrightarrow> ch_capacity (last cs) - length (ch_data (last cs)) \<le> rest)"

definition stored :: "grpc_chunk list \<Rightarrow> nat" where
  "stored cs = sum_list (map (\<lambda>c. length (ch_data c)) cs)"

definition chunk_memory :: "grpc_chunk list \<Rightarrow> nat" where
  "chunk_memory cs = sum_list (map ch_capacity cs)"

lemma chunk_memory_le:
  assumes "chunks_ok cs rest"
  shows "chunk_memory cs \<le> stored cs + rest"
proof (cases cs rule: rev_cases)
  case (snoc bs c)
  have "map ch_capacity bs = map (\<lambda>c. length (ch_data c)) bs" using assms snoc by (simp add: chunks_ok_def)
  then have "chunk_memory bs = stored bs" by (simp only: chunk_memory_def stored_def)
  moreover have "ch_capacity c \<le> length (ch_data c) + rest" using assms snoc by (auto simp: chunks_ok_def)
  ultimately show ?thesis using snoc by (simp add: chunk_memory_def stored_def)
qed (simp add: chunk_memory_def)

lemma chunks_ok_Nil [simp]: "chunks_ok [] rest" "stored [] = 0"
  by (simp_all add: chunks_ok_def stored_def)

text \<open>Storing data keeps that, adds exactly the data, and fails only for want of memory.\<close>

lemma with_room_ok:
  assumes "chunks_ok cs rest" and "0 < rest" and "with_room got rest cs = Some cs1"
  obtains bs c where "cs1 = bs @ [c]" "chunks_ok (bs @ [c]) rest" "length (ch_data c) < ch_capacity c"
    "concat (map ch_data (bs @ [c])) = concat (map ch_data cs)"
proof (cases "cs = [] \<or> length (ch_data (last cs)) = ch_capacity (last cs)")
  case True
  define c where "c = \<lparr>ch_start = 0, ch_capacity = (if rest > 8192 then 8192 else rest), ch_data = []\<rparr>"
  have "cs1 = cs @ [c]" using assms(3) True by (simp add: with_room_def c_def split: if_splits)
  moreover have "\<forall>d \<in> set cs. length (ch_data d) = ch_capacity d"
    using assms(1) True by (cases cs rule: rev_cases) (auto simp: chunks_ok_def)
  then have "chunks_ok (cs @ [c]) rest" using assms(1) by (simp add: chunks_ok_def c_def)
  ultimately show thesis using assms(2) by (intro that [of cs c]) (simp_all add: c_def)
next
  case False
  then have l: "cs = butlast cs @ [last cs]" "length (ch_data (last cs)) \<noteq> ch_capacity (last cs)" "last cs \<in> set cs" by simp_all
  have "length (ch_data (last cs)) \<le> ch_capacity (last cs)" using assms(1) l(3) by (simp add: chunks_ok_def)
  moreover have "cs1 = cs" using assms(3) False by (simp add: with_room_def)
  ultimately show thesis using assms(1) l by (intro that [of "butlast cs" "last cs"]) auto
qed

lemma store_piece_ok:
  assumes "chunks_ok (bs @ [c]) rest" and "length xs \<le> ch_capacity c - length (ch_data c)"
  shows "chunks_ok (bs @ [c\<lparr>ch_data := ch_data c @ xs\<rparr>]) (rest - length xs)"
  using assms by (auto simp: chunks_ok_def)

lemma append_loop_ok:
  assumes "chunks_ok cs rest" and "length data \<le> rest" and "rest \<le> SIZE_MAX" and "length data \<le> fuel"
    and "append_loop got fuel k rest cs data = (ok, cs1)"
  shows "(ok \<longrightarrow> chunks_ok cs1 (rest - length data) \<and> concat (map ch_data cs1) = concat (map ch_data cs) @ data) \<and> ((\<forall>j. got j) \<longrightarrow> ok)"
  using assms
proof (induction fuel arbitrary: k rest cs data)
  case (Suc fuel)
  show ?case
  proof (cases "data = [] \<or> with_room (got k) rest cs = None")
    case True
    then show ?thesis using Suc(2,6) by (auto simp: with_room_def split: if_splits)
  next
    case False
    then obtain cs2 where w: "with_room (got k) rest cs = Some cs2" "data \<noteq> []" by auto
    then have "0 < rest" using Suc(3) by (cases data) auto
    from with_room_ok [OF Suc(2) this w(1)] obtain bs c where c: "cs2 = bs @ [c]" "chunks_ok (bs @ [c]) rest"
      "length (ch_data c) < ch_capacity c" "concat (map ch_data (bs @ [c])) = concat (map ch_data cs)" .
    define n where "n = min (ch_capacity c - length (ch_data c)) (length data)"
    define cs3 where "cs3 = bs @ [c\<lparr>ch_data := ch_data c @ take n data\<rparr>]"
    have n: "0 < n" "n \<le> rest" "length (take n data) = n" "n \<le> length data" using c(3) w(2) Suc(3) by (auto simp: n_def)
    have "szsub rest n = rest - n" using n(2) Suc(4) by (rule szsub_exact)
    then have r: "append_loop got fuel (Suc k) (rest - n) cs3 (drop n data) = (ok, cs1)"
      using Suc(6) w c(1) by (simp add: Let_def n_def [symmetric] cs3_def)
    have "chunks_ok cs3 (rest - n)" using store_piece_ok [OF c(2), of "take n data"] n(3) by (simp add: cs3_def n_def)
    from Suc(1) [OF this _ _ _ r] have "(ok \<longrightarrow> chunks_ok cs1 (rest - n - length (drop n data)) \<and>
        concat (map ch_data cs1) = concat (map ch_data cs3) @ drop n data) \<and> ((\<forall>j. got j) \<longrightarrow> ok)"
      using Suc(3-5) n by simp
    moreover have "concat (map ch_data cs3) = concat (map ch_data cs) @ take n data" using c(4) by (simp add: cs3_def)
    ultimately show ?thesis using n(4) by simp
  qed
qed simp

lemma stored_concat: "stored cs = length (concat (map ch_data cs))"
  by (simp add: stored_def length_concat comp_def)

section \<open>The invariant of a decoder\<close>

text \<open>Whether the bytes that come next belong to the payload that is kept.\<close>

definition storing :: "grpc_decoder \<Rightarrow> bool" where
  "storing st \<longleftrightarrow> g_phase st = 2 \<and> g_groups st = [] \<and> g_field st = 1 \<and> g_wire st = 2 \<and> \<not> g_multi st"

definition in_message :: "grpc_decoder \<Rightarrow> bool" where
  "in_message st \<longleftrightarrow> 0 < g_remaining st \<and> g_remaining st \<le> GRPC_BUFFER_LIMIT \<and>
     (g_phase st = 2 \<longrightarrow> 0 < g_field_remaining st \<and> g_field_remaining st \<le> g_remaining st) \<and>
     (\<not> g_multi st \<longrightarrow> g_remaining st \<le> g_reserved st)"

definition grpc_arrays :: "grpc_decoder \<Rightarrow> bool" where
  "grpc_arrays st \<longleftrightarrow> length (g_header st) \<le> 5 \<and> length (g_groups st) \<le> 64 \<and> g_reserved st \<le> GRPC_BUFFER_LIMIT"

definition grpc_kept :: "grpc_decoder \<Rightarrow> bool" where
  "grpc_kept st \<longleftrightarrow> (g_multi st \<longrightarrow> g_reserved st = 0 \<and> g_chunks st = []) \<and>
     (let left = (if storing st then g_field_remaining st else 0)
      in chunks_ok (g_chunks st) left \<and> stored (g_chunks st) + left \<le> g_reserved st)"

text \<open>A decoder that can decode: between messages it holds nothing, inside one what it reserved.\<close>

definition grpc_live :: "grpc_decoder \<Rightarrow> bool" where
  "grpc_live st \<longleftrightarrow> g_failed st = 0 \<and> \<not> g_ready st \<and> grpc_arrays st \<and>
     (if length (g_header st) = 5 then in_message st \<and> grpc_kept st else g_reserved st = 0 \<and> g_chunks st = [])"

definition grpc_ok :: "grpc_decoder \<Rightarrow> bool" where
  "grpc_ok st \<longleftrightarrow> grpc_arrays st \<and> chunk_memory (g_chunks st) \<le> g_reserved st \<and>
     (\<forall>c \<in> set (g_chunks st). ch_start c \<le> length (ch_data c) \<and> length (ch_data c) \<le> ch_capacity c) \<and>
     (g_failed st \<noteq> 0 \<longrightarrow> g_reserved st = 0) \<and> (g_ready st \<longrightarrow> length (g_header st) < 5) \<and> (g_failed st = 0 \<and> \<not> g_ready st \<longrightarrow> grpc_live st)"

lemma live_ok: "grpc_live st \<Longrightarrow> grpc_ok st"
proof -
  assume l: "grpc_live st"
  have "chunk_memory (g_chunks st) \<le> g_reserved st \<and> (\<forall>c \<in> set (g_chunks st). ch_start c \<le> length (ch_data c) \<and> length (ch_data c) \<le> ch_capacity c)"
  proof (cases "length (g_header st) = 5")
    case True
    then have k: "grpc_kept st" using l by (simp add: grpc_live_def)
    define left where "left = (if storing st then g_field_remaining st else 0)"
    have "chunks_ok (g_chunks st) left" "stored (g_chunks st) + left \<le> g_reserved st" using k by (simp_all add: grpc_kept_def Let_def left_def)
    then show ?thesis using chunk_memory_le [of "g_chunks st" left] by (simp add: chunks_ok_def)
  qed (use l in \<open>simp add: grpc_live_def chunk_memory_def\<close>)
  then show ?thesis using l by (auto simp: grpc_ok_def grpc_live_def)
qed

text \<open>The reservation is what this decoder and the others hold.\<close>

definition shares :: "nat \<Rightarrow> grpc_decoder \<Rightarrow> nat \<Rightarrow> bool" where
  "shares others st res \<longleftrightarrow> res = others + g_reserved st \<and> res \<le> GRPC_BUFFER_LIMIT"

definition outcome_ok :: "nat \<Rightarrow> bytes \<Rightarrow> nat \<Rightarrow> grpc_out + grpc_work \<Rightarrow> bool" where
  "outcome_ok others input consumed x \<longleftrightarrow>
     (case x of
        Inl (r, st1, res1, c1, payload) \<Rightarrow>
          grpc_ok st1 \<and> shares others st1 res1 \<and> consumed \<le> c1 \<and> c1 \<le> length input \<and> (r = Grpc_Invalid \<longrightarrow> g_failed st1 \<noteq> 0)
      | Inr (st1, res1, data1, c1) \<Rightarrow>
          grpc_live st1 \<and> shares others st1 res1 \<and> consumed < c1 \<and> c1 \<le> length input \<and> data1 = drop c1 input)"

lemma release_shares:
  assumes "shares others st res"
  shows "szsub res (g_reserved st) = others"
  using assms by (simp add: shares_def szsub_def GRPC_BUFFER_LIMIT_def)

lemma invalid_ok:
  assumes "grpc_arrays st" and "shares others st res" and "consumed \<le> c" and "c \<le> length input" and "failure \<noteq> 0"
  shows "outcome_ok others input consumed (grpc_invalid failure st res c)"
  using assms release_shares [OF assms(2)]
  by (simp add: grpc_invalid_def release_message_def clear_chunks_def outcome_ok_def grpc_ok_def grpc_arrays_def shares_def chunk_memory_def)

lemma grpc_value_ok:
  assumes "grpc_value st val = (ok, st1)" and "length (g_groups st) \<le> 64" and "g_remaining st \<le> GRPC_BUFFER_LIMIT"
    and "g_phase st \<noteq> 2" and "\<not> g_multi st \<longrightarrow> g_remaining st \<le> g_reserved st" and "grpc_kept st"
  shows "length (g_groups st1) \<le> 64 \<and> g_header st1 = g_header st \<and> g_reserved st1 = g_reserved st \<and> g_remaining st1 = g_remaining st \<and>
    g_multi st1 = g_multi st \<and> g_failed st1 = g_failed st \<and> g_ready st1 = g_ready st \<and>
    (ok \<longrightarrow> grpc_kept st1 \<and> (g_phase st1 = 2 \<longrightarrow> 0 < g_field_remaining st1 \<and> g_field_remaining st1 \<le> g_remaining st1))"
proof -
  have k: "\<not> storing st" using assms(4) by (simp add: storing_def)
  have kept: "chunks_ok (g_chunks st) 0" "stored (g_chunks st) \<le> g_reserved st" "g_multi st \<longrightarrow> g_reserved st = 0 \<and> g_chunks st = []"
    using assms(6) k by (simp_all add: grpc_kept_def)
  consider "g_phase st = 0" | "g_phase st = 1" | "g_phase st \<noteq> 0" "g_phase st \<noteq> 1" by blast
  then show ?thesis
  proof cases
    case 1
    then have e: "grpc_key st val = (ok, st1)" using assms(1) by (simp add: grpc_value_def)
    have "g_header st1 = g_header st \<and> g_reserved st1 = g_reserved st \<and> g_remaining st1 = g_remaining st \<and> g_chunks st1 = g_chunks st \<and>
      g_multi st1 = g_multi st \<and> g_failed st1 = g_failed st \<and> g_ready st1 = g_ready st"
      using e by (auto simp: grpc_key_def Let_def split: if_splits)
    moreover have "length (g_groups st1) \<le> 64"
      using e assms(2) by (auto simp: grpc_key_def Let_def split: if_splits)
    moreover have "ok \<longrightarrow> \<not> storing st1 \<and> (g_phase st1 = 2 \<longrightarrow> 0 < g_field_remaining st1 \<and> g_field_remaining st1 \<le> g_remaining st1)"
      using e 1 by (auto simp: grpc_key_def storing_def Let_def split: if_splits)
    ultimately show ?thesis using kept by (simp add: grpc_kept_def)
  next
    case 2
    show ?thesis
    proof (cases "unat val > g_remaining st")
      case True
      then show ?thesis using 2 assms(1,2) by (simp add: grpc_value_def)
    next
      case False
      define st2 where "st2 = (if g_groups st = [] \<and> g_field st = 1 \<and> \<not> g_multi st then clear_chunks st else st)"
      have e: "ok" "st1 = st2\<lparr>g_field_remaining := unat val, g_phase := (if val \<noteq> 0 then 2 else 0)\<rparr>"
        using assms(1) 2 False by (auto simp: grpc_value_def st2_def)
      have "val \<noteq> 0 \<Longrightarrow> 0 < unat val" by (simp add: unat_gt_0)
      then show ?thesis using assms(2,5) False kept unfolding e(2)
        by (auto simp: st2_def clear_chunks_def grpc_kept_def storing_def Let_def)
    qed
  next
    case 3
    then have "ok" "st1 = st\<lparr>g_phase := 0\<rparr>" using assms(1) by (simp_all add: grpc_value_def)
    then show ?thesis using assms(2) kept by (simp add: grpc_kept_def storing_def)
  qed
qed

text \<open>A decoder at the end of a pass: the message may just be complete.\<close>

definition closing :: "grpc_decoder \<Rightarrow> bool" where
  "closing st \<longleftrightarrow> g_failed st = 0 \<and> \<not> g_ready st \<and> grpc_arrays st \<and> length (g_header st) = 5 \<and> g_remaining st \<le> GRPC_BUFFER_LIMIT \<and>
     (g_phase st = 2 \<longrightarrow> 0 < g_field_remaining st \<and> g_field_remaining st \<le> g_remaining st) \<and>
     (\<not> g_multi st \<longrightarrow> g_remaining st \<le> g_reserved st) \<and> grpc_kept st"

lemma closing_live: "closing st \<Longrightarrow> 0 < g_remaining st \<Longrightarrow> grpc_live st"
  by (simp add: closing_def grpc_live_def in_message_def)

lemma live_closing: "grpc_live st \<Longrightarrow> length (g_header st) = 5 \<Longrightarrow> closing st \<and> 0 < g_remaining st"
  by (simp add: closing_def grpc_live_def in_message_def)

lemma grpc_close_ok:
  assumes st: "closing st" and sh: "shares others st res" and c: "consumed < c" "c \<le> length input"
  shows "outcome_ok others input consumed (grpc_close st res (drop c input) c payload)"
proof (cases "g_remaining st = 0")
  case False
  then have "grpc_live st" using closing_live [OF st] by simp
  then show ?thesis using live_ok sh c False by (auto simp: grpc_close_def Let_def outcome_ok_def)
next
  case zero: True
  show ?thesis
  proof (cases "g_phase st \<noteq> 0 \<or> g_shift st \<noteq> 0 \<or> g_groups st \<noteq> []")
    case True
    have "grpc_arrays st" using st by (simp add: closing_def)
    then show ?thesis using invalid_ok [OF _ sh, of consumed c input 1] c zero True by (simp add: grpc_close_def Let_def)
  next
    case False
    then have kept: "chunks_ok (g_chunks st) 0" "stored (g_chunks st) \<le> g_reserved st" "g_multi st \<longrightarrow> g_reserved st = 0 \<and> g_chunks st = []"
      using st by (simp_all add: closing_def grpc_kept_def storing_def)
    have mem: "chunk_memory (g_chunks st) \<le> g_reserved st" using chunk_memory_le [OF kept(1)] kept(2) by simp
    define st1 where "st1 = st\<lparr>g_header := []\<rparr>"
    show ?thesis
    proof (cases "g_multi st")
      case True
      then have "grpc_live st1" "shares others st1 res"
        using st kept sh by (simp_all add: st1_def grpc_live_def closing_def grpc_arrays_def shares_def)
      then show ?thesis using live_ok c zero False True by (auto simp: grpc_close_def Let_def outcome_ok_def st1_def)
    next
      case single: False
      have "grpc_ok (st1\<lparr>g_ready := True\<rparr>)" "shares others (st1\<lparr>g_ready := True\<rparr>) res"
        using st kept mem sh by (auto simp: st1_def grpc_ok_def closing_def grpc_arrays_def shares_def chunks_ok_def)
      then show ?thesis using c zero False single by (simp add: grpc_close_def Let_def outcome_ok_def st1_def)
    qed
  qed
qed

lemma grpc_byte_ok:
  assumes st: "closing st" "0 < g_remaining st" "g_phase st \<noteq> 2" and b: "grpc_byte st b = (ok, st1)"
  shows "grpc_arrays st1 \<and> g_reserved st1 = g_reserved st \<and> (ok \<longrightarrow> closing st1)"
proof -
  have rem: "szsub (g_remaining st) (Suc 0) = g_remaining st - 1"
    using st(1,2) szsub_exact [of 1 "g_remaining st"] by (auto simp: closing_def GRPC_BUFFER_LIMIT_def SIZE_MAX_def)
  define st0 where "st0 = st\<lparr>g_remaining := g_remaining st - 1\<rparr>"
  have kept: "grpc_kept (st0\<lparr>g_varint := x, g_shift := y\<rparr>)" for x y
    using st(1,3) by (simp add: closing_def grpc_kept_def storing_def st0_def)
  have c0: "closing (st0\<lparr>g_varint := x, g_shift := y\<rparr>)" for x y
    using st kept [where x = x and y = y] by (auto simp: closing_def grpc_arrays_def st0_def)
  define p v where "p \<longleftrightarrow> g_shift st > 63 \<or> g_shift st = 63 \<and> b AND 0xFE \<noteq> 0"
    and "v = g_varint st OR push_bit (g_shift st) (ucast (b AND 127))"
  have e: "grpc_byte st b = (if p then (False, st0) else if bit b 7 then (True, st0\<lparr>g_varint := v, g_shift := g_shift st + 7\<rparr>)
      else grpc_value (st0\<lparr>g_varint := 0, g_shift := 0\<rparr>) v)"
    by (simp add: grpc_byte_def rem st0_def Let_def p_def v_def)
  consider p | "\<not> p" "bit b 7" | "\<not> p" "\<not> bit b 7" by blast
  then show ?thesis
  proof cases
    case 1
    then have "\<not> ok" "st1 = st0" using b e by simp_all
    then show ?thesis using st(1) by (simp add: closing_def grpc_arrays_def st0_def)
  next
    case 2
    then have "ok" "st1 = st0\<lparr>g_varint := v, g_shift := g_shift st + 7\<rparr>" using b e by simp_all
    then show ?thesis using c0 [where x = v and y = "g_shift st + 7"] by (simp add: closing_def st0_def)
  next
    case 3
    then have val: "grpc_value (st0\<lparr>g_varint := 0, g_shift := 0\<rparr>) v = (ok, st1)" using b e by simp
    define st2 where "st2 = st0\<lparr>g_varint := 0, g_shift := 0\<rparr>"
    have c2: "closing st2" using c0 [where x = 0 and y = 0] by (simp add: st2_def)
    have "g_phase st2 \<noteq> 2" "g_reserved st2 = g_reserved st" using st(3) by (simp_all add: st2_def st0_def)
    moreover from grpc_value_ok [OF val [folded st2_def]] c2 this have "length (g_groups st1) \<le> 64 \<and> g_header st1 = g_header st2 \<and>
      g_reserved st1 = g_reserved st2 \<and> g_remaining st1 = g_remaining st2 \<and> g_multi st1 = g_multi st2 \<and> g_failed st1 = g_failed st2 \<and>
      g_ready st1 = g_ready st2 \<and>
      (ok \<longrightarrow> grpc_kept st1 \<and> (g_phase st1 = 2 \<longrightarrow> 0 < g_field_remaining st1 \<and> g_field_remaining st1 \<le> g_remaining st1))"
      by (auto simp: closing_def grpc_arrays_def)
    ultimately show ?thesis using c2 by (auto simp: closing_def grpc_arrays_def)
  qed
qed

lemma append_data_ok:
  assumes st: "closing st" "storing st" and n: "n \<le> g_field_remaining st" "length xs = n" and a: "append_data got st xs = (ok, st1)"
  shows "\<exists>cs. st1 = st\<lparr>g_chunks := cs\<rparr> \<and> (ok \<longrightarrow> chunks_ok cs (g_field_remaining st - n) \<and> stored cs = stored (g_chunks st) + n)"
proof -
  obtain cs where l: "append_loop got (length xs) 0 (g_field_remaining st) (g_chunks st) xs = (ok, cs)" "st1 = st\<lparr>g_chunks := cs\<rparr>"
    using a by (auto simp: append_data_def split: prod.splits)
  have "chunks_ok (g_chunks st) (g_field_remaining st)" "g_field_remaining st \<le> SIZE_MAX"
    using st by (auto simp: closing_def grpc_kept_def storing_def Let_def GRPC_BUFFER_LIMIT_def SIZE_MAX_def)
  from append_loop_ok [OF this(1) _ this(2) _ l(1)] n have "ok \<longrightarrow> chunks_ok cs (g_field_remaining st - n) \<and>
      concat (map ch_data cs) = concat (map ch_data (g_chunks st)) @ xs" by simp
  then show ?thesis using l(2) n(2) by (auto simp: stored_concat)
qed

lemma grpc_body_ok:
  assumes st: "closing st" "0 < g_remaining st" and sh: "shares others st res" and c: "consumed < length input"
  shows "outcome_ok others input consumed (grpc_body got st res (drop consumed input) consumed)"
proof (cases "g_phase st = 2")
  case False
  define b where "b = hd (drop consumed input)"
  obtain ok st1 where s: "grpc_byte st b = (ok, st1)" by (cases "grpc_byte st b")
  note ok = grpc_byte_ok [OF st False s]
  have sh1: "shares others st1 res" using sh ok by (simp add: shares_def)
  have tl: "tl (drop consumed input) = drop (consumed + 1) input" by (simp add: tl_drop drop_Suc)
  show ?thesis
  proof (cases ok)
    case True
    then show ?thesis using grpc_close_ok [OF _ sh1, of consumed "consumed + 1" input "[]"] ok c s False
      by (simp add: grpc_body_def b_def tl del: One_nat_def)
  next
    case bad: False
    then show ?thesis using invalid_ok [OF _ sh1, of consumed "consumed + 1" input 1] ok c s False
      by (simp add: grpc_body_def b_def del: One_nat_def)
  qed
next
  case True
  define data where "data = drop consumed input"
  define n where "n = min (g_field_remaining st) (length data)"
  define wanted where "wanted = (g_groups st = [] \<and> g_field st = 1 \<and> g_wire st = 2)"
  obtain ok st1 where s: "(if wanted \<and> \<not> g_multi st then append_data (got consumed) st (take n data) else (True, st)) = (ok, st1)"
    by (meson surj_pair)
  have n: "0 < n" "n \<le> g_field_remaining st" "length (take n data) = n" "consumed + n \<le> length input"
    using st True c by (auto simp: n_def data_def closing_def)
  have stor: "storing st \<longleftrightarrow> wanted \<and> \<not> g_multi st" using True by (auto simp: storing_def wanted_def)
  obtain cs where cs: "st1 = st\<lparr>g_chunks := cs\<rparr>"
    "ok \<longrightarrow> chunks_ok cs (if storing st then g_field_remaining st - n else 0) \<and> stored cs = stored (g_chunks st) + (if storing st then n else 0)"
    "\<not> storing st \<longrightarrow> cs = g_chunks st"
  proof (cases "storing st")
    case True
    then show thesis using append_data_ok [OF st(1) True n(2,3)] s stor that by (metis (full_types))
  next
    case False
    then have "chunks_ok (g_chunks st) 0" using st(1) by (simp add: closing_def grpc_kept_def)
    then show thesis using False s stor that [of "g_chunks st"] by auto
  qed
  have fr: "szsub (g_field_remaining st) n = g_field_remaining st - n" "szsub (g_remaining st) n = g_remaining st - n"
    using st n True by (auto intro!: szsub_exact simp: closing_def GRPC_BUFFER_LIMIT_def SIZE_MAX_def)
  define left where "left = g_field_remaining st - n"
  define st2 where "st2 = st1\<lparr>g_field_remaining := left, g_remaining := g_remaining st - n, g_phase := (if left = 0 then 0 else 2)\<rparr>"
  have same: "g_field_remaining st1 = g_field_remaining st" "g_remaining st1 = g_remaining st" "g_phase st1 = 2"
    using cs(1) True by simp_all
  have eq: "grpc_body got st res data consumed =
      (if \<not> ok then grpc_invalid 3 st1 res consumed
       else grpc_close st2 res (drop n data) (consumed + n) (if wanted \<and> g_multi st then take n data else []))"
    by (simp only: grpc_body_def if_P [OF True] Let_def n_def [symmetric] wanted_def [symmetric] s prod.case same fr
        left_def [symmetric] st2_def [symmetric])
  have sh1: "shares others st1 res" "shares others st2 res" "grpc_arrays st1" using sh cs(1) st(1) by (simp_all add: shares_def st2_def closing_def grpc_arrays_def)
  show ?thesis
  proof (cases ok)
    case False
    then show ?thesis unfolding data_def [symmetric] eq using invalid_ok [OF sh1(3,1), of consumed consumed input 3] c by simp
  next
    case okt: True
    have "storing st2 \<longleftrightarrow> storing st \<and> left \<noteq> 0" using cs(1) True by (auto simp: storing_def st2_def)
    moreover have "g_multi st \<longrightarrow> g_reserved st = 0 \<and> g_chunks st = []" "storing st \<longrightarrow> \<not> g_multi st"
      "stored (g_chunks st) + (if storing st then g_field_remaining st else 0) \<le> g_reserved st"
      using st(1) by (simp_all add: closing_def grpc_kept_def Let_def storing_def)
    moreover have "g_chunks st2 = cs" "g_field_remaining st2 = left" "g_reserved st2 = g_reserved st" "g_multi st2 = g_multi st"
      using cs(1) by (simp_all add: st2_def)
    ultimately have "grpc_kept st2" using cs(2,3) okt n(2) by (cases "storing st") (auto simp: grpc_kept_def left_def)
    then have "closing st2" using st n cs(1) True by (auto simp: closing_def st2_def left_def grpc_arrays_def)
    moreover have "drop n data = drop (consumed + n) input" by (simp add: data_def add.commute)
    ultimately show ?thesis unfolding data_def [symmetric] eq using okt grpc_close_ok [OF _ sh1(2), of consumed "consumed + n" input] n by simp
  qed
qed

lemma grpc_open_ok:
  assumes st: "grpc_live st" "length (g_header st) < 5" and sh: "shares others st res" and c: "consumed < length input"
  shows "case grpc_open st res (drop consumed input) consumed of
      Inl out \<Rightarrow> outcome_ok others input consumed (Inl out)
    | Inr (body, st1, res1, data1, c1) \<Rightarrow>
        outcome_ok others input consumed (Inr (st1, res1, data1, c1)) \<and> (body \<longrightarrow> length (g_header st1) = 5 \<and> c1 < length input)"
proof -
  define data where "data = drop consumed input"
  define n where "n = min (5 - length (g_header st)) (length data)"
  define h where "h = g_header st @ take n data"
  define c1 where "c1 = consumed + n"
  define st1 where "st1 = st\<lparr>g_header := h\<rparr>"
  have n: "0 < n" "c1 \<le> length input" "consumed < c1" "length h \<le> 5" using st(2) c by (auto simp: n_def data_def h_def c1_def)
  have after: "drop n data = drop c1 input" by (simp add: data_def c1_def add.commute)
  have idle: "g_reserved st = 0" "g_chunks st = []" "g_failed st = 0" "\<not> g_ready st" "grpc_arrays st" using st by (auto simp: grpc_live_def)
  show ?thesis
  proof (cases "length h < 5")
    case True
    then have "grpc_open st res data consumed = Inr (False, st1, res, drop n data, c1)"
      by (simp only: grpc_open_def Let_def n_def [symmetric] h_def [symmetric] c1_def [symmetric] st1_def [symmetric] if_True)
    moreover have "grpc_live st1" "shares others st1 res" using True idle sh by (simp_all add: st1_def grpc_live_def grpc_arrays_def shares_def)
    ultimately show ?thesis using n after by (simp add: data_def [symmetric] outcome_ok_def)
  next
    case False
    define m where "m = word32 (h ! 1) (h ! 2) (h ! 3) (h ! 4)"
    define st2 where "st2 = st1\<lparr>g_remaining := m\<rparr>"
    define st3 where "st3 = st2\<lparr>g_phase := 0, g_shift := 0, g_varint := 0, g_groups := []\<rparr>"
    define st4 where "st4 = st3\<lparr>g_reserved := (if \<not> g_multi st3 \<and> m \<noteq> 0 then m else g_reserved st3)\<rparr>"
    define res4 where "res4 = (if \<not> g_multi st3 \<and> m \<noteq> 0 then szadd res m else res)"
    have eq: "grpc_open st res data consumed =
        (if h ! 0 \<noteq> 0 \<or> m > 16 * 1024 * 1024 then grpc_invalid 1 st2 res c1
         else if \<not> g_multi st3 \<and> m \<noteq> 0 \<and> m > szsub GRPC_BUFFER_LIMIT res then Inl (Grpc_Invalid, st3\<lparr>g_failed := 2\<rparr>, res, c1, [])
         else if m = 0 then
           (if \<not> g_multi st4 then Inl (Grpc_Event, st4\<lparr>g_header := [], g_ready := True\<rparr>, res4, c1, [])
            else Inr (False, st4\<lparr>g_header := []\<rparr>, res4, drop n data, c1))
         else if drop n data = [] then Inl (Grpc_None, st4, res4, c1, [])
         else Inr (True, st4, res4, drop n data, c1))"
      using False unfolding grpc_open_def Let_def n_def [symmetric] h_def [symmetric] c1_def [symmetric] st1_def [symmetric] m_def [symmetric]
        st2_def [symmetric] st3_def [symmetric]
      by (auto simp: st4_def res4_def)
    have len: "length h = 5" using False n(4) by simp
    have fields: "g_reserved st3 = 0" "g_chunks st3 = []" "g_failed st3 = 0" "\<not> g_ready st3" "g_header st3 = h" "g_groups st3 = []"
      "g_phase st3 = 0" "g_remaining st3 = m" "g_multi st3 = g_multi st" using idle by (simp_all add: st3_def st2_def st1_def)
    have a2: "grpc_arrays st2" "shares others st2 res" using idle n(4) sh by (simp_all add: st2_def st1_def grpc_arrays_def shares_def)
    have res: "res \<le> GRPC_BUFFER_LIMIT" "res = others" using sh idle(1) by (simp_all add: shares_def)
    have room: "szsub GRPC_BUFFER_LIMIT res = GRPC_BUFFER_LIMIT - res" using res(1) by (rule szsub_exact) (simp add: GRPC_BUFFER_LIMIT_def SIZE_MAX_def)
    have add: "m \<le> GRPC_BUFFER_LIMIT - res \<Longrightarrow> szadd res m = res + m" using res(1) by (intro szadd_exact) (simp add: GRPC_BUFFER_LIMIT_def SIZE_MAX_def)
    consider "h ! 0 \<noteq> 0 \<or> m > 16 * 1024 * 1024"
      | "\<not> (h ! 0 \<noteq> 0 \<or> m > 16 * 1024 * 1024)" "\<not> g_multi st3 \<and> m \<noteq> 0 \<and> m > szsub GRPC_BUFFER_LIMIT res"
      | "\<not> (h ! 0 \<noteq> 0 \<or> m > 16 * 1024 * 1024)" "\<not> (\<not> g_multi st3 \<and> m \<noteq> 0 \<and> m > szsub GRPC_BUFFER_LIMIT res)" by blast
    then show ?thesis
    proof cases
      case 1
      have "grpc_open st res data consumed = grpc_invalid 1 st2 res c1" unfolding eq if_P [OF 1] by (rule refl)
      moreover obtain sx rx where "release_message (st2\<lparr>g_failed := 1\<rparr>) res = (sx, rx)" by (cases "release_message (st2\<lparr>g_failed := 1\<rparr>) res")
      then have "grpc_invalid 1 st2 res c1 = (Inl (Grpc_Invalid, sx, rx, c1, []) :: grpc_out + bool \<times> grpc_work)"
        "grpc_invalid 1 st2 res c1 = (Inl (Grpc_Invalid, sx, rx, c1, []) :: grpc_out + grpc_work)" by (simp_all add: grpc_invalid_def)
      ultimately show ?thesis using invalid_ok [OF a2, of consumed c1 input 1] n by (simp add: data_def [symmetric])
    next
      case 2
      then have "grpc_open st res data consumed = Inl (Grpc_Invalid, st3\<lparr>g_failed := 2\<rparr>, res, c1, [])" unfolding eq if_not_P [OF 2(1)] by simp
      moreover have "grpc_ok (st3\<lparr>g_failed := 2\<rparr>)" "shares others (st3\<lparr>g_failed := 2\<rparr>) res"
        using fields len res by (simp_all add: grpc_ok_def grpc_arrays_def chunk_memory_def shares_def)
      ultimately show ?thesis using n by (simp add: data_def [symmetric] outcome_ok_def)
    next
      case 3
      have small: "m \<le> GRPC_BUFFER_LIMIT" using 3(1) by (simp add: GRPC_BUFFER_LIMIT_def)
      have shares4: "shares others st4 res4" "g_reserved st4 \<le> GRPC_BUFFER_LIMIT"
        using 3(2) fields res room add small by (auto simp: st4_def res4_def shares_def)
      have f4: "g_chunks st4 = []" "g_failed st4 = 0" "\<not> g_ready st4" "g_header st4 = h" "g_groups st4 = []" "g_phase st4 = 0" "g_remaining st4 = m"
        "g_multi st4 = g_multi st3" "\<not> g_multi st4 \<and> m \<noteq> 0 \<Longrightarrow> g_reserved st4 = m" "g_multi st4 \<or> m = 0 \<Longrightarrow> g_reserved st4 = 0"
        using fields by (auto simp: st4_def)
      show ?thesis
      proof (cases "m = 0")
        case True
        have "grpc_ok (st4\<lparr>g_header := [], g_ready := True\<rparr>)" "grpc_live (st4\<lparr>g_header := []\<rparr>)"
          using f4 True by (simp_all add: grpc_ok_def grpc_live_def grpc_arrays_def chunk_memory_def)
        then show ?thesis using True shares4(1) n after unfolding data_def [symmetric] eq if_not_P [OF 3(1)] if_not_P [OF 3(2)]
          by (simp add: outcome_ok_def shares_def)
      next
        case False
        have "grpc_live st4" using f4 False len small shares4(2)
          by (auto simp: grpc_live_def in_message_def grpc_arrays_def grpc_kept_def storing_def)
        moreover have "drop n data \<noteq> [] \<Longrightarrow> c1 < length input" using after by simp
        ultimately show ?thesis using live_ok [of st4] False shares4(1) n after f4(4) len
          unfolding data_def [symmetric] eq if_not_P [OF 3(1)] if_not_P [OF 3(2)] by (auto simp: outcome_ok_def)
      qed
    qed
  qed
qed

lemma grpc_pass_ok:
  assumes st: "grpc_live st" and sh: "shares others st res" and c: "consumed < length input"
  shows "outcome_ok others input consumed (grpc_pass got st res (drop consumed input) consumed)"
proof (cases "length (g_header st) < 5")
  case False
  then have "length (g_header st) = 5" using st by (simp add: grpc_live_def grpc_arrays_def)
  then show ?thesis using grpc_body_ok [OF _ _ sh c] live_closing [OF st] False by (simp add: grpc_pass_def)
next
  case True
  note o = grpc_open_ok [OF st True sh c]
  show ?thesis
  proof (cases "grpc_open st res (drop consumed input) consumed")
    case (Inl out)
    then show ?thesis using o True by (simp add: grpc_pass_def)
  next
    case (Inr work)
    obtain body st1 res1 data1 c1 where w: "work = (body, st1, res1, data1, c1)" by (cases work)
    have o1: "outcome_ok others input consumed (Inr (st1, res1, data1, c1))" "body \<longrightarrow> length (g_header st1) = 5 \<and> c1 < length input"
      using o Inr w by simp_all
    then have l: "grpc_live st1" "shares others st1 res1" "consumed < c1" "data1 = drop c1 input" by (simp_all add: outcome_ok_def)
    show ?thesis
    proof (cases body)
      case b: True
      then have "outcome_ok others input c1 (grpc_body got st1 res1 data1 c1)"
        using grpc_body_ok [OF _ _ l(2)] live_closing [OF l(1)] o1(2) l(4) by simp
      then have "outcome_ok others input consumed (grpc_body got st1 res1 data1 c1)" using l(3) by (auto simp: outcome_ok_def split: sum.splits)
      then show ?thesis using True Inr w b by (simp add: grpc_pass_def)
    next
      case False
      then show ?thesis using True Inr w o1(1) by (simp add: grpc_pass_def)
    qed
  qed
qed

lemma grpc_loop_ok:
  assumes "grpc_live st" and "shares others st res" and "consumed \<le> length input"
  shows "\<exists>out. grpc_loop got st res (drop consumed input) consumed = Some out \<and> outcome_ok others input consumed (Inl out)"
  using assms
proof (induction "length input - consumed" arbitrary: st res consumed rule: less_induct)
  case less
  show ?case
  proof (cases "drop consumed input = []")
    case True
    then show ?thesis using less(2-4) live_ok by (subst grpc_loop.simps) (simp add: outcome_ok_def)
  next
    case False
    then have lt: "consumed < length input" by simp
    note ok = grpc_pass_ok [OF less(2,3) lt, of got]
    show ?thesis
    proof (cases "grpc_pass got st res (drop consumed input) consumed")
      case (Inl out)
      then show ?thesis using ok False by (subst grpc_loop.simps) simp
    next
      case (Inr work)
      then obtain st1 res1 c1 where w: "work = (st1, res1, drop c1 input, c1)" "grpc_live st1" "shares others st1 res1" "consumed < c1" "c1 \<le> length input"
        using ok by (cases work) (auto simp: outcome_ok_def)
      have "length input - c1 < length input - consumed" using w(4,5) by simp
      from less(1) [OF this w(2,3,5)] obtain out where "grpc_loop got st1 res1 (drop c1 input) c1 = Some out" "outcome_ok others input c1 (Inl out)" by blast
      then show ?thesis using Inr w False by (subst grpc_loop.simps) (auto simp: outcome_ok_def split: prod.splits)
    qed
  qed
qed

lemma read_chunks_ok:
  assumes "\<forall>c \<in> set cs. ch_start c \<le> length (ch_data c) \<and> length (ch_data c) \<le> ch_capacity c" and "read_chunks capacity cs = (data, r)"
  shows "(\<forall>c \<in> set r. ch_start c \<le> length (ch_data c) \<and> length (ch_data c) \<le> ch_capacity c) \<and> chunk_memory r \<le> chunk_memory cs"
  using assms
proof (induction capacity cs arbitrary: data r rule: read_chunks.induct)
  case (2 capacity c cs)
  show ?case
  proof (cases "capacity = 0 \<or> ch_start c + min (length (ch_data c) - ch_start c) capacity \<noteq> length (ch_data c)")
    case True
    then show ?thesis using 2(2,3) by (auto simp: Let_def chunk_memory_def split: if_splits)
  next
    case False
    then obtain more where "read_chunks (capacity - min (length (ch_data c) - ch_start c) capacity) cs = (more, r)"
      using 2(3) by (auto simp: Let_def split: prod.splits)
    then show ?thesis using 2(1) [OF _ refl refl _, of more r] False 2(2) by (auto simp: chunk_memory_def)
  qed
qed (simp add: chunk_memory_def)

lemma core_grpc_read_ok:
  assumes "grpc_ok st" and "shares others st res" and "core_grpc_read st res capacity = (ok, data, st1, res1)"
  shows "grpc_ok st1 \<and> shares others st1 res1"
proof (cases "g_failed st = 0 \<and> g_ready st")
  case False
  then show ?thesis using assms by (auto simp: core_grpc_read_def split: if_splits)
next
  case True
  obtain r where r: "read_chunks capacity (g_chunks st) = (data, r)" "(if r = [] then release_message (st\<lparr>g_chunks := r\<rparr>) res else (st\<lparr>g_chunks := r\<rparr>, res)) = (st1, res1)"
    using assms(3) True by (auto simp: core_grpc_read_def Let_def split: prod.splits)
  have c: "(\<forall>c \<in> set r. ch_start c \<le> length (ch_data c) \<and> length (ch_data c) \<le> ch_capacity c) \<and> chunk_memory r \<le> g_reserved st"
    using read_chunks_ok [OF _ r(1)] assms(1) by (auto simp: grpc_ok_def)
  show ?thesis
  proof (cases "r = []")
    case nil: True
    then have "st1 = st\<lparr>g_chunks := [], g_reserved := 0, g_ready := False\<rparr>" "res1 = others"
      using r(2) release_shares [OF assms(2)] by (auto simp: release_message_def clear_chunks_def)
    then show ?thesis using assms(1,2) True by (simp add: grpc_ok_def grpc_live_def grpc_arrays_def shares_def chunk_memory_def)
  next
    case False
    then have "st1 = st\<lparr>g_chunks := r\<rparr>" "res1 = res" using r(2) by simp_all
    then show ?thesis using assms(1,2) True c by (simp add: grpc_ok_def grpc_arrays_def shares_def)
  qed
qed

lemma core_grpc_clear_ok:
  assumes "shares others st res" and "core_grpc_clear st res = (st1, res1)"
  shows "grpc_ok st1 \<and> shares others st1 res1 \<and> g_reserved st1 = 0"
  using assms release_shares [OF assms(1)]
  by (auto simp: core_grpc_clear_def release_message_def grpc_zero_def grpc_ok_def grpc_live_def grpc_arrays_def shares_def chunk_memory_def)

lemma core_grpc_decode_ok:
  assumes "grpc_ok st" and "shares others st res"
  shows "\<exists>r st1 res1 c payload. core_grpc_decode got st res input = Some (r, st1, res1, c, payload) \<and> grpc_ok st1 \<and> shares others st1 res1 \<and>
    c \<le> length input \<and> (r = Grpc_Invalid \<longrightarrow> g_failed st1 \<noteq> 0)"
proof (cases "g_failed st = 0 \<and> \<not> g_ready st")
  case False
  then show ?thesis using assms by (auto simp: core_grpc_decode_def)
next
  case True
  then have "grpc_live st" using assms(1) by (simp add: grpc_ok_def)
  from grpc_loop_ok [OF this assms(2), of 0 input got] obtain r st1 res1 c payload where
    "grpc_loop got st res (drop 0 input) 0 = Some (r, st1, res1, c, payload)" "outcome_ok others input 0 (Inl (r, st1, res1, c, payload))" by auto
  then show ?thesis using True by (auto simp: core_grpc_decode_def outcome_ok_def)
qed

section \<open>All decoders together\<close>

text \<open>The decoders of the process, whole-message (\<open>False\<close>) or streaming, and the reservation they share.\<close>

inductive grpc_system :: "bool list \<Rightarrow> grpc_decoder list \<Rightarrow> nat \<Rightarrow> bool" for modes where
  start: "grpc_system modes (map (\<lambda>m. grpc_zero\<lparr>g_multi := m\<rparr>) modes) 0"
| decode: "grpc_system modes ds res \<Longrightarrow> i < length ds \<Longrightarrow> core_grpc_decode got (ds ! i) res input = Some (r, st1, res1, c, payload) \<Longrightarrow>
    grpc_system modes (ds[i := st1]) res1"
| read: "grpc_system modes ds res \<Longrightarrow> i < length ds \<Longrightarrow> core_grpc_read (ds ! i) res capacity = (ok, data, st1, res1) \<Longrightarrow>
    grpc_system modes (ds[i := st1]) res1"
| clear: "grpc_system modes ds res \<Longrightarrow> i < length ds \<Longrightarrow> core_grpc_clear (ds ! i) res = (st1, res1) \<Longrightarrow>
    grpc_system modes (ds[i := st1]) res1"

definition system_ok :: "grpc_decoder list \<Rightarrow> nat \<Rightarrow> bool" where
  "system_ok ds res \<longleftrightarrow> list_all grpc_ok ds \<and> res = sum_list (map g_reserved ds) \<and> res \<le> GRPC_BUFFER_LIMIT"

lemma system_shares:
  assumes "system_ok ds res" and "i < length ds"
  shows "grpc_ok (ds ! i)" "shares (res - g_reserved (ds ! i)) (ds ! i) res"
proof -
  have "g_reserved (ds ! i) \<le> sum_list (map g_reserved ds)" using assms(2) elem_le_sum_list [of i "map g_reserved ds"] by simp
  then show "grpc_ok (ds ! i)" "shares (res - g_reserved (ds ! i)) (ds ! i) res"
    using assms by (auto simp: system_ok_def shares_def list_all_length)
qed

lemma system_update:
  assumes "system_ok ds res" and "i < length ds" and "grpc_ok st1" and "shares (res - g_reserved (ds ! i)) st1 res1"
  shows "system_ok (ds[i := st1]) res1"
proof -
  have "g_reserved (ds ! i) \<le> res" using system_shares(2) [OF assms(1,2)] by (simp add: shares_def)
  moreover have "sum_list (map g_reserved (ds[i := st1])) = sum_list (map g_reserved ds) + g_reserved st1 - g_reserved (ds ! i)"
    using assms(2) by (simp add: map_update sum_list_update)
  ultimately show ?thesis using assms by (auto simp: system_ok_def shares_def list_all_length nth_list_update)
qed

lemma grpc_system_ok: "grpc_system modes ds res \<Longrightarrow> system_ok ds res"
proof (induction rule: grpc_system.induct)
  case start
  show ?case by (simp add: system_ok_def list_all_iff grpc_zero_def grpc_ok_def grpc_live_def grpc_arrays_def chunk_memory_def comp_def sum_list_0)
next
  case (decode ds res i got input r st1 res1 c payload)
  note s = system_shares [OF decode(4,2)]
  from core_grpc_decode_ok [OF s, of got input] decode(3) show ?case using system_update [OF decode(4,2)] by auto
next
  case (read ds res i capacity ok data st1 res1)
  note s = system_shares [OF read(4,2)]
  from core_grpc_read_ok [OF s read(3)] show ?case using system_update [OF read(4,2)] by auto
next
  case (clear ds res i st1 res1)
  note s = system_shares [OF clear(4,2)]
  from core_grpc_clear_ok [OF s(2) clear(3)] show ?case using system_update [OF clear(4,2)] by auto
qed

text \<open>
  Property C10: whatever the peers of any number of gRPC streams send, and however the calls interleave,
  the shared reservation is exactly the sum of what the decoders reserved, at most 16 MiB; the chunks of a
  decoder never take more memory than it reserved, and its header and its stack of groups stay within
  their arrays.  A further call always returns, within its input, and a decoder that fails holds nothing.
\<close>

theorem grpc_reservation_exact:
  assumes "grpc_system modes ds res"
  shows "res = sum_list (map g_reserved ds) \<and> res \<le> GRPC_BUFFER_LIMIT \<and>
    (\<forall>i < length ds. chunk_memory (g_chunks (ds ! i)) \<le> g_reserved (ds ! i) \<and> length (g_header (ds ! i)) \<le> 5 \<and> length (g_groups (ds ! i)) \<le> 64 \<and>
       (g_failed (ds ! i) \<noteq> 0 \<longrightarrow> g_reserved (ds ! i) = 0 \<and> chunk_memory (g_chunks (ds ! i)) = 0) \<and>
       (\<exists>r st1 res1 c payload. core_grpc_decode got (ds ! i) res input = Some (r, st1, res1, c, payload) \<and> c \<le> length input \<and>
          (r = Grpc_Invalid \<longrightarrow> g_failed st1 \<noteq> 0)))"
proof -
  note ok = grpc_system_ok [OF assms]
  have "\<exists>r st1 res1 c payload. core_grpc_decode got (ds ! i) res input = Some (r, st1, res1, c, payload) \<and> c \<le> length input \<and>
      (r = Grpc_Invalid \<longrightarrow> g_failed st1 \<noteq> 0)" if "i < length ds" for i
    using core_grpc_decode_ok [OF system_shares [OF ok that], of got input] by blast
  moreover have "chunk_memory (g_chunks (ds ! i)) \<le> g_reserved (ds ! i) \<and> length (g_header (ds ! i)) \<le> 5 \<and> length (g_groups (ds ! i)) \<le> 64 \<and>
      (g_failed (ds ! i) \<noteq> 0 \<longrightarrow> g_reserved (ds ! i) = 0 \<and> chunk_memory (g_chunks (ds ! i)) = 0)" if "i < length ds" for i
    using system_shares(1) [OF ok that] by (cases "g_failed (ds ! i) = 0") (simp_all add: grpc_ok_def grpc_arrays_def)
  ultimately show ?thesis using ok by (simp add: system_ok_def)
qed

theorem grpc_reservation_exact_witness:
  "\<exists>ds res. grpc_system [False] ds res \<and> g_reserved (ds ! 0) = 3 \<and> res = sum_list (map g_reserved ds)"
proof -
  let ?st = "grpc_zero\<lparr>g_multi := False\<rparr>"
  let ?st1 = "?st\<lparr>g_header := [0, 0, 0, 0, 3], g_remaining := 3, g_reserved := 3\<rparr>"
  have "szadd 0 3 = 3" "szsub GRPC_BUFFER_LIMIT 0 = GRPC_BUFFER_LIMIT" by (simp_all add: szadd_def szsub_def GRPC_BUFFER_LIMIT_def)
  then have "core_grpc_decode (\<lambda>_ _. True) ?st 0 [0, 0, 0, 0, 3] = Some (Grpc_None, ?st1, 3, 5, [])"
    by (simp add: core_grpc_decode_def grpc_loop.simps grpc_pass_def grpc_open_def grpc_zero_def word32_def GRPC_BUFFER_LIMIT_def Let_def)
  moreover have s: "grpc_system [False] [?st] 0" using grpc_system.start [of "[False]"] by simp
  ultimately have r: "grpc_system [False] [?st1] 3" using grpc_system.decode [OF s, of 0] by simp
  show ?thesis using grpc_reservation_exact [OF r] r by (intro exI [of _ "[?st1]"] exI [of _ 3]) simp
qed

end
