(* ===== verification/Sniff.thy ===== *)
theory Sniff
  imports Socks5 "HOL-Library.Sublist"
begin

text \<open>
  The first bytes of a client and the domain found in them, from \<^verbatim>\<open>src/src/main.c\<close>: the loops
  that collect a first payload, the TLS record framing they look at, and the two parsers that find the
  name a client asks for, in the server name extension of a TLS ClientHello or in the Host field of an
  HTTP request.  Both parsers work on positions in the buffer, as the code does, and every access is
  checked: \<open>None\<close> is a read outside the buffer, \<open>Some None\<close> the result \<^verbatim>\<open>-1\<close>, and
  \<open>Some (Some host)\<close> a name.  Positions stay below the length of the buffer plus \<open>2 ^ 25\<close>,
  so the additions of the code do not wrap.
\<close>

section \<open>Checked access\<close>

definition byte_at :: "bytes \<Rightarrow> nat \<Rightarrow> byte option" where
  "byte_at buf i = (if i < length buf then Some (buf ! i) else None)"

definition at16 :: "bytes \<Rightarrow> nat \<Rightarrow> nat option" where
  "at16 buf i = do { a \<leftarrow> byte_at buf i; b \<leftarrow> byte_at buf (i + 1); Some (word16 a b) }"

definition at24 :: "bytes \<Rightarrow> nat \<Rightarrow> nat option" where
  "at24 buf i = do { a \<leftarrow> byte_at buf i; b \<leftarrow> byte_at buf (i + 1); c \<leftarrow> byte_at buf (i + 2); Some (word24 a b c) }"

definition slice_at :: "bytes \<Rightarrow> nat \<Rightarrow> nat \<Rightarrow> bytes option" where
  "slice_at buf i n = (if i + n \<le> length buf then Some (take n (drop i buf)) else None)"

section \<open>TLS records\<close>

text \<open>\<^verbatim>\<open>tls_records_needed\<close>: whether the bytes look like TLS records, and how many are needed.\<close>

function records_loop :: "bytes \<Rightarrow> nat \<Rightarrow> (bool \<times> nat) option" where
  "records_loop buf pos =
     (if pos < length buf then
        if length buf - pos < 5 then Some (True, pos + 5)
        else do { rtype \<leftarrow> byte_at buf pos;
                  vmajor \<leftarrow> byte_at buf (pos + 1);
                  rlen \<leftarrow> at16 buf (pos + 3);
                  (if rtype \<notin> {0x14, 0x16, 0x17} \<or> vmajor \<noteq> 0x03 \<or> rlen > 18432 then Some (False, length buf)
                   else if pos + 5 + rlen > length buf then Some (True, pos + 5 + rlen)
                   else records_loop buf (pos + 5 + rlen)) }
      else Some (True, length buf))"
  by auto
termination
  by (relation "measure (\<lambda>(buf, pos). length buf - pos)") auto

definition tls_records_needed :: "bytes \<Rightarrow> (bool \<times> nat) option" where
  "tls_records_needed buf =
     (if length buf = 0 then Some (False, length buf)
      else if length buf < 5 then
        do { t \<leftarrow> byte_at buf 0; Some (if t \<in> {0x14, 0x16, 0x17} then (True, 5) else (False, length buf)) }
      else records_loop buf 0)"

section \<open>The first payload\<close>

text \<open>
  A client socket with the answers of \<^verbatim>\<open>core_wait_socket\<close> to come (negative for an error, zero for
  no data in time; an exhausted script is an error) and the timeouts it was asked to wait for, in
  milliseconds.  The end of the stream is an empty piece.
\<close>

record client_sock = sock +
  waits :: "int list"
  asked :: "nat list"

datatype received = Recv_Error | Recv_Bytes bytes

definition recv_client :: "client_sock \<Rightarrow> nat \<Rightarrow> received \<times> client_sock" where
  "recv_client k n =
     (case inbox k of
        [] \<Rightarrow> (Recv_Error, k)
      | c # cs \<Rightarrow>
          if length c \<le> n then (Recv_Bytes c, k\<lparr>inbox := cs\<rparr>)
          else (Recv_Bytes (take n c), k\<lparr>inbox := drop n c # cs\<rparr>))"

definition read_with_timeout :: "client_sock \<Rightarrow> nat \<Rightarrow> nat \<Rightarrow> received \<times> client_sock" where
  "read_with_timeout k n timeout_ms =
     (case waits k of
        [] \<Rightarrow> (Recv_Error, k\<lparr>asked := asked k @ [timeout_ms]\<rparr>)
      | rc # ws \<Rightarrow>
          let k1 = k\<lparr>waits := ws, asked := asked k @ [timeout_ms]\<rparr>
          in if rc < 0 then (Recv_Error, k1)
             else if rc = 0 then (Recv_Bytes [], k1)
             else recv_client k1 n)"

text \<open>
  The loops over the bytes \<open>buf\<close> collected so far: \<open>None\<close> is \<^verbatim>\<open>-1\<close>.  A fault of
  \<open>tls_records_needed\<close> cannot happen (\<open>tls_records_needed_total\<close> below) and counts as \<^verbatim>\<open>-1\<close>.
\<close>

function initial_loop :: "client_sock \<Rightarrow> nat \<Rightarrow> nat \<Rightarrow> bytes \<Rightarrow> bytes option \<times> client_sock" where
  "initial_loop k cap tls_waits_left buf =
     (if length buf < cap then
        case tls_records_needed buf of
          None \<Rightarrow> (None, k)
        | Some (tls_like, needed) \<Rightarrow>
            if tls_like \<and> needed > length buf \<and> (needed > cap \<or> tls_waits_left = 0) then (Some buf, k)
            else let waiting = (tls_like \<and> needed > length buf);
                     left = (if waiting then tls_waits_left - 1 else tls_waits_left)
                 in case read_with_timeout k (cap - length buf) (if waiting then 200 else 25) of
                      (Recv_Error, k1) \<Rightarrow> (None, k1)
                    | (Recv_Bytes xs, k1) \<Rightarrow> if xs = [] then (Some buf, k1) else initial_loop k1 cap left (buf @ xs)
      else (Some buf, k))"
  by auto
termination
  by (relation "measure (\<lambda>(k, cap, left, buf). cap - length buf)") (auto simp: neq_Nil_conv)

definition read_initial_payload_impl :: "client_sock \<Rightarrow> nat \<Rightarrow> bytes option \<times> client_sock" where
  "read_initial_payload_impl k cap =
     (case read_with_timeout k cap 500 of
        (Recv_Error, k1) \<Rightarrow> (None, k1)
      | (Recv_Bytes xs, k1) \<Rightarrow> if xs = [] then (Some [], k1) else initial_loop k1 cap 6 xs)"

text \<open>The deadline of the thread stands still meanwhile; \<open>now0\<close> and \<open>now1\<close> are the clock before and after.\<close>

definition read_initial_payload ::
  "nat \<Rightarrow> nat \<Rightarrow> deadlines \<Rightarrow> client_sock \<Rightarrow> nat \<Rightarrow> bytes option \<times> deadlines \<times> client_sock" where
  "read_initial_payload now0 now1 t k cap =
     (case read_initial_payload_impl k cap of
        (r, k1) \<Rightarrow> (r, core_deadline_resume now1 (core_deadline_pause now0 t), k1))"

fun sniff_loop :: "nat \<Rightarrow> client_sock \<Rightarrow> nat \<Rightarrow> bytes \<Rightarrow> bytes option \<times> client_sock" where
  "sniff_loop 0 k cap buf = (Some buf, k)"
| "sniff_loop (Suc attempts) k cap buf =
     (if length buf < cap then
        case tls_records_needed buf of
          None \<Rightarrow> (None, k)
        | Some (tls_like, needed) \<Rightarrow>
            (case read_with_timeout k (cap - length buf) (if tls_like \<and> needed > length buf then 50 else 10) of
               (Recv_Error, k1) \<Rightarrow> (None, k1)
             | (Recv_Bytes xs, k1) \<Rightarrow> if xs = [] then (Some buf, k1) else sniff_loop attempts k1 cap (buf @ xs))
      else (Some buf, k))"

definition read_sniff_payload :: "client_sock \<Rightarrow> nat \<Rightarrow> bytes option \<times> client_sock" where
  "read_sniff_payload k cap =
     (case read_with_timeout k cap 200 of
        (Recv_Error, k1) \<Rightarrow> (None, k1)
      | (Recv_Bytes xs, k1) \<Rightarrow> if xs = [] then (Some [], k1) else sniff_loop 3 k1 cap xs)"
section \<open>The server name of a ClientHello\<close>

definition valid_sni_host :: "bytes \<Rightarrow> bool" where
  "valid_sni_host name \<longleftrightarrow> 0 < length name \<and> length name \<le> 255 \<and>
     list_all (\<lambda>ch. \<not> (unat ch \<le> 0x20 \<or> unat ch \<ge> 0x7F \<or> unat ch = 9 \<or> unat ch = 0x2F)) name"

text \<open>The entries of the server name list, from \<open>sni_pos\<close> to \<open>list_end\<close>.\<close>

function sni_names :: "bytes \<Rightarrow> nat \<Rightarrow> nat \<Rightarrow> nat \<Rightarrow> string option option" where
  "sni_names buf out_cap list_end sni_pos =
     (if sni_pos + 3 \<le> list_end then
        do { name_type \<leftarrow> byte_at buf sni_pos;
             name_len \<leftarrow> at16 buf (sni_pos + 1);
             (if sni_pos + 3 + name_len > list_end then Some None
              else do { ok \<leftarrow> (if name_type = 0x00 then do { name \<leftarrow> slice_at buf (sni_pos + 3) name_len; Some (valid_sni_host name) }
                              else Some False);
                        (if ok \<and> name_len < out_cap
                         then do { name \<leftarrow> slice_at buf (sni_pos + 3) name_len; Some (Some (bytes_text name)) }
                         else sni_names buf out_cap list_end (sni_pos + 3 + name_len)) }) }
      else Some None)"
  by auto
termination
  by (relation "measure (\<lambda>(buf, out_cap, list_end, sni_pos). list_end - sni_pos)") auto

definition sni_extension :: "bytes \<Rightarrow> nat \<Rightarrow> nat \<Rightarrow> nat \<Rightarrow> string option option" where
  "sni_extension buf out_cap p ext_len =
     (if p + 2 > p + ext_len then Some None
      else do { list_len \<leftarrow> at16 buf p;
                (if p + 2 + list_len > p + ext_len then Some None
                 else sni_names buf out_cap (p + 2 + list_len) (p + 2)) })"

function sni_extensions :: "bytes \<Rightarrow> nat \<Rightarrow> nat \<Rightarrow> nat \<Rightarrow> string option option" where
  "sni_extensions buf out_cap ext_end p =
     (if p + 4 \<le> ext_end then
        do { ext_type \<leftarrow> at16 buf p;
             ext_len \<leftarrow> at16 buf (p + 2);
             (if p + 4 + ext_len > ext_end then Some None
              else if ext_type = 0x0000 then sni_extension buf out_cap (p + 4) ext_len
              else sni_extensions buf out_cap ext_end (p + 4 + ext_len)) }
      else Some None)"
  by auto
termination
  by (relation "measure (\<lambda>(buf, out_cap, ext_end, p). ext_end - p)") auto

text \<open>The ClientHello whose body lies from \<open>hs_start\<close> to \<open>hs_end\<close>.\<close>

definition sni_hello :: "bytes \<Rightarrow> nat \<Rightarrow> nat \<Rightarrow> nat \<Rightarrow> string option option" where
  "sni_hello buf out_cap hs_start hs_end =
     (let p = hs_start + 2 + 32
      in if p + 1 > hs_end then Some None
         else do { s \<leftarrow> byte_at buf p;
                   (let session_len = unat s; p = p + 1
                    in if p + session_len + 2 > hs_end then Some None
                       else let p = p + session_len
                            in do { cipher_len \<leftarrow> at16 buf p;
                                    (let p = p + 2
                                     in if p + cipher_len + 1 > hs_end then Some None
                                        else let p = p + cipher_len
                                             in do { c \<leftarrow> byte_at buf p;
                                                     (let compression_len = unat c; p = p + 1
                                                      in if p + compression_len > hs_end then Some None
                                                         else let p = p + compression_len
                                                              in if p = hs_end then Some None
                                                                 else if p + 2 > hs_end then Some None
                                                                 else do { extensions_len \<leftarrow> at16 buf p;
                                                                           (let p = p + 2
                                                                            in if p + extensions_len > hs_end then Some None
                                                                               else sni_extensions buf out_cap (p + extensions_len) p) }) }) }) })"

text \<open>The loop over the records: a record that does not start with a ClientHello is skipped.\<close>

function sni_records :: "bytes \<Rightarrow> nat \<Rightarrow> nat \<Rightarrow> string option option" where
  "sni_records buf out_cap pos =
     (if pos + 9 \<le> length buf then
        do { rtype \<leftarrow> byte_at buf pos;
             vmajor \<leftarrow> byte_at buf (pos + 1);
             (if rtype \<noteq> 0x16 \<or> vmajor \<noteq> 0x03 then Some None
              else do { rec_len \<leftarrow> at16 buf (pos + 3);
                        (if rec_len = 0 \<or> rec_len > 18432 \<or> pos + 5 + rec_len > length buf then Some None
                         else do { htype \<leftarrow> byte_at buf (pos + 5);
                                   (if htype \<noteq> 0x01 then sni_records buf out_cap (pos + 5 + rec_len)
                                    else do { hs_len \<leftarrow> at24 buf (pos + 6);
                                              (if hs_len < 42 \<or> pos + 9 + hs_len > pos + 5 + rec_len then Some None
                                               else sni_hello buf out_cap (pos + 9) (pos + 9 + hs_len)) }) }) }) }
      else Some None)"
  by auto
termination
  by (relation "measure (\<lambda>(buf, out_cap, pos). length buf - pos)") auto

definition parse_tls_sni :: "bytes \<Rightarrow> nat \<Rightarrow> string option option" where
  "parse_tls_sni buf out_cap = (if length buf < 9 \<or> out_cap = 0 then Some None else sni_records buf out_cap 0)"

declare records_loop.simps [simp del] initial_loop.simps [simp del] sni_names.simps [simp del]
  sni_extensions.simps [simp del] sni_records.simps [simp del]

section \<open>The Host field of an HTTP request\<close>

definition byte_char :: "byte \<Rightarrow> char" where
  "byte_char b = char_of (unat b)"

definition blank :: "byte \<Rightarrow> bool" where
  "blank b \<longleftrightarrow> b = 0x20 \<or> b = 0x09"

text \<open>The loops that move a position: to a character, over blanks, and back over blanks.\<close>

function scan_to :: "bytes \<Rightarrow> byte \<Rightarrow> nat \<Rightarrow> nat \<Rightarrow> nat option" where
  "scan_to buf c stop pos =
     (if pos < stop then do { b \<leftarrow> byte_at buf pos; (if b \<noteq> c then scan_to buf c stop (pos + 1) else Some pos) }
      else Some pos)"
  by auto
termination
  by (relation "measure (\<lambda>(buf, c, stop, pos). stop - pos)") auto

function skip_blanks :: "bytes \<Rightarrow> nat \<Rightarrow> nat \<Rightarrow> nat option" where
  "skip_blanks buf stop pos =
     (if pos < stop then do { b \<leftarrow> byte_at buf pos; (if blank b then skip_blanks buf stop (pos + 1) else Some pos) }
      else Some pos)"
  by auto
termination
  by (relation "measure (\<lambda>(buf, stop, pos). stop - pos)") auto

fun trim_blanks :: "bytes \<Rightarrow> nat \<Rightarrow> nat \<Rightarrow> nat option" where
  "trim_blanks buf start stop =
     (if stop > start then do { b \<leftarrow> byte_at buf (stop - 1); (if blank b then trim_blanks buf start (stop - 1) else Some stop) }
      else Some stop)"

function digits_only :: "bytes \<Rightarrow> nat \<Rightarrow> nat \<Rightarrow> bool option" where
  "digits_only buf stop j =
     (if j < stop then do { b \<leftarrow> byte_at buf j; (if \<not> isdigit (byte_char b) then Some False else digits_only buf stop (j + 1)) }
      else Some True)"
  by auto
termination
  by (relation "measure (\<lambda>(buf, stop, j). stop - j)") auto

text \<open>\<^verbatim>\<open>ascii_equal_ci\<close> and \<^verbatim>\<open>valid_http_host\<close> on \<open>n\<close> bytes from \<open>p\<close> on.\<close>

fun equal_chars :: "bytes \<Rightarrow> nat \<Rightarrow> string \<Rightarrow> bool option" where
  "equal_chars buf p [] = Some True"
| "equal_chars buf p (e # es) =
     do { b \<leftarrow> byte_at buf p; (if tolower (byte_char b) \<noteq> tolower e then Some False else equal_chars buf (p + 1) es) }"

definition ascii_equal_ci_at :: "bytes \<Rightarrow> nat \<Rightarrow> nat \<Rightarrow> string \<Rightarrow> bool option" where
  "ascii_equal_ci_at buf p n expected = (if n \<noteq> length expected then Some False else equal_chars buf p expected)"

function host_chars :: "bytes \<Rightarrow> nat \<Rightarrow> nat \<Rightarrow> nat \<Rightarrow> bool option" where
  "host_chars buf p n i =
     (if i < n then
        do { ch \<leftarrow> byte_at buf (p + i);
             (if \<not> (isalnum (byte_char ch) \<or> ch = 0x2D \<or> ch = 0x5F \<or> ch = 0x2E) then Some False
              else do { twice \<leftarrow> (if ch = 0x2E \<and> i > 0 then do { q \<leftarrow> byte_at buf (p + i - 1); Some (q = 0x2E) } else Some False);
                        (if twice then Some False else host_chars buf p n (i + 1)) }) }
      else Some True)"
  by auto
termination
  by (relation "measure (\<lambda>(buf, p, n, i). n - i)") auto

definition valid_http_host_at :: "bytes \<Rightarrow> nat \<Rightarrow> nat \<Rightarrow> bool option" where
  "valid_http_host_at buf p n =
     (if n = 0 \<or> n > 253 then Some False
      else do { a \<leftarrow> byte_at buf p;
                (if a = 0x2E then Some False
                 else do { z \<leftarrow> byte_at buf (p + n - 1);
                           (if z = 0x2E then Some False else host_chars buf p n 0) }) })"

text \<open>The value of a Host field between \<open>start\<close> and \<open>stop\<close>.\<close>

definition http_value :: "bytes \<Rightarrow> nat \<Rightarrow> nat \<Rightarrow> nat \<Rightarrow> string option option" where
  "http_value buf out_cap start stop =
     do { value_start \<leftarrow> skip_blanks buf stop start;
          line_end \<leftarrow> trim_blanks buf value_start stop;
          (if value_start = line_end then Some None
           else do { b \<leftarrow> byte_at buf value_start;
                     (if b = 0x5B then Some None
                      else do { i \<leftarrow> scan_to buf 0x3A line_end value_start;
                                port_ok \<leftarrow> (if i \<ge> line_end then Some True
                                           else if i + 1 = line_end then Some False
                                           else digits_only buf line_end (i + 1));
                                (if \<not> port_ok then Some None
                                 else do { dot \<leftarrow> (if i > value_start then do { z \<leftarrow> byte_at buf (i - 1); Some (z = 0x2E) } else Some False);
                                           (let host_end = (if dot then i - 1 else i); host_len = host_end - value_start
                                            in if host_len \<ge> out_cap then Some None
                                               else do { ok \<leftarrow> valid_http_host_at buf value_start host_len;
                                                         (if \<not> ok then Some None
                                                          else do { name \<leftarrow> slice_at buf value_start host_len;
                                                                    Some (Some (bytes_text name)) }) }) }) }) }) }"

declare scan_to.simps [simp del] skip_blanks.simps [simp del] trim_blanks.simps [simp del] digits_only.simps [simp del]
  host_chars.simps [simp del]

text \<open>The lines after the request line: a carriage return before the newline is not part of a line.\<close>

lemma scan_to_le: "scan_to buf c stop pos = Some q \<Longrightarrow> pos \<le> q"
proof (induction buf c stop pos rule: scan_to.induct)
  case (1 buf c stop pos)
  then show ?case
    by (subst (asm) (2) scan_to.simps) (force split: if_splits bind_splits)
qed

function http_fields :: "bytes \<Rightarrow> nat \<Rightarrow> nat \<Rightarrow> string option option" where
  "http_fields buf out_cap line_start =
     (if line_start < length buf then
        do { pos \<leftarrow> scan_to buf 0x0A (length buf) line_start;
             cr \<leftarrow> (if pos > line_start then do { b \<leftarrow> byte_at buf (pos - 1); Some (b = 0x0D) } else Some False);
             (let line_end = (if cr then pos - 1 else pos)
              in if line_end = line_start then Some None
                 else do { colon \<leftarrow> scan_to buf 0x3A line_end line_start;
                           is_host \<leftarrow> (if colon < line_end then ascii_equal_ci_at buf line_start (colon - line_start) ''host''
                                      else Some False);
                           (if is_host then http_value buf out_cap (colon + 1) line_end
                            else http_fields buf out_cap (if pos < length buf then pos + 1 else pos)) }) }
      else Some None)"
  by auto
termination
  by (relation "measure (\<lambda>(buf, out_cap, line_start). length buf - line_start)")
    (auto dest!: scan_to_le split: if_splits)

definition parse_http_host :: "bytes \<Rightarrow> nat \<Rightarrow> string option option" where
  "parse_http_host buf out_cap =
     (if length buf < 8 \<or> out_cap = 0 then Some None
      else do { pos \<leftarrow> scan_to buf 0x0A (length buf) 0;
                (if pos = length buf then Some None
                 else do { first \<leftarrow> slice_at buf 0 pos;
                           (if 0x20 \<notin> set first then Some None else http_fields buf out_cap (pos + 1)) }) })"

declare http_fields.simps [simp del]

definition sniff_domain :: "bytes \<Rightarrow> nat \<Rightarrow> string option option" where
  "sniff_domain buf out_cap =
     do { r \<leftarrow> parse_tls_sni buf out_cap;
          (case r of Some host \<Rightarrow> Some (Some host) | None \<Rightarrow> parse_http_host buf out_cap) }"

section \<open>Checked access succeeds\<close>

lemma byte_at_in [simp]: "i < length buf \<Longrightarrow> byte_at buf i = Some (buf ! i)"
  by (simp add: byte_at_def)

lemma at16_in [simp]: "i + 1 < length buf \<Longrightarrow> at16 buf i = Some (word16 (buf ! i) (buf ! (i + 1)))"
  by (simp add: at16_def)

lemma at24_in [simp]: "i + 2 < length buf \<Longrightarrow> at24 buf i = Some (word24 (buf ! i) (buf ! (i + 1)) (buf ! (i + 2)))"
  by (simp add: at24_def)

lemma slice_at_in [simp]: "i + n \<le> length buf \<Longrightarrow> slice_at buf i n = Some (take n (drop i buf))"
  by (simp add: slice_at_def)

section \<open>The Host field, line by line\<close>

text \<open>
  What the parser computes, on the bytes themselves instead of positions in them: the request line, the
  lines after it, and the value of the first Host field.
\<close>

definition ascii_equal_ci :: "bytes \<Rightarrow> string \<Rightarrow> bool" where
  "ascii_equal_ci v expected \<longleftrightarrow> length v = length expected \<and>
     list_all (\<lambda>i. tolower (byte_char (v ! i)) = tolower (expected ! i)) [0..<length v]"

definition valid_http_host :: "bytes \<Rightarrow> bool" where
  "valid_http_host host \<longleftrightarrow> \<not> (length host = 0 \<or> length host > 253 \<or> host ! 0 = 0x2E \<or> host ! (length host - 1) = 0x2E) \<and>
     list_all (\<lambda>i. (isalnum (byte_char (host ! i)) \<or> host ! i \<in> {0x2D, 0x5F, 0x2E}) \<and>
                   \<not> (host ! i = 0x2E \<and> i > 0 \<and> host ! (i - 1) = 0x2E)) [0..<length host]"

text \<open>The value after the colon, up to the end of the line.\<close>

definition http_host_value :: "nat \<Rightarrow> bytes \<Rightarrow> string option" where
  "http_host_value out_cap field =
     (let v = rev (dropWhile blank (rev (dropWhile blank field)))
      in if v = [] \<or> hd v = 0x5B then None
         else let host = takeWhile (\<lambda>b. b \<noteq> 0x3A) v;
                  port = drop (length host) v
              in if port \<noteq> [] \<and> (tl port = [] \<or> \<not> list_all (\<lambda>b. isdigit (byte_char b)) (tl port)) then None
                 else let host = (if host \<noteq> [] \<and> last host = 0x2E then butlast host else host)
                      in if length host \<ge> out_cap \<or> \<not> valid_http_host host then None else Some (bytes_text host))"

text \<open>The lines after the request line.\<close>

function http_lines :: "nat \<Rightarrow> bytes \<Rightarrow> string option" where
  "http_lines out_cap data =
     (if data = [] then None
      else let whole = takeWhile (\<lambda>b. b \<noteq> 0x0A) data;
               line = (if whole \<noteq> [] \<and> last whole = 0x0D then butlast whole else whole)
           in if line = [] then None
              else let name = takeWhile (\<lambda>b. b \<noteq> 0x3A) line
                   in if length name < length line \<and> ascii_equal_ci name ''host''
                      then http_host_value out_cap (drop (length name + 1) line)
                      else http_lines out_cap (drop (length whole + 1) data))"
  by auto
termination
  by (relation "measure (\<lambda>(out_cap, data). length data)") auto

declare http_lines.simps [simp del]

definition http_host_of :: "bytes \<Rightarrow> nat \<Rightarrow> string option" where
  "http_host_of buf out_cap =
     (if length buf < 8 \<or> out_cap = 0 then None
      else let first = takeWhile (\<lambda>b. b \<noteq> 0x0A) buf
           in if length first = length buf \<or> 0x20 \<notin> set first then None
              else http_lines out_cap (drop (length first + 1) buf))"

text \<open>The bytes from one position to another.\<close>

definition between :: "bytes \<Rightarrow> nat \<Rightarrow> nat \<Rightarrow> bytes" where
  "between buf p q = take (q - p) (drop p buf)"

lemma between_simps [simp]:
  "q \<le> p \<Longrightarrow> between buf p q = []"
  "q \<le> length buf \<Longrightarrow> length (between buf p q) = q - p"
  by (simp_all add: between_def)

lemma between_Cons: "p < q \<Longrightarrow> q \<le> length buf \<Longrightarrow> between buf p q = buf ! p # between buf (p + 1) q"
  by (simp add: between_def Cons_nth_drop_Suc [symmetric] take_Cons' )

lemma between_snoc: "p < q \<Longrightarrow> q \<le> length buf \<Longrightarrow> between buf p q = between buf p (q - 1) @ [buf ! (q - 1)]"
  by (cases q) (simp_all add: between_def take_Suc_conv_app_nth Suc_diff_le)

lemma between_take: "p \<le> r \<Longrightarrow> r \<le> q \<Longrightarrow> take (r - p) (between buf p q) = between buf p r"
  by (simp add: between_def)

lemma between_drop: "p \<le> r \<Longrightarrow> drop (r - p) (between buf p q) = between buf r q"
  by (simp add: between_def drop_take)

lemma between_nth: "i < q - p \<Longrightarrow> q \<le> length buf \<Longrightarrow> between buf p q ! i = buf ! (p + i)"
  by (simp add: between_def)

lemma between_all: "between buf p (length buf) = drop p buf"
  by (simp add: between_def)

lemma between_takeWhile:
  fixes P :: "byte \<Rightarrow> bool"
  assumes "p \<le> q" and "q \<le> length buf"
  defines "r \<equiv> p + length (takeWhile P (between buf p q))"
  shows "p \<le> r" "r \<le> q" "takeWhile P (between buf p q) = between buf p r" "dropWhile P (between buf p q) = between buf r q"
proof -
  have n: "r - p = length (takeWhile P (between buf p q))" by (simp add: r_def)
  show "p \<le> r" by (simp add: r_def)
  show r: "r \<le> q" using length_takeWhile_le [of P "between buf p q"] assms(1,2) by (simp add: r_def)
  show "takeWhile P (between buf p q) = between buf p r"
    using between_take [OF \<open>p \<le> r\<close> r, of buf] takeWhile_eq_take [of P "between buf p q"] unfolding n by simp
  show "dropWhile P (between buf p q) = between buf r q"
    using between_drop [OF \<open>p \<le> r\<close>, of buf q] dropWhile_eq_drop [of P "between buf p q"] unfolding n by simp
qed

lemma between_trim:
  fixes P :: "byte \<Rightarrow> bool"
  assumes "p \<le> q" and "q \<le> length buf"
  defines "r \<equiv> q - length (takeWhile P (rev (between buf p q)))"
  shows "p \<le> r" "r \<le> q" "rev (dropWhile P (rev (between buf p q))) = between buf p r"
proof -
  let ?n = "length (takeWhile P (rev (between buf p q)))"
  have n: "?n \<le> q - p" using length_takeWhile_le [of P "rev (between buf p q)"] assms(1,2) by simp
  show r: "p \<le> r" "r \<le> q" using n assms(1) by (simp_all add: r_def)
  have "rev (dropWhile P (rev (between buf p q))) = rev (drop ?n (rev (between buf p q)))" by (simp only: dropWhile_eq_drop)
  also have "\<dots> = take (length (between buf p q) - ?n) (between buf p q)" by (simp only: rev_drop rev_rev_ident length_rev)
  also have "length (between buf p q) - ?n = r - p" using n assms(1,2) by (simp add: r_def)
  also have "take (r - p) (between buf p q) = between buf p r" by (rule between_take [OF r])
  finally show "rev (dropWhile P (rev (between buf p q))) = between buf p r" .
qed

text \<open>The loops read inside the buffer and compute the list functions.\<close>

lemma scan_to_between:
  "pos \<le> stop \<Longrightarrow> stop \<le> length buf \<Longrightarrow>
   scan_to buf c stop pos = Some (pos + length (takeWhile (\<lambda>b. b \<noteq> c) (between buf pos stop)))"
proof (induction buf c stop pos rule: scan_to.induct)
  case (1 buf c stop pos)
  then show ?case by (subst scan_to.simps) (cases "pos < stop", simp_all add: between_Cons)
qed

lemma skip_blanks_between:
  "pos \<le> stop \<Longrightarrow> stop \<le> length buf \<Longrightarrow>
   skip_blanks buf stop pos = Some (pos + length (takeWhile blank (between buf pos stop)))"
proof (induction buf stop pos rule: skip_blanks.induct)
  case (1 buf stop pos)
  then show ?case by (subst skip_blanks.simps) (cases "pos < stop", simp_all add: between_Cons)
qed

lemma trim_blanks_between:
  "stop \<le> length buf \<Longrightarrow> trim_blanks buf start stop = Some (stop - length (takeWhile blank (rev (between buf start stop))))"
proof (induction buf start stop rule: trim_blanks.induct)
  case (1 buf start stop)
  then show ?case by (subst trim_blanks.simps) (cases "start < stop", simp_all add: between_snoc)
qed

lemma digits_only_between:
  "stop \<le> length buf \<Longrightarrow> digits_only buf stop j = Some (list_all (\<lambda>b. isdigit (byte_char b)) (between buf j stop))"
proof (induction buf stop j rule: digits_only.induct)
  case (1 buf stop j)
  then show ?case by (subst digits_only.simps) (cases "j < stop", simp_all add: between_Cons)
qed

lemma equal_chars_between:
  "p + length es \<le> length buf \<Longrightarrow>
   equal_chars buf p es = Some (list_all (\<lambda>i. tolower (byte_char (buf ! (p + i))) = tolower (es ! i)) [0..<length es])"
proof (induction buf p es rule: equal_chars.induct)
  case (2 buf p e es)
  have "[0..<length (e # es)] = 0 # map Suc [0..<length es]" by (simp add: upt_conv_Cons map_Suc_upt del: upt_Suc)
  then show ?case using 2 by (simp add: list.pred_map comp_def del: upt_Suc)
qed simp

lemma ascii_equal_ci_between:
  assumes "p \<le> q" and "q \<le> length buf"
  shows "ascii_equal_ci_at buf p (q - p) expected = Some (ascii_equal_ci (between buf p q) expected)"
proof (cases "q - p = length expected")
  case True
  have "equal_chars buf p expected =
      Some (list_all (\<lambda>i. tolower (byte_char (buf ! (p + i))) = tolower (expected ! i)) [0..<length expected])"
    using True assms by (intro equal_chars_between) simp
  then show ?thesis using True assms by (auto simp: ascii_equal_ci_at_def ascii_equal_ci_def list_all_iff between_nth)
qed (use assms in \<open>simp add: ascii_equal_ci_at_def ascii_equal_ci_def\<close>)

lemma host_chars_between:
  "p + n \<le> length buf \<Longrightarrow> host_chars buf p n i =
     Some (list_all (\<lambda>i. (isalnum (byte_char (buf ! (p + i))) \<or> buf ! (p + i) \<in> {0x2D, 0x5F, 0x2E}) \<and>
        \<not> (buf ! (p + i) = 0x2E \<and> i > 0 \<and> buf ! (p + i - 1) = 0x2E)) [i..<n])"
proof (induction buf p n i rule: host_chars.induct)
  case (1 buf p n i)
  show ?case
  proof (cases "i < n")
    case True
    have b: "byte_at buf (p + i) = Some (buf ! (p + i))" "i > 0 \<Longrightarrow> byte_at buf (p + i - 1) = Some (buf ! (p + i - 1))"
      using True 1(2) by simp_all
    let ?twice = "buf ! (p + i) = 0x2E \<and> i > 0 \<and> buf ! (p + i - 1) = 0x2E"
    have "host_chars buf p n i =
        (if \<not> (isalnum (byte_char (buf ! (p + i))) \<or> buf ! (p + i) = 0x2D \<or> buf ! (p + i) = 0x5F \<or> buf ! (p + i) = 0x2E) \<or> ?twice
         then Some False else host_chars buf p n (i + 1))"
      by (subst host_chars.simps) (use True b in \<open>cases "i > 0"; simp\<close>)
    moreover have "host_chars buf p n (i + 1) = Some (list_all (\<lambda>i. (isalnum (byte_char (buf ! (p + i))) \<or>
        buf ! (p + i) \<in> {0x2D, 0x5F, 0x2E}) \<and> \<not> (buf ! (p + i) = 0x2E \<and> i > 0 \<and> buf ! (p + i - 1) = 0x2E)) [i + 1..<n])"
      if "\<not> ?twice" "isalnum (byte_char (buf ! (p + i))) \<or> buf ! (p + i) = 0x2D \<or> buf ! (p + i) = 0x5F \<or> buf ! (p + i) = 0x2E"
      using 1(1) [OF True b(1), of False] 1(2) that b by (cases "i > 0") auto
    ultimately show ?thesis using True by (simp add: upt_conv_Cons)
  qed (subst host_chars.simps, simp)
qed

lemma valid_http_host_between:
  assumes "p \<le> q" and "q \<le> length buf"
  shows "valid_http_host_at buf p (q - p) = Some (valid_http_host (between buf p q))"
proof (cases "q - p = 0 \<or> q - p > 253")
  case True
  then show ?thesis using assms by (auto simp: valid_http_host_at_def valid_http_host_def)
next
  case False
  have "host_chars buf p (q - p) 0 = Some (list_all (\<lambda>i. (isalnum (byte_char (between buf p q ! i)) \<or>
      between buf p q ! i \<in> {0x2D, 0x5F, 0x2E}) \<and> \<not> (between buf p q ! i = 0x2E \<and> i > 0 \<and> between buf p q ! (i - 1) = 0x2E)) [0..<q - p])"
    using host_chars_between [of p "q - p" buf 0] assms by (auto simp: list_all_iff between_nth)
  moreover have "p + (q - Suc p) = q - 1" using False by auto
  then have "byte_at buf p = Some (between buf p q ! 0)" "byte_at buf (p + (q - p) - 1) = Some (between buf p q ! (q - p - 1))"
    using False assms between_nth [of "q - Suc p" q p buf] by (auto simp: between_nth)
  ultimately show ?thesis using False assms by (auto simp: valid_http_host_at_def valid_http_host_def)
qed

lemma between_last: "p < q \<Longrightarrow> q \<le> length buf \<Longrightarrow> last (between buf p q) = buf ! (q - 1) \<and> butlast (between buf p q) = between buf p (q - 1)"
  by (simp add: between_snoc)

lemma between_hd: "p < q \<Longrightarrow> q \<le> length buf \<Longrightarrow> hd (between buf p q) = buf ! p \<and> tl (between buf p q) = between buf (p + 1) q"
  by (simp add: between_Cons)

lemma between_Nil: "p \<le> q \<Longrightarrow> q \<le> length buf \<Longrightarrow> between buf p q = [] \<longleftrightarrow> p = q"
  by (metis between_simps(2) diff_is_0_eq le_antisym length_0_conv list.size(3) order_refl)

text \<open>A trailing byte that is dropped: a carriage return or a dot.\<close>

lemma between_chop:
  fixes c :: byte
  assumes "p \<le> q" and "q \<le> length buf"
  defines "chop \<equiv> p < q \<and> buf ! (q - 1) = c"
  shows "(if q > p then do { z \<leftarrow> byte_at buf (q - 1); Some (z = c) } else Some False) = Some chop"
    and "(if between buf p q \<noteq> [] \<and> last (between buf p q) = c then butlast (between buf p q) else between buf p q) =
      between buf p (if chop then q - 1 else q)"
    and "p \<le> (if chop then q - 1 else q)" and "(if chop then q - 1 else q) \<le> q"
  using assms(1,2) between_last [of p q buf] between_Nil [OF assms(1,2)] by (auto simp: chop_def)

lemma http_value_list:
  assumes "start \<le> stop" and "stop \<le> length buf"
  shows "http_value buf cap start stop = Some (http_host_value cap (between buf start stop))"
proof -
  define vs where "vs = start + length (takeWhile blank (between buf start stop))"
  note skip = between_takeWhile [OF assms, of blank, folded vs_def]
  define fin where "fin = stop - length (takeWhile blank (rev (between buf vs stop)))"
  note trim = between_trim [OF skip(2) assms(2), of blank, folded fin_def]
  have v: "rev (dropWhile blank (rev (dropWhile blank (between buf start stop)))) = between buf vs fin"
    unfolding skip(4) by (rule trim(3))
  have fl: "fin \<le> length buf" using trim(2) assms(2) by linarith
  define i where "i = vs + length (takeWhile (\<lambda>b. b \<noteq> 0x3A) (between buf vs fin))"
  note colon = between_takeWhile [OF trim(1) fl, of "\<lambda>b. b \<noteq> 0x3A", folded i_def]
  have il: "i \<le> length buf" using colon(2) fl by linarith
  define dot where "dot \<longleftrightarrow> vs < i \<and> buf ! (i - 1) = 0x2E"
  note chop = between_chop [OF colon(1) il, of "0x2E", folded dot_def]
  define last_pos where "last_pos = (if dot then i - 1 else i)"
  have he: "vs \<le> last_pos" "last_pos \<le> length buf" using chop(3,4) il unfolding last_pos_def by linarith+
  define port_ok where "port_ok \<longleftrightarrow> \<not> (i < fin \<and> (i + 1 = fin \<or> \<not> list_all (\<lambda>b. isdigit (byte_char b)) (between buf (i + 1) fin)))"
  have port: "drop (length (between buf vs i)) (between buf vs fin) = between buf i fin"
    using between_drop [OF colon(1), of buf fin] il by simp
  have spec: "http_host_value cap (between buf start stop) =
      (if vs = fin \<or> buf ! vs = 0x5B then None else if \<not> port_ok then None
       else if last_pos - vs \<ge> cap \<or> \<not> valid_http_host (between buf vs last_pos) then None
       else Some (bytes_text (between buf vs last_pos)))"
  proof (cases "vs = fin")
    case False
    then have "hd (between buf vs fin) = buf ! vs" using between_hd trim(1) fl by simp
    moreover have "(between buf i fin \<noteq> [] \<and> (tl (between buf i fin) = [] \<or>
        \<not> list_all (\<lambda>b. isdigit (byte_char b)) (tl (between buf i fin)))) \<longleftrightarrow> \<not> port_ok"
      using between_Nil [OF colon(2) fl] between_hd [of i fin buf] between_Nil [of "i + 1" fin buf] colon(2) fl
      by (cases "i < fin") (auto simp: port_ok_def)
    ultimately show ?thesis using False between_Nil [OF trim(1) fl] he
      by (simp add: http_host_value_def v Let_def colon(3) port chop(2) del: drop_eq_Nil drop_eq_Nil2 flip: last_pos_def)
  qed (simp add: http_host_value_def v Let_def)
  have scans: "skip_blanks buf stop start = Some vs" "trim_blanks buf vs stop = Some fin" "scan_to buf 0x3A fin vs = Some i"
    using skip_blanks_between [OF assms] trim_blanks_between [OF assms(2)] scan_to_between [OF trim(1) fl]
    by (simp_all add: vs_def fin_def i_def)
  have ports: "(if i \<ge> fin then Some True else if i + 1 = fin then Some False else digits_only buf fin (i + 1)) = Some port_ok"
    using digits_only_between [OF fl] by (simp add: port_ok_def)
  have name: "slice_at buf vs (last_pos - vs) = Some (between buf vs last_pos)"
    using he by (simp add: between_def)
  have first: "byte_at buf vs = Some (buf ! vs)" if "vs \<noteq> fin" using that trim(1) fl by simp
  show ?thesis
  proof (cases "vs = fin \<or> buf ! vs = 0x5B")
    case True
    then show ?thesis unfolding spec http_value_def scans Option.bind_lunit using first by (cases "vs = fin") simp_all
  next
    case False
    have "http_value buf cap start stop = (if \<not> port_ok then Some None
        else let host_len = last_pos - vs
             in if host_len \<ge> cap then Some None
                else do { ok \<leftarrow> valid_http_host_at buf vs host_len;
                          (if \<not> ok then Some None else do { name \<leftarrow> slice_at buf vs host_len; Some (Some (bytes_text name)) }) })"
      unfolding http_value_def scans Option.bind_lunit using False first
      by (simp only: Option.bind_lunit scans ports chop(1) Let_def last_pos_def [symmetric] de_Morgan_disj simp_thms if_False)
    then show ?thesis unfolding spec using False by (simp add: Let_def valid_http_host_between [OF he] name)
  qed
qed

lemma http_fields_list: "ls \<le> length buf \<Longrightarrow> http_fields buf cap ls = Some (http_lines cap (drop ls buf))"
proof (induction buf cap ls rule: http_fields.induct)
  case (1 buf cap ls)
  show ?case
  proof (cases "ls < length buf")
    case True
    define pos where "pos = ls + length (takeWhile (\<lambda>b. b \<noteq> 0x0A) (between buf ls (length buf)))"
    note scan = between_takeWhile [OF 1(2) order_refl, of "\<lambda>b. b \<noteq> 0x0A", folded pos_def]
    define cr where "cr \<longleftrightarrow> ls < pos \<and> buf ! (pos - 1) = 0x0D"
    note chop = between_chop [OF scan(1,2), of "0x0D", folded cr_def]
    define fin where "fin = (if cr then pos - 1 else pos)"
    have fin: "ls \<le> fin" "fin \<le> length buf" using chop(3,4) scan(2) unfolding fin_def by linarith+
    define colon where "colon = ls + length (takeWhile (\<lambda>b. b \<noteq> 0x3A) (between buf ls fin))"
    note name = between_takeWhile [OF fin, of "\<lambda>b. b \<noteq> 0x3A", folded colon_def]
    have cl: "colon \<le> length buf" using name(2) fin(2) by linarith
    define host where "host \<longleftrightarrow> colon < fin \<and> ascii_equal_ci (between buf ls colon) ''host''"
    have scans: "scan_to buf 0x0A (length buf) ls = Some pos" "scan_to buf 0x3A fin ls = Some colon"
      using scan_to_between [OF 1(2) order_refl] scan_to_between [OF fin] by (simp_all add: pos_def colon_def)
    have is_host: "(if colon < fin then ascii_equal_ci_at buf ls (colon - ls) ''host'' else Some False) = Some host"
      using ascii_equal_ci_between [OF name(1) cl] by (simp add: host_def)
    have code: "http_fields buf cap ls = (if fin = ls then Some None else if host then http_value buf cap (colon + 1) fin
        else http_fields buf cap (if pos < length buf then pos + 1 else pos))"
      by (subst http_fields.simps)
        (simp only: True scans Option.bind_lunit chop(1) Let_def fin_def [symmetric] is_host if_True cong: if_cong)
    have list: "http_lines cap (drop ls buf) = (if fin = ls then None
        else if host then http_host_value cap (between buf (colon + 1) fin) else http_lines cap (drop (pos + 1) buf))"
    proof -
      have "drop (length (between buf ls colon) + 1) (between buf ls fin) = between buf (colon + 1) fin"
        using between_drop [of ls "colon + 1" buf fin] name(1) cl by (simp add: Suc_diff_le)
      moreover have "drop (length (between buf ls pos) + 1) (drop ls buf) = drop (pos + 1) buf"
        using scan(1,2) by simp
      moreover have "length (between buf ls colon) < length (between buf ls fin) \<longleftrightarrow> colon < fin"
        using name(1) cl fin by simp linarith
      moreover have "takeWhile (\<lambda>b. b \<noteq> 0x0A) (drop ls buf) = between buf ls pos" "(drop ls buf = []) = False"
        using scan(3) True by (simp_all add: between_all)
      moreover have "(between buf ls fin = []) = (fin = ls)" using between_Nil [OF fin] by blast
      ultimately show ?thesis
        by (subst http_lines.simps) (simp only: Let_def chop(2) fin_def [symmetric] name(3) host_def if_False)
    qed
    have "http_value buf cap (colon + 1) fin = Some (http_host_value cap (between buf (colon + 1) fin))" if host
      using that fin(2) by (intro http_value_list) (simp_all add: host_def)
    moreover have "http_fields buf cap (if pos < length buf then pos + 1 else pos) = Some (http_lines cap (drop (pos + 1) buf))"
      if "fin \<noteq> ls" "\<not> host"
    proof -
      have "http_fields buf cap (if pos < length buf then pos + 1 else pos) =
          Some (http_lines cap (drop (if pos < length buf then pos + 1 else pos) buf))"
        using 1(1) [OF True scans(1) chop(1) fin_def that(1) scans(2) is_host that(2)] scan(2) by simp
      then show ?thesis using scan(2) by (cases "pos < length buf") simp_all
    qed
    ultimately show ?thesis unfolding code list by simp
  next
    case False
    then show ?thesis by (subst http_fields.simps, subst http_lines.simps) simp
  qed
qed

lemma parse_http_host_list: "parse_http_host buf cap = Some (http_host_of buf cap)"
proof -
  define pos where "pos = length (takeWhile (\<lambda>b. b \<noteq> 0x0A) buf)"
  have "pos \<le> length buf" by (simp add: pos_def length_takeWhile_le)
  moreover have "scan_to buf 0x0A (length buf) 0 = Some pos"
    using scan_to_between [of 0 "length buf" buf] by (simp add: pos_def between_all)
  moreover have "take pos buf = takeWhile (\<lambda>b. b \<noteq> 0x0A) buf" by (simp add: pos_def takeWhile_eq_take [symmetric])
  ultimately show ?thesis
    by (simp add: parse_http_host_def http_host_of_def Let_def http_fields_list flip: pos_def)
qed

section \<open>No access outside the buffer\<close>

text \<open>A name that was found: it fits, is made of visible characters and stands in the buffer.\<close>

definition named_in :: "bytes \<Rightarrow> nat \<Rightarrow> string \<Rightarrow> bool" where
  "named_in buf cap h \<longleftrightarrow> h \<noteq> [] \<and> length h < cap \<and> length h \<le> 255 \<and>
     list_all (\<lambda>c. 0x20 < code c \<and> code c < 0x7F \<and> c \<noteq> CHR ''/'') h \<and> sublist (text_bytes h) buf"

definition sound_result :: "bytes \<Rightarrow> nat \<Rightarrow> string option option \<Rightarrow> bool" where
  "sound_result buf cap r \<longleftrightarrow> (\<exists>res. r = Some res \<and> (\<forall>h. res = Some h \<longrightarrow> named_in buf cap h))"

lemma sound_None [simp]: "sound_result buf cap (Some None)"
  by (simp add: sound_result_def)

lemma text_of_bytes [simp]: "text_bytes (bytes_text xs) = xs"
proof -
  have "(of_char (char_of (unat b)) :: byte) = b" for b :: byte
    by (rule word_unat_eq_iff [THEN iffD2]) simp
  then show ?thesis by (simp add: text_bytes_def bytes_text_def comp_def)
qed

lemma length_bytes_text [simp]: "length (bytes_text xs) = length xs"
  by (simp add: bytes_text_def)

lemma bytes_text_Nil [simp]: "bytes_text xs = [] \<longleftrightarrow> xs = []"
  by (simp add: bytes_text_def)

lemma valid_sni_named:
  assumes "valid_sni_host (take n (drop i buf))" and "i + n \<le> length buf" and "n < cap"
  shows "named_in buf cap (bytes_text (take n (drop i buf)))"
proof -
  have "sublist (take n (drop i buf)) buf" by (meson sublist_drop sublist_order.order_trans sublist_take)
  moreover have "list_all (\<lambda>c. 0x20 < code c \<and> code c < 0x7F \<and> c \<noteq> CHR ''/'') (bytes_text (take n (drop i buf)))"
    using assms(1) by (auto simp: valid_sni_host_def bytes_text_def list_all_iff char_eq_code not_le simp del: of_char_eq_iff)
  moreover have "take n (drop i buf) \<noteq> []" "length (take n (drop i buf)) \<le> 255"
    using assms(1) by (auto simp: valid_sni_host_def simp del: length_take take_eq_Nil take_eq_Nil2)
  moreover have "length (take n (drop i buf)) = n" using assms(2) by simp
  ultimately show ?thesis using assms(3) by (simp add: named_in_def del: length_take take_eq_Nil take_eq_Nil2)
qed

lemma sni_names_sound: "list_end \<le> length buf \<Longrightarrow> sound_result buf cap (sni_names buf cap list_end pos)"
proof (induction buf cap list_end pos rule: sni_names.induct)
  case (1 buf cap list_end pos)
  show ?case
  proof (cases "pos + 3 \<le> list_end")
    case True
    let ?name = "\<lambda>n. take n (drop (pos + 3) buf)"
    let ?ok = "\<lambda>n. buf ! pos = 0 \<and> valid_sni_host (?name n)"
    obtain n where b: "byte_at buf pos = Some (buf ! pos)" "at16 buf (pos + 1) = Some n" using True 1(2) by simp
    note b' = b [simplified]
    show ?thesis
    proof (cases "pos + 3 + n > list_end")
      case False
      then have s: "slice_at buf (pos + 3) n = Some (?name n)" using 1(2) by simp
      have step: "sni_names buf cap list_end pos =
          (if ?ok n \<and> n < cap then Some (Some (bytes_text (?name n))) else sni_names buf cap list_end (pos + 3 + n))"
        by (subst sni_names.simps) (use True False in \<open>simp add: b' s\<close>)
      have ih: "sound_result buf cap (sni_names buf cap list_end (pos + 3 + n))" if "\<not> (?ok n \<and> n < cap)"
        using 1(1) [OF True b False, of "?ok n"] that 1(2) s by auto
      show ?thesis
      proof (cases "?ok n \<and> n < cap")
        case ok: True
        then show ?thesis using valid_sni_named [of n "pos + 3" buf cap] False 1(2) unfolding step by (simp add: sound_result_def)
      qed (use step ih in auto)
    qed (subst sni_names.simps, use True b' in simp)
  qed (subst sni_names.simps, simp)
qed

lemma sni_extension_sound: "p + ext_len \<le> length buf \<Longrightarrow> sound_result buf cap (sni_extension buf cap p ext_len)"
  by (simp add: sni_extension_def sni_names_sound)

lemma sni_extensions_sound: "ext_end \<le> length buf \<Longrightarrow> sound_result buf cap (sni_extensions buf cap ext_end p)"
proof (induction buf cap ext_end p rule: sni_extensions.induct)
  case (1 buf cap ext_end p)
  show ?case
  proof (cases "p + 4 \<le> ext_end")
    case True
    have b: "at16 buf p = Some (word16 (buf ! p) (buf ! (p + 1)))"
      "at16 buf (p + 2) = Some (word16 (buf ! (p + 2)) (buf ! (p + 2 + 1)))" using True 1(2) by simp_all
    show ?thesis
      by (subst sni_extensions.simps) (use True 1(1) [OF True b] 1(2) in \<open>simp add: b sni_extension_sound del: add_2_eq_Suc'\<close>)
  qed (subst sni_extensions.simps, simp)
qed

lemma sni_hello_sound: "hs_end \<le> length buf \<Longrightarrow> sound_result buf cap (sni_hello buf cap hs_start hs_end)"
  by (simp add: sni_hello_def Let_def sni_extensions_sound)

lemma sni_records_sound: "sound_result buf cap (sni_records buf cap pos)"
proof (induction buf cap pos rule: sni_records.induct)
  case (1 buf cap pos)
  show ?case
  proof (cases "pos + 9 \<le> length buf")
    case True
    let ?n = "word16 (buf ! (pos + 3)) (buf ! (pos + 3 + 1))"
    have b: "byte_at buf pos = Some (buf ! pos)" "byte_at buf (pos + 1) = Some (buf ! (pos + 1))" "at16 buf (pos + 3) = Some ?n"
      "byte_at buf (pos + 5) = Some (buf ! (pos + 5))"
      "at24 buf (pos + 6) = Some (word24 (buf ! (pos + 6)) (buf ! (pos + 6 + 1)) (buf ! (pos + 6 + 2)))"
      using True by simp_all
    show ?thesis
      by (subst sni_records.simps) (use True 1(1) [OF True b(1,2) _ b(3) _ b(4)] in \<open>simp add: b sni_hello_sound del: add_2_eq_Suc'\<close>)
  qed (subst sni_records.simps, simp)
qed

lemma valid_http_chars: "valid_http_host host \<Longrightarrow> list_all (\<lambda>b. isalnum (byte_char b) \<or> b \<in> {0x2D, 0x5F, 0x2E}) host"
  by (fastforce simp: valid_http_host_def list_all_iff in_set_conv_nth)

lemma http_host_value_sound:
  assumes "http_host_value cap field = Some h"
  shows "named_in field cap h \<and> valid_http_host (text_bytes h)"
proof -
  define v where "v = rev (dropWhile blank (rev (dropWhile blank field)))"
  define host where "host = takeWhile (\<lambda>b. b \<noteq> 0x3A) v"
  define name where "name = (if host \<noteq> [] \<and> last host = 0x2E then butlast host else host)"
  have h: "h = bytes_text name" "length name < cap" "valid_http_host name"
    using assms by (auto simp: http_host_value_def v_def [symmetric] host_def [symmetric] name_def [symmetric] Let_def split: if_splits)
  have "sublist v field" unfolding v_def by (meson sublist_dropWhile sublist_order.order_trans sublist_rev_left)
  moreover have "sublist name host" by (auto simp: name_def intro: sublist_butlast)
  ultimately have "sublist name field" unfolding host_def by (meson sublist_order.order_trans sublist_takeWhile)
  moreover have "list_all (\<lambda>c. 0x20 < code c \<and> code c < 0x7F \<and> c \<noteq> CHR ''/'') h"
    using valid_http_chars [OF h(3)]
    by (auto simp: h(1) bytes_text_def list_all_iff isalnum_def isalpha_def isdigit_def byte_char_def char_eq_code simp del: of_char_eq_iff)
  moreover have "name \<noteq> []" "length name \<le> 253" using h(3) by (auto simp: valid_http_host_def)
  ultimately show ?thesis using h by (simp add: named_in_def)
qed

lemma named_in_sublist: "named_in field cap h \<Longrightarrow> sublist field buf \<Longrightarrow> named_in buf cap h"
  by (auto simp: named_in_def intro: sublist_order.order_trans)

lemma http_lines_sound: "http_lines cap data = Some h \<Longrightarrow> named_in data cap h"
proof (induction cap data rule: http_lines.induct)
  case (1 cap data)
  define whole where "whole = takeWhile (\<lambda>b. b \<noteq> 0x0A) data"
  define line where "line = (if whole \<noteq> [] \<and> last whole = 0x0D then butlast whole else whole)"
  define name where "name = takeWhile (\<lambda>b. b \<noteq> 0x3A) line"
  have eq: "http_lines cap data =
      (if data = [] \<or> line = [] then None
       else if length name < length line \<and> ascii_equal_ci name ''host'' then http_host_value cap (drop (length name + 1) line)
       else http_lines cap (drop (length whole + 1) data))"
    by (subst http_lines.simps) (simp add: whole_def [symmetric] line_def [symmetric] name_def [symmetric] Let_def)
  then have ne: "data \<noteq> []" "line \<noteq> []" using 1(2) by (auto split: if_splits)
  note step = eq [simplified ne, simplified]
  show ?case
  proof (cases "length name < length line \<and> ascii_equal_ci name ''host''")
    case True
    have "sublist line whole" by (auto simp: line_def intro: sublist_butlast)
    then have sub: "sublist (drop (length name + 1) line) data"
      unfolding whole_def by (meson sublist_drop sublist_order.order_trans sublist_takeWhile)
    have "http_host_value cap (drop (length name + 1) line) = Some h" using True step 1(2) by auto
    then show ?thesis using http_host_value_sound named_in_sublist [OF _ sub] by blast
  next
    case False
    then have "http_lines cap (drop (length whole + 1) data) = Some h" using step 1(2) by auto
    then show ?thesis
      using 1(1) [OF ne(1) whole_def line_def ne(2) name_def False] named_in_sublist sublist_drop by blast
  qed
qed

text \<open>
  Property C21: whatever a client sends first, looking for a domain reads only inside the received
  bytes, in the TLS parser and in the HTTP parser alike; and a name that is found fits the caller's array
  with its terminator, has only visible characters without a slash, and stands in the bytes that were
  received.
\<close>

theorem sniff_safe:
  "\<exists>r. sniff_domain buf cap = Some r \<and>
    (case r of None \<Rightarrow> True
     | Some h \<Rightarrow> 0 < length h \<and> length h < cap \<and> list_all (\<lambda>c. 0x20 < code c \<and> code c < 0x7F \<and> c \<noteq> CHR ''/'') h \<and>
                 sublist (text_bytes h) buf)"
proof -
  have "sound_result buf cap (parse_tls_sni buf cap)" by (simp add: parse_tls_sni_def sni_records_sound)
  moreover have "named_in buf cap h" if "http_host_of buf cap = Some h" for h
    using that named_in_sublist [OF http_lines_sound sublist_drop] by (auto simp: http_host_of_def Let_def split: if_splits)
  ultimately show ?thesis using parse_http_host_list [of buf cap]
    by (cases "http_host_of buf cap") (auto simp: sound_result_def sniff_domain_def named_in_def split: option.splits)
qed

section \<open>The name a client sends is found\<close>

text \<open>What a TLS client sends: extensions, the ClientHello with its opaque fields, records.\<close>

definition extension_bytes :: "nat \<times> bytes \<Rightarrow> bytes" where
  "extension_bytes e = be16 (fst e) @ be16 (length (snd e)) @ snd e"

definition server_name :: "string \<Rightarrow> bytes" where
  "server_name h = extension_bytes (0, be16 (length h + 3) @ [0] @ be16 (length h) @ text_bytes h)"

definition hello_bytes :: "bytes \<Rightarrow> bytes \<Rightarrow> bytes \<Rightarrow> bytes \<Rightarrow> bytes \<Rightarrow> bytes" where
  "hello_bytes random session ciphers compressions exts =
     random @ [of_nat (length session)] @ session @ be16 (length ciphers) @ ciphers @
     [of_nat (length compressions)] @ compressions @ be16 (length exts) @ exts"

definition record_bytes :: "byte \<Rightarrow> bytes \<Rightarrow> bytes" where
  "record_bytes minor content = [0x16, 3, minor] @ be16 (length content) @ content"

lemma drop_later: "drop p buf = xs @ r \<Longrightarrow> drop (p + length xs) buf = r"
  by (metis add.commute append_eq_conv_conj drop_drop)

lemma drop_bound: "drop p buf = xs @ r \<Longrightarrow> xs \<noteq> [] \<Longrightarrow> p + length xs + length r = length buf"
  by (drule arg_cong [where f = length], cases xs) simp_all

lemma byte_at_drop: "drop p buf = b # r \<Longrightarrow> byte_at buf p = Some b"
  by (metis byte_at_def drop_all hd_drop_conv_nth list.distinct(1) list.sel(1) not_le)

lemma at16_drop: "drop p buf = be16 n @ r \<Longrightarrow> n < 65536 \<Longrightarrow> at16 buf p = Some n"
  using byte_at_drop [of p buf "of_nat (n div 256)" "of_nat n # r"] drop_later [of p buf "[of_nat (n div 256)]" "of_nat n # r"]
    byte_at_drop [of "p + 1" buf "of_nat n" r]
  by (simp add: at16_def be16_def word16_be16)

lemma slice_at_drop: "drop p buf = xs @ r \<Longrightarrow> xs \<noteq> [] \<Longrightarrow> slice_at buf p (length xs) = Some xs"
  using drop_bound [of p buf xs r] by (simp add: slice_at_def)

lemma sni_names_found:
  assumes d: "drop p buf = [0] @ be16 (length h) @ text_bytes h @ r" and v: "valid_sni_host (text_bytes h)"
    and "length h < cap" and "p + 3 + length h \<le> list_end"
  shows "sni_names buf cap list_end p = Some (Some h)"
proof -
  have h: "0 < length h" "length h \<le> 255" using v by (auto simp: valid_sni_host_def)
  have b: "byte_at buf p = Some 0" using d by (intro byte_at_drop) simp
  note d1 = drop_later [OF d]
  have n: "at16 buf (Suc p) = Some (length h)" using d1 at16_drop [of "Suc p" buf "length h"] h by simp
  have "slice_at buf (p + 3) (length h) = Some (text_bytes h)"
    using drop_later [OF d1] slice_at_drop [of "p + 3" buf "text_bytes h" r] h by (simp add: text_bytes_def eval_nat_numeral)
  then show ?thesis using assms(3,4) v b n by (subst sni_names.simps) simp
qed

lemma sni_extension_found:
  assumes d: "drop p buf = be16 (length h + 3) @ [0] @ be16 (length h) @ text_bytes h @ r" and v: "valid_sni_host (text_bytes h)"
    and "length h < cap"
  shows "sni_extension buf cap p (length h + 5) = Some (Some h)"
proof -
  have h: "length h \<le> 255" using v by (auto simp: valid_sni_host_def)
  have "at16 buf p = Some (length h + 3)" using at16_drop [OF d] h by simp
  moreover have "sni_names buf cap (p + 2 + (length h + 3)) (p + 2) = Some (Some h)"
    using drop_later [OF d] v assms(3) by (intro sni_names_found [where r = r]) simp_all
  ultimately show ?thesis by (simp add: sni_extension_def)
qed

lemma sni_extensions_found:
  "drop p buf = concat (map extension_bytes es) @ server_name h @ r \<Longrightarrow>
   list_all (\<lambda>e. 0 < fst e \<and> fst e < 65536 \<and> length (snd e) < 65536) es \<Longrightarrow> valid_sni_host (text_bytes h) \<Longrightarrow> length h < cap \<Longrightarrow>
   p + length (concat (map extension_bytes es) @ server_name h) \<le> ext_end \<Longrightarrow>
   sni_extensions buf cap ext_end p = Some (Some h)"
proof (induction es arbitrary: p)
  case Nil
  let ?d = "be16 (length h + 3) @ [0] @ be16 (length h) @ text_bytes h"
  have h: "length h \<le> 255" using Nil.prems(3) by (auto simp: valid_sni_host_def)
  have d: "drop p buf = be16 0 @ be16 (length h + 5) @ ?d @ r"
    using Nil.prems(1) by (simp add: server_name_def extension_bytes_def eval_nat_numeral)
  note d1 = drop_later [OF d]
  have d2: "drop (p + 4) buf = ?d @ r" using drop_later [OF d1] by (simp add: eval_nat_numeral)
  have "at16 buf p = Some 0" "at16 buf (Suc (Suc p)) = Some (length h + 5)"
    using at16_drop [OF d] at16_drop [OF d1] h by simp_all
  moreover have "sni_extension buf cap (p + 4) (length h + 5) = Some (Some h)"
    using d2 Nil.prems(3,4) by (intro sni_extension_found [where r = r]) simp_all
  ultimately show ?case using Nil.prems(5) by (subst sni_extensions.simps) (simp add: server_name_def extension_bytes_def)
next
  case (Cons e es)
  let ?rest = "concat (map extension_bytes es) @ server_name h @ r"
  have e: "0 < fst e" "fst e < 65536" "length (snd e) < 65536" using Cons.prems(2) by simp_all
  have d: "drop p buf = be16 (fst e) @ be16 (length (snd e)) @ snd e @ ?rest"
    using Cons.prems(1) by (simp add: extension_bytes_def [of e])
  note d1 = drop_later [OF d]
  have t: "at16 buf p = Some (fst e)" "at16 buf (Suc (Suc p)) = Some (length (snd e))"
    using at16_drop [OF d] at16_drop [OF d1] e by simp_all
  have "drop (p + 4 + length (snd e)) buf = ?rest" using drop_later [OF drop_later [OF d1]] by (simp add: eval_nat_numeral)
  then have "sni_extensions buf cap ext_end (p + 4 + length (snd e)) = Some (Some h)"
    using Cons.IH Cons.prems by (simp add: extension_bytes_def [of e] add.assoc)
  then show ?case using t e Cons.prems(5) by (subst sni_extensions.simps) (simp add: extension_bytes_def [of e])
qed
text \<open>The fields of a ClientHello that names \<open>h\<close>, with other extensions before and after.\<close>

definition hello_fields_ok :: "bytes \<Rightarrow> bytes \<Rightarrow> bytes \<Rightarrow> bytes \<Rightarrow> (nat \<times> bytes) list \<Rightarrow> bytes \<Rightarrow> string \<Rightarrow> bool" where
  "hello_fields_ok random session ciphers compressions es later h \<longleftrightarrow>
     length random = 34 \<and> length session < 256 \<and> length ciphers < 65536 \<and> length compressions < 256 \<and>
     list_all (\<lambda>e. 0 < fst e \<and> fst e < 65536 \<and> length (snd e) < 65536) es \<and>
     length (concat (map extension_bytes es) @ server_name h @ later) < 65536 \<and> valid_sni_host (text_bytes h)"

lemma sni_hello_step:
  assumes "byte_at buf (p + 34) = Some s" and "at16 buf (p + 34 + 1 + unat s) = Some c"
    and "byte_at buf (p + 34 + 1 + unat s + 2 + c) = Some m" and "at16 buf (p + 34 + 1 + unat s + 2 + c + 1 + unat m) = Some e"
    and "hs_end = p + 34 + 1 + unat s + 2 + c + 1 + unat m + 2 + e"
  shows "sni_hello buf cap p hs_end = sni_extensions buf cap hs_end (p + 34 + 1 + unat s + 2 + c + 1 + unat m + 2)"
proof -
  have p: "p + 2 + 32 = p + 34" by simp
  show ?thesis
    unfolding sni_hello_def Let_def p assms(1) bind.bind_lunit assms(2) assms(3) assms(4) using assms(5) by simp
qed

lemma sni_hello_found:
  assumes ok: "hello_fields_ok random session ciphers compressions es later h" and "length h < cap"
    and exts: "exts = concat (map extension_bytes es) @ server_name h @ later"
    and d: "drop p buf = hello_bytes random session ciphers compressions exts @ r"
  shows "sni_hello buf cap p (p + length (hello_bytes random session ciphers compressions exts)) = Some (Some h)"
proof -
  note lens = ok [unfolded hello_fields_ok_def, folded exts]
  let ?s = "length session" and ?c = "length ciphers" and ?m = "length compressions"
  have e0: "0 < length exts" by (simp add: exts server_name_def extension_bytes_def)
  have d1: "drop (p + 34) buf = [of_nat ?s] @ session @ be16 ?c @ ciphers @ [of_nat ?m] @ compressions @ be16 (length exts) @ exts @ r"
    using drop_later [OF d [unfolded hello_bytes_def append_assoc]] lens by simp
  have d2: "drop (p + 34 + 1 + ?s) buf = be16 ?c @ ciphers @ [of_nat ?m] @ compressions @ be16 (length exts) @ exts @ r"
    using drop_later [OF drop_later [OF d1]] by simp
  have d3: "drop (p + 34 + 1 + ?s + 2 + ?c) buf = [of_nat ?m] @ compressions @ be16 (length exts) @ exts @ r"
    using drop_later [OF drop_later [OF d2]] by simp
  have d4: "drop (p + 34 + 1 + ?s + 2 + ?c + 1 + ?m) buf = be16 (length exts) @ exts @ r"
    using drop_later [OF drop_later [OF d3]] by simp
  have d5: "drop (p + 34 + 1 + ?s + 2 + ?c + 1 + ?m + 2) buf = concat (map extension_bytes es) @ server_name h @ later @ r"
    using drop_later [OF d4] by (simp add: exts)
  have u: "unat (of_nat ?s :: byte) = ?s" "unat (of_nat ?m :: byte) = ?m" using lens by (simp_all add: unat_small)
  have "byte_at buf (p + 34) = Some (of_nat ?s)" "byte_at buf (p + 34 + 1 + ?s + 2 + ?c) = Some (of_nat ?m)"
    using d1 d3 by (simp_all add: byte_at_drop)
  moreover have "at16 buf (p + 34 + 1 + ?s) = Some ?c" "at16 buf (p + 34 + 1 + ?s + 2 + ?c + 1 + ?m) = Some (length exts)"
    using at16_drop [OF d2] at16_drop [OF d4] lens by simp_all
  moreover have "p + length (hello_bytes random session ciphers compressions exts) = p + 34 + 1 + ?s + 2 + ?c + 1 + ?m + 2 + length exts"
    using lens by (simp add: hello_bytes_def)
  moreover have "sni_extensions buf cap (p + 34 + 1 + ?s + 2 + ?c + 1 + ?m + 2 + length exts) (p + 34 + 1 + ?s + 2 + ?c + 1 + ?m + 2) = Some (Some h)"
    using sni_extensions_found [OF d5] lens assms(2) exts by simp
  ultimately show ?thesis
    using sni_hello_step [of buf p "of_nat ?s" ?c "of_nat ?m" "length exts" _ cap, unfolded u] by metis
qed

text \<open>A stream of records whose first ClientHello names \<open>h\<close>; records before it are other handshake messages.\<close>

definition tls_names :: "bytes \<Rightarrow> string \<Rightarrow> bool" where
  "tls_names buf h \<longleftrightarrow>
     (\<exists>others minor random session ciphers compressions es later hello extra r.
        buf = concat (map (\<lambda>(v, c). record_bytes v c) others) @
              record_bytes minor ([1] @ be24 (length hello) @ hello @ extra) @ r \<and>
        list_all (\<lambda>(v, c). c \<noteq> [] \<and> hd c \<noteq> 1 \<and> length c \<le> 18432) others \<and>
        hello_fields_ok random session ciphers compressions es later h \<and>
        hello = hello_bytes random session ciphers compressions (concat (map extension_bytes es) @ server_name h @ later) \<and>
        4 + length hello + length extra \<le> 18432)"

lemma at24_drop: "drop p buf = be24 n @ r \<Longrightarrow> n < 16777216 \<Longrightarrow> at24 buf p = Some n"
proof -
  assume d: "drop p buf = be24 n @ r" and n: "n < 16777216"
  let ?a = "of_nat (n div 65536)" and ?b = "of_nat (n div 256)" and ?c = "of_nat n :: byte"
  have d0: "drop p buf = [?a] @ ?b # ?c # r" using d by (simp add: be24_def)
  have d1: "drop (p + 1) buf = [?b] @ ?c # r" using drop_later [OF d0] by simp
  have d2: "drop (p + 2) buf = ?c # r" using drop_later [OF d1] by simp
  have "n div 65536 mod 256 = n div 65536" using n by (intro mod_less) auto
  moreover have "n div 65536 = n div 256 div 256" by (simp flip: div_mult2_eq)
  then have "n div 65536 * 65536 + n div 256 mod 256 * 256 + n mod 256 = n"
    using div_mult_mod_eq [of n 256] div_mult_mod_eq [of "n div 256" 256] by linarith
  ultimately have "word24 ?a ?b ?c = n" by (simp add: word24_def unat_of_nat_byte)
  then show ?thesis using byte_at_drop [OF d0 [simplified]] byte_at_drop [OF d1 [simplified]] byte_at_drop [OF d2] by (simp add: at24_def)
qed

lemma record_header:
  assumes d: "drop pos buf = record_bytes minor (b # content) @ r" and "length content < 18432"
  shows "byte_at buf pos = Some 0x16" "byte_at buf (pos + 1) = Some 3" "at16 buf (pos + 3) = Some (Suc (length content))"
    "byte_at buf (pos + 5) = Some b" "drop (pos + 6) buf = content @ r" "pos + 6 + length content + length r = length buf"
proof -
  let ?t = "be16 (Suc (length content)) @ [b] @ content @ r"
  have d0: "drop pos buf = [0x16] @ [3] @ [minor] @ ?t" using d by (simp add: record_bytes_def)
  have d1: "drop (pos + 1) buf = [3] @ [minor] @ ?t" using drop_later [OF d0] by simp
  have d3: "drop (pos + 3) buf = ?t" using drop_later [OF drop_later [OF d1]] by (simp add: eval_nat_numeral)
  have d5: "drop (pos + 5) buf = [b] @ content @ r" using drop_later [OF d3] by (simp add: eval_nat_numeral)
  show "byte_at buf pos = Some 0x16" "byte_at buf (pos + 1) = Some 3" "byte_at buf (pos + 5) = Some b"
    using byte_at_drop d0 d1 d5 by simp_all
  show "at16 buf (pos + 3) = Some (Suc (length content))" using at16_drop [OF d3] assms(2) by simp
  show "drop (pos + 6) buf = content @ r" using drop_later [OF d5] by (simp add: eval_nat_numeral)
  show "pos + 6 + length content + length r = length buf" using drop_bound [OF d5] by simp
qed

lemma sni_records_skip:
  assumes d: "drop pos buf = record_bytes minor c @ r" and "c \<noteq> []" "hd c \<noteq> 1" "length c \<le> 18432" "3 \<le> length r"
  shows "sni_records buf cap pos = sni_records buf cap (pos + length (record_bytes minor c)) \<and>
    drop (pos + length (record_bytes minor c)) buf = r"
proof -
  obtain b content where c: "c = b # content" using assms(2) by (cases c) auto
  note h = record_header [OF d [unfolded c]]
  have n: "length content < 18432" "b \<noteq> 1" using assms(3,4) c by simp_all
  have "sni_records buf cap pos = sni_records buf cap (pos + 5 + Suc (length content))"
    by (subst sni_records.simps) (use h [OF n(1)] n assms(5) in simp)
  then show ?thesis using drop_later [OF d] by (simp add: c record_bytes_def eval_nat_numeral)
qed

lemma sni_records_found:
  assumes d: "drop pos buf = record_bytes minor ([1] @ be24 (length hello) @ hello @ extra) @ r"
    and ok: "hello_fields_ok random session ciphers compressions es later h"
    and hello: "hello = hello_bytes random session ciphers compressions (concat (map extension_bytes es) @ server_name h @ later)"
    and size: "4 + length hello + length extra \<le> 18432" and "length h < cap"
  shows "sni_records buf cap pos = Some (Some h)"
proof -
  note hd = record_header [OF d [simplified]]
  have n: "length (be24 (length hello) @ hello @ extra) < 18432" using size by simp
  have d6: "drop (pos + 6) buf = be24 (length hello) @ hello @ extra @ r" using hd(5) n by simp
  have d9: "drop (pos + 9) buf = hello @ extra @ r" using drop_later [OF d6] by (simp add: eval_nat_numeral)
  have l: "at24 buf (pos + 6) = Some (length hello)" using at24_drop [OF d6] size by simp
  have "length hello \<ge> 42" using ok by (simp add: hello hello_bytes_def hello_fields_ok_def server_name_def extension_bytes_def)
  moreover have "sni_hello buf cap (pos + 9) (pos + 9 + length hello) = Some (Some h)"
    using sni_hello_found [OF ok \<open>length h < cap\<close> refl d9 [unfolded hello]] by (simp only: hello)
  ultimately show ?thesis
    by (subst sni_records.simps) (use hd n l size in simp)
qed

lemma tls_names_found:
  assumes "tls_names buf h" and "length h < cap"
  shows "parse_tls_sni buf cap = Some (Some h)"
proof -
  have *: "sni_records buf cap pos = Some (Some h)"
    if "drop pos buf = concat (map (\<lambda>(v, c). record_bytes v c) others) @ record_bytes minor ([1] @ be24 (length hello) @ hello @ extra) @ r"
      "list_all (\<lambda>(v, c). c \<noteq> [] \<and> hd c \<noteq> 1 \<and> length c \<le> 18432) others"
      "hello_fields_ok random session ciphers compressions es later h"
      "hello = hello_bytes random session ciphers compressions (concat (map extension_bytes es) @ server_name h @ later)"
      "4 + length hello + length extra \<le> 18432"
    for others minor random session ciphers compressions es later hello extra r pos
    using that
  proof (induction others arbitrary: pos)
    case Nil
    then show ?case using sni_records_found [of pos buf minor hello extra r] assms(2) by simp
  next
    case (Cons o1 others)
    obtain v c where o1: "o1 = (v, c)" by (cases o1)
    let ?r = "concat (map (\<lambda>(v, c). record_bytes v c) others) @ record_bytes minor ([1] @ be24 (length hello) @ hello @ extra) @ r"
    have "3 \<le> length ?r" by (simp add: record_bytes_def)
    then show ?case using sni_records_skip [of pos buf v c ?r cap] Cons o1 by simp
  qed
  obtain others minor random session ciphers compressions es later hello extra r where
    b: "buf = concat (map (\<lambda>(v, c). record_bytes v c) others) @ record_bytes minor ([1] @ be24 (length hello) @ hello @ extra) @ r"
      "list_all (\<lambda>(v, c). c \<noteq> [] \<and> hd c \<noteq> 1 \<and> length c \<le> 18432) others"
      "hello_fields_ok random session ciphers compressions es later h"
      "hello = hello_bytes random session ciphers compressions (concat (map extension_bytes es) @ server_name h @ later)"
      "4 + length hello + length extra \<le> 18432"
    using assms(1) unfolding tls_names_def by blast
  have "9 \<le> length buf" by (simp add: b(1) record_bytes_def)
  then show ?thesis using * [of 0, simplified, OF b(1) [simplified] b(2) b(3) b(4)] b(5) assms(2) by (simp add: parse_tls_sni_def)
qed

text \<open>An HTTP request whose first Host field names \<open>h\<close>, perhaps with a port.\<close>

definition http_names :: "bytes \<Rightarrow> string \<Rightarrow> bool" where
  "http_names buf h \<longleftrightarrow>
     (\<exists>first others name before port after r.
        buf = first @ [10] @ concat (map (\<lambda>l. l @ [13, 10]) others) @
              name @ [0x3A] @ before @ text_bytes h @ port @ after @ [13, 10] @ r \<and>
        first \<noteq> [] \<and> hd first \<noteq> 0x16 \<and> 10 \<notin> set first \<and> 0x20 \<in> set first \<and>
        list_all (\<lambda>l. l \<noteq> [] \<and> 10 \<notin> set l \<and> \<not> ascii_equal_ci (takeWhile (\<lambda>b. b \<noteq> 0x3A) l) ''host'') others \<and>
        ascii_equal_ci name ''host'' \<and> 0x3A \<notin> set name \<and> 10 \<notin> set name \<and> list_all blank before \<and> list_all blank after \<and>
        (port = [] \<or> (\<exists>d ds. port = 0x3A # d # ds \<and> list_all (\<lambda>b. isdigit (byte_char b)) (d # ds))) \<and>
        valid_http_host (text_bytes h))"

lemma takeWhile_stop [simp]: "c \<notin> set xs \<Longrightarrow> takeWhile (\<lambda>b. b \<noteq> c) (xs @ c # ys) = xs"
  by (induction xs) auto

lemma valid_http_bytes:
  assumes "valid_http_host host"
  shows "host \<noteq> []" "last host \<noteq> 0x2E" "\<not> blank (last host)" "b \<in> set host \<Longrightarrow> \<not> blank b \<and> b \<noteq> 10 \<and> b \<noteq> 0x3A \<and> b \<noteq> 0x5B"
proof -
  show ne: "host \<noteq> []" "last host \<noteq> 0x2E" using assms by (auto simp: valid_http_host_def last_conv_nth)
  show all: "\<not> blank b \<and> b \<noteq> 10 \<and> b \<noteq> 0x3A \<and> b \<noteq> 0x5B" if "b \<in> set host" for b
    using that valid_http_chars [OF assms] 
    by (auto simp: list_all_iff blank_def isalnum_def isalpha_def isdigit_def byte_char_def)
  show "\<not> blank (last host)" using all ne(1) last_in_set by blast
qed

lemma dropWhile_skip: "list_all P a \<Longrightarrow> v \<noteq> [] \<Longrightarrow> \<not> P (hd v) \<Longrightarrow> dropWhile P (a @ v) = v"
  by (induction a) (auto simp: neq_Nil_conv)

lemma strip_blanks:
  assumes "list_all blank before" and "list_all blank after" and "v \<noteq> []" and "\<not> blank (hd v)" and "\<not> blank (last v)"
  shows "rev (dropWhile blank (rev (dropWhile blank (before @ v @ after)))) = v"
  using dropWhile_skip [OF assms(1), of "v @ after"] dropWhile_skip [of blank "rev after" "rev v"] assms
  by (simp add: hd_rev)

lemma digits_line: "list_all (\<lambda>b. isdigit (byte_char b)) ds \<Longrightarrow> 10 \<notin> set ds"
  by (induction ds) (auto simp: isdigit_def byte_char_def)

lemma http_host_value_found:
  assumes "list_all blank before" and "list_all blank after" and v: "valid_http_host (text_bytes h)" and "length h < cap"
    and port: "port = [] \<or> (\<exists>d ds. port = 0x3A # d # ds \<and> list_all (\<lambda>b. isdigit (byte_char b)) (d # ds))"
  shows "http_host_value cap (before @ text_bytes h @ port @ after) = Some h"
proof -
  note hb = valid_http_bytes [OF v]
  have d: "\<not> blank (last port)" if "port \<noteq> []"
  proof -
    have "isdigit (byte_char (last port))" using port that by (auto simp: list_all_iff last_ConsR intro: last_in_set)
    then show ?thesis by (auto simp: blank_def isdigit_def byte_char_def)
  qed
  have "\<not> blank (hd (text_bytes h @ port))" "\<not> blank (last (text_bytes h @ port))" using hb d by (simp_all add: last_append)
  then have strip: "rev (dropWhile blank (rev (dropWhile blank (before @ text_bytes h @ port @ after)))) = text_bytes h @ port"
    using strip_blanks [OF assms(1,2), of "text_bytes h @ port"] hb(1) by simp
  have host: "takeWhile (\<lambda>b. b \<noteq> 0x3A) (text_bytes h @ port) = text_bytes h"
    using port hb(4) by (auto simp: takeWhile_append2 intro!: takeWhile_eq_all_conv [THEN iffD2] takeWhile_stop)
  have "hd (text_bytes h @ port) \<noteq> 0x5B" using hb by simp
  then show ?thesis using port hb(1,2) v assms(4)
    by (auto simp: http_host_value_def strip host Let_def)
qed

lemma http_lines_found:
  assumes "list_all (\<lambda>l. l \<noteq> [] \<and> 10 \<notin> set l \<and> \<not> ascii_equal_ci (takeWhile (\<lambda>b. b \<noteq> 0x3A) l) ''host'') others"
    and "ascii_equal_ci name ''host''" "0x3A \<notin> set name" "10 \<notin> set name" "10 \<notin> set field" and "http_host_value cap field = Some h"
  shows "http_lines cap (concat (map (\<lambda>l. l @ [13, 10]) others) @ name @ [0x3A] @ field @ [13, 10] @ r) = Some h"
  using assms(1)
proof (induction others)
  case Nil
  have "takeWhile (\<lambda>b. b \<noteq> 10) ((name @ 0x3A # field @ [13]) @ 10 # r) = name @ 0x3A # field @ [13]"
    using assms(4,5) by (intro takeWhile_stop) auto
  then show ?case using assms(2,3,6) by (subst http_lines.simps) (simp add: Let_def butlast_append)
next
  case (Cons l others)
  let ?r = "concat (map (\<lambda>l. l @ [13, 10]) others) @ name @ [0x3A] @ field @ [13, 10] @ r"
  have "takeWhile (\<lambda>b. b \<noteq> 10) ((l @ [13]) @ 10 # ?r) = l @ [13]"
    using Cons.prems by (intro takeWhile_stop) auto
  then show ?case using Cons by (subst http_lines.simps) (simp add: Let_def)
qed

lemma http_names_found:
  assumes "http_names buf h" and "length h < cap"
  shows "parse_tls_sni buf cap = Some None \<and> parse_http_host buf cap = Some (Some h)"
proof -
  obtain first others name before port after r where b:
    "buf = first @ [10] @ concat (map (\<lambda>l. l @ [13, 10]) others) @ name @ [0x3A] @ before @ text_bytes h @ port @ after @ [13, 10] @ r"
    "first \<noteq> []" "hd first \<noteq> 0x16" "10 \<notin> set first" "0x20 \<in> set first"
    "list_all (\<lambda>l. l \<noteq> [] \<and> 10 \<notin> set l \<and> \<not> ascii_equal_ci (takeWhile (\<lambda>b. b \<noteq> 0x3A) l) ''host'') others"
    "ascii_equal_ci name ''host''" "0x3A \<notin> set name" "10 \<notin> set name" "list_all blank before" "list_all blank after"
    "port = [] \<or> (\<exists>d ds. port = 0x3A # d # ds \<and> list_all (\<lambda>b. isdigit (byte_char b)) (d # ds))" "valid_http_host (text_bytes h)"
    using assms(1) unfolding http_names_def by blast
  have p: "10 \<notin> set port"
  proof (cases port)
    case (Cons c ds)
    then have "c = 0x3A" "list_all (\<lambda>b. isdigit (byte_char b)) ds" using b(12) by auto
    then show ?thesis using Cons digits_line by auto
  qed simp
  have "10 \<notin> set (before @ text_bytes h @ port @ after)"
    using b(10,11) p valid_http_bytes(4) [OF b(13)] by (auto simp: list_all_iff blank_def)
  from http_lines_found [OF b(6-9) this http_host_value_found [OF b(10,11,13) assms(2) b(12)], of r]
  have lines: "http_lines cap (drop (length first + 1) buf) = Some h" by (simp add: b(1))
  have n: "length name = 4" using b(7) by (simp add: ascii_equal_ci_def)
  have len: "8 \<le> length buf" using b(2) n valid_http_bytes(1) [OF b(13)] by (cases first; cases h) (simp_all add: b(1))
  have first: "takeWhile (\<lambda>c. c \<noteq> 10) buf = first" using b(4) by (simp add: b(1))
  have "byte_at buf 0 = Some (hd first)" using b(2) by (cases first) (simp_all add: b(1) byte_at_def)
  then have "parse_tls_sni buf cap = Some None"
    using b(3) by (auto simp: parse_tls_sni_def sni_records.simps [of buf cap 0] byte_at_def)
  then show ?thesis using lines first len assms(2) b(5) by (simp add: parse_http_host_list http_host_of_def Let_def b(1))
qed

text \<open>
  Property C22: the domain a client names is found.  When its first bytes are TLS records with a
  ClientHello, whatever its other fields and extensions are, it is the name in the server name extension;
  when they are an HTTP request, whatever its other fields are, it is the name in the Host field.
\<close>

theorem sniff_finds_name:
  assumes "tls_names buf h \<or> http_names buf h" and "length h < cap"
  shows "sniff_domain buf cap = Some (Some h)"
  using assms tls_names_found [of buf h cap] http_names_found [of buf h cap] by (auto simp: sniff_domain_def)

theorem sniff_finds_name_witness:
  "sniff_domain ([71, 69, 84, 32, 47, 10] @ [72, 79, 83, 84, 58, 32, 97, 46, 98, 58, 56, 48, 13, 10]) 256 = Some (Some ''a.b'')"
proof -
  have h: "text_bytes ''a.b'' = [97, 46, 98]" by (simp add: text_bytes_def)
  have v: "valid_http_host [97, 46, 98]" by (simp add: valid_http_host_def isalnum_def isalpha_def byte_char_def upt_rec)
  have n: "ascii_equal_ci [72, 79, 83, 84] ''host''" by (simp add: ascii_equal_ci_def tolower_def byte_char_def upt_rec char_eq_code del: of_char_eq_iff)
  have d: "list_all (\<lambda>b. isdigit (byte_char b)) [56, 48]" by (simp add: isdigit_def byte_char_def)
  have "http_names ([71, 69, 84, 32, 47, 10] @ [72, 79, 83, 84, 58, 32, 97, 46, 98, 58, 56, 48, 13, 10]) ''a.b''"
    unfolding http_names_def h
    by (rule exI [of _ "[71, 69, 84, 32, 47]"], rule exI [of _ "[]"], rule exI [of _ "[72, 79, 83, 84]"], rule exI [of _ "[0x20]"],
        rule exI [of _ "[0x3A, 56, 48]"], rule exI [of _ "[]"], rule exI [of _ "[]"],
        use v n d in \<open>simp add: blank_def\<close>)
  from sniff_finds_name [OF disjI2 [OF this], of 256] show ?thesis by simp
qed

section \<open>Collecting the first payload\<close>

lemma records_loop_total: "\<exists>tls n. records_loop buf pos = Some (tls, n) \<and> (pos \<le> length buf \<longrightarrow> length buf \<le> n)"
proof (induction buf pos rule: records_loop.induct)
  case (1 buf pos)
  show ?case
  proof (cases "pos < length buf \<and> \<not> length buf - pos < 5")
    case True
    then have "pos + 5 \<le> length buf" by linarith
    then obtain t v n where b: "byte_at buf pos = Some t" "byte_at buf (pos + 1) = Some v" "at16 buf (pos + 3) = Some n" by simp
    let ?bad = "t \<notin> {0x14, 0x16, 0x17} \<or> v \<noteq> 0x03 \<or> n > 18432"
    have "records_loop buf pos = (if ?bad then Some (False, length buf)
        else if pos + 5 + n > length buf then Some (True, pos + 5 + n) else records_loop buf (pos + 5 + n))"
      by (subst records_loop.simps) (use True in \<open>simp add: b [simplified]\<close>)
    then show ?thesis using 1(1) [OF _ _ b] True by (cases "?bad \<or> pos + 5 + n > length buf") auto
  qed (subst records_loop.simps, auto)
qed

lemma tls_records_needed_total: "\<exists>tls n. tls_records_needed buf = Some (tls, n) \<and> length buf \<le> n"
  using records_loop_total [of buf 0] by (cases "length buf < 5") (auto simp: tls_records_needed_def)

lemma read_with_timeout_spec:
  assumes "read_with_timeout k n t = (r, k1)"
  shows "asked k1 = asked k @ [t]"
    and "r = Recv_Bytes xs \<Longrightarrow> length xs \<le> n \<and> concat (inbox k) = xs @ concat (inbox k1)"
  using assms by (auto simp: read_with_timeout_def recv_client_def Let_def split: list.splits if_splits)

text \<open>What a reader did: the waits it asked for, and the bytes it took off the front of the stream.\<close>

definition took :: "client_sock \<Rightarrow> nat \<Rightarrow> bytes \<Rightarrow> bytes option \<times> client_sock \<Rightarrow> nat list \<Rightarrow> bool" where
  "took k cap buf res ts \<longleftrightarrow> asked (snd res) = asked k @ ts \<and>
     (\<forall>xs. fst res = Some xs \<longrightarrow> length xs \<le> cap \<and> buf @ concat (inbox k) = xs @ concat (inbox (snd res)))"

lemma took_stop: "length buf \<le> cap \<Longrightarrow> took k cap buf (Some buf, k) []" "took k cap buf (None, k) []"
  by (simp_all add: took_def)

lemma took_step:
  assumes "read_with_timeout k (cap - length buf) t = (r, k1)" and "length buf \<le> cap"
  shows "took k cap buf (None, k1) [t]" and "r = Recv_Bytes [] \<Longrightarrow> took k cap buf (Some buf, k1) [t]"
    and "r = Recv_Bytes xs \<Longrightarrow> took k1 cap (buf @ xs) res ts \<Longrightarrow> took k cap buf res (t # ts)"
    and "r = Recv_Bytes xs \<Longrightarrow> length (buf @ xs) \<le> cap"
  using read_with_timeout_spec [OF assms(1)] assms(2) by (auto simp: took_def)

lemma initial_loop_took:
  "length buf \<le> cap \<Longrightarrow>
   \<exists>ts. took k cap buf (initial_loop k cap left buf) ts \<and> set ts \<subseteq> {25, 200} \<and> count_list ts 200 \<le> left"
proof (induction k cap left buf rule: initial_loop.induct)
  case (1 k cap left buf)
  obtain tls needed where n: "tls_records_needed buf = Some (tls, needed)" using tls_records_needed_total by blast
  let ?w = "tls \<and> needed > length buf"
  let ?t = "if ?w then 200 else 25 :: nat" and ?left = "if ?w then left - 1 else left"
  consider "\<not> length buf < cap \<or> ?w \<and> (needed > cap \<or> left = 0)" | "length buf < cap" "\<not> (?w \<and> (needed > cap \<or> left = 0))" by blast
  then show ?case
  proof cases
    case 1
    then have "initial_loop k cap left buf = (Some buf, k)" using n by (subst initial_loop.simps) auto
    then show ?thesis using took_stop(1) [OF \<open>length buf \<le> cap\<close>] by (intro exI [of _ "[]"]) simp
  next
    case 2
    obtain r k1 where r: "read_with_timeout k (cap - length buf) ?t = (r, k1)" by (metis surj_pair)
    have step: "initial_loop k cap left buf =
        (case r of Recv_Error \<Rightarrow> (None, k1) | Recv_Bytes xs \<Rightarrow> if xs = [] then (Some buf, k1) else initial_loop k1 cap ?left (buf @ xs))"
      by (subst initial_loop.simps) (use 2 n r in \<open>auto simp: Let_def split: received.split\<close>)
    have small: "count_list [?t] 200 \<le> left" using 2 by auto
    show ?thesis
    proof (cases "\<exists>xs. r = Recv_Bytes xs \<and> xs \<noteq> []")
      case True
      then obtain xs where xs: "r = Recv_Bytes xs" "xs \<noteq> []" by blast
      have "\<exists>ts. took k1 cap (buf @ xs) (initial_loop k1 cap ?left (buf @ xs)) ts \<and> set ts \<subseteq> {25, 200} \<and> count_list ts 200 \<le> ?left"
        using "1.IH" [OF 2(1) n refl 2(2) [unfolded conj_assoc] refl refl] r xs took_step(4) [OF r \<open>length buf \<le> cap\<close> xs(1)] by simp
      then obtain ts where ts: "took k1 cap (buf @ xs) (initial_loop k1 cap ?left (buf @ xs)) ts" "set ts \<subseteq> {25, 200}" "count_list ts 200 \<le> ?left" by blast
      show ?thesis
        by (rule exI [of _ "?t # ts"])
          (use took_step(3) [OF r \<open>length buf \<le> cap\<close> xs(1) ts(1)] ts small 2 xs step in \<open>auto split: if_splits\<close>)
    next
      case False
      then have "took k cap buf (initial_loop k cap left buf) [?t]"
        using step took_step(1,2) [OF r \<open>length buf \<le> cap\<close>] by (cases r) auto
      then show ?thesis using small by (intro exI [of _ "[?t]"]) auto
    qed
  qed
qed

lemma sniff_loop_took:
  "length buf \<le> cap \<Longrightarrow> \<exists>ts. took k cap buf (sniff_loop n k cap buf) ts \<and> set ts \<subseteq> {10, 50} \<and> length ts \<le> n"
proof (induction n arbitrary: k buf)
  case 0
  then show ?case using took_stop(1) by (intro exI [of _ "[]"]) simp
next
  case (Suc n)
  obtain tls needed where nd: "tls_records_needed buf = Some (tls, needed)" using tls_records_needed_total by blast
  let ?t = "if tls \<and> needed > length buf then 50 else 10 :: nat"
  obtain r k1 where r: "read_with_timeout k (cap - length buf) ?t = (r, k1)" by (metis surj_pair)
  note st = took_step [OF r Suc.prems]
  have step: "sniff_loop (Suc n) k cap buf = (if length buf < cap then
      case r of Recv_Error \<Rightarrow> (None, k1) | Recv_Bytes xs \<Rightarrow> if xs = [] then (Some buf, k1) else sniff_loop n k1 cap (buf @ xs)
    else (Some buf, k))" using nd r by (auto split: received.split)
  consider "\<not> length buf < cap" | "length buf < cap" "r = Recv_Error \<or> r = Recv_Bytes []"
    | xs where "length buf < cap" "r = Recv_Bytes xs" "xs \<noteq> []" by (cases r) auto
  then show ?case
  proof cases
    case 1
    then show ?thesis using step took_stop(1) [OF Suc.prems] by (intro exI [of _ "[]"]) simp
  next
    case 2
    then have "took k cap buf (sniff_loop (Suc n) k cap buf) [?t]" unfolding step using st(1,2) by auto
    then show ?thesis by (intro exI [of _ "[?t]"]) simp
  next
    case (3 xs)
    obtain ts where "took k1 cap (buf @ xs) (sniff_loop n k1 cap (buf @ xs)) ts" "set ts \<subseteq> {10, 50}" "length ts \<le> n"
      using Suc.IH st(4) [OF 3(2)] by blast
    then show ?thesis unfolding step using st(3) [OF 3(2)] 3 by (intro exI [of _ "?t # ts"]) simp
  qed
qed

lemma sum_list_le: "(\<And>x. x \<in> set ts \<Longrightarrow> x \<le> c) \<Longrightarrow> sum_list ts \<le> length ts * (c :: nat)"
  by (induction ts) (auto intro: add_mono)

lemma read_sniff_payload_took:
  "\<exists>ts. took k cap [] (read_sniff_payload k cap) ts \<and> sum_list ts \<le> 350"
proof -
  obtain r k1 where r: "read_with_timeout k cap 200 = (r, k1)" by (metis surj_pair)
  note st = took_step [where buf = "[]" and cap = cap, simplified, OF r]
  show ?thesis
  proof (cases "\<exists>xs. r = Recv_Bytes xs \<and> xs \<noteq> []")
    case True
    then obtain xs where xs: "r = Recv_Bytes xs" "xs \<noteq> []" by blast
    obtain ts where ts: "took k1 cap xs (sniff_loop 3 k1 cap xs) ts" "set ts \<subseteq> {10, 50}" "length ts \<le> 3"
      using sniff_loop_took st(4) [OF xs(1)] by blast
    have "x \<le> 50" if "x \<in> set ts" for x using that ts(2) by auto
    then have "sum_list ts \<le> length ts * 50" by (rule sum_list_le)
    then have "sum_list ts \<le> 150" using ts(3) by linarith
    then show ?thesis using st(3) [OF xs(1) ts(1)] xs r by (intro exI [of _ "200 # ts"]) (simp add: read_sniff_payload_def)
  next
    case False
    then show ?thesis using st(1,2) r by (intro exI [of _ "[200]"]) (cases r; auto simp: read_sniff_payload_def)
  qed
qed

lemma read_initial_payload_took:
  "\<exists>ts. took k cap [] (read_initial_payload_impl k cap) (500 # ts) \<and> set ts \<subseteq> {25, 200} \<and> count_list ts 200 \<le> 6"
proof -
  obtain r k1 where r: "read_with_timeout k cap 500 = (r, k1)" by (metis surj_pair)
  note st = took_step [where buf = "[]" and cap = cap, simplified, OF r]
  show ?thesis
  proof (cases "\<exists>xs. r = Recv_Bytes xs \<and> xs \<noteq> []")
    case True
    then obtain xs where xs: "r = Recv_Bytes xs" "xs \<noteq> []" by blast
    obtain ts where ts: "took k1 cap xs (initial_loop k1 cap 6 xs) ts" "set ts \<subseteq> {25, 200}" "count_list ts 200 \<le> 6"
      using initial_loop_took [OF st(4) [OF xs(1)], of k1 6] by blast
    have "read_initial_payload_impl k cap = initial_loop k1 cap 6 xs" using xs r by (simp add: read_initial_payload_impl_def)
    then show ?thesis using st(3) [OF xs(1) ts(1)] ts(2,3) by (intro exI [of _ ts]) simp
  next
    case False
    then show ?thesis using st(1,2) r by (intro exI [of _ "[]"]) (cases r; auto simp: read_initial_payload_impl_def)
  qed
qed

text \<open>
  Property C37: the readers of the first payload take at most the capacity off the front of the client's
  stream and lose nothing of it; looking for a domain asks to wait 350 milliseconds at most in all, and
  reading the payload waits for unfinished TLS records at most six times.
\<close>

theorem first_payload_bounded:
  "(\<exists>ts. took k cap [] (read_sniff_payload k cap) ts \<and> sum_list ts \<le> 350) \<and>
   (\<exists>ts. took k cap [] (read_initial_payload_impl k cap) (500 # ts) \<and> set ts \<subseteq> {25, 200} \<and> count_list ts 200 \<le> 6)"
  using read_sniff_payload_took read_initial_payload_took by (rule conjI)

end
