(* ===== verification/Client_Relay.thy ===== *)
theory Client_Relay
  imports Sniff Vision
begin

text \<open>
  The data path of a proxied VLESS connection in \<^verbatim>\<open>src/src/main.c\<close>: the room the relay makes in its
  buffers, the first packet, and what the loop of \<^verbatim>\<open>client_worker_run\<close> does with the bytes it reads
  from the client (the upload) and from the server (the download), with the switches between the TLS
  connection, the encryption layer and the raw socket.  The connection, the allocator, the random source and the
  results of the writes are parameters; polling, deadlines and logging of the loop are not modelled.  A relay
  that breaks out of the loop ends in \<open>Break\<close>; writing past the output buffer would be \<open>Overrun\<close>.
\<close>

section \<open>Room in the buffers\<close>

text \<open>
  The loops halve the request until a buffer and the credit for its transformation are granted.  The result is
  the code's result, the capacity, the memory and the budgets.
\<close>

type_synonym room = "int \<times> nat \<times> relay_memory \<times> budget_state"

definition input_credit :: "relay_memory \<Rightarrow> budget_state \<Rightarrow> nat \<Rightarrow> bool \<Rightarrow> nat option" where
  "input_credit m s n transform =
     (if transform then
        let credit = vision_wrap_buffer_bound n;
            held = (case budgets s (temporary m) of Some b \<Rightarrow> allocated b | None \<Rightarrow> 0)
        in if credit > SIZE_MAX - held then None else Some (credit + held)
      else Some 0)"

function relay_input_room :: "(nat \<Rightarrow> bool) \<Rightarrow> relay_memory \<Rightarrow> budget_state \<Rightarrow> nat \<Rightarrow> bool \<Rightarrow> room" where
  "relay_input_room got m s n transform =
     (if n = 0 then (0, 0, m, s)
      else case core_relay_buffer_reserve got s (rm_input m) n of (r, b, s1) \<Rightarrow>
        let m1 = m\<lparr>rm_input := b\<rparr>
        in if r < 0 then (-1, 0, m1, s1)
           else
             (case (if r = 1 then map_option (core_relay_memory_credit s1 m1) (input_credit m1 s1 n transform) else Some (0, s1)) of
                None \<Rightarrow> (-1, 0, m1, s1)
              | Some (c, s2) \<Rightarrow>
                  if c = 1 then (1, n, m1, s2)
                  else if c < 0 then (-1, 0, m1, s2)
                  else (case core_relay_buffer_trim got s2 b of (t, b2, s3) \<Rightarrow>
                          if t \<noteq> 1 then (-1, 0, m1\<lparr>rm_input := b2\<rparr>, s3)
                          else relay_input_room got (m1\<lparr>rm_input := b2\<rparr>) s3 (n div 2) transform)))"
  by auto
termination
  by (relation "measure (\<lambda>(got, m, s, n, transform). n)") auto

function output_loop :: "(nat \<Rightarrow> bool) \<Rightarrow> relay_memory \<Rightarrow> budget_state \<Rightarrow> vision_unpad option \<Rightarrow> nat \<Rightarrow> nat \<Rightarrow> room" where
  "output_loop got m s vision extra n =
     (if n = 0 then (0, 0, m, s)
      else case core_relay_buffer_reserve got s (rm_output m) (length (rb_data (rm_output m)) + n + extra) of (r, b, s1) \<Rightarrow>
        let m1 = m\<lparr>rm_output := b\<rparr>
        in if r < 0 then (-1, 0, m1, s1)
           else
             (case (if r = 1 then core_relay_memory_credit s1 m1
                      (case vision of Some v \<Rightarrow> vision_unpad_buffer_bound v n | None \<Rightarrow> 0) else (0, s1)) of (c, s2) \<Rightarrow>
                if c = 1 then (1, n, m1, s2)
                else if c < 0 then (-1, 0, m1, s2)
                else (case core_relay_buffer_trim got s2 b of (t, b2, s3) \<Rightarrow>
                        if t \<noteq> 1 then (-1, 0, m1\<lparr>rm_output := b2\<rparr>, s3)
                        else output_loop got (m1\<lparr>rm_output := b2\<rparr>) s3 vision extra (n div 2))))"
  by auto
termination
  by (relation "measure (\<lambda>(got, m, s, vision, extra, n). n)") auto

declare relay_input_room.simps [simp del] output_loop.simps [simp del]

definition relay_output_room :: "(nat \<Rightarrow> bool) \<Rightarrow> relay_memory \<Rightarrow> budget_state \<Rightarrow> vision_unpad option \<Rightarrow> nat \<Rightarrow> room" where
  "relay_output_room got m s vision requested =
     (let extra = (case vision of Some v \<Rightarrow> length (rb_data (stash v)) | None \<Rightarrow> 0);
          left = szsub (rb_limit (rm_output m)) (length (rb_data (rm_output m)))
      in if extra \<ge> left then (0, 0, m, s)
         else let available = szsub left extra
              in output_loop got m s vision extra (if requested > available then available else requested))"

section \<open>The relay\<close>

record relay_config =
  vless :: bool
  use_vision :: bool
  websocket :: bool
  allow_raw_vision :: bool
  encrypted :: bool

record relay =
  r_memory :: relay_memory
  r_store :: budget_state
  r_random :: nat
  vwrap :: vision_wrap
  vunpad :: vision_unpad
  r_response :: vless_response
  protocol_ready :: bool
  upstream_direct :: bool
  downstream_direct :: bool
  upstream_encryption_direct :: bool
  downstream_encryption_direct :: bool
  raw_direct :: bool
  client_eof :: bool

definition relay_start :: "relay_config \<Rightarrow> string option \<Rightarrow> bytes \<Rightarrow> relay_memory \<Rightarrow> budget_state \<Rightarrow> nat \<Rightarrow> relay" where
  "relay_start cfg env uuid m s k =
     \<lparr>r_memory = m, r_store = s, r_random = k, vwrap = vision_wrap_init env uuid,
      vunpad = vision_unpad_init uuid (Some (temporary m)), r_response = response_start, protocol_ready = False,
      upstream_direct = False, downstream_direct = False, upstream_encryption_direct = False,
      downstream_encryption_direct = False, raw_direct = False, client_eof = False\<rparr>"

text \<open>
  Writing goes through the protocol stack, past the encryption layer, or to the raw socket.  A write
  succeeds, finds that the server has stopped receiving after it took the first so many bytes, or fails.
\<close>

datatype channel = Upstream | Encryption_Raw | Tls_Raw
datatype written = Written | Stopped nat | Failed

section \<open>The first packet\<close>

text \<open>The request and the first payload, in the writes that carry them; \<open>None\<close> is a failure.\<close>

definition first_wrap :: "(nat \<Rightarrow> bool) \<Rightarrow> random \<Rightarrow> relay \<Rightarrow> bytes \<Rightarrow> wrap_result option" where
  "first_wrap got rnd st payload =
     (if payload \<noteq> [] then vision_wrap_payload_buffer got rnd (vwrap st) payload (wrapped (r_memory st)) (r_store st) (r_random st)
      else Some (vision_wrap_bootstrap_buffer got rnd (vwrap st) (wrapped (r_memory st)) (r_store st) (r_random st)))"

definition first_packet ::
  "(nat \<Rightarrow> bool) \<Rightarrow> random \<Rightarrow> inet \<Rightarrow> relay_config \<Rightarrow> bytes \<Rightarrow> string \<Rightarrow> string \<Rightarrow> 16 word \<Rightarrow> relay \<Rightarrow> bytes \<Rightarrow>
   (bytes list \<times> relay) option" where
  "first_packet got rnd net cfg uuid flow host port st payload =
     (case vless_build_request net 2048 uuid flow host port of
        None \<Rightarrow> None
      | Some req \<Rightarrow>
          if use_vision cfg then
            (case first_wrap got rnd st payload of
               Some (True, w, buf, s1, k1) \<Rightarrow>
                 (case core_relay_buffer_reserve got s1 (packet (r_memory st)) (length req + length (rb_data buf)) of (r, pk, s2) \<Rightarrow>
                    if r \<noteq> 1 then None
                    else case core_relay_buffer_clear s2 buf of (buf1, s3) \<Rightarrow>
                           (case core_relay_buffer_clear s3 (pk\<lparr>rb_data := req @ rb_data buf\<rparr>) of (pk1, s4) \<Rightarrow>
                              Some ([req @ rb_data buf],
                                    st\<lparr>r_memory := (r_memory st)\<lparr>wrapped := buf1, packet := pk1\<rparr>, r_store := s4, r_random := k1, vwrap := w\<rparr>)))
             | _ \<Rightarrow> None)
          else if websocket cfg then
            (case core_relay_buffer_reserve got (r_store st) (packet (r_memory st)) (length req + length payload) of (r, pk, s2) \<Rightarrow>
               if r \<noteq> 1 then None
               else case core_relay_buffer_clear s2 (pk\<lparr>rb_data := req @ payload\<rparr>) of (pk1, s3) \<Rightarrow>
                      Some ([req @ payload], st\<lparr>r_memory := (r_memory st)\<lparr>packet := pk1\<rparr>, r_store := s3\<rparr>))
          else Some (if payload = [] then [req] else [req, payload], st))"

section \<open>Upload\<close>

text \<open>
  When the server has stopped receiving, the relay takes nothing more from the client and goes on with the
  other direction; \<open>Upload_Closed\<close> says what of the last read still went out.
\<close>

datatype upload_result =
  Upload_Break | Upload_Closed relay "(channel \<times> bytes) list" | Upload_Sent relay "(channel \<times> bytes) list"

definition upload_wrapped ::
  "(nat \<Rightarrow> bool) \<Rightarrow> random \<Rightarrow> (channel \<Rightarrow> bytes \<Rightarrow> written) \<Rightarrow> relay_config \<Rightarrow> relay \<Rightarrow> bytes \<Rightarrow> upload_result" where
  "upload_wrapped got rnd wr cfg st cbuf =
     (case vision_wrap_payload_buffer got rnd (vwrap st) cbuf (wrapped (r_memory st)) (r_store st) (r_random st) of
        Some (True, w, buf, s1, k1) \<Rightarrow>
          (let ch = (if upstream_encryption_direct st then Encryption_Raw else Upstream);
               result = (if rb_data buf \<noteq> [] then wr ch (rb_data buf) else Written)
           in case core_relay_buffer_clear s1 buf of (buf1, s2) \<Rightarrow>
                let st1 = st\<lparr>r_memory := (r_memory st)\<lparr>wrapped := buf1\<rparr>, r_store := s2, r_random := k1, vwrap := w\<rparr>
                in (case result of
                      Stopped n \<Rightarrow> Upload_Closed (st1\<lparr>client_eof := True\<rparr>) [(ch, take n (rb_data buf))]
                    | Failed \<Rightarrow> Upload_Break
                    | Written \<Rightarrow>
                        Upload_Sent
                          (if direct_sent w then
                             (if encrypted cfg then st1\<lparr>upstream_encryption_direct := True\<rparr>
                              else if allow_raw_vision cfg then st1\<lparr>upstream_direct := True\<rparr> else st1)
                           else st1)
                          (if rb_data buf \<noteq> [] then [(ch, rb_data buf)] else [])))
      | _ \<Rightarrow> Upload_Break)"

definition relay_upload ::
  "(nat \<Rightarrow> bool) \<Rightarrow> random \<Rightarrow> (channel \<Rightarrow> bytes \<Rightarrow> written) \<Rightarrow> relay_config \<Rightarrow> relay \<Rightarrow> bytes \<Rightarrow> upload_result" where
  "relay_upload got rnd wr cfg st cbuf =
     (if upstream_direct st then (if wr Tls_Raw cbuf = Written then Upload_Sent st [(Tls_Raw, cbuf)] else Upload_Break)
      else if use_vision cfg \<and> padding_active (vwrap st) then upload_wrapped got rnd wr cfg st cbuf
      else let ch = (if upstream_encryption_direct st then Encryption_Raw else Upstream)
           in case wr ch cbuf of
                Written \<Rightarrow> Upload_Sent st [(ch, cbuf)]
              | Stopped n \<Rightarrow> Upload_Closed (st\<lparr>client_eof := True\<rparr>) [(ch, take n cbuf)]
              | Failed \<Rightarrow> Upload_Break)"

section \<open>Download\<close>

text \<open>
  \<open>Break\<close> leaves the loop; so does \<open>Short\<close>, when the unpadded bytes find no room in the output.
\<close>

datatype download_result = Break | Short | Overrun | Relayed relay

definition put_output :: "relay \<Rightarrow> bytes \<Rightarrow> download_result" where
  "put_output st xs =
     (let b = rm_output (r_memory st)
      in if length (rb_data b) + length xs > rb_capacity b then Overrun
         else Relayed (st\<lparr>r_memory := (r_memory st)\<lparr>rm_output := b\<lparr>rb_data := rb_data b @ xs\<rparr>\<rparr>\<rparr>))"

definition observed :: "relay \<Rightarrow> bytes \<Rightarrow> (relay \<Rightarrow> download_result) \<Rightarrow> download_result" where
  "observed st data k = (case vision_observe_tls (vwrap st) True data of None \<Rightarrow> Break | Some w \<Rightarrow> k (st\<lparr>vwrap := w\<rparr>))"

text \<open>The bytes of a padded stream that is still padded.\<close>

definition download_padded :: "(nat \<Rightarrow> bool) \<Rightarrow> relay_config \<Rightarrow> relay \<Rightarrow> bytes \<Rightarrow> download_result" where
  "download_padded got cfg st data =
     (case vision_unpad_feed_buffer got (vunpad st) data (plain (r_memory st)) (r_store st) of
        Some (True, u, pl, switch, s1) \<Rightarrow>
          (let out = rm_output (r_memory st)
           in if length (rb_data pl) > szsub (rb_capacity out) (length (rb_data out)) then Short
              else case core_relay_buffer_clear s1 pl of (pl1, s2) \<Rightarrow>
                observed (st\<lparr>vunpad := u\<rparr>) (rb_data pl) (\<lambda>st1.
                  put_output
                    (let st2 = st1\<lparr>r_memory := (r_memory st1)\<lparr>plain := pl1\<rparr>, r_store := s2\<rparr>
                     in if switch \<and> encrypted cfg then st2\<lparr>downstream_encryption_direct := True\<rparr>
                        else if switch \<and> allow_raw_vision cfg then st2\<lparr>downstream_direct := True, raw_direct := True\<rparr>
                        else st2)
                    (rb_data pl)))
      | _ \<Rightarrow> Break)"

definition download_payload :: "(nat \<Rightarrow> bool) \<Rightarrow> relay_config \<Rightarrow> relay \<Rightarrow> bytes \<Rightarrow> download_result" where
  "download_payload got cfg st data =
     (if \<not> use_vision cfg then put_output st data
      else if allow_raw_vision cfg \<and> raw_direct st then observed st data (\<lambda>st1. put_output (st1\<lparr>downstream_direct := True\<rparr>) data)
      else if vision_unpad_is_raw (vunpad st) then observed st data (\<lambda>st1. put_output st1 data)
      else download_padded got cfg st data)"

definition relay_download :: "(nat \<Rightarrow> bool) \<Rightarrow> relay_config \<Rightarrow> relay \<Rightarrow> bytes \<Rightarrow> download_result" where
  "relay_download got cfg st tbuf =
     (if downstream_direct st then put_output st tbuf
      else if vless cfg \<and> \<not> protocol_ready st then
        (case vless_consume_response (r_response st) tbuf of
           None \<Rightarrow> Break
         | Some (parsed, resp, data) \<Rightarrow>
             let st1 = st\<lparr>r_response := resp\<rparr>
             in if \<not> parsed then Relayed st1
                else let st2 = st1\<lparr>protocol_ready := True\<rparr>
                     in if data = [] then Relayed st2 else download_payload got cfg st2 data)
      else download_payload got cfg st tbuf)"

text \<open>The context that the room before a read has to allow for: what is padded is held back in its stash.\<close>

definition relay_transformation :: "relay_config \<Rightarrow> relay \<Rightarrow> vision_unpad option" where
  "relay_transformation cfg st =
     (if use_vision cfg \<and> \<not> vision_unpad_is_raw (vunpad st) \<and> \<not> (allow_raw_vision cfg \<and> raw_direct st) then Some (vunpad st) else None)"

text \<open>\<^verbatim>\<open>core_send\<close> took \<open>n\<close> bytes of the output.\<close>

definition relay_sent :: "relay \<Rightarrow> nat \<Rightarrow> relay" where
  "relay_sent st n =
     st\<lparr>r_memory := (r_memory st)\<lparr>rm_output := (rm_output (r_memory st))\<lparr>rb_data := drop n (rb_data (rm_output (r_memory st)))\<rparr>\<rparr>\<rparr>"

section \<open>What the relay relies on in the Vision codec\<close>

lemma unpad_iteration_direct:
  assumes "unpad_iteration got (c, r, out, False, s) = (f, c', r', out', True, s')" and "f \<noteq> Fail"
  shows "f = Stop \<and> unpad_idle c' \<and> current_command c' = CMD_DIRECT"
  using assms
  by (auto simp: unpad_iteration_def unpad_block_def block_body_def block_padding_def block_end_def unpad_idle_def Let_def
      split: if_split_asm prod.split_asm)

lemma unpad_loop_direct:
  "unpad_loop got fuel (c, r, out, False, s) = Some (True, c', r', out', True, s') \<Longrightarrow>
     unpad_idle c' \<and> current_command c' = CMD_DIRECT"
proof (induction fuel arbitrary: c r out s)
  case 0
  then show ?case by (cases r) simp_all
next
  case (Suc fuel)
  show ?case
  proof (cases r)
    case (Cons b bs)
    obtain f c1 r1 out1 d1 s1 where it: "unpad_iteration got (c, r, out, False, s) = (f, c1, r1, out1, d1, s1)" by (metis prod.exhaust)
    show ?thesis
    proof (cases f)
      case Again
      then have "\<not> d1" using unpad_iteration_direct [of got c r out s f c1 r1 out1 s1] it by (cases d1) auto
      then show ?thesis using Suc it Cons Again by simp
    qed (use Suc.prems it Cons unpad_iteration_direct [of got c r out s f c1 r1 out1 s1] in auto)
  qed (use Suc.prems in simp)
qed

lemma unpad_feed_direct:
  assumes "vision_unpad_feed_buffer got c xs out s = Some (True, c', out', True, s')"
  shows "unpad_idle c' \<and> current_command c' = CMD_DIRECT"
  using assms
  by (auto simp: vision_unpad_feed_buffer_def Let_def vision_unpad_free_def unpad_idle_def
      split: prod.split_asm if_split_asm option.split_asm bool.split_asm dest!: unpad_loop_direct)

lemma unpad_at_direct:
  assumes "unpad_at uuid c a" and "unpad_idle c" and "current_command c = CMD_DIRECT"
  shows "a = Raw"
  using assms by (cases a) (auto simp: unpad_at_def unpad_held_def unpad_rel_def unpad_idle_def)

text \<open>A header that begins has no command yet.\<close>

definition fresh_header :: "pad_state \<Rightarrow> bool" where
  "fresh_header a = (case a of Header rc cmd ct pd \<Rightarrow> rc = 5 \<longrightarrow> cmd = 0 | _ \<Rightarrow> True)"

lemma fresh_header_run: "fresh_header a \<Longrightarrow> fresh_header (fst (pad_run uuid a xs))"
proof (induction uuid a xs rule: pad_run.induct)
  case (2 uuid a b bs)
  obtain a1 o1 where st: "pad_step uuid a b = (a1, o1)" by fastforce
  have "fresh_header a1" using st 2(2)
    by (cases a) (auto simp: fresh_header_def header_step_def enter_block_def after_block_def split: if_split_asm)
  then show ?case using 2(1) [OF st [symmetric]] st by (auto split: prod.split)
qed simp

lemma unpad_at_raw:
  assumes "unpad_at uuid c a" and "fresh_header a" and "vision_unpad_is_raw c"
  shows "a = Raw"
  using assms
  by (cases a) (auto simp: unpad_at_def unpad_held_def unpad_rel_def unpad_idle_def fresh_header_def
      vision_unpad_is_raw_def vision_unpad_complete_def)

text \<open>Once the direct command is sent, the padding is over.\<close>

definition direct_ends :: "vision_wrap \<Rightarrow> bool" where
  "direct_ends w \<longleftrightarrow> (direct_sent w \<longrightarrow> \<not> padding_active w)"

lemma observe_direct_ends: "vision_observe_tls ctx server data = Some ctx' \<Longrightarrow> direct_ends ctx \<Longrightarrow> direct_ends ctx'"
  using vision_observe_tls_keeps by (fastforce simp: direct_ends_def)

lemma build_block_flags:
  "vision_build_block got rnd ctx cmd content long out s k = (ok, ctx', out', s', k') \<Longrightarrow>
     direct_sent ctx' = direct_sent ctx \<and> padding_active ctx' = padding_active ctx"
  by (auto simp: vision_build_block_def Let_def split: if_split_asm prod.split_asm option.split_asm)

lemma wrap_chunk_direct_ends:
  assumes "vision_wrap_chunk got rnd ctx xs out s k = Some (ok, ctx', out', s', k')" and "direct_ends ctx"
  shows "direct_ends ctx'"
proof (cases "xs = [] \<or> \<not> padding_active ctx \<or> length xs > 65535")
  case True
  then show ?thesis using assms by (auto simp: vision_wrap_chunk_def split: if_split_asm prod.split_asm)
next
  case False
  then obtain ctx1 where o: "vision_observe_tls ctx False xs = Some ctx1"
    using assms(1) by (auto simp: vision_wrap_chunk_def split: option.split_asm)
  obtain cmd n where c: "chunk_command ctx ctx1 = (cmd, n)" by fastforce
  obtain ok2 ctx2 out2 s2 k2 where b: "vision_build_block got rnd ctx1 cmd xs (length xs < 900) out s k = (ok2, ctx2, out2, s2, k2)"
    by (metis prod.exhaust)
  have "\<not> direct_sent ctx2" using False assms(2) vision_observe_tls_keeps [OF o] build_block_flags [OF b] by (simp add: direct_ends_def)
  then show ?thesis
    using assms(1) False o c b by (auto simp: vision_wrap_chunk_def Let_def direct_ends_def split: bool.split_asm)
qed

text \<open>What every chunk keeps, a payload keeps.\<close>

lemma wrap_pieces_keep:
  assumes "\<And>ctx xs out s k ok ctx' out' s' k'. vision_wrap_chunk got rnd ctx xs out s k = Some (ok, ctx', out', s', k') \<Longrightarrow> P ctx \<Longrightarrow> P ctx'"
  shows "wrap_pieces got rnd ctx xs out s k = Some (ok, ctx', out', s', k') \<Longrightarrow> P ctx \<Longrightarrow> P ctx'"
proof (induction "length xs" arbitrary: ctx xs out s k rule: less_induct)
  case less
  show ?case
  proof (cases "xs = []")
    case False
    define n where "n = (if padding_active ctx \<and> length xs > 65535 then 65535 else length xs)"
    obtain ok1 ctx1 chunk s1 k1 where
      w: "vision_wrap_chunk got rnd ctx (take n xs) (empty_buffer (rb_memory out)) s k = Some (ok1, ctx1, chunk, s1, k1)"
      using less.prems(1) False by (subst (asm) wrap_pieces.simps) (auto simp: n_def [symmetric] split: option.split_asm)
    obtain ok2 out1 s2 where ap: "(if ok1 then core_relay_buffer_append got s1 out (rb_data chunk) else (False, out, s1)) = (ok2, out1, s2)"
      by (metis prod_cases3)
    define s3 where "s3 = snd (core_relay_buffer_clear s2 chunk)"
    have eq: "wrap_pieces got rnd ctx xs out s k =
        (if \<not> ok2 then (case core_relay_buffer_clear s3 out1 of (out2, s4) \<Rightarrow> Some (False, ctx1, out2, s4, k1))
         else wrap_pieces got rnd ctx1 (drop n xs) out1 s3 k1)"
      using False by (subst wrap_pieces.simps) (simp add: n_def [symmetric] w ap s3_def del: wrap_pieces.simps)
    have d: "P ctx1" by (rule assms [OF w less.prems(2)])
    have "length (drop n xs) < length xs" using False by (simp add: n_def)
    then show ?thesis using less.hyps [of "drop n xs" ctx1 out1 s3 k1] less.prems(1) d unfolding eq
      by (cases ok2) (auto split: prod.split_asm)
  qed (use less.prems in \<open>subst (asm) wrap_pieces.simps, simp\<close>)
qed

lemma wrap_payload_keep:
  assumes "\<And>ctx xs out s k ok ctx' out' s' k'. vision_wrap_chunk got rnd ctx xs out s k = Some (ok, ctx', out', s', k') \<Longrightarrow> P ctx \<Longrightarrow> P ctx'"
    and "vision_wrap_payload_buffer got rnd ctx xs out s k = Some (ok, ctx', out', s', k')" and "P ctx"
  shows "P ctx'"
  using assms(2,3) assms(1) wrap_pieces_keep [of got rnd P, OF assms(1)]
  by (fastforce simp: vision_wrap_payload_buffer_def simp del: wrap_pieces.simps split: prod.split_asm if_split_asm)

lemma wrap_payload_direct_ends:
  assumes "vision_wrap_payload_buffer got rnd ctx xs out s k = Some (ok, ctx', out', s', k')" and "direct_ends ctx"
  shows "direct_ends ctx'"
  by (rule wrap_payload_keep [where P = direct_ends, OF wrap_chunk_direct_ends assms])

text \<open>Before the server has answered, no direct command is sent.\<close>

definition before_hello :: "vision_wrap \<Rightarrow> bool" where
  "before_hello w \<longleftrightarrow> \<not> direct_sent w \<and> \<not> server_hello_seen w"

lemma wrap_chunk_before_hello:
  assumes "vision_wrap_chunk got rnd ctx xs out s k = Some (ok, ctx', out', s', k')" and "before_hello ctx"
  shows "before_hello ctx'"
proof (cases "xs = [] \<or> \<not> padding_active ctx \<or> length xs > 65535")
  case True
  then show ?thesis using assms by (auto simp: vision_wrap_chunk_def split: if_split_asm prod.split_asm)
next
  case False
  then obtain ctx1 where o: "vision_observe_tls ctx False xs = Some ctx1"
    using assms(1) by (auto simp: vision_wrap_chunk_def split: option.split_asm)
  obtain cmd n where c: "chunk_command ctx ctx1 = (cmd, n)" by fastforce
  obtain ok2 ctx2 out2 s2 k2 where b: "vision_build_block got rnd ctx1 cmd xs (length xs < 900) out s k = (ok2, ctx2, out2, s2, k2)"
    by (metis prod.exhaust)
  have q: "\<not> direct_sent ctx1" "\<not> server_hello_seen ctx1"
    using assms(2) vision_observe_tls_keeps [OF o] by (simp_all add: before_hello_def)
  then have "cmd \<noteq> CMD_DIRECT" using c by (auto simp: chunk_command_def Let_def split: if_split_asm)
  moreover have "\<not> direct_sent ctx2" "\<not> server_hello_seen ctx2"
    using q b by (auto simp: vision_build_block_def Let_def split: if_split_asm prod.split_asm option.split_asm)
  ultimately show ?thesis
    using assms(1) False o c b by (auto simp: vision_wrap_chunk_def Let_def before_hello_def split: bool.split_asm)
qed

lemma wrap_bootstrap_run:
  assumes "vision_wrap_bootstrap_buffer got rnd ctx out s k = (True, ctx', out', s', k')"
    and "w_uuid ctx = uuid" and "length uuid = 16" and "random_ok rnd"
  shows "w_uuid ctx' = uuid \<and> pad_run uuid (wrap_state ctx) (rb_data out') = (wrap_state ctx', []) \<and>
    (direct_ends ctx \<longrightarrow> direct_ends ctx') \<and> (before_hello ctx \<longrightarrow> before_hello ctx') \<and> (padding_active ctx \<longrightarrow> padding_active ctx')"
proof -
  obtain out1 s1 where cl: "core_relay_buffer_clear s out = (out1, s1)" by fastforce
  note d = clear_data [OF cl]
  show ?thesis
  proof (cases "padding_active ctx \<and> \<not> bootstrap_sent ctx")
    case True
    obtain ok ctx2 out2 s2 k2 where b: "vision_build_block got rnd ctx CMD_CONTINUE [] True out1 s1 k = (ok, ctx2, out2, s2, k2)"
      by (metis prod.exhaust)
    then have eq: "ok" "ctx' = ctx2\<lparr>bootstrap_sent := True\<rparr>" "out' = out2"
      using assms(1) True by (auto simp: vision_wrap_bootstrap_buffer_def cl split: if_split_asm)
    have r: "ctx2 = ctx\<lparr>uuid_sent := True\<rparr> \<and> pad_run uuid (wrap_state ctx) (rb_data out2) = (after_block CMD_CONTINUE, [])"
      using vision_build_block_run [of got rnd ctx CMD_CONTINUE "[]" True out1 s1 k ctx2 out2 s2 k2 uuid] b eq(1) True assms(2-4) by simp
    have "wrap_state (ctx\<lparr>uuid_sent := True, bootstrap_sent := True\<rparr>) = Header 5 0 0 0" using True by (simp add: wrap_state_def)
    then show ?thesis using r eq assms(2) by (simp add: after_block_def direct_ends_def before_hello_def)
  next
    case False
    then show ?thesis using assms d by (auto simp: vision_wrap_bootstrap_buffer_def cl)
  qed
qed

section \<open>Room is room\<close>

definition outd :: "relay \<Rightarrow> bytes" where
  "outd st = rb_data (rm_output (r_memory st))"

lemma trim_data: "core_relay_buffer_trim got s b = (r, b', s') \<Longrightarrow> rb_data b' = rb_data b"
  using reserve_frame(1) clear_data by (fastforce simp: core_relay_buffer_trim_def split: if_split_asm prod.split_asm)

lemma output_loop_room:
  "output_loop got m s vision extra n = (r, c, m', s') \<Longrightarrow>
     (\<exists>b. m' = m\<lparr>rm_output := b\<rparr> \<and> rb_data b = rb_data (rm_output m) \<and>
       (r = 1 \<longrightarrow> 0 < c \<and> c \<le> n \<and> length (rb_data b) + c + extra \<le> rb_capacity b))"
proof (induction got m s vision extra n rule: output_loop.induct)
  case (1 got m s vision extra n)
  show ?case
  proof (cases "n = 0")
    case True
    then show ?thesis using 1(2) by (subst (asm) output_loop.simps) (auto intro: exI [of _ "rm_output m"])
  next
    case False
    obtain r1 b s1 where res: "core_relay_buffer_reserve got s (rm_output m) (length (rb_data (rm_output m)) + n + extra) = (r1, b, s1)"
      by (metis prod_cases3)
    define m1 where "m1 = m\<lparr>rm_output := b\<rparr>"
    obtain c1 s2 where cr: "(if r1 = 1 then core_relay_memory_credit s1 m1
        (case vision of Some v \<Rightarrow> vision_unpad_buffer_bound v n | None \<Rightarrow> 0) else (0, s1)) = (c1, s2)" by fastforce
    obtain t b2 s3 where tr: "core_relay_buffer_trim got s2 b = (t, b2, s3)" by (metis prod_cases3)
    note d = reserve_frame(1) [OF res] trim_data [OF tr]
    have step: "output_loop got m s vision extra n = (if r1 < 0 then (-1, 0, m1, s1) else if c1 = 1 then (1, n, m1, s2)
        else if c1 < 0 then (-1, 0, m1, s2) else if t \<noteq> 1 then (-1, 0, m1\<lparr>rm_output := b2\<rparr>, s3)
        else output_loop got (m1\<lparr>rm_output := b2\<rparr>) s3 vision extra (n div 2))"
      unfolding output_loop.simps [of got m s vision extra n] Let_def res prod.case m1_def [symmetric] cr tr using False by simp
    have fit: "length (rb_data b) + n + extra \<le> rb_capacity b" if "c1 = 1"
      using reserve_buffer [OF res] cr that d(1) by (auto split: if_split_asm)
    show ?thesis
    proof (cases "r1 < 0 \<or> c1 = 1 \<or> c1 < 0 \<or> t \<noteq> 1")
      case True
      then show ?thesis using 1(2) d fit False unfolding step m1_def by (auto split: if_split_asm)
    next
      case go: False
      then have "output_loop got (m1\<lparr>rm_output := b2\<rparr>) s3 vision extra (n div 2) = (r, c, m', s')" using 1(2) step by simp
      from 1(1) [OF False res [symmetric] refl m1_def _ cr [symmetric] _ _ tr [symmetric] refl _ this] go
      obtain b' where "m' = m1\<lparr>rm_output := b2\<rparr>\<lparr>rm_output := b'\<rparr>" "rb_data b' = rb_data b2"
        "r = 1 \<longrightarrow> 0 < c \<and> c \<le> n div 2 \<and> length (rb_data b') + c + extra \<le> rb_capacity b'" by auto
      then show ?thesis using d by (intro exI [of _ b']) (auto simp: m1_def)
    qed
  qed
qed

lemma put_outputE:
  assumes "put_output st xs = Relayed st'"
  obtains b where "st' = st\<lparr>r_memory := (r_memory st)\<lparr>rm_output := b\<rparr>\<rparr>" "rb_data b = outd st @ xs"
  using assms by (auto simp: put_output_def outd_def Let_def split: if_split_asm)

text \<open>Unwrapping gives out no more bytes than it takes in and held back before.\<close>

definition unpad_size :: "unpad_state \<Rightarrow> nat" where
  "unpad_size st = (case st of (c, r, out, d, s) \<Rightarrow> length r + length (rb_data out))"

lemma block_end_size: "block_end got st = (f, st') \<Longrightarrow> f \<noteq> Fail \<Longrightarrow> unpad_size st' \<le> unpad_size st"
  by (cases st) (auto simp: block_end_def unpad_size_def Let_def unpad_append_contents split: if_split_asm prod.split_asm)

lemma block_padding_size: "unpad_size (block_padding st) \<le> unpad_size st"
  by (cases st) (auto simp: block_padding_def unpad_size_def Let_def)

lemma block_body_size:
  assumes "block_body got st = (f, st')" and "f \<noteq> Fail"
  shows "unpad_size st' \<le> unpad_size st"
proof -
  obtain c r out d s where st: "st = (c, r, out, d, s)" by (cases st)
  show ?thesis
  proof (cases "remaining_content c > 0")
    case True
    define n where "n = min (length r) (nat (remaining_content c))"
    obtain ok o1 s1 where a: "unpad_append got (take n r) out s = (ok, o1, s1)" by (metis prod_cases3)
    let ?st1 = "(c\<lparr>remaining_content := remaining_content c - int n\<rparr>, drop n r, o1, d, s1)"
    have b: ok "block_end got (block_padding ?st1) = (f, st')"
      using assms True a by (auto simp: block_body_def st n_def [symmetric] Let_def split: if_split_asm)
    have "unpad_size ?st1 = unpad_size st" using unpad_append_contents a b(1) by (auto simp: st unpad_size_def n_def)
    then show ?thesis using block_end_size [OF b(2) assms(2)] block_padding_size [of ?st1] by linarith
  next
    case False
    then show ?thesis using assms block_end_size [of got "block_padding st" f st'] block_padding_size [of st]
      by (simp add: block_body_def st)
  qed
qed

lemma unpad_block_size:
  assumes "unpad_block got st = (f, st')" and "f \<noteq> Fail"
  shows "unpad_size st' \<le> unpad_size st"
proof -
  obtain c r out d s where st: "st = (c, r, out, d, s)" by (cases st)
  obtain c1 r1 where rd: "read_command c r = (c1, r1)" by fastforce
  show ?thesis
    using assms block_body_size [of got "(c1, r1, out, d, s)" f st'] read_command_length [OF rd]
    by (auto simp: unpad_block_def st rd unpad_size_def split: if_split_asm)
qed

lemma unpad_iteration_size:
  assumes "unpad_iteration got st = (f, st')" and "f \<noteq> Fail"
  shows "unpad_size st' \<le> unpad_size st"
proof -
  obtain c r out d s where st: "st = (c, r, out, d, s)" by (cases st)
  show ?thesis
    using assms unpad_block_size [of got "(c, r, out, d, s)" f st']
      unpad_block_size [of got "(c', drop 16 r, out, d, s)" f st' for c']
    by (fastforce simp: unpad_iteration_def st unpad_size_def Let_def unpad_append_contents
        split: if_split_asm prod.split_asm)
qed

lemma unpad_loop_size: "unpad_loop got fuel st = Some (True, st') \<Longrightarrow> unpad_size st' \<le> unpad_size st"
proof (induction got fuel st rule: unpad_loop.induct)
  case (3 got fuel c b bs out direct s)
  obtain f st1 where it: "unpad_iteration got (c, b # bs, out, direct, s) = (f, st1)" by (metis surj_pair)
  show ?case using 3(2) 3(1) [OF it [symmetric]] unpad_iteration_size [OF it] it by (cases f) auto
qed simp_all

lemma unpad_feed_size:
  assumes "vision_unpad_feed_buffer got c xs out s = Some (True, c', pl, d, s')"
  shows "length (rb_data pl) \<le> length (rb_data (stash c)) + length xs"
proof -
  obtain out1 s1 where cl: "core_relay_buffer_clear s out = (out1, s1)" by fastforce
  obtain ok st1 s2 where ap: "(if xs \<noteq> [] then core_relay_buffer_append got s1 (stash c) xs else (True, stash c, s1)) = (ok, st1, s2)"
    by (metis prod_cases3)
  have ok: ok using assms unfolding vision_unpad_feed_buffer_def cl prod.case ap Let_def by (cases ok) simp_all
  have data: "rb_data st1 = rb_data (stash c) @ xs"
    using ap ok relay.append_ok [of got s1 "stash c" xs st1 s2] by (auto split: if_split_asm)
  obtain c2 r d3 s3 where "unpad_loop got (length (rb_data st1)) (c\<lparr>stash := st1\<rparr>, rb_data st1, out1, False, s2) = Some (True, c2, r, pl, d3, s3)"
    using assms ok unfolding vision_unpad_feed_buffer_def cl prod.case ap Let_def
    by (auto split: option.split_asm bool.split_asm prod.split_asm if_split_asm)
  from unpad_loop_size [OF this] show ?thesis using clear_data [OF cl] by (simp add: unpad_size_def data)
qed

definition room_ok :: "download_result \<Rightarrow> bool" where
  "room_ok r \<longleftrightarrow> r \<noteq> Overrun \<and> r \<noteq> Short"

lemma put_output_ok: "length (outd st) + length xs \<le> rb_capacity (rm_output (r_memory st)) \<Longrightarrow> room_ok (put_output st xs)"
  by (simp add: put_output_def outd_def Let_def room_ok_def)

lemma observed_ok: "(\<And>w. room_ok (k (st\<lparr>vwrap := w\<rparr>))) \<Longrightarrow> room_ok (observed st xs k)"
  by (auto simp: observed_def room_ok_def split: option.split)

lemma download_padded_ok:
  assumes "length (outd st) + length data + length (rb_data (stash (vunpad st))) \<le> rb_capacity (rm_output (r_memory st))"
    and "rb_capacity (rm_output (r_memory st)) \<le> SIZE_MAX"
  shows "room_ok (download_padded got cfg st data)"
proof (cases "vision_unpad_feed_buffer got (vunpad st) data (plain (r_memory st)) (r_store st)")
  case (Some p)
  obtain ok u pl switch s1 where p: "p = (ok, u, pl, switch, s1)" by (metis prod.exhaust)
  have sz: "szsub (rb_capacity (rm_output (r_memory st))) (length (outd st)) = rb_capacity (rm_output (r_memory st)) - length (outd st)"
    using assms by (simp add: szsub_exact)
  have fits: "length (outd st) + length (rb_data pl) \<le> rb_capacity (rm_output (r_memory st))" if ok
    using unpad_feed_size [of got "vunpad st" data "plain (r_memory st)" "r_store st" u pl switch s1] Some p that assms(1) by simp
  then have "\<not> length (rb_data pl) > szsub (rb_capacity (rm_output (r_memory st))) (length (rb_data (rm_output (r_memory st))))" if ok
    using sz that by (simp add: outd_def)
  then show ?thesis using Some p fits
    by (cases ok) (auto simp: download_padded_def Let_def outd_def room_ok_def split: prod.split intro!: observed_ok put_output_ok [unfolded room_ok_def]
        observed_ok [unfolded room_ok_def])
qed (simp add: download_padded_def room_ok_def)

text \<open>What the room has to allow for besides the bytes that are read.\<close>

definition held_back :: "vision_unpad option \<Rightarrow> nat" where
  "held_back vision = (case vision of Some v \<Rightarrow> length (rb_data (stash v)) | None \<Rightarrow> 0)"

lemma download_payload_ok:
  assumes "length (outd st) + length data + held_back (relay_transformation cfg st) \<le> rb_capacity (rm_output (r_memory st))"
    and "rb_capacity (rm_output (r_memory st)) \<le> SIZE_MAX"
  shows "room_ok (download_payload got cfg st data)"
proof (cases "use_vision cfg \<and> \<not> (allow_raw_vision cfg \<and> raw_direct st) \<and> \<not> vision_unpad_is_raw (vunpad st)")
  case True
  then have "room_ok (download_padded got cfg st data)"
    using assms by (intro download_padded_ok) (auto simp: relay_transformation_def held_back_def)
  then show ?thesis using True by (auto simp: download_payload_def)
next
  case False
  then show ?thesis using assms by (auto simp: download_payload_def outd_def intro!: observed_ok put_output_ok)
qed

lemma consume_shorter: "vless_consume_response s xs = Some (d, s', ys) \<Longrightarrow> length ys \<le> length xs"
proof -
  have "response_header s xs = Some (s1, r) \<Longrightarrow> length r \<le> length xs" for s1 r
    by (induction s xs rule: response_header.induct) (auto split: if_split_asm)
  then show "vless_consume_response s xs = Some (d, s', ys) \<Longrightarrow> length ys \<le> length xs"
    by (fastforce simp: vless_consume_response_def Let_def split: option.split_asm if_split_asm)
qed

lemma relay_download_ok:
  assumes "length (outd st) + length tbuf + held_back (relay_transformation cfg st) \<le> rb_capacity (rm_output (r_memory st))"
    and "rb_capacity (rm_output (r_memory st)) \<le> SIZE_MAX"
  shows "room_ok (relay_download got cfg st tbuf)"
proof -
  have "room_ok (download_payload got cfg (st\<lparr>r_response := resp, protocol_ready := True\<rparr>) data)"
    if "vless_consume_response (r_response st) tbuf = Some (parsed, resp, data)" for parsed resp data
  proof -
    have "relay_transformation cfg (st\<lparr>r_response := resp, protocol_ready := True\<rparr>) = relay_transformation cfg st"
      by (simp add: relay_transformation_def)
    then show ?thesis using assms consume_shorter [OF that] by (intro download_payload_ok) (simp_all add: outd_def)
  qed
  moreover have "room_ok (put_output st tbuf)" using assms(1) by (intro put_output_ok) simp
  moreover have "room_ok (Relayed x)" "room_ok Break" for x by (simp_all add: room_ok_def)
  ultimately show ?thesis using download_payload_ok [OF assms]
    by (auto simp: relay_download_def Let_def split: option.split)
qed

text \<open>
  Property C23: the room the relay makes before it reads from the server is room for whatever comes: when
  room for \<open>c\<close> bytes is granted, in a buffer of any fill, it is at most the requested number, the bytes
  waiting in the buffer are kept, and no read of up to \<open>c\<close> bytes makes the relay write past the
  buffer or give up the connection for lack of room, however the bytes are transformed on the way and
  whatever the Vision decoder still holds back from before.
\<close>

theorem relay_room_suffices:
  assumes "relay_output_room got m s (relay_transformation cfg st) requested = (1, c, m', s')"
    and "rb_capacity (rm_output m') \<le> SIZE_MAX" and "r_memory st = m'" and "length tbuf \<le> c"
  shows "0 < c \<and> c \<le> requested \<and> rb_data (rm_output m') = rb_data (rm_output m) \<and>
    relay_download got' cfg st tbuf \<noteq> Overrun \<and> relay_download got' cfg st tbuf \<noteq> Short"
proof -
  let ?extra = "held_back (relay_transformation cfg st)"
  obtain n where l: "output_loop got m s (relay_transformation cfg st) ?extra n = (1, c, m', s')" "n \<le> requested"
    using assms(1) by (auto simp: relay_output_room_def Let_def held_back_def split: if_split_asm)
  from output_loop_room [OF l(1)] obtain b where b: "m' = m\<lparr>rm_output := b\<rparr>" "rb_data b = rb_data (rm_output m)" "0 < c" "c \<le> n"
    "length (rb_data b) + c + ?extra \<le> rb_capacity b" by auto
  then have "room_ok (relay_download got' cfg st tbuf)"
    using assms(2-4) by (intro relay_download_ok) (simp_all add: outd_def)
  then show ?thesis using b l(2) assms(3) by (simp add: room_ok_def)
qed

section \<open>What a server reads, channel by channel\<close>

text \<open>
  Bytes on the wire with the channel they were written to.  A server that has seen the end of a block with
  the direct command reads the raw channel from then on, and no byte of another channel any more; before
  that it reads only what comes through the stack.
\<close>

definition wire_bytes :: "(channel \<times> bytes) list \<Rightarrow> bytes" where
  "wire_bytes w = concat (map snd w)"

definition tagged :: "(channel \<times> bytes) list \<Rightarrow> (channel \<times> byte) list" where
  "tagged w = concat (map (\<lambda>(ch, xs). map (Pair ch) xs) w)"

definition raw_channel :: "relay_config \<Rightarrow> channel" where
  "raw_channel cfg = (if encrypted cfg then Encryption_Raw else if allow_raw_vision cfg then Tls_Raw else Upstream)"

definition direct_step :: "bytes \<Rightarrow> pad_state \<Rightarrow> byte \<Rightarrow> bool" where
  "direct_step uuid a b \<longleftrightarrow> fst (pad_step uuid a b) = Raw \<and>
     (case a of Header rc cmd ct pd \<Rightarrow> cmd = CMD_DIRECT | Content cmd ct pd \<Rightarrow> cmd = CMD_DIRECT | _ \<Rightarrow> False)"

fun channel_read ::
  "relay_config \<Rightarrow> bytes \<Rightarrow> pad_state \<times> bool \<Rightarrow> (channel \<times> byte) list \<Rightarrow> ((pad_state \<times> bool) \<times> bytes) option" where
  "channel_read cfg uuid r [] = Some (r, [])"
| "channel_read cfg uuid (a, switched) ((ch, b) # rest) =
     (if ch \<noteq> (if switched then raw_channel cfg else Upstream) then None
      else case pad_step uuid a b of (a1, o1) \<Rightarrow>
        map_option (\<lambda>(r, o2). (r, o1 @ o2)) (channel_read cfg uuid (a1, switched \<or> direct_step uuid a b) rest))"

text \<open>The body of a connection with and without Vision, as bytes and as bytes of channels.\<close>

definition body_run :: "relay_config \<Rightarrow> bytes \<Rightarrow> pad_state \<Rightarrow> bytes \<Rightarrow> (pad_state \<times> bytes) option" where
  "body_run cfg uuid a xs = Some (if use_vision cfg then pad_run uuid a xs else (a, xs))"

definition body_channels ::
  "relay_config \<Rightarrow> bytes \<Rightarrow> pad_state \<times> bool \<Rightarrow> (channel \<times> byte) list \<Rightarrow> ((pad_state \<times> bool) \<times> bytes) option" where
  "body_channels cfg uuid r xs =
     (if use_vision cfg then channel_read cfg uuid r xs
      else if list_all (\<lambda>x. fst x = Upstream) xs then Some (r, map snd xs) else None)"

definition peer_reads :: "relay_config \<Rightarrow> bytes \<Rightarrow> bytes \<Rightarrow> bytes" where
  "peer_reads cfg uuid body = (if use_vision cfg then snd (pad_run uuid (Matching 0) body) else body)"

text \<open>The whole upload as such a server reads it: the request through the stack, then the body.\<close>

definition server_reads :: "relay_config \<Rightarrow> (channel \<times> bytes) list \<Rightarrow> (bytes \<times> string \<times> nat \<times> target \<times> bytes) option" where
  "server_reads cfg w =
     (case vless_reader (wire_bytes w) of
        None \<Rightarrow> None
      | Some (uuid, flow, port, target, body) \<Rightarrow>
          let n = length (wire_bytes w) - length body
          in if list_all (\<lambda>x. fst x = Upstream) (take n (tagged w))
             then map_option (\<lambda>(r, sent_plain). (uuid, flow, port, target, sent_plain))
                    (body_channels cfg uuid (Matching 0, False) (drop n (tagged w)))
             else None)"

lemma wire_simps [simp]:
  "wire_bytes [] = []" "wire_bytes (v @ w) = wire_bytes v @ wire_bytes w" "wire_bytes [(ch, xs)] = xs"
  "tagged [] = []" "tagged (v @ w) = tagged v @ tagged w" "tagged [(ch, xs)] = map (Pair ch) xs"
  "map snd (tagged w) = wire_bytes w"
  by (auto simp: wire_bytes_def tagged_def map_concat comp_def split_def)

lemma channel_read_append:
  "channel_read cfg uuid r (xs @ ys) =
     (case channel_read cfg uuid r xs of
        None \<Rightarrow> None
      | Some (r1, o1) \<Rightarrow> map_option (\<lambda>(r2, o2). (r2, o1 @ o2)) (channel_read cfg uuid r1 ys))"
proof (induction cfg uuid r xs rule: channel_read.induct)
  case (1 cfg uuid r)
  then show ?case by (cases "channel_read cfg uuid r ys") auto
next
  case (2 cfg uuid a switched ch b rest)
  obtain a1 o1 where p: "pad_step uuid a b = (a1, o1)" by fastforce
  show ?case using 2 [OF _ p [symmetric]]
    by (auto simp: p option.map_comp comp_def split_def split: option.split)
qed

text \<open>
  What reached a server of what was read from the client: everything, or, when the server has stopped
  receiving, all but the end of the last read.
\<close>

definition delivered :: "nat option \<Rightarrow> bytes \<Rightarrow> bytes \<Rightarrow> bool" where
  "delivered last_read reached sent_plain \<longleftrightarrow>
     (case last_read of None \<Rightarrow> reached = sent_plain
      | Some n \<Rightarrow> prefix reached sent_plain \<and> length sent_plain \<le> length reached + n)"

text \<open>
  What a reader of the upload promises: it starts with nothing, and reading goes on where it stopped.  What
  was written so far is the request and a body that the reader reads.
\<close>

locale upload_reader =
  fixes run :: "'s \<Rightarrow> 'x list \<Rightarrow> ('s \<times> bytes) option"
  assumes run_nil: "run r [] = Some (r, [])"
    and run_append: "run r (xs @ ys) =
      (case run r xs of None \<Rightarrow> None | Some (r1, o1) \<Rightarrow> map_option (\<lambda>(r2, o2). (r2, o1 @ o2)) (run r1 ys))"
begin

definition holds :: "'s \<Rightarrow> 'x list \<Rightarrow> 'x list \<Rightarrow> bytes \<Rightarrow> nat option \<Rightarrow> 's \<Rightarrow> bool" where
  "holds start req wire sent_plain last_read r \<longleftrightarrow>
     (\<exists>body r' reached. wire = req @ body \<and> run start body = Some (r', reached) \<and> delivered last_read reached sent_plain \<and>
        (last_read = None \<longrightarrow> r' = r))"

lemma holds_start: "run start body = Some (r, sent_plain) \<Longrightarrow> holds start req (req @ body) sent_plain None r"
  by (auto simp: holds_def delivered_def)

lemma holds_write:
  assumes "holds start req wire sent_plain None r" and "run r ys = Some (r', xs)"
  shows "holds start req (wire @ ys) (sent_plain @ xs) None r'"
proof -
  obtain body where "wire = req @ body" "run start body = Some (r, sent_plain)" using assms(1) by (auto simp: holds_def delivered_def)
  then have "wire @ ys = req @ (body @ ys)" "run start (body @ ys) = Some (r', sent_plain @ xs)"
    using assms(2) by (simp_all add: run_append [of start body ys])
  then show ?thesis using holds_start [of start "body @ ys" r' "sent_plain @ xs" req] by simp
qed

lemma run_prefix:
  assumes "run r (ys @ zs) = Some (r', xs)"
  obtains r1 o1 where "run r ys = Some (r1, o1)" "prefix o1 xs"
proof (cases "run r ys")
  case None
  then show thesis using assms run_append [of r ys zs] by simp
next
  case (Some p)
  obtain r1 o1 where p: "p = (r1, o1)" by fastforce
  then have "prefix o1 xs" using assms Some run_append [of r ys zs] by (cases "run r1 zs") auto
  then show thesis using that Some p by blast
qed

lemma holds_stop:
  assumes "holds start req wire sent_plain None r" and "run r (ys @ zs) = Some (r', xs)"
  shows "holds start req (wire @ ys) (sent_plain @ xs) (Some (length xs)) r''"
proof -
  obtain body where b: "wire = req @ body" "run start body = Some (r, sent_plain)" using assms(1) by (auto simp: holds_def delivered_def)
  obtain r1 o1 where o: "run r ys = Some (r1, o1)" "prefix o1 xs" by (rule run_prefix [OF assms(2)])
  have "run start (body @ ys) = Some (r1, sent_plain @ o1)" using b(2) o(1) run_append [of start body ys] by simp
  moreover have "delivered (Some (length xs)) (sent_plain @ o1) (sent_plain @ xs)" using o(2) by (simp add: delivered_def)
  ultimately show ?thesis using b(1) unfolding holds_def by fastforce
qed

end

interpretation plain_up: upload_reader "body_run cfg uuid" for cfg uuid
  by unfold_locales (auto simp: body_run_def pad_run_append split: prod.split)

interpretation channel_up: upload_reader "body_channels cfg uuid" for cfg uuid
  by unfold_locales (auto simp: body_channels_def channel_read_append split: option.split)

text \<open>A block through the stack: the reader switches with its last byte, and only after the direct command.\<close>

lemma channel_read_quiet:
  "fst (pad_run uuid a xs) \<noteq> Raw \<Longrightarrow>
   channel_read cfg uuid (a, False) (map (Pair Upstream) xs) = Some ((fst (pad_run uuid a xs), False), snd (pad_run uuid a xs))"
proof (induction xs arbitrary: a)
  case (Cons b xs)
  obtain a1 o1 where p: "pad_step uuid a b = (a1, o1)" by fastforce
  have "fst (pad_run uuid a1 xs) \<noteq> Raw" using Cons.prems by (simp add: p split: prod.split_asm)
  moreover from this have "a1 \<noteq> Raw" by auto
  ultimately show ?case using Cons.IH [of a1] by (simp add: p direct_step_def split: prod.split)
qed simp

lemma channel_read_content:
  "length xs = ct + pd \<Longrightarrow> 0 < ct + pd \<Longrightarrow> cmd = CMD_CONTINUE \<or> cmd = CMD_END \<or> cmd = CMD_DIRECT \<Longrightarrow>
   channel_read cfg uuid (Content cmd ct pd, False) (map (Pair Upstream) xs) = Some ((after_block cmd, cmd = CMD_DIRECT), take ct xs)"
proof (induction xs arbitrary: ct pd)
  case (Cons b xs)
  show ?case
  proof (cases "length xs = 0")
    case True
    then have "ct = 1 \<and> pd = 0 \<or> ct = 0 \<and> pd = 1" using Cons.prems(1) by auto
    then show ?thesis using True Cons.prems(3) by (auto simp: direct_step_def enter_block_def after_block_def)
  next
    case False
    then have "pad_step uuid (Content cmd ct pd) b = (if ct > 0 then (Content cmd (ct - 1) pd, [b]) else (Content cmd 0 (pd - 1), []))"
      using Cons.prems(1) by (auto simp: enter_block_def)
    then show ?thesis using Cons.IH [of "ct - 1" pd] Cons.IH [of 0 "pd - 1"] Cons.prems False
      by (cases ct) (auto simp: direct_step_def)
  qed
qed simp

lemma channel_read_block:
  assumes "pad_run uuid a pre = (Header 5 0 0 0, [])" and "length content \<le> 65535" and "length pad \<le> 65535" and "content \<noteq> []"
    and "cmd = CMD_CONTINUE \<or> cmd = CMD_END \<or> cmd = CMD_DIRECT"
  shows "channel_read cfg uuid (a, False)
      (map (Pair Upstream) (pre @ [cmd] @ be16 (length content) @ be16 (length pad) @ content @ pad)) =
    Some ((after_block cmd, cmd = CMD_DIRECT), content)"
proof -
  let ?head = "pre @ [cmd] @ be16 (length content) @ be16 (length pad)"
  let ?a = "Content cmd (length content) (length pad)"
  have "pad_run uuid (Header 5 0 0 0) ([cmd] @ be16 (length content) @ be16 (length pad)) = (?a, [])"
    using pad_run_header [OF assms(2,3), of uuid cmd] assms(4) by (simp add: enter_block_def)
  then have "pad_run uuid a ?head = (?a, [])" using assms(1) by (simp add: pad_run_append)
  then have "channel_read cfg uuid (a, False) (map (Pair Upstream) ?head) = Some ((?a, False), [])"
    using channel_read_quiet [of uuid a ?head cfg] by simp
  moreover have "channel_read cfg uuid (?a, False) (map (Pair Upstream) (content @ pad)) = Some ((after_block cmd, cmd = CMD_DIRECT), content)"
    using channel_read_content [of "content @ pad" "length content" "length pad" cmd] assms(4,5) by simp
  ultimately show ?thesis
    using channel_read_append [of cfg uuid "(a, False)" "map (Pair Upstream) ?head" "map (Pair Upstream) (content @ pad)"] by simp
qed

lemma channel_read_raw:
  "channel_read cfg uuid (Raw, switched) (map (Pair (if switched then raw_channel cfg else Upstream)) xs) = Some ((Raw, switched), xs)"
  by (induction xs) (simp_all add: direct_step_def)

lemma channel_read_payload:
  assumes "vision_wrap_payload_buffer got rnd ctx xs out s k = Some (True, ctx', out', s', k')" and "length xs \<le> 65535"
    and "w_uuid ctx = uuid" and "length uuid = 16" and "random_ok rnd" and "padding_active ctx" and "\<not> direct_sent ctx"
  shows "channel_read cfg uuid (wrap_state ctx, direct_sent ctx) (map (Pair Upstream) (rb_data out')) =
    Some ((wrap_state ctx', direct_sent ctx'), xs)"
proof -
  obtain out1 s1 where cl: "core_relay_buffer_clear s out = (out1, s1)" by fastforce
  have w: "vision_wrap_chunk got rnd ctx xs out1 s1 k = Some (True, ctx', out', s', k')"
    using assms(1,2) by (simp add: vision_wrap_payload_buffer_def cl)
  show ?thesis
  proof (cases "xs = []")
    case True
    then show ?thesis using w clear_data [OF cl] by (auto simp: vision_wrap_chunk_def)
  next
    case False
    obtain ctx1 where o: "vision_observe_tls ctx False xs = Some ctx1"
      using w False assms(2,6) by (auto simp: vision_wrap_chunk_def split: option.split_asm)
    note keep = vision_observe_tls_keeps [OF o]
    obtain cmd n where c: "chunk_command ctx ctx1 = (cmd, n)" by fastforce
    obtain ok ctx2 out2 s2 k2 where b: "vision_build_block got rnd ctx1 cmd xs (length xs < 900) out1 s1 k = (ok, ctx2, out2, s2, k2)"
      by (metis prod.exhaust)
    have ok: ok and c': "\<exists>left. ctx' = ctx2\<lparr>packets_left := left, padding_active := (padding_active ctx2 \<and> cmd = CMD_CONTINUE),
        direct_sent := (direct_sent ctx2 \<or> cmd = CMD_DIRECT)\<rparr>" and o': "out' = out2"
      using w False assms(2,6) o c b by (auto simp: vision_wrap_chunk_def Let_def split: bool.split_asm)
    have known: "cmd = CMD_CONTINUE \<or> cmd = CMD_END \<or> cmd = CMD_DIRECT"
      using c by (auto simp: chunk_command_def Let_def split: if_split_asm)
    define pre where "pre = (if uuid_sent ctx1 then [] else w_uuid ctx1)"
    obtain pad where pad: "ctx2 = ctx1\<lparr>uuid_sent := True\<rparr>" "length pad \<le> 65535"
      "rb_data out2 = pre @ [cmd] @ be16 (length xs) @ be16 (length pad) @ xs @ pad"
      unfolding pre_def by (rule vision_build_block_bytes [OF _ assms(5), of got ctx1 cmd xs "length xs < 900" out1 s1 k ctx2 out2 s2 k2])
        (use b ok in simp_all)
    have run: "pad_run uuid (wrap_state ctx) pre = (Header 5 0 0 0, [])"
      using pad_run_matching [OF assms(4), of 0 uuid] assms(3,4,6) keep by (simp add: wrap_state_def pre_def)
    have "after_block cmd = wrap_state ctx'" "direct_sent ctx' = (cmd = CMD_DIRECT)"
      using c' pad(1) keep known assms(6,7) by (auto simp: wrap_state_def after_block_def)
    then show ?thesis using channel_read_block [OF run assms(2) pad(2) False known] assms(7) by (simp add: o' pad(3))
  qed
qed

section \<open>A connection as a state machine\<close>

text \<open>
  What passed so far: the bytes read from the client, the bytes written to the server and the channels they
  were written to, the longest single read from the client, the length of the read that found that the
  server has stopped receiving, the bytes read from the server and the bytes sent to the client.
\<close>

record traffic =
  up_plain :: bytes
  up_wire :: "(channel \<times> bytes) list"
  up_largest :: nat
  up_stopped :: "nat option"
  down_wire :: bytes
  down_plain :: bytes

text \<open>
  The runs of a connection: the first packet, then uploads, downloads and sends in any order.  The upload may
  find that the server has stopped receiving, and the client may close its side; after either nothing more is
  read from the client, and the other direction goes on.  Making room, trimming, credits and the budgets of
  other connections change the memory between the steps, but not the bytes that wait in the output.
\<close>

inductive relay_run ::
  "(nat \<Rightarrow> bool) \<Rightarrow> random \<Rightarrow> inet \<Rightarrow> relay_config \<Rightarrow> string option \<Rightarrow> bytes \<Rightarrow> string \<Rightarrow> string \<Rightarrow> 16 word \<Rightarrow> relay \<Rightarrow> traffic \<Rightarrow> bool"
  for got rnd net cfg env uuid flow host port
where
  start: "rb_data (rm_output m) = [] \<Longrightarrow>
     first_packet got rnd net cfg uuid flow host port (relay_start cfg env uuid m s k) payload = Some (ws, st) \<Longrightarrow>
     relay_run got rnd net cfg env uuid flow host port st
       \<lparr>up_plain = payload, up_wire = map (Pair Upstream) ws, up_largest = length payload, up_stopped = None, down_wire = [], down_plain = []\<rparr>"
| upload: "relay_run got rnd net cfg env uuid flow host port st t \<Longrightarrow> \<not> client_eof st \<Longrightarrow>
     relay_upload got rnd wr cfg st xs = Upload_Sent st' sends \<Longrightarrow>
     relay_run got rnd net cfg env uuid flow host port st'
       (t\<lparr>up_plain := up_plain t @ xs, up_wire := up_wire t @ sends, up_largest := max (up_largest t) (length xs)\<rparr>)"
| stopped: "relay_run got rnd net cfg env uuid flow host port st t \<Longrightarrow> \<not> client_eof st \<Longrightarrow>
     relay_upload got rnd wr cfg st xs = Upload_Closed st' sends \<Longrightarrow>
     relay_run got rnd net cfg env uuid flow host port st'
       (t\<lparr>up_plain := up_plain t @ xs, up_wire := up_wire t @ sends, up_largest := max (up_largest t) (length xs), up_stopped := Some (length xs)\<rparr>)"
| closed: "relay_run got rnd net cfg env uuid flow host port st t \<Longrightarrow>
     relay_run got rnd net cfg env uuid flow host port (st\<lparr>client_eof := True\<rparr>) t"
| download: "relay_run got rnd net cfg env uuid flow host port st t \<Longrightarrow> relay_download got cfg st xs = Relayed st' \<Longrightarrow>
     relay_run got rnd net cfg env uuid flow host port st' (t\<lparr>down_wire := down_wire t @ xs\<rparr>)"
| sent: "relay_run got rnd net cfg env uuid flow host port st t \<Longrightarrow> n \<le> length (outd st) \<Longrightarrow>
     relay_run got rnd net cfg env uuid flow host port (relay_sent st n) (t\<lparr>down_plain := down_plain t @ take n (outd st)\<rparr>)"
| memory: "relay_run got rnd net cfg env uuid flow host port st t \<Longrightarrow> rb_data (rm_output m) = outd st \<Longrightarrow>
     relay_run got rnd net cfg env uuid flow host port (st\<lparr>r_memory := m, r_store := s\<rparr>) t"

text \<open>The switches of the upload agree with the commands that were sent.\<close>

definition flags_ok :: "relay_config \<Rightarrow> relay \<Rightarrow> bool" where
  "flags_ok cfg st \<longleftrightarrow> direct_ends (vwrap st) \<and>
     (upstream_direct st \<longrightarrow> use_vision cfg \<and> direct_sent (vwrap st) \<and> \<not> encrypted cfg \<and> allow_raw_vision cfg) \<and>
     (upstream_encryption_direct st \<longrightarrow> use_vision cfg \<and> direct_sent (vwrap st) \<and> encrypted cfg) \<and>
     (use_vision cfg \<and> direct_sent (vwrap st) \<longrightarrow>
        (encrypted cfg \<longrightarrow> upstream_encryption_direct st) \<and> (\<not> encrypted cfg \<and> allow_raw_vision cfg \<longrightarrow> upstream_direct st))"

definition up_inv :: "relay_config \<Rightarrow> bytes \<Rightarrow> bytes \<Rightarrow> relay \<Rightarrow> traffic \<Rightarrow> bool" where
  "up_inv cfg uuid req st t \<longleftrightarrow>
     plain_up.holds cfg uuid (Matching 0) req (wire_bytes (up_wire t)) (up_plain t) (up_stopped t) (wrap_state (vwrap st)) \<and>
     (up_largest t \<le> 65535 \<longrightarrow>
        channel_up.holds cfg uuid (Matching 0, False) (map (Pair Upstream) req) (tagged (up_wire t)) (up_plain t) (up_stopped t)
          (wrap_state (vwrap st), direct_sent (vwrap st))) \<and>
     w_uuid (vwrap st) = uuid \<and> (up_stopped t \<noteq> None \<longrightarrow> client_eof st) \<and> (up_stopped t = None \<longrightarrow> flags_ok cfg st)"

text \<open>
  One upload: the bytes it means to write and the channel, what a server reads in them, and how much of them
  is written.
\<close>

definition upload_effect :: "relay_config \<Rightarrow> bytes \<Rightarrow> relay \<Rightarrow> bytes \<Rightarrow> relay \<Rightarrow> channel \<Rightarrow> bytes \<Rightarrow> bool" where
  "upload_effect cfg uuid st xs st' ch data \<longleftrightarrow> w_uuid (vwrap st') = uuid \<and>
     body_run cfg uuid (wrap_state (vwrap st)) data = Some (wrap_state (vwrap st'), xs) \<and>
     (length xs \<le> 65535 \<longrightarrow> body_channels cfg uuid (wrap_state (vwrap st), direct_sent (vwrap st)) (map (Pair ch) data) =
        Some ((wrap_state (vwrap st'), direct_sent (vwrap st')), xs))"

definition upload_wrote :: "relay_config \<Rightarrow> upload_result \<Rightarrow> relay \<Rightarrow> channel \<Rightarrow> bytes \<Rightarrow> bool" where
  "upload_wrote cfg res st' ch data \<longleftrightarrow>
     (case res of
        Upload_Break \<Rightarrow> True
      | Upload_Sent st1 sends \<Rightarrow> st1 = st' \<and> wire_bytes sends = data \<and> tagged sends = map (Pair ch) data \<and> flags_ok cfg st'
      | Upload_Closed st1 sends \<Rightarrow> st1 = st' \<and> client_eof st' \<and>
          (\<exists>n. wire_bytes sends = take n data \<and> tagged sends = map (Pair ch) (take n data)))"

lemma upload_wrapped_effect:
  assumes "flags_ok cfg st" and "w_uuid (vwrap st) = uuid" and "length uuid = 16" and "random_ok rnd"
    and "use_vision cfg" and "padding_active (vwrap st)"
  shows "upload_wrapped got rnd wr cfg st xs = Upload_Break \<or>
    (\<exists>st' ch data. upload_effect cfg uuid st xs st' ch data \<and> upload_wrote cfg (upload_wrapped got rnd wr cfg st xs) st' ch data)"
proof (cases "upload_wrapped got rnd wr cfg st xs = Upload_Break")
  case False
  have flags: "\<not> direct_sent (vwrap st)" "\<not> upstream_direct st" "\<not> upstream_encryption_direct st"
    using assms(1,6) unfolding flags_ok_def direct_ends_def by blast+
  obtain w buf s1 k1 where p: "vision_wrap_payload_buffer got rnd (vwrap st) xs (wrapped (r_memory st)) (r_store st) (r_random st) =
      Some (True, w, buf, s1, k1)"
    using False by (auto simp: upload_wrapped_def split: option.split_asm prod.split_asm bool.split_asm)
  obtain buf1 s2 where cl: "core_relay_buffer_clear s1 buf = (buf1, s2)" by fastforce
  let ?data = "rb_data buf"
  define st1 where "st1 = st\<lparr>r_memory := (r_memory st)\<lparr>wrapped := buf1\<rparr>, r_store := s2, r_random := k1, vwrap := w\<rparr>"
  define result where "result = (if ?data \<noteq> [] then wr Upstream ?data else Written)"
  define sent_st where "sent_st = (if direct_sent w then (if encrypted cfg then st1\<lparr>upstream_encryption_direct := True\<rparr>
      else if allow_raw_vision cfg then st1\<lparr>upstream_direct := True\<rparr> else st1) else st1)"
  have res: "upload_wrapped got rnd wr cfg st xs = (case result of
      Stopped n \<Rightarrow> Upload_Closed (st1\<lparr>client_eof := True\<rparr>) [(Upstream, take n ?data)] | Failed \<Rightarrow> Upload_Break
    | Written \<Rightarrow> Upload_Sent sent_st (if ?data \<noteq> [] then [(Upstream, ?data)] else []))"
    unfolding upload_wrapped_def p option.case prod.case bool.case Let_def cl result_def sent_st_def st1_def
    by (simp only: flags(3) if_False)
  have run: "w_uuid w = uuid" "pad_run uuid (wrap_state (vwrap st)) ?data = (wrap_state w, xs)"
    using vision_wrap_payload_run [OF p assms(2-4)] by simp_all
  have eff: "upload_effect cfg uuid st xs st' Upstream ?data" if "vwrap st' = w" for st'
    using run channel_read_payload [OF p _ assms(2-4,6) flags(1), of cfg] that assms(5)
    by (simp add: upload_effect_def body_run_def body_channels_def)
  have "direct_ends w" using wrap_payload_direct_ends [OF p] assms(1) by (simp add: flags_ok_def)
  then have ok: "flags_ok cfg sent_st" using flags assms(5)
    by (cases "direct_sent w"; cases "encrypted cfg"; cases "allow_raw_vision cfg") (simp_all add: flags_ok_def sent_st_def st1_def)
  have vw: "vwrap sent_st = w" "vwrap (st1\<lparr>client_eof := True\<rparr>) = w" by (simp_all add: sent_st_def st1_def)
  show ?thesis
  proof (cases result)
    case Written
    then have "upload_wrote cfg (upload_wrapped got rnd wr cfg st xs) sent_st Upstream ?data" using res ok by (simp add: upload_wrote_def)
    then show ?thesis using eff [OF vw(1)] by blast
  next
    case (Stopped n)
    then have "upload_wrote cfg (upload_wrapped got rnd wr cfg st xs) (st1\<lparr>client_eof := True\<rparr>) Upstream ?data"
      using res by (auto simp: upload_wrote_def)
    then show ?thesis using eff [OF vw(2)] by blast
  qed (use res False in simp)
qed simp

lemma relay_upload_effect:
  assumes "flags_ok cfg st" and "w_uuid (vwrap st) = uuid" and "length uuid = 16" and "random_ok rnd"
  shows "relay_upload got rnd wr cfg st xs = Upload_Break \<or>
    (\<exists>st' ch data. upload_effect cfg uuid st xs st' ch data \<and> upload_wrote cfg (relay_upload got rnd wr cfg st xs) st' ch data)"
proof (cases "use_vision cfg \<and> padding_active (vwrap st)")
  case True
  then have "\<not> upstream_direct st" using assms(1) unfolding flags_ok_def direct_ends_def by blast
  then show ?thesis using upload_wrapped_effect [OF assms] True by (simp add: relay_upload_def)
next
  case False
  define ch where "ch = (if upstream_direct st then Tls_Raw else if upstream_encryption_direct st then Encryption_Raw else Upstream)"
  have ch: "ch = (if use_vision cfg \<and> direct_sent (vwrap st) then raw_channel cfg else Upstream)"
  proof (cases "use_vision cfg \<and> direct_sent (vwrap st)")
    case True
    then have "encrypted cfg \<longrightarrow> upstream_encryption_direct st \<and> \<not> upstream_direct st" "\<not> encrypted cfg \<longrightarrow> \<not> upstream_encryption_direct st"
      "\<not> encrypted cfg \<longrightarrow> upstream_direct st = allow_raw_vision cfg" using assms(1) unfolding flags_ok_def by blast+
    then show ?thesis using True by (cases "encrypted cfg") (simp_all add: ch_def raw_channel_def)
  next
    case False
    then have "\<not> upstream_direct st" "\<not> upstream_encryption_direct st" using assms(1) unfolding flags_ok_def by blast+
    then show ?thesis using False by (auto simp: ch_def)
  qed
  have eff: "upload_effect cfg uuid st xs st' ch xs" if "vwrap st' = vwrap st" for st'
  proof (cases "use_vision cfg")
    case True
    then have "wrap_state (vwrap st) = Raw" using False by (simp add: wrap_state_def)
    then show ?thesis using that assms(2) True channel_read_raw [of cfg uuid "direct_sent (vwrap st)" xs]
      by (simp add: upload_effect_def body_run_def body_channels_def ch)
  next
    case False
    then show ?thesis using that assms(2) by (simp add: upload_effect_def body_run_def body_channels_def ch list_all_iff comp_def)
  qed
  have res: "relay_upload got rnd wr cfg st xs \<in> {Upload_Break, Upload_Sent st [(ch, xs)]} \<or>
      (\<exists>n. relay_upload got rnd wr cfg st xs = Upload_Closed (st\<lparr>client_eof := True\<rparr>) [(ch, take n xs)])"
    using False by (auto simp: relay_upload_def ch_def Let_def split: written.split)
  moreover have "upload_wrote cfg (Upload_Sent st [(ch, xs)]) st ch xs" using assms(1) by (simp add: upload_wrote_def)
  moreover have "upload_wrote cfg (Upload_Closed (st\<lparr>client_eof := True\<rparr>) [(ch, take n xs)]) (st\<lparr>client_eof := True\<rparr>) ch xs" for n
    by (auto simp: upload_wrote_def)
  ultimately show ?thesis using eff [of st] eff [of "st\<lparr>client_eof := True\<rparr>"] by (auto simp del: upload_result.inject) blast+
qed

lemma relay_upload_up_inv:
  assumes inv: "up_inv cfg uuid req st t" and "length uuid = 16" and "random_ok rnd" and "\<not> client_eof st"
  shows "relay_upload got rnd wr cfg st xs = Upload_Sent st' sends \<Longrightarrow>
      up_inv cfg uuid req st' (t\<lparr>up_plain := up_plain t @ xs, up_wire := up_wire t @ sends, up_largest := max (up_largest t) (length xs)\<rparr>)"
    and "relay_upload got rnd wr cfg st xs = Upload_Closed st' sends \<Longrightarrow>
      up_inv cfg uuid req st' (t\<lparr>up_plain := up_plain t @ xs, up_wire := up_wire t @ sends,
        up_largest := max (up_largest t) (length xs), up_stopped := Some (length xs)\<rparr>)"
proof -
  have live: "up_stopped t = None" and flags: "flags_ok cfg st" and uu: "w_uuid (vwrap st) = uuid"
    using inv assms(4) by (auto simp: up_inv_def)
  have h: "plain_up.holds cfg uuid (Matching 0) req (wire_bytes (up_wire t)) (up_plain t) None (wrap_state (vwrap st))"
    "up_largest t \<le> 65535 \<Longrightarrow> channel_up.holds cfg uuid (Matching 0, False) (map (Pair Upstream) req) (tagged (up_wire t)) (up_plain t) None
       (wrap_state (vwrap st), direct_sent (vwrap st))"
    using inv live by (auto simp: up_inv_def)
  note effect = relay_upload_effect [OF flags uu assms(2,3), of got wr xs]
  { assume r: "relay_upload got rnd wr cfg st xs = Upload_Sent st' sends"
    then obtain ch data where e: "upload_effect cfg uuid st xs st' ch data" and w: "upload_wrote cfg (Upload_Sent st' sends) st' ch data"
      using effect by (auto simp: upload_wrote_def)
    note e' = e [unfolded upload_effect_def] and w' = w [unfolded upload_wrote_def upload_result.case]
    have "plain_up.holds cfg uuid (Matching 0) req (wire_bytes (up_wire t @ sends)) (up_plain t @ xs) None (wrap_state (vwrap st'))"
      using plain_up.holds_write [OF h(1)] e' w' by simp
    moreover have "channel_up.holds cfg uuid (Matching 0, False) (map (Pair Upstream) req) (tagged (up_wire t @ sends)) (up_plain t @ xs) None
        (wrap_state (vwrap st'), direct_sent (vwrap st'))" if "up_largest t \<le> 65535" "length xs \<le> 65535"
      using channel_up.holds_write [OF h(2) [OF that(1)]] e' w' that(2) by simp
    ultimately show "up_inv cfg uuid req st' (t\<lparr>up_plain := up_plain t @ xs, up_wire := up_wire t @ sends,
        up_largest := max (up_largest t) (length xs)\<rparr>)"
      using live e' w' by (simp add: up_inv_def) }
  { assume r: "relay_upload got rnd wr cfg st xs = Upload_Closed st' sends"
    then obtain ch data where e: "upload_effect cfg uuid st xs st' ch data" and w: "upload_wrote cfg (Upload_Closed st' sends) st' ch data"
      using effect by (auto simp: upload_wrote_def)
    then obtain n where n: "wire_bytes sends = take n data" "tagged sends = map (Pair ch) (take n data)" "client_eof st'"
      by (auto simp: upload_wrote_def)
    note e' = e [unfolded upload_effect_def]
    have "plain_up.holds cfg uuid (Matching 0) req (wire_bytes (up_wire t @ sends)) (up_plain t @ xs) (Some (length xs)) (wrap_state (vwrap st'))"
      using plain_up.holds_stop [OF h(1), of "take n data" "drop n data"] e' n(1) by simp
    moreover have "channel_up.holds cfg uuid (Matching 0, False) (map (Pair Upstream) req) (tagged (up_wire t @ sends)) (up_plain t @ xs) (Some (length xs))
        (wrap_state (vwrap st'), direct_sent (vwrap st'))" if "up_largest t \<le> 65535" "length xs \<le> 65535"
      using channel_up.holds_stop [OF h(2) [OF that(1)], of "map (Pair ch) (take n data)" "map (Pair ch) (drop n data)"] e' n(2) that(2)
      by (simp flip: map_append)
    ultimately show "up_inv cfg uuid req st' (t\<lparr>up_plain := up_plain t @ xs, up_wire := up_wire t @ sends,
        up_largest := max (up_largest t) (length xs), up_stopped := Some (length xs)\<rparr>)"
      using e' n(3) by (simp add: up_inv_def) }
qed

lemma up_inv_cong:
  assumes "up_inv cfg uuid req st t" and "wrap_state (vwrap st') = wrap_state (vwrap st)" and "direct_sent (vwrap st') = direct_sent (vwrap st)"
    and "w_uuid (vwrap st') = w_uuid (vwrap st)" and "direct_ends (vwrap st) \<longrightarrow> direct_ends (vwrap st')"
    and "upstream_direct st' = upstream_direct st" and "upstream_encryption_direct st' = upstream_encryption_direct st"
    and "client_eof st \<longrightarrow> client_eof st'"
    and "up_wire t' = up_wire t" "up_plain t' = up_plain t" "up_largest t' = up_largest t" "up_stopped t' = up_stopped t"
  shows "up_inv cfg uuid req st' t'"
  using assms(1,5,8) unfolding up_inv_def flags_ok_def assms(2-4,6,7,9-12) by blast

lemma wire_first [simp]:
  "wire_bytes (map (Pair ch) ws) = concat ws" "tagged (map (Pair ch) ws) = map (Pair ch) (concat ws)"
  by (simp_all add: wire_bytes_def tagged_def comp_def map_concat)

lemma first_wrap_reads:
  assumes fw: "first_wrap got rnd (relay_start cfg env uuid m s k) payload = Some (True, w, buf, s1, k1)"
    and "length uuid = 16" and "random_ok rnd"
  shows "w_uuid w = uuid \<and> before_hello w \<and> direct_ends w \<and> pad_run uuid (Matching 0) (rb_data buf) = (wrap_state w, payload) \<and>
    (length payload \<le> 65535 \<longrightarrow>
       channel_read cfg uuid (Matching 0, False) (map (Pair Upstream) (rb_data buf)) = Some ((wrap_state w, False), payload))"
proof -
  let ?w = "vision_wrap_init env uuid"
  have init: "w_uuid ?w = uuid" "wrap_state ?w = Matching 0" "direct_ends ?w" "before_hello ?w" "padding_active ?w" "\<not> direct_sent ?w"
    by (simp_all add: vision_wrap_init_def wrap_state_def direct_ends_def before_hello_def)
  show ?thesis
  proof (cases "payload = []")
    case True
    then have "vision_wrap_bootstrap_buffer got rnd ?w (wrapped m) s k = (True, w, buf, s1, k1)"
      using fw by (simp add: first_wrap_def relay_start_def)
    from wrap_bootstrap_run [OF this init(1) assms(2,3)] init
    have b: "w_uuid w = uuid" "before_hello w" "direct_ends w" "pad_run uuid (Matching 0) (rb_data buf) = (wrap_state w, [])" "wrap_state w \<noteq> Raw"
      by (simp_all add: wrap_state_def)
    then show ?thesis using channel_read_quiet [of uuid "Matching 0" "rb_data buf" cfg] True by simp
  next
    case False
    then have p: "vision_wrap_payload_buffer got rnd ?w payload (wrapped m) s k = Some (True, w, buf, s1, k1)"
      using fw by (simp add: first_wrap_def relay_start_def)
    have "before_hello w" by (rule wrap_payload_keep [where P = before_hello, OF wrap_chunk_before_hello p init(4)])
    moreover from this have "\<not> direct_sent w" by (simp add: before_hello_def)
    ultimately show ?thesis
      using vision_wrap_payload_run [OF p init(1) assms(2,3)] wrap_payload_direct_ends [OF p init(3)] init(2,6)
        channel_read_payload [OF p _ init(1) assms(2,3) init(5,6), of cfg] by simp
  qed
qed

lemma first_packet_up_inv:
  assumes "first_packet got rnd net cfg uuid flow host port (relay_start cfg env uuid m s k) payload = Some (ws, st)"
    and "length uuid = 16" and "random_ok rnd"
  shows "\<exists>req. vless_build_request net 2048 uuid flow host port = Some req \<and>
    up_inv cfg uuid req st
      \<lparr>up_plain = payload, up_wire = map (Pair Upstream) ws, up_largest = length payload, up_stopped = None, down_wire = [], down_plain = []\<rparr>"
proof -
  let ?st = "relay_start cfg env uuid m s k"
  let ?w = "vision_wrap_init env uuid"
  obtain req where req: "vless_build_request net 2048 uuid flow host port = Some req"
    using assms(1) by (auto simp: first_packet_def split: option.split_asm)
  show ?thesis
  proof (cases "use_vision cfg")
    case True
    obtain w buf s1 k1 where fw: "first_wrap got rnd ?st payload = Some (True, w, buf, s1, k1)"
      and st: "vwrap st = w" "\<not> upstream_direct st" "\<not> upstream_encryption_direct st" and ws: "concat ws = req @ rb_data buf"
      using assms(1) True req
      by (auto simp: first_packet_def relay_start_def split: option.split_asm prod.split_asm bool.split_asm if_split_asm)
    note r = first_wrap_reads [OF fw assms(2,3)]
    have "\<not> direct_sent w" using r by (simp add: before_hello_def)
    moreover have "plain_up.holds cfg uuid (Matching 0) req (req @ rb_data buf) payload None (wrap_state w)"
      using r True by (intro plain_up.holds_start) (simp add: body_run_def)
    moreover have "channel_up.holds cfg uuid (Matching 0, False) (map (Pair Upstream) req) (map (Pair Upstream) req @ map (Pair Upstream) (rb_data buf))
        payload None (wrap_state w, False)" if "length payload \<le> 65535"
      using r True that by (intro channel_up.holds_start) (simp add: body_channels_def)
    ultimately show ?thesis using req st ws r by (simp add: up_inv_def flags_ok_def)
  next
    case False
    then have ws: "concat ws = req @ payload" and st: "vwrap st = ?w" "\<not> upstream_direct st" "\<not> upstream_encryption_direct st"
      using assms(1) req by (auto simp: first_packet_def relay_start_def split: if_split_asm prod.split_asm)
    have w: "w_uuid ?w = uuid" "wrap_state ?w = Matching 0" "direct_ends ?w" "\<not> direct_sent ?w"
      by (simp_all add: vision_wrap_init_def wrap_state_def direct_ends_def)
    have "plain_up.holds cfg uuid (Matching 0) req (req @ payload) payload None (Matching 0)"
      using False by (intro plain_up.holds_start) (simp add: body_run_def)
    moreover have "channel_up.holds cfg uuid (Matching 0, False) (map (Pair Upstream) req) (map (Pair Upstream) req @ map (Pair Upstream) payload)
        payload None (Matching 0, False)"
      using False by (intro channel_up.holds_start) (simp add: body_channels_def list_all_iff comp_def)
    ultimately show ?thesis using req st ws w False by (simp add: up_inv_def flags_ok_def)
  qed
qed

text \<open>
  The download: where the byte-at-a-time reader of the body stands (\<open>a\<close>), and that the unpadding context
  and the switches agree with it.
\<close>

definition at_state :: "bytes \<Rightarrow> relay \<Rightarrow> pad_state \<Rightarrow> bool" where
  "at_state uuid st a \<longleftrightarrow> unpad_at uuid (vunpad st) a \<and> fresh_header a \<and> (downstream_direct st \<or> raw_direct st \<longrightarrow> a = Raw)"

lemma observedE:
  assumes "observed st xs k = Relayed st'"
  obtains w where "vision_observe_tls (vwrap st) True xs = Some w" "k (st\<lparr>vwrap := w\<rparr>) = Relayed st'"
  using assms by (auto simp: observed_def split: option.split_asm)

lemma put_raw:
  assumes "at_state uuid st Raw" and "put_output (st\<lparr>vwrap := w, downstream_direct := d\<rparr>) xs = Relayed st'"
  shows "outd st' = outd st @ snd (pad_run uuid Raw xs) \<and> at_state uuid st' (fst (pad_run uuid Raw xs)) \<and>
    protocol_ready st' = protocol_ready st"
  using assms by (auto elim!: put_outputE simp: outd_def at_state_def fresh_header_def)

lemma download_padded_step:
  assumes "download_padded got cfg st xs = Relayed st'" and "at_state uuid st a" and "length uuid = 16"
    and "\<not> downstream_direct st" "\<not> (allow_raw_vision cfg \<and> raw_direct st)" and "fst (pad_run uuid a xs) \<noteq> Lost"
  shows "outd st' = outd st @ snd (pad_run uuid a xs) \<and> at_state uuid st' (fst (pad_run uuid a xs)) \<and>
    protocol_ready st' = protocol_ready st"
proof -
  obtain u pl switch s1 where f: "vision_unpad_feed_buffer got (vunpad st) xs (plain (r_memory st)) (r_store st) = Some (True, u, pl, switch, s1)"
    using assms(1) by (auto simp: download_padded_def split: option.split_asm prod.split_asm bool.split_asm)
  obtain pl1 s2 where cl: "core_relay_buffer_clear s1 pl = (pl1, s2)" by fastforce
  define sw where "sw = (\<lambda>st1 :: relay. let st2 = st1\<lparr>r_memory := (r_memory st1)\<lparr>plain := pl1\<rparr>, r_store := s2\<rparr>
      in if switch \<and> encrypted cfg then st2\<lparr>downstream_encryption_direct := True\<rparr>
         else if switch \<and> allow_raw_vision cfg then st2\<lparr>downstream_direct := True, raw_direct := True\<rparr> else st2)"
  have "observed (st\<lparr>vunpad := u\<rparr>) (rb_data pl) (\<lambda>st1. put_output (sw st1) (rb_data pl)) = Relayed st'"
    using assms(1) unfolding download_padded_def f option.case prod.case bool.case Let_def cl sw_def by (simp split: if_split_asm)
  then obtain w where w: "vision_observe_tls (vwrap st) True (rb_data pl) = Some w"
    and p: "put_output (sw (st\<lparr>vunpad := u, vwrap := w\<rparr>)) (rb_data pl) = Relayed st'" by (elim observedE) simp
  have at: "unpad_at uuid (vunpad st) a" "fresh_header a" using assms(2) by (simp_all add: at_state_def)
  have u: "unpad_at uuid u (fst (pad_run uuid a xs))" "rb_data pl = snd (pad_run uuid a xs)"
    using vision_unpad_feed_refines [OF at(1) assms(3,6), of got "plain (r_memory st)" "r_store st"] f by auto
  have raw: "fst (pad_run uuid a xs) = Raw" if switch
    using unpad_feed_direct [of got "vunpad st" xs] unpad_at_direct [OF u(1)] f that by auto
  have keep: "raw_direct st \<longrightarrow> fst (pad_run uuid a xs) = Raw" using assms(2) by (auto simp: at_state_def)
  have "outd (sw (st\<lparr>vunpad := u, vwrap := w\<rparr>)) = outd st" by (simp add: sw_def Let_def outd_def)
  moreover have "at_state uuid (sw (st\<lparr>vunpad := u, vwrap := w\<rparr>)) (fst (pad_run uuid a xs))"
    using u(1) raw keep assms(4) fresh_header_run [OF at(2), of uuid xs] by (cases switch) (auto simp: sw_def Let_def at_state_def)
  moreover have "protocol_ready (sw (st\<lparr>vunpad := u, vwrap := w\<rparr>)) = protocol_ready st" by (simp add: sw_def Let_def)
  ultimately show ?thesis using p u(2) by (elim put_outputE) (auto simp: outd_def at_state_def)
qed

lemma download_payload_vision:
  assumes "download_payload got cfg st xs = Relayed st'" and "use_vision cfg" and "at_state uuid st a" and "length uuid = 16"
    and "\<not> downstream_direct st" and "fst (pad_run uuid a xs) \<noteq> Lost"
  shows "outd st' = outd st @ snd (pad_run uuid a xs) \<and> at_state uuid st' (fst (pad_run uuid a xs)) \<and>
    protocol_ready st' = protocol_ready st"
proof -
  consider (raw) "allow_raw_vision cfg \<and> raw_direct st" | (over) "\<not> (allow_raw_vision cfg \<and> raw_direct st)" "vision_unpad_is_raw (vunpad st)"
    | (padded) "\<not> (allow_raw_vision cfg \<and> raw_direct st)" "\<not> vision_unpad_is_raw (vunpad st)" by blast
  then show ?thesis
  proof cases
    case raw
    then obtain w where w: "vision_observe_tls (vwrap st) True xs = Some w" "put_output (st\<lparr>vwrap := w, downstream_direct := True\<rparr>) xs = Relayed st'"
      using assms(1,2) by (auto simp: download_payload_def elim!: observedE)
    have a: "a = Raw" using assms(3) raw by (simp add: at_state_def)
    show ?thesis using put_raw [OF assms(3) [unfolded a] w(2)] w(1) a by auto
  next
    case over
    then obtain w where w: "vision_observe_tls (vwrap st) True xs = Some w" "put_output (st\<lparr>vwrap := w\<rparr>) xs = Relayed st'"
      using assms(1,2) by (auto simp: download_payload_def elim!: observedE)
    have a: "a = Raw" using unpad_at_raw over(2) assms(3) by (auto simp: at_state_def)
    have "st\<lparr>vwrap := w\<rparr> = st\<lparr>vwrap := w, downstream_direct := downstream_direct st\<rparr>" by simp
    then show ?thesis using put_raw [OF assms(3) [unfolded a], where w = w and d = "downstream_direct st" and xs = xs and st' = st'] w a by auto
  next
    case padded
    then have "download_padded got cfg st xs = Relayed st'" using assms(1,2) by (auto simp: download_payload_def split: if_split_asm)
    from download_padded_step [OF this assms(3,4,5) padded(1) assms(6)] show ?thesis .
  qed
qed

lemma download_payload_plain:
  assumes "download_payload got cfg st xs = Relayed st'" and "\<not> use_vision cfg"
  shows "outd st' = outd st @ xs \<and> protocol_ready st' = protocol_ready st"
  using assms by (auto simp: download_payload_def outd_def elim!: put_outputE)

text \<open>The body of the response, and what of it was passed on or waits in the output.\<close>

definition body_inv :: "relay_config \<Rightarrow> bytes \<Rightarrow> relay \<Rightarrow> traffic \<Rightarrow> bytes \<Rightarrow> bool" where
  "body_inv cfg uuid st t body \<longleftrightarrow>
     (if use_vision cfg
      then fst (pad_run uuid (Matching 0) body) \<noteq> Lost \<longrightarrow>
        down_plain t @ outd st = snd (pad_run uuid (Matching 0) body) \<and> at_state uuid st (fst (pad_run uuid (Matching 0) body))
      else down_plain t @ outd st = body)"

definition down_inv :: "relay_config \<Rightarrow> bytes \<Rightarrow> relay \<Rightarrow> traffic \<Rightarrow> bool" where
  "down_inv cfg uuid st t \<longleftrightarrow>
     (if protocol_ready st
      then \<exists>r body. vless_consume_response response_start (down_wire t) = Some (True, r, body) \<and> body_inv cfg uuid st t body
      else \<not> downstream_direct st \<and> response_open (r_response st) \<and>
        vless_consume_response response_start (down_wire t) = Some (False, r_response st, []) \<and>
        down_plain t @ outd st = [] \<and> at_state uuid st (Matching 0))"

lemma response_start_open: "response_open response_start"
  by (simp add: response_open_def response_start_def)

lemma body_inv_payload:
  assumes "body_inv cfg uuid st t body" and "download_payload got cfg st xs = Relayed st'" and "length uuid = 16" and "\<not> downstream_direct st"
  shows "body_inv cfg uuid st' (t\<lparr>down_wire := w\<rparr>) (body @ xs) \<and> protocol_ready st' = protocol_ready st"
proof (cases "use_vision cfg")
  case True
  show ?thesis
  proof (cases "fst (pad_run uuid (Matching 0) (body @ xs)) = Lost")
    case False
    obtain a o1 where a: "pad_run uuid (Matching 0) body = (a, o1)" by fastforce
    have run: "pad_run uuid (Matching 0) (body @ xs) = (fst (pad_run uuid a xs), o1 @ snd (pad_run uuid a xs))"
      by (simp add: pad_run_append a split: prod.split)
    have "a \<noteq> Lost" using pad_run_not_lost [OF False] a by simp
    then have at: "at_state uuid st a" "down_plain t @ outd st = o1" using assms(1) a True by (simp_all add: body_inv_def)
    have "fst (pad_run uuid a xs) \<noteq> Lost" using False run by simp
    from download_payload_vision [OF assms(2) True at(1) assms(3,4) this] show ?thesis using run at(2) True by (auto simp: body_inv_def)
  next
    case lost: True
    have "protocol_ready st' = protocol_ready st"
      using assms(2) by (auto simp: download_payload_def download_padded_def Let_def observed_def
          split: if_split_asm option.split_asm prod.split_asm bool.split_asm elim!: put_outputE)
    then show ?thesis using lost True by (simp add: body_inv_def)
  qed
next
  case False
  then show ?thesis using download_payload_plain [OF assms(2) False] assms(1) by (simp add: body_inv_def)
qed

lemma relay_download_down_inv:
  assumes inv: "down_inv cfg uuid st t" and d: "relay_download got cfg st xs = Relayed st'" and "length uuid = 16" and "vless cfg"
  shows "down_inv cfg uuid st' (t\<lparr>down_wire := down_wire t @ xs\<rparr>)"
proof (cases "protocol_ready st")
  case True
  then obtain r body where c: "vless_consume_response response_start (down_wire t) = Some (True, r, body)" and b: "body_inv cfg uuid st t body"
    using inv by (auto simp: down_inv_def)
  have c': "vless_consume_response response_start (down_wire t @ xs) = Some (True, r, body @ xs)"
    by (simp add: consume_append [OF response_start_open] c)
  have "body_inv cfg uuid st' (t\<lparr>down_wire := down_wire t @ xs\<rparr>) (body @ xs) \<and> protocol_ready st' = protocol_ready st"
  proof (cases "downstream_direct st")
    case dd: True
    then obtain buf where st': "st' = st\<lparr>r_memory := (r_memory st)\<lparr>rm_output := buf\<rparr>\<rparr>" "rb_data buf = outd st @ xs"
      using d by (auto simp: relay_download_def elim!: put_outputE)
    have raw: "fst (pad_run uuid (Matching 0) body) = Raw" if "use_vision cfg" "fst (pad_run uuid (Matching 0) (body @ xs)) \<noteq> Lost"
      using b that dd pad_run_not_lost [OF that(2)] by (auto simp: body_inv_def at_state_def)
    then show ?thesis using b st' pad_run_not_lost [of uuid "Matching 0" body xs]
      by (auto simp: body_inv_def outd_def at_state_def pad_run_append split: prod.split_asm)
  next
    case False
    then show ?thesis using body_inv_payload [OF b _ assms(3) False] d True by (simp add: relay_download_def)
  qed
  then show ?thesis using True c' by (auto simp: down_inv_def)
next
  case False
  then have o: "\<not> downstream_direct st" "response_open (r_response st)" "down_plain t @ outd st = []" "at_state uuid st (Matching 0)"
    and c: "vless_consume_response response_start (down_wire t) = Some (False, r_response st, [])" using inv by (simp_all add: down_inv_def)
  have c': "vless_consume_response response_start (down_wire t @ xs) = vless_consume_response (r_response st) xs"
    by (simp add: consume_append [OF response_start_open] c)
  obtain parsed resp data where p: "vless_consume_response (r_response st) xs = Some (parsed, resp, data)"
    using d False o(1) assms(4) by (auto simp: relay_download_def split: option.split_asm)
  let ?st = "st\<lparr>r_response := resp, protocol_ready := True\<rparr>"
  have start: "body_inv cfg uuid ?st t []" using o(3,4) by (simp add: body_inv_def outd_def at_state_def)
  consider (open') "\<not> parsed" "st' = st\<lparr>r_response := resp\<rparr>" | (empty) parsed "data = []" "st' = ?st"
    | (payload) parsed "data \<noteq> []" "download_payload got cfg ?st data = Relayed st'"
    using d False o(1) assms(4) p by (auto simp: relay_download_def Let_def split: if_split_asm)
  then show ?thesis
  proof cases
    case open'
    have "response_open resp \<and> data = []" using consume_open [of "r_response st" xs resp data] p open'(1) o(2) by simp
    then show ?thesis using open' False o p c' by (simp add: down_inv_def outd_def at_state_def)
  next
    case empty
    have "body_inv cfg uuid ?st (t\<lparr>down_wire := down_wire t @ xs\<rparr>) []" using start by (auto simp: body_inv_def split: if_split_asm)
    then show ?thesis using empty p c' by (auto simp: down_inv_def)
  next
    case payload
    have "body_inv cfg uuid st' (t\<lparr>down_wire := down_wire t @ xs\<rparr>) ([] @ data) \<and> protocol_ready st' = protocol_ready ?st"
      by (rule body_inv_payload [OF start payload(3) assms(3)]) (simp add: o(1))
    then show ?thesis using payload p c' by (auto simp: down_inv_def)
  qed
qed

lemma download_keeps:
  assumes "relay_download got cfg st xs = Relayed st'"
  shows "upstream_direct st' = upstream_direct st \<and> upstream_encryption_direct st' = upstream_encryption_direct st \<and>
    client_eof st' = client_eof st \<and> (vwrap st' = vwrap st \<or> (\<exists>ys. vision_observe_tls (vwrap st) True ys = Some (vwrap st')))"
proof -
  have "upstream_direct st' = upstream_direct st0 \<and> upstream_encryption_direct st' = upstream_encryption_direct st0 \<and>
      client_eof st' = client_eof st0 \<and> (vwrap st' = vwrap st0 \<or> (\<exists>ys. vision_observe_tls (vwrap st0) True ys = Some (vwrap st')))"
    if "download_payload got cfg st0 ys = Relayed st'" for st0 ys
    using that by (auto simp: download_payload_def download_padded_def Let_def observed_def
        split: if_split_asm option.split_asm prod.split_asm bool.split_asm elim!: put_outputE)
  then show ?thesis using assms
    by (fastforce simp: relay_download_def Let_def split: if_split_asm option.split_asm prod.split_asm elim!: put_outputE)
qed

lemma relay_download_up_inv:
  assumes "up_inv cfg uuid req st t" and "relay_download got cfg st xs = Relayed st'"
  shows "up_inv cfg uuid req st' (t\<lparr>down_wire := w\<rparr>)"
proof -
  note k = download_keeps [OF assms(2)]
  have v: "wrap_state (vwrap st') = wrap_state (vwrap st)" "direct_sent (vwrap st') = direct_sent (vwrap st)"
    "w_uuid (vwrap st') = w_uuid (vwrap st)" "direct_ends (vwrap st) \<longrightarrow> direct_ends (vwrap st')"
    using k vision_observe_tls_keeps [of "vwrap st" True _ "vwrap st'"] by (auto simp: wrap_state_def direct_ends_def)
  show ?thesis by (rule up_inv_cong [OF assms(1) v]) (use k in simp_all)
qed

lemma body_inv_cong:
  "body_inv cfg uuid st t body \<Longrightarrow> down_plain t' @ outd st' = down_plain t @ outd st \<Longrightarrow> vunpad st' = vunpad st \<Longrightarrow>
   downstream_direct st' = downstream_direct st \<Longrightarrow> raw_direct st' = raw_direct st \<Longrightarrow> body_inv cfg uuid st' t' body"
  by (simp add: body_inv_def at_state_def split: if_split_asm)

lemma down_inv_cong:
  assumes "down_inv cfg uuid st t" and "down_plain t' @ outd st' = down_plain t @ outd st" and "vunpad st' = vunpad st"
    and "downstream_direct st' = downstream_direct st" and "raw_direct st' = raw_direct st" and "down_wire t' = down_wire t"
    and "protocol_ready st' = protocol_ready st" and "r_response st' = r_response st"
  shows "down_inv cfg uuid st' t'"
  using assms body_inv_cong [OF _ assms(2-5)] by (auto simp: down_inv_def at_state_def split: if_split_asm)

text \<open>What an upload leaves alone.\<close>

definition down_side :: "relay \<Rightarrow> vision_unpad \<times> bool \<times> bool \<times> bool \<times> vless_response \<times> bytes" where
  "down_side st = (vunpad st, downstream_direct st, raw_direct st, protocol_ready st, r_response st, outd st)"

lemma upload_wrapped_keeps:
  "upload_wrapped got rnd wr cfg st xs = Upload_Sent st' sends \<or> upload_wrapped got rnd wr cfg st xs = Upload_Closed st' sends \<Longrightarrow>
   down_side st' = down_side st"
  by (auto simp: upload_wrapped_def Let_def down_side_def outd_def
      split: option.split_asm prod.split_asm bool.split_asm written.split_asm if_split_asm)

lemma relay_upload_keeps:
  assumes "relay_upload got rnd wr cfg st xs = Upload_Sent st' sends \<or> relay_upload got rnd wr cfg st xs = Upload_Closed st' sends"
  shows "down_side st' = down_side st"
proof (cases "\<not> upstream_direct st \<and> use_vision cfg \<and> padding_active (vwrap st)")
  case True
  then show ?thesis using assms by (intro upload_wrapped_keeps) (simp add: relay_upload_def)
next
  case False
  then show ?thesis using assms
    by (auto simp: relay_upload_def Let_def down_side_def outd_def split: if_split_asm written.split_asm)
qed

lemma relay_run_invariant:
  assumes "relay_run got rnd net cfg env uuid flow host port st t"
    and "length uuid = 16" and "random_ok rnd" and "vless cfg"
  shows "(\<exists>req. vless_build_request net 2048 uuid flow host port = Some req \<and> up_inv cfg uuid req st t) \<and> down_inv cfg uuid st t"
  using assms(1)
proof induction
  case (start m s k payload ws st)
  have "rm_output (r_memory st) = rm_output m" and same: "vunpad st = vision_unpad_init uuid (Some (temporary m))"
      "r_response st = response_start" "\<not> protocol_ready st" "\<not> downstream_direct st" "\<not> raw_direct st"
    using start(2) by (auto simp: first_packet_def relay_start_def split: option.split_asm prod.split_asm bool.split_asm if_split_asm)
  then have "outd st = []" using start(1) by (simp add: outd_def)
  then have "down_inv cfg uuid st
      \<lparr>up_plain = payload, up_wire = map (Pair Upstream) ws, up_largest = length payload, up_stopped = None, down_wire = [], down_plain = []\<rparr>"
    using same unpad_at_init [of uuid "Some (temporary m)"] response_start_open consume_nil [OF response_start_open]
    by (simp add: down_inv_def at_state_def fresh_header_def)
  then show ?case using first_packet_up_inv [OF start(2) assms(2,3)] by blast
next
  case (upload st t wr xs st' sends)
  have d: "down_side st' = down_side st" using relay_upload_keeps upload(3) by blast
  have "down_inv cfg uuid st' (t\<lparr>up_plain := up_plain t @ xs, up_wire := up_wire t @ sends, up_largest := max (up_largest t) (length xs)\<rparr>)"
    by (rule down_inv_cong [OF conjunct2 [OF upload(4)]]) (use d in \<open>simp_all add: down_side_def\<close>)
  then show ?case using relay_upload_up_inv(1) [OF _ assms(2,3) upload(2,3)] upload(4) by blast
next
  case (stopped st t wr xs st' sends)
  have d: "down_side st' = down_side st" using relay_upload_keeps stopped(3) by blast
  have "down_inv cfg uuid st' (t\<lparr>up_plain := up_plain t @ xs, up_wire := up_wire t @ sends,
      up_largest := max (up_largest t) (length xs), up_stopped := Some (length xs)\<rparr>)"
    by (rule down_inv_cong [OF conjunct2 [OF stopped(4)]]) (use d in \<open>simp_all add: down_side_def\<close>)
  then show ?case using relay_upload_up_inv(2) [OF _ assms(2,3) stopped(2,3)] stopped(4) by blast
next
  case (closed st t)
  have "up_inv cfg uuid req (st\<lparr>client_eof := True\<rparr>) t" if "up_inv cfg uuid req st t" for req
    using that by (rule up_inv_cong) simp_all
  moreover have "down_inv cfg uuid (st\<lparr>client_eof := True\<rparr>) t"
    by (rule down_inv_cong [OF conjunct2 [OF closed(2)]]) (simp_all add: outd_def)
  ultimately show ?case using closed(2) by blast
next
  case (download st t xs st')
  then show ?case using relay_download_down_inv [OF _ download(2) assms(2,4)] relay_download_up_inv [OF _ download(2)] by blast
next
  case (sent st t n)
  have "up_inv cfg uuid req (relay_sent st n) (t\<lparr>down_plain := down_plain t @ take n (outd st)\<rparr>)" if "up_inv cfg uuid req st t" for req
    using that by (rule up_inv_cong) (simp_all add: relay_sent_def)
  moreover have "down_inv cfg uuid (relay_sent st n) (t\<lparr>down_plain := down_plain t @ take n (outd st)\<rparr>)"
    by (rule down_inv_cong [OF conjunct2 [OF sent(3)]]) (simp_all add: relay_sent_def outd_def)
  ultimately show ?case using sent(3) by blast
next
  case (memory st t m s)
  have "up_inv cfg uuid req (st\<lparr>r_memory := m, r_store := s\<rparr>) t" if "up_inv cfg uuid req st t" for req
    using that by (rule up_inv_cong) simp_all
  moreover have "down_inv cfg uuid (st\<lparr>r_memory := m, r_store := s\<rparr>) t"
    by (rule down_inv_cong [OF conjunct2 [OF memory(3)]]) (use memory(2) in \<open>simp_all add: outd_def\<close>)
  ultimately show ?case using memory(3) by blast
qed

text \<open>What the server reads, and what the client has received, in every state of a run.\<close>

lemma relay_run_up:
  assumes "relay_run got rnd net cfg env uuid flow host port st t"
    and "length uuid = 16" and "random_ok rnd" and "vless cfg" and "inet_sizes net"
  shows "\<exists>body. vless_reader (wire_bytes (up_wire t)) = Some (uuid, flow, unat port, host_target net host, body) \<and>
      delivered (up_stopped t) (peer_reads cfg uuid body) (up_plain t)"
    and "up_largest t \<le> 65535 \<Longrightarrow> \<exists>read_plain. server_reads cfg (up_wire t) = Some (uuid, flow, unat port, host_target net host, read_plain) \<and>
      delivered (up_stopped t) read_plain (up_plain t)"
proof -
  obtain req where r: "vless_build_request net 2048 uuid flow host port = Some req" and inv: "up_inv cfg uuid req st t"
    using relay_run_invariant [OF assms(1-4)] by blast
  have "length flow \<le> 64" "domain_ok (host_target net host)" "req = request_bytes uuid flow port (host_target net host)"
    using r vless_build_request_bytes [OF assms(5,2), of 2048 flow host port] by (auto simp: vappend_def split: if_split_asm)
  then have rd: "vless_reader (req @ body) = Some (uuid, flow, unat port, host_target net host, body)" for body
    using vless_reader_request [OF assms(5,2)] by blast
  have h: "plain_up.holds cfg uuid (Matching 0) req (wire_bytes (up_wire t)) (up_plain t) (up_stopped t) (wrap_state (vwrap st))"
    using inv by (simp add: up_inv_def)
  obtain body a got_plain where b: "wire_bytes (up_wire t) = req @ body" "body_run cfg uuid (Matching 0) body = Some (a, got_plain)"
    "delivered (up_stopped t) got_plain (up_plain t)" using h by (auto simp: plain_up.holds_def)
  have "got_plain = peer_reads cfg uuid body" using b(2) by (auto simp: body_run_def peer_reads_def split: if_split_asm)
  then show "\<exists>body. vless_reader (wire_bytes (up_wire t)) = Some (uuid, flow, unat port, host_target net host, body) \<and>
      delivered (up_stopped t) (peer_reads cfg uuid body) (up_plain t)"
    using rd b(1,3) by auto
  assume "up_largest t \<le> 65535"
  then have c: "channel_up.holds cfg uuid (Matching 0, False) (map (Pair Upstream) req) (tagged (up_wire t)) (up_plain t) (up_stopped t)
      (wrap_state (vwrap st), direct_sent (vwrap st))" using inv by (simp add: up_inv_def)
  obtain tail r' read_plain where t: "tagged (up_wire t) = map (Pair Upstream) req @ tail"
    "body_channels cfg uuid (Matching 0, False) tail = Some (r', read_plain)"
    "delivered (up_stopped t) read_plain (up_plain t)" using c by (auto simp: channel_up.holds_def)
  have w: "wire_bytes (up_wire t) = req @ map snd tail"
    using arg_cong [OF t(1), of "map snd"] by (simp add: comp_def)
  have n: "length (wire_bytes (up_wire t)) - length (map snd tail) = length req" by (simp add: w)
  have "server_reads cfg (up_wire t) = Some (uuid, flow, unat port, host_target net host, read_plain)"
    unfolding server_reads_def w rd option.case prod.case Let_def n [unfolded w] using t(1,2) by (simp add: list_all_iff)
  then show "\<exists>read_plain. server_reads cfg (up_wire t) = Some (uuid, flow, unat port, host_target net host, read_plain) \<and>
      delivered (up_stopped t) read_plain (up_plain t)" using t(3) by blast
qed

lemma relay_run_down:
  assumes "relay_run got rnd net cfg env uuid flow host port st t"
    and "length uuid = 16" and "random_ok rnd" and "vless cfg"
    and "down_wire t = [0, n] @ addons @ body" and "length addons = unat n"
    and "use_vision cfg \<longrightarrow> fst (pad_run uuid (Matching 0) body) \<noteq> Lost"
  shows "down_plain t @ outd st = peer_reads cfg uuid body"
proof -
  have "\<exists>r. vless_consume_response response_start (down_wire t) = Some (True, r, body)"
    using assms(6) by (simp add: assms(5) consume_start)
  then show ?thesis using relay_run_invariant [OF assms(1-4)] assms(7)
    by (auto simp: down_inv_def body_inv_def peer_reads_def split: if_split_asm)
qed

definition sample_client_memory :: relay_memory where
  "sample_client_memory = sample_relay\<lparr>rm_output := (empty_buffer None)\<lparr>rb_capacity := 16, rb_limit := 32\<rparr>\<rparr>"

definition sample_config :: relay_config where
  "sample_config = \<lparr>vless = True, use_vision = False, websocket = False, allow_raw_vision = False, encrypted = False\<rparr>"

text \<open>A relay in the middle of a user id, with three bytes of it held back.\<close>

definition sample_unpad :: vision_unpad where
  "sample_unpad = (vision_unpad_init sample_uuid None)\<lparr>stash := (empty_buffer None)\<lparr>rb_data := [1, 2, 3], rb_capacity := 4\<rparr>\<rparr>"

definition sample_budgets :: budget_state where
  "sample_budgets = initial_state\<lparr>budgets := (\<lambda>_. Some (zero_budget\<lparr>minimum := vision_unpad_buffer_bound sample_unpad 4\<rparr>))\<rparr>"

definition sample_held :: relay where
  "sample_held = (relay_start sample_config None sample_uuid sample_client_memory sample_budgets 0)\<lparr>vunpad := sample_unpad, protocol_ready := True\<rparr>"

theorem relay_room_suffices_witness:
  "let cfg = sample_config\<lparr>use_vision := True\<rparr>
   in relay_transformation cfg sample_held = Some sample_unpad \<and>
      relay_output_room (\<lambda>_. True) sample_client_memory sample_budgets (Some sample_unpad) 4 = (1, 4, sample_client_memory, sample_budgets) \<and>
      relay_download (\<lambda>_. True) cfg sample_held [7, 8, 9, 10] \<noteq> Overrun \<and> relay_download (\<lambda>_. True) cfg sample_held [7, 8, 9, 10] \<noteq> Short"
proof -
  let ?cfg = "sample_config\<lparr>use_vision := True\<rparr>"
  have t: "relay_transformation ?cfg sample_held = Some sample_unpad"
    by (simp add: relay_transformation_def sample_held_def relay_start_def sample_config_def vision_unpad_is_raw_def
        vision_unpad_complete_def sample_unpad_def)
  have "core_relay_memory_credit sample_budgets sample_client_memory (vision_unpad_buffer_bound sample_unpad 4) = (1, sample_budgets)"
    by (simp add: core_relay_memory_credit_def sample_budgets_def)
  then have r: "relay_output_room (\<lambda>_. True) sample_client_memory sample_budgets (Some sample_unpad) 4 = (1, 4, sample_client_memory, sample_budgets)"
    by (simp add: relay_output_room_def output_loop.simps Let_def core_relay_buffer_reserve_def sample_client_memory_def empty_buffer_def
        szsub_def sample_unpad_def)
  have "relay_download (\<lambda>_. True) ?cfg sample_held [7, 8, 9, 10] \<noteq> Overrun \<and> relay_download (\<lambda>_. True) ?cfg sample_held [7, 8, 9, 10] \<noteq> Short"
    using relay_room_suffices [OF r [folded t], of "[7, 8, 9, 10]" "\<lambda>_. True"]
    by (simp add: sample_held_def relay_start_def sample_client_memory_def SIZE_MAX_def)
  then show ?thesis using r t by (simp add: Let_def)
qed

lemma sample_relay_run:
  "relay_run (\<lambda>_. True) sample_random \<lparr>pton4 = (\<lambda>_. None), pton6 = (\<lambda>_. None)\<rparr> sample_config None sample_uuid [] ''a.b'' 443
     (relay_start sample_config None sample_uuid sample_client_memory initial_state 0
        \<lparr>r_response := \<lparr>header_bytes = 2, addon_bytes = 0, complete = True\<rparr>, protocol_ready := True,
         r_memory := sample_client_memory\<lparr>rm_output := (rm_output sample_client_memory)\<lparr>rb_data := [9]\<rparr>\<rparr>\<rparr>)
     \<lparr>up_plain = [7], up_wire = [(Upstream, request_bytes sample_uuid [] 443 (Target_Domain ''a.b'')), (Upstream, [7])],
      up_largest = 1, up_stopped = None, down_wire = [0, 0, 9], down_plain = []\<rparr>"
proof -
  let ?net = "\<lparr>pton4 = (\<lambda>_. None), pton6 = (\<lambda>_. None)\<rparr>"
  let ?st = "relay_start sample_config None sample_uuid sample_client_memory initial_state 0"
  let ?req = "request_bytes sample_uuid [] 443 (Target_Domain ''a.b'')"
  have b: "vless_build_request ?net 2048 sample_uuid [] ''a.b'' 443 = Some ?req"
    using vless_build_request_bytes [of ?net sample_uuid 2048 "[]" "''a.b''" 443]
    by (simp add: inet_sizes_def sample_uuid_def host_target_def domain_ok_def vappend_def request_bytes_def address_bytes_def vless_addons_def)
  have "first_packet (\<lambda>_. True) sample_random ?net sample_config sample_uuid [] ''a.b'' 443 ?st [7] = Some ([?req, [7]], ?st)"
    by (simp add: first_packet_def b sample_config_def)
  from relay_run.start [OF _ this] have
    s: "relay_run (\<lambda>_. True) sample_random ?net sample_config None sample_uuid [] ''a.b'' 443 ?st
      \<lparr>up_plain = [7], up_wire = [(Upstream, ?req), (Upstream, [7])], up_largest = 1, up_stopped = None, down_wire = [], down_plain = []\<rparr>"
    by (simp add: sample_client_memory_def empty_buffer_def)
  have c: "vless_consume_response response_start [0, 0, 9] = Some (True, \<lparr>header_bytes = 2, addon_bytes = 0, complete = True\<rparr>, [9])"
    by (simp add: consume_start)
  have "relay_download (\<lambda>_. True) sample_config ?st [0, 0, 9] = Relayed (?st\<lparr>r_response := \<lparr>header_bytes = 2, addon_bytes = 0, complete = True\<rparr>,
      protocol_ready := True, r_memory := sample_client_memory\<lparr>rm_output := (rm_output sample_client_memory)\<lparr>rb_data := [9]\<rparr>\<rparr>\<rparr>)"
    using c by (simp add: relay_download_def relay_start_def sample_config_def download_payload_def put_output_def Let_def
        sample_client_memory_def empty_buffer_def)
  from relay_run.download [OF s this] show ?thesis by simp
qed

end
