(* ===== verification/Tls_Keys.thy ===== *)
theory Tls_Keys
  imports Sniff
begin

text \<open>
  The key schedule of TLS 1.3 in \<^verbatim>\<open>src/src/tls_records.c\<close>: HKDF, the labels, the secrets and keys of
  the handshake and of the application data, and the key share of a ServerHello.  The hash, HMAC and AEAD
  functions of OpenSSL are a parameter, the record \<open>openssl\<close>.  The arrays for secrets and keys
  are lists of the bytes in use.  In a result of type \<open>_ option option\<close> the outer \<open>None\<close> is
  an access outside an array and \<open>Some None\<close> the result \<^verbatim>\<open>-1\<close>.  Wiping of secrets is not
  observable; an array that a failed call was to fill keeps its old value here, and the
  callers give the connection up.
\<close>

section \<open>Digests\<close>

datatype md = SHA256 | SHA384 | SHA512

datatype aead = AES_128_GCM | AES_256_GCM | CHACHA20_POLY1305

fun md_size :: "md \<Rightarrow> nat" where
  "md_size SHA256 = 32"
| "md_size SHA384 = 48"
| "md_size SHA512 = 64"

fun aead_key_size :: "aead \<Rightarrow> nat" where
  "aead_key_size AES_128_GCM = 16"
| "aead_key_size AES_256_GCM = 32"
| "aead_key_size CHACHA20_POLY1305 = 32"

text \<open>
  What is used of OpenSSL: a digest of a message, an HMAC of a key and a message, and sealing and opening with a key,
  a nonce and additional data; sealing gives the ciphertext and the tag, \<open>None\<close> is a failure.
\<close>

record openssl =
  ssl_digest :: "md \<Rightarrow> bytes \<Rightarrow> bytes option"
  ssl_hmac :: "md \<Rightarrow> bytes \<Rightarrow> bytes \<Rightarrow> bytes option"
  ssl_seal :: "aead \<Rightarrow> bytes \<Rightarrow> bytes \<Rightarrow> bytes \<Rightarrow> bytes \<Rightarrow> (bytes \<times> bytes) option"
  ssl_unseal :: "aead \<Rightarrow> bytes \<Rightarrow> bytes \<Rightarrow> bytes \<Rightarrow> bytes \<Rightarrow> bytes \<Rightarrow> bytes option"

definition digest_hash :: "openssl \<Rightarrow> md option \<Rightarrow> bytes \<Rightarrow> nat \<Rightarrow> bytes option" where
  "digest_hash lib md xs out_len =
     (case md of
        None \<Rightarrow> None
      | Some h \<Rightarrow> if md_size h = 0 \<or> out_len \<noteq> md_size h then None else ssl_digest lib h xs)"

definition hmac_digest_segments :: "openssl \<Rightarrow> md option \<Rightarrow> bytes \<Rightarrow> bytes \<Rightarrow> bytes \<Rightarrow> bytes \<Rightarrow> nat \<Rightarrow> bytes option" where
  "hmac_digest_segments lib md key seg1 seg2 seg3 out_len =
     (case md of
        None \<Rightarrow> None
      | Some h \<Rightarrow>
          if out_len \<noteq> md_size h then None
          else (case ssl_hmac lib h key (seg1 @ seg2 @ seg3) of
                  None \<Rightarrow> None
                | Some out \<Rightarrow> if length out = out_len then Some out else None))"

definition hmac_digest :: "openssl \<Rightarrow> md option \<Rightarrow> bytes \<Rightarrow> bytes \<Rightarrow> nat \<Rightarrow> bytes option" where
  "hmac_digest lib md key xs out_len = hmac_digest_segments lib md key xs [] [] out_len"

definition hmac_sha512 :: "openssl \<Rightarrow> bytes \<Rightarrow> bytes \<Rightarrow> bytes option" where
  "hmac_sha512 lib key xs = hmac_digest lib (Some SHA512) key xs 64"

section \<open>HKDF\<close>

definition hkdf_extract_md :: "openssl \<Rightarrow> md option \<Rightarrow> bytes \<Rightarrow> bytes \<Rightarrow> nat \<Rightarrow> bytes option" where
  "hkdf_extract_md lib md salt ikm prk_len = hmac_digest lib md salt ikm prk_len"

lemma md_size_pos [simp]: "0 < md_size h" "md_size h \<le> 64"
  by (cases h; simp)+

lemma hmac_segments_length:
  "hmac_digest_segments lib (Some h) key a b c n = Some out \<Longrightarrow> length out = md_size h \<and> n = md_size h"
  by (auto simp: hmac_digest_segments_def split: if_splits option.splits)

text \<open>
  The loop of \<^verbatim>\<open>hkdf_expand_md\<close> with the last block \<open>t\<close>, the counter, which is a byte, and the
  number of bytes still to write.
\<close>

function expand_loop :: "openssl \<Rightarrow> md \<Rightarrow> bytes \<Rightarrow> bytes \<Rightarrow> bytes \<Rightarrow> byte \<Rightarrow> nat \<Rightarrow> bytes option" where
  "expand_loop lib h prk info t counter left =
     (if left = 0 then Some []
      else case hmac_digest_segments lib (Some h) prk t info [counter] (md_size h) of
             None \<Rightarrow> None
           | Some u \<Rightarrow>
               map_option (\<lambda>out. take (min left (md_size h)) u @ out)
                 (expand_loop lib h prk info u (counter + 1) (left - min left (md_size h))))"
  by auto
termination
  by (relation "measure (\<lambda>(lib, h, prk, info, t, counter, left). left)") auto

declare expand_loop.simps [simp del]

definition hkdf_expand_md :: "openssl \<Rightarrow> md option \<Rightarrow> bytes \<Rightarrow> bytes \<Rightarrow> nat \<Rightarrow> bytes option" where
  "hkdf_expand_md lib md prk info out_len =
     (case md of
        None \<Rightarrow> None
      | Some h \<Rightarrow>
          if md_size h = 0 \<or> md_size h > 64 \<or> length prk \<noteq> md_size h then None
          else expand_loop lib h prk info [] 1 out_len)"

text \<open>The array \<^verbatim>\<open>info\<close> of \<^verbatim>\<open>hkdf_expand_label_md\<close> has 256 bytes.\<close>

definition hkdf_label :: "string \<Rightarrow> bytes \<Rightarrow> nat \<Rightarrow> bytes" where
  "hkdf_label label ctx out_len =
     be16 out_len @ [of_nat (6 + length label)] @ text_bytes ''tls13 '' @ text_bytes label @ [of_nat (length ctx)] @ ctx"

definition hkdf_expand_label_md ::
  "openssl \<Rightarrow> md option \<Rightarrow> bytes \<Rightarrow> string \<Rightarrow> bytes \<Rightarrow> nat \<Rightarrow> bytes option option" where
  "hkdf_expand_label_md lib md secret label ctx out_len =
     (if 6 + length label > 255 \<or> length ctx > 255 \<or> out_len > 65535 then Some None
      else let info = hkdf_label label ctx out_len
           in if length info > 256 then None else Some (hkdf_expand_md lib md secret info out_len))"

definition derive_secret_md :: "openssl \<Rightarrow> md option \<Rightarrow> bytes \<Rightarrow> string \<Rightarrow> bytes \<Rightarrow> nat \<Rightarrow> bytes option option" where
  "derive_secret_md lib md secret label hash out_len = hkdf_expand_label_md lib md secret label hash out_len"

definition derive_key_iv_md :: "openssl \<Rightarrow> md option \<Rightarrow> bytes \<Rightarrow> nat \<Rightarrow> (bytes \<times> bytes) option option" where
  "derive_key_iv_md lib md secret key_len =
     do { key \<leftarrow> hkdf_expand_label_md lib md secret ''key'' [] key_len;
          (case key of
             None \<Rightarrow> Some None
           | Some k \<Rightarrow> do { iv \<leftarrow> hkdf_expand_label_md lib md secret ''iv'' [] 12;
                            Some (map_option (\<lambda>v. (k, v)) iv) }) }"

section \<open>The connection\<close>

text \<open>
  The fields of \<^verbatim>\<open>tls13_conn_t\<close> that the keys and the records of TLS 1.3 use.  Sequence numbers never
  reach \<open>2 ^ 64\<close>: a record is refused from \<open>2 ^ 24\<close> on.  \<^verbatim>\<open>relay_async\<close> and
  \<^verbatim>\<open>xmux_async\<close> connections put their records into \<^verbatim>\<open>xmux_wire_output\<close>, others write them to the socket.
\<close>

record tls13_conn =
  fd :: sock
  relay_async :: bool
  xmux_async :: bool
  xmux_wire_output :: bytes
  xmux_raw_input :: bytes
  tls_cipher_suite :: nat
  tls_md :: "md option"
  tls_hash_len :: nat
  tls_key_len :: nat
  tls_auth_state :: nat
  tls_receive_record_limit :: nat
  tls_send_record_limit :: nat
  tls_receive_update_requested :: bool
  tls_post_handshake :: bytes
  tls_stream_input :: bytes
  transcript :: bytes
  hs_secret :: bytes
  c_hs_traffic :: bytes
  s_hs_traffic :: bytes
  c_app_traffic :: bytes
  s_app_traffic :: bytes
  c_hs_key :: bytes
  c_hs_iv :: bytes
  s_hs_key :: bytes
  s_hs_iv :: bytes
  c_app_key :: bytes
  c_app_iv :: bytes
  s_app_key :: bytes
  s_app_iv :: bytes
  c_hs_seq :: nat
  s_hs_seq :: nat
  c_app_seq :: nat
  s_app_seq :: nat
  c_app_record_bytes :: nat
  send_closed :: bool
  receive_closed :: bool

definition configure_tls_cipher :: "tls13_conn \<Rightarrow> nat \<Rightarrow> bool \<times> tls13_conn" where
  "configure_tls_cipher c suite =
     (let c1 = c\<lparr>tls_cipher_suite := suite\<rparr>
      in if suite = 0x1301 then (True, c1\<lparr>tls_md := Some SHA256, tls_hash_len := 32, tls_key_len := 16\<rparr>)
         else if suite = 0x1302 then (True, c1\<lparr>tls_md := Some SHA384, tls_hash_len := 48, tls_key_len := 32\<rparr>)
         else if suite = 0x1303 then (True, c1\<lparr>tls_md := Some SHA256, tls_hash_len := 32, tls_key_len := 32\<rparr>)
         else (False, c1))"

definition record_cipher_for_conn :: "tls13_conn \<Rightarrow> aead option" where
  "record_cipher_for_conn c =
     (if tls_cipher_suite c = 0x1301 \<and> tls_key_len c = 16 then Some AES_128_GCM
      else if tls_cipher_suite c = 0x1302 \<and> tls_key_len c = 32 then Some AES_256_GCM
      else if tls_cipher_suite c = 0x1303 \<and> tls_key_len c = 32 then Some CHACHA20_POLY1305
      else None)"

section \<open>The key schedule\<close>

text \<open>A step of a function that ends with \<^verbatim>\<open>-1\<close> when the step fails.\<close>

definition attempt :: "'a option option \<Rightarrow> tls13_conn \<Rightarrow> ('a \<Rightarrow> (bool \<times> tls13_conn) option) \<Rightarrow> (bool \<times> tls13_conn) option" where
  "attempt r c f = do { x \<leftarrow> r; (case x of None \<Rightarrow> Some (False, c) | Some y \<Rightarrow> f y) }"

definition transcript_hash :: "openssl \<Rightarrow> tls13_conn \<Rightarrow> bytes option" where
  "transcript_hash lib c = digest_hash lib (tls_md c) (transcript c) (tls_hash_len c)"

definition calc_finished_verify :: "openssl \<Rightarrow> tls13_conn \<Rightarrow> bytes \<Rightarrow> bytes \<Rightarrow> bytes option option" where
  "calc_finished_verify lib c traffic_secret hash =
     do { key \<leftarrow> hkdf_expand_label_md lib (tls_md c) traffic_secret ''finished'' [] (tls_hash_len c);
          Some (case key of None \<Rightarrow> None | Some k \<Rightarrow> hmac_digest lib (tls_md c) k hash (tls_hash_len c)) }"

definition derive_handshake_keys :: "openssl \<Rightarrow> tls13_conn \<Rightarrow> bytes \<Rightarrow> (bool \<times> tls13_conn) option" where
  "derive_handshake_keys lib c shared =
     (let md = tls_md c; n = tls_hash_len c; zero = replicate n 0
      in attempt (Some (digest_hash lib md [] n)) c (\<lambda>empty_hash.
         attempt (Some (hkdf_extract_md lib md zero zero n)) c (\<lambda>early_secret.
         attempt (derive_secret_md lib md early_secret ''derived'' empty_hash n) c (\<lambda>derived.
         attempt (Some (hkdf_extract_md lib md derived shared n)) c (\<lambda>secret.
         let c1 = c\<lparr>hs_secret := secret\<rparr> in
         attempt (Some (transcript_hash lib c1)) c1 (\<lambda>thash.
         attempt (derive_secret_md lib md secret ''c hs traffic'' thash n) c1 (\<lambda>ct.
         let c2 = c1\<lparr>c_hs_traffic := ct\<rparr> in
         attempt (derive_secret_md lib md secret ''s hs traffic'' thash n) c2 (\<lambda>st.
         let c3 = c2\<lparr>s_hs_traffic := st\<rparr> in
         attempt (derive_key_iv_md lib md ct (tls_key_len c)) c3 (\<lambda>(ck, civ).
         let c4 = c3\<lparr>c_hs_key := ck, c_hs_iv := civ\<rparr> in
         attempt (derive_key_iv_md lib md st (tls_key_len c)) c4 (\<lambda>(sk, siv).
         Some (True, c4\<lparr>s_hs_key := sk, s_hs_iv := siv, c_hs_seq := 0, s_hs_seq := 0\<rparr>)))))))))))"

definition derive_app_keys :: "openssl \<Rightarrow> tls13_conn \<Rightarrow> (bool \<times> tls13_conn) option" where
  "derive_app_keys lib c =
     (let md = tls_md c; n = tls_hash_len c; zero = replicate n 0
      in attempt (Some (digest_hash lib md [] n)) c (\<lambda>empty_hash.
         attempt (derive_secret_md lib md (hs_secret c) ''derived'' empty_hash n) c (\<lambda>derived2.
         attempt (Some (hkdf_extract_md lib md derived2 zero n)) c (\<lambda>master_secret.
         attempt (Some (transcript_hash lib c)) c (\<lambda>thash.
         attempt (derive_secret_md lib md master_secret ''c ap traffic'' thash n) c (\<lambda>ct.
         let c1 = c\<lparr>c_app_traffic := ct\<rparr> in
         attempt (derive_secret_md lib md master_secret ''s ap traffic'' thash n) c1 (\<lambda>st.
         let c2 = c1\<lparr>s_app_traffic := st\<rparr> in
         attempt (derive_key_iv_md lib md ct (tls_key_len c)) c2 (\<lambda>(ck, civ).
         let c3 = c2\<lparr>c_app_key := ck, c_app_iv := civ\<rparr> in
         attempt (derive_key_iv_md lib md st (tls_key_len c)) c3 (\<lambda>(sk, siv).
         Some (True, c3\<lparr>s_app_key := sk, s_app_iv := siv, c_app_seq := 0, s_app_seq := 0,
                        c_app_record_bytes := 0\<rparr>))))))))))"

section \<open>The key share of a ServerHello\<close>

definition TLS_GROUP_X25519MLKEM768 :: nat where "TLS_GROUP_X25519MLKEM768 = 0x11ec"
definition TLS_HYBRID_SERVER_SHARE_SIZE :: nat where "TLS_HYBRID_SERVER_SHARE_SIZE = 1088 + 32"

definition share_group_ok :: "nat \<Rightarrow> nat \<Rightarrow> bool" where
  "share_group_ok grp klen \<longleftrightarrow>
     (grp = 0x001d \<and> klen = 32) \<or> (grp = 23 \<and> klen = 65) \<or> (grp = 24 \<and> klen = 97) \<or> (grp = 25 \<and> klen = 133) \<or>
     (grp = TLS_GROUP_X25519MLKEM768 \<and> klen = TLS_HYBRID_SERVER_SHARE_SIZE)"

text \<open>The extension with the share, and the loop over the extensions that start at \<open>base\<close>.\<close>

definition share_extension :: "bytes \<Rightarrow> nat \<Rightarrow> nat \<Rightarrow> bytes option option" where
  "share_extension msg k el =
     (if el < 4 then Some None
      else do { grp \<leftarrow> at16 msg k;
                klen \<leftarrow> at16 msg (k + 2);
                (if \<not> share_group_ok grp klen \<or> el \<noteq> 4 + klen then Some None
                 else do { share \<leftarrow> slice_at msg (k + 4) klen;
                           (if klen > TLS_HYBRID_SERVER_SHARE_SIZE then None else Some (Some share)) }) })"

function share_extensions :: "bytes \<Rightarrow> nat \<Rightarrow> nat \<Rightarrow> nat \<Rightarrow> bytes option option" where
  "share_extensions msg base ext_len eoff =
     (if eoff + 4 \<le> ext_len then
        do { et \<leftarrow> at16 msg (base + eoff);
             el \<leftarrow> at16 msg (base + eoff + 2);
             (if eoff + 4 + el > ext_len then Some None
              else if et = 0x0033 then share_extension msg (base + eoff + 4) el
              else share_extensions msg base ext_len (eoff + 4 + el)) }
      else Some None)"
  by auto
termination
  by (relation "measure (\<lambda>(msg, base, ext_len, eoff). ext_len - eoff)") auto

declare share_extensions.simps [simp del]

text \<open>The result is the cipher suite and the share.\<close>

definition parse_server_hello_for_keyshare :: "bytes \<Rightarrow> (nat \<times> bytes) option option" where
  "parse_server_hello_for_keyshare msg =
     (if length msg < 4 then Some None
      else do { kind \<leftarrow> byte_at msg 0;
        (if kind \<noteq> 0x02 then Some None
         else do { body_len \<leftarrow> at24 msg 1;
           (if 4 + body_len > length msg then Some None
            else if body_len < 2 + 32 + 1 then Some None
            else do { sid \<leftarrow> byte_at msg (4 + 2 + 32);
              (let n = body_len - 35; p = 39 + unat sid
               in if n < unat sid + 2 + 1 + 2 then Some None
                  else do { cipher \<leftarrow> at16 msg p;
                    (if cipher \<noteq> 0x1301 \<and> cipher \<noteq> 0x1302 \<and> cipher \<noteq> 0x1303 then Some None
                     else do { ext_len \<leftarrow> at16 msg (p + 3);
                       (if n - unat sid - 5 < ext_len then Some None
                        else do { share \<leftarrow> share_extensions msg (p + 5) ext_len 0;
                                  Some (map_option (\<lambda>k. (cipher, k)) share) }) }) }) }) }) })"

section \<open>HKDF as its standard defines it\<close>

text \<open>
  The documented behaviour of the hash functions that the key schedule relies on: digests and HMACs are
  computed and have the length of the hash.
\<close>

definition hashes_ok :: "openssl \<Rightarrow> bool" where
  "hashes_ok lib \<longleftrightarrow>
     (\<forall>h xs. \<exists>d. ssl_digest lib h xs = Some d \<and> length d = md_size h) \<and>
     (\<forall>h key xs. \<exists>d. ssl_hmac lib h key xs = Some d \<and> length d = md_size h)"

definition hmac_of :: "openssl \<Rightarrow> md \<Rightarrow> bytes \<Rightarrow> bytes \<Rightarrow> bytes" where
  "hmac_of lib h key xs = the (ssl_hmac lib h key xs)"

definition digest_of :: "openssl \<Rightarrow> md \<Rightarrow> bytes \<Rightarrow> bytes" where
  "digest_of lib h xs = the (ssl_digest lib h xs)"

text \<open>RFC 5869: the blocks \<open>T(i)\<close>, and the output as the first bytes of \<open>T(1), T(2), ...\<close>, up to 255 of them.\<close>

fun hkdf_block :: "openssl \<Rightarrow> md \<Rightarrow> bytes \<Rightarrow> bytes \<Rightarrow> nat \<Rightarrow> bytes" where
  "hkdf_block lib h prk info 0 = []"
| "hkdf_block lib h prk info (Suc i) = hmac_of lib h prk (hkdf_block lib h prk info i @ info @ [of_nat (Suc i)])"

definition HKDF_Expand :: "openssl \<Rightarrow> md \<Rightarrow> bytes \<Rightarrow> bytes \<Rightarrow> nat \<Rightarrow> bytes" where
  "HKDF_Expand lib h prk info n = take n (concat (map (hkdf_block lib h prk info) [1..<256]))"

text \<open>RFC 8446, section 7.1.\<close>

definition HKDF_Expand_Label :: "openssl \<Rightarrow> md \<Rightarrow> bytes \<Rightarrow> string \<Rightarrow> bytes \<Rightarrow> nat \<Rightarrow> bytes" where
  "HKDF_Expand_Label lib h secret label context n =
     HKDF_Expand lib h secret
       (be16 n @ [of_nat (length (''tls13 '' @ label))] @ text_bytes (''tls13 '' @ label) @
        [of_nat (length context)] @ context) n"

definition Derive_Secret :: "openssl \<Rightarrow> md \<Rightarrow> bytes \<Rightarrow> string \<Rightarrow> bytes \<Rightarrow> bytes" where
  "Derive_Secret lib h secret label messages =
     HKDF_Expand_Label lib h secret label (digest_of lib h messages) (md_size h)"

lemma hashes_okD:
  assumes "hashes_ok lib"
  shows "ssl_digest lib h xs = Some (digest_of lib h xs)" "length (digest_of lib h xs) = md_size h"
    "ssl_hmac lib h key xs = Some (hmac_of lib h key xs)" "length (hmac_of lib h key xs) = md_size h"
proof -
  obtain d where d: "ssl_digest lib h xs = Some d" "length d = md_size h" using assms unfolding hashes_ok_def by blast
  obtain m where m: "ssl_hmac lib h key xs = Some m" "length m = md_size h" using assms unfolding hashes_ok_def by blast
  show "ssl_digest lib h xs = Some (digest_of lib h xs)" "length (digest_of lib h xs) = md_size h"
    using d by (simp_all add: digest_of_def)
  show "ssl_hmac lib h key xs = Some (hmac_of lib h key xs)" "length (hmac_of lib h key xs) = md_size h"
    using m by (simp_all add: hmac_of_def)
qed

lemma hmac_segments_ok:
  assumes "hashes_ok lib"
  shows "hmac_digest_segments lib (Some h) key a b c (md_size h) = Some (hmac_of lib h key (a @ b @ c))"
  using hashes_okD [OF assms] by (simp add: hmac_digest_segments_def)

lemma hkdf_block_length: "hashes_ok lib \<Longrightarrow> length (hkdf_block lib h prk info (Suc i)) = md_size h"
  by (simp add: hashes_okD)

text \<open>The loop at block \<open>i\<close> writes the blocks from \<open>i + 1\<close> on, while the counter does not wrap.\<close>

lemma expand_loop_blocks:
  assumes "hashes_ok lib" and "left \<le> (255 - i) * md_size h"
  shows "expand_loop lib h prk info (hkdf_block lib h prk info i) (of_nat (Suc i)) left =
    Some (take left (concat (map (hkdf_block lib h prk info) [Suc i..<256])))"
  using assms(2)
proof (induction left arbitrary: i rule: less_induct)
  case (less left)
  show ?case
  proof (cases "left = 0")
    case False
    then have i: "i < 255" using less.prems by (cases "i < 255") auto
    let ?B = "hkdf_block lib h prk info" and ?n = "min left (md_size h)"
    have ih: "expand_loop lib h prk info (?B (Suc i)) (of_nat (Suc (Suc i))) (left - ?n) =
        Some (take (left - ?n) (concat (map ?B [Suc (Suc i)..<256])))"
    proof (rule less.IH)
      show "left - ?n < left" using False md_size_pos(1) [of h] by linarith
      have "(255 - i) * md_size h = (255 - Suc i) * md_size h + md_size h" using i by (simp add: Suc_diff_Suc [symmetric])
      then show "left - ?n \<le> (255 - Suc i) * md_size h" using less.prems by linarith
    qed
    have "[Suc i..<256] = Suc i # [Suc (Suc i)..<256]" using i by (simp add: upt_conv_Cons)
    moreover have "length (?B (Suc i)) = md_size h" using hkdf_block_length [OF assms(1)] .
    ultimately have t: "take left (concat (map ?B [Suc i..<256])) =
        take ?n (?B (Suc i)) @ take (left - ?n) (concat (map ?B [Suc (Suc i)..<256]))"
      by (simp add: min_def del: hkdf_block.simps)
    have s: "hmac_digest_segments lib (Some h) prk (?B i) info [of_nat (Suc i)] (md_size h) = Some (?B (Suc i))"
      using hmac_segments_ok [OF assms(1)] by simp
    have c: "(of_nat (Suc i) :: byte) + 1 = of_nat (Suc (Suc i))" by simp
    show ?thesis
      by (subst expand_loop.simps)
        (simp only: False if_False s option.case c ih option.map t)
  qed (simp add: expand_loop.simps)
qed

lemma hkdf_expand_exact:
  assumes "hashes_ok lib" "length prk = md_size h" "n \<le> 255 * md_size h"
  shows "hkdf_expand_md lib (Some h) prk info n = Some (HKDF_Expand lib h prk info n)"
  using expand_loop_blocks [OF assms(1), of n 0 h prk info] assms(2,3)
  by (simp add: hkdf_expand_md_def HKDF_Expand_def not_less del: upt_Suc)

lemma HKDF_Expand_length:
  assumes "hashes_ok lib" "n \<le> 255 * md_size h"
  shows "length (HKDF_Expand lib h prk info n) = n"
proof -
  have "length (hkdf_block lib h prk info i) = md_size h" if "i \<in> set [1..<256]" for i
  proof -
    have "0 < i" using that by (simp only: set_upt) simp
    then show ?thesis using hkdf_block_length [OF assms(1)] by (metis Suc_pred')
  qed
  then have "map (length \<circ> hkdf_block lib h prk info) [1..<256] = map (\<lambda>_. md_size h) [1..<256]" by (intro map_cong) auto
  then have "length (concat (map (hkdf_block lib h prk info) [1..<256])) = 255 * md_size h"
    by (simp add: length_concat map_replicate_const sum_list_replicate)
  then show ?thesis using assms(2) by (simp add: HKDF_Expand_def)
qed

text \<open>With a context of a hash and a label of the program the array for the label is large enough.\<close>

lemma label_exact:
  assumes "hashes_ok lib" "length secret = md_size h" "n \<le> 64" "length label \<le> 64" "length ctx \<le> 64"
  shows "hkdf_expand_label_md lib (Some h) secret label ctx n = Some (Some (HKDF_Expand_Label lib h secret label ctx n))"
    and "length (HKDF_Expand_Label lib h secret label ctx n) = n"
proof -
  have m: "32 \<le> md_size h" by (cases h) simp_all
  then have n: "n \<le> 255 * md_size h" using assms(3) by linarith
  have "text_bytes (''tls13 '' @ label) = text_bytes ''tls13 '' @ text_bytes label" by (simp add: text_bytes_def)
  then show "hkdf_expand_label_md lib (Some h) secret label ctx n = Some (Some (HKDF_Expand_Label lib h secret label ctx n))"
    using assms hkdf_expand_exact [OF assms(1,2) n]
    by (simp add: hkdf_expand_label_md_def hkdf_label_def HKDF_Expand_Label_def)
  show "length (HKDF_Expand_Label lib h secret label ctx n) = n"
    using HKDF_Expand_length [OF assms(1) n] by (simp add: HKDF_Expand_Label_def)
qed

text \<open>
  The guard alone does not bound what is written to the array: it accepts a label and a context that
  do not fit together.  No call of the program has such a pair.
\<close>

lemma label_guard_alone:
  "hkdf_expand_label_md lib md secret (replicate 200 CHR ''a'') (replicate 100 0) 32 = None"
  by (simp add: hkdf_expand_label_md_def hkdf_label_def)

section \<open>The key schedule of the standard\<close>

definition early_secret :: "openssl \<Rightarrow> md \<Rightarrow> bytes" where
  "early_secret lib h = hmac_of lib h (replicate (md_size h) 0) (replicate (md_size h) 0)"

definition handshake_secret :: "openssl \<Rightarrow> md \<Rightarrow> bytes \<Rightarrow> bytes" where
  "handshake_secret lib h shared = hmac_of lib h (Derive_Secret lib h (early_secret lib h) ''derived'' []) shared"

definition master_secret :: "openssl \<Rightarrow> md \<Rightarrow> bytes \<Rightarrow> bytes" where
  "master_secret lib h hs = hmac_of lib h (Derive_Secret lib h hs ''derived'' []) (replicate (md_size h) 0)"

definition traffic_key :: "openssl \<Rightarrow> md \<Rightarrow> bytes \<Rightarrow> nat \<Rightarrow> bytes" where
  "traffic_key lib h secret n = HKDF_Expand_Label lib h secret ''key'' [] n"

definition traffic_iv :: "openssl \<Rightarrow> md \<Rightarrow> bytes \<Rightarrow> bytes" where
  "traffic_iv lib h secret = HKDF_Expand_Label lib h secret ''iv'' [] 12"

text \<open>A connection with one of the three cipher suites.\<close>

definition suite_ok :: "tls13_conn \<Rightarrow> md \<Rightarrow> aead \<Rightarrow> bool" where
  "suite_ok c h a \<longleftrightarrow>
     tls_md c = Some h \<and> tls_hash_len c = md_size h \<and> record_cipher_for_conn c = Some a \<and> tls_key_len c = aead_key_size a"

lemma configure_suite_ok:
  "configure_tls_cipher c suite = (True, c1) \<Longrightarrow> \<exists>h a. suite_ok c1 h a"
  by (auto simp: configure_tls_cipher_def suite_ok_def record_cipher_for_conn_def Let_def split: if_splits)

lemma suite_ok_same:
  assumes "tls_md d = tls_md c" "tls_hash_len d = tls_hash_len c" "tls_cipher_suite d = tls_cipher_suite c" "tls_key_len d = tls_key_len c"
  shows "suite_ok d = suite_ok c"
  using assms by (simp add: suite_ok_def record_cipher_for_conn_def fun_eq_iff)

lemma suite_key_len: "suite_ok c h a \<Longrightarrow> tls_key_len c \<le> 32"
  by (cases a) (simp_all add: suite_ok_def)

lemma attempt_simps [simp]:
  "attempt (Some (Some x)) c f = f x" "attempt (Some None) c f = Some (False, c)"
  by (simp_all add: attempt_def)

lemma hmac_digest_ok:
  "hashes_ok lib \<Longrightarrow> hmac_digest lib (Some h) key xs (md_size h) = Some (hmac_of lib h key xs)"
  by (simp add: hmac_digest_def hmac_segments_ok)

lemma digest_hash_ok:
  "hashes_ok lib \<Longrightarrow> digest_hash lib (Some h) xs (md_size h) = Some (digest_of lib h xs)"
  using md_size_pos(1) [of h] by (simp add: digest_hash_def hashes_okD)

lemma derive_secret_ok:
  assumes "hashes_ok lib" "length secret = md_size h" "length label \<le> 64"
  shows "derive_secret_md lib (Some h) secret label (digest_of lib h xs) (md_size h) = Some (Some (Derive_Secret lib h secret label xs))"
    and "length (Derive_Secret lib h secret label xs) = md_size h"
  using label_exact [OF assms(1,2) _ assms(3), of "md_size h" "digest_of lib h xs"] hashes_okD [OF assms(1)]
  by (simp_all add: derive_secret_md_def Derive_Secret_def)

lemma derive_key_iv_ok:
  assumes "hashes_ok lib" "length secret = md_size h" "n \<le> 32"
  shows "derive_key_iv_md lib (Some h) secret n = Some (Some (traffic_key lib h secret n, traffic_iv lib h secret))"
    and "length (traffic_key lib h secret n) = n" and "length (traffic_iv lib h secret) = 12"
  using label_exact [OF assms(1,2), of n "''key''" "[]"] label_exact [OF assms(1,2), of 12 "''iv''" "[]"] assms(3)
  by (simp_all add: derive_key_iv_md_def traffic_key_def traffic_iv_def)

lemmas schedule_ok = hmac_digest_ok digest_hash_ok derive_secret_ok derive_key_iv_ok hashes_okD

lemma secret_lengths:
  assumes "hashes_ok lib"
  shows "length (early_secret lib h) = md_size h" "length (handshake_secret lib h shared) = md_size h"
    "length (master_secret lib h hs) = md_size h"
  using hashes_okD [OF assms] by (simp_all add: early_secret_def handshake_secret_def master_secret_def)

lemma handshake_keys_exact:
  assumes "hashes_ok lib" "suite_ok c h a"
  shows "derive_handshake_keys lib c shared =
    Some (True, let hs = handshake_secret lib h shared;
                    ct = Derive_Secret lib h hs ''c hs traffic'' (transcript c);
                    st = Derive_Secret lib h hs ''s hs traffic'' (transcript c)
                in c\<lparr>hs_secret := hs, c_hs_traffic := ct, s_hs_traffic := st,
                     c_hs_key := traffic_key lib h ct (tls_key_len c), c_hs_iv := traffic_iv lib h ct,
                     s_hs_key := traffic_key lib h st (tls_key_len c), s_hs_iv := traffic_iv lib h st,
                     c_hs_seq := 0, s_hs_seq := 0\<rparr>)"
  using assms(2) suite_key_len [OF assms(2)] secret_lengths [OF assms(1)]
  by (simp add: derive_handshake_keys_def suite_ok_def Let_def hkdf_extract_md_def transcript_hash_def
      schedule_ok [OF assms(1)] early_secret_def [symmetric] handshake_secret_def [symmetric])

lemma app_keys_exact:
  assumes "hashes_ok lib" "suite_ok c h a" "length (hs_secret c) = md_size h"
  shows "derive_app_keys lib c =
    Some (True, let ms = master_secret lib h (hs_secret c);
                    ct = Derive_Secret lib h ms ''c ap traffic'' (transcript c);
                    st = Derive_Secret lib h ms ''s ap traffic'' (transcript c)
                in c\<lparr>c_app_traffic := ct, s_app_traffic := st,
                     c_app_key := traffic_key lib h ct (tls_key_len c), c_app_iv := traffic_iv lib h ct,
                     s_app_key := traffic_key lib h st (tls_key_len c), s_app_iv := traffic_iv lib h st,
                     c_app_seq := 0, s_app_seq := 0, c_app_record_bytes := 0\<rparr>)"
  using assms(2,3) suite_key_len [OF assms(2)] secret_lengths [OF assms(1)]
  by (simp add: derive_app_keys_def suite_ok_def Let_def hkdf_extract_md_def transcript_hash_def
      schedule_ok [OF assms(1)] master_secret_def [symmetric])


text \<open>A library whose hashes are sums and whose ciphers do nothing, and a connection without keys.\<close>

definition sample_ssl :: openssl where
  "sample_ssl =
     \<lparr>ssl_digest = \<lambda>h xs. Some (replicate (md_size h) (sum_list xs)),
      ssl_hmac = \<lambda>h key xs. Some (replicate (md_size h) (3 * sum_list key + sum_list xs + 1)),
      ssl_seal = \<lambda>a key nonce aad xs. Some (xs, replicate 16 (sum_list nonce + sum_list aad)),
      ssl_unseal = \<lambda>a key nonce aad xs tag. if tag = replicate 16 (sum_list nonce + sum_list aad) then Some xs else None\<rparr>"

definition blank_conn :: tls13_conn where
  "blank_conn =
     \<lparr>fd = \<lparr>inbox = [], accepts = [], sent = []\<rparr>, relay_async = False, xmux_async = False, xmux_wire_output = [], xmux_raw_input = [],
      tls_cipher_suite = 0, tls_md = None, tls_hash_len = 0, tls_key_len = 0, tls_auth_state = 0,
      tls_receive_record_limit = 0, tls_send_record_limit = 0, tls_receive_update_requested = False,
      tls_post_handshake = [], tls_stream_input = [], transcript = [],
      hs_secret = [], c_hs_traffic = [], s_hs_traffic = [], c_app_traffic = [], s_app_traffic = [],
      c_hs_key = [], c_hs_iv = [], s_hs_key = [], s_hs_iv = [], c_app_key = [], c_app_iv = [], s_app_key = [], s_app_iv = [],
      c_hs_seq = 0, s_hs_seq = 0, c_app_seq = 0, s_app_seq = 0, c_app_record_bytes = 0,
      send_closed = False, receive_closed = False\<rparr>"

lemma sample_hashes_ok: "hashes_ok sample_ssl"
  by (simp add: hashes_ok_def sample_ssl_def)

definition sample_conn :: tls13_conn where
  "sample_conn = blank_conn\<lparr>tls_cipher_suite := 0x1301, tls_md := Some SHA256, tls_hash_len := 32, tls_key_len := 16\<rparr>"


section \<open>Reading a ServerHello\<close>

lemma share_extension_safe:
  "k + el \<le> length msg \<Longrightarrow> share_extension msg k el \<noteq> None"
  by (auto simp: share_extension_def at16_def byte_at_def slice_at_def share_group_ok_def TLS_HYBRID_SERVER_SHARE_SIZE_def)

lemma share_extensions_safe:
  "base + ext_len \<le> length msg \<Longrightarrow> share_extensions msg base ext_len eoff \<noteq> None"
proof (induction msg base ext_len eoff rule: share_extensions.induct)
  case (1 msg base ext_len eoff)
  show ?case
  proof (cases "eoff + 4 \<le> ext_len")
    case True
    then obtain et el where e: "at16 msg (base + eoff) = Some et" "at16 msg (base + eoff + 2) = Some el"
      using "1.prems" by (auto simp: at16_def byte_at_def)
    show ?thesis
      using 1(1) [OF True e(1,2)] "1.prems" True e share_extension_safe [of "base + eoff + 4" el msg]
      by (subst share_extensions.simps) simp
  qed (simp add: share_extensions.simps)
qed

lemma server_hello_never_faults: "parse_server_hello_for_keyshare msg \<noteq> None"
proof (cases "length msg < 4")
  case False
  then obtain kind where e0: "byte_at msg 0 = Some kind" by (cases msg) (auto simp: byte_at_def)
  obtain n where e1: "at24 msg 1 = Some n" using False by (auto simp: byte_at_def at24_def)
  note e = e0 e1
  show ?thesis
  proof (cases "kind \<noteq> 2 \<or> 4 + n > length msg \<or> n < 35")
    case True
    then show ?thesis using False e by (auto simp: parse_server_hello_for_keyshare_def)
  next
    case ok: False
    then obtain sid where s: "byte_at msg 38 = Some sid" by (auto simp: byte_at_def)
    show ?thesis
    proof (cases "n - 35 < unat sid + 5")
      case True
      then show ?thesis using False e ok s by (simp add: parse_server_hello_for_keyshare_def Let_def)
    next
      case room: False
      have "39 + unat sid + 5 \<le> length msg" using room ok by linarith
      then obtain cipher ext where x: "at16 msg (39 + unat sid) = Some cipher" "at16 msg (39 + unat sid + 3) = Some ext"
        by (auto simp: at16_def byte_at_def)
      have f: "ext \<le> n - 35 - unat sid - 5 \<Longrightarrow> share_extensions msg (39 + unat sid + 5) ext 0 \<noteq> None"
        by (rule share_extensions_safe) (use room ok in linarith)
      show ?thesis
        using False e ok s room x f by (auto simp: parse_server_hello_for_keyshare_def Let_def)
    qed
  qed
qed (simp add: parse_server_hello_for_keyshare_def)

text \<open>A ServerHello as RFC 8446 lays it out, with any extensions before and any bytes after its key share.\<close>

definition server_hello :: "bytes \<Rightarrow> bytes \<Rightarrow> nat \<Rightarrow> byte \<Rightarrow> bytes \<Rightarrow> bytes" where
  "server_hello head sid cipher compression extensions =
     (let body = head @ [of_nat (length sid)] @ sid @ be16 cipher @ [compression] @ be16 (length extensions) @ extensions
      in [2] @ be24 (length body) @ body)"

definition extension_ok :: "nat \<times> bytes \<Rightarrow> bool" where
  "extension_ok e \<longleftrightarrow> fst e < 65536 \<and> fst e \<noteq> 0x0033 \<and> length (snd e) < 65536"

lemma at16_at: "msg = pre @ be16 n @ r \<Longrightarrow> i = length pre \<Longrightarrow> n < 65536 \<Longrightarrow> at16 msg i = Some n"
  using at16_drop [of "length pre" msg n r] by simp

lemma share_extensions_skip:
  assumes "list_all extension_ok es" "msg = pre @ concat (map extension_bytes es) @ extension_bytes (0x0033, be16 grp @ be16 (length key) @ key) @ r"
    and "share_group_ok grp (length key)"
    and "base + eoff = length pre" "ext_len = eoff + length (concat (map extension_bytes es)) + 8 + length key + extra"
  shows "share_extensions msg base ext_len eoff = Some (Some key)"
  using assms
proof (induction es arbitrary: pre eoff)
  case Nil
  have g: "grp < 65536" "length key < 65000" "length key \<le> TLS_HYBRID_SERVER_SHARE_SIZE"
    using Nil(3) by (auto simp: share_group_ok_def TLS_HYBRID_SERVER_SHARE_SIZE_def TLS_GROUP_X25519MLKEM768_def)
  have m: "msg = pre @ be16 51 @ be16 (4 + length key) @ be16 grp @ be16 (length key) @ key @ r"
    using Nil(2) by (simp add: extension_bytes_def numeral_eq_Suc)
  have "at16 msg (base + eoff) = Some 51" by (rule at16_at [OF m]) (use Nil(4) in simp_all)
  moreover have "at16 msg (base + eoff + 2) = Some (4 + length key)"
    by (rule at16_at [where pre = "pre @ be16 51"]) (use Nil(4) g m in simp_all)
  moreover have "at16 msg (base + eoff + 4) = Some grp"
    by (rule at16_at [where pre = "pre @ be16 51 @ be16 (4 + length key)"]) (use Nil(4) g m in simp_all)
  moreover have "at16 msg (base + eoff + 4 + 2) = Some (length key)"
    by (rule at16_at [where pre = "pre @ be16 51 @ be16 (4 + length key) @ be16 grp"]) (use Nil(4) g m in simp_all)
  moreover have "slice_at msg (base + eoff + 4 + 4) (length key) = Some key"
    using Nil(4) m by (simp add: slice_at_def)
  ultimately show ?case
    using Nil(3,5) g by (subst share_extensions.simps) (simp add: share_extension_def)
next
  case (Cons e es)
  obtain t xs where e: "e = (t, xs)" by (cases e)
  have x: "t < 65536" "t \<noteq> 51" "length xs < 65536" "list_all extension_ok es"
    using Cons(2) e by (simp_all, simp_all add: extension_ok_def)
  let ?tail = "concat (map extension_bytes es) @ extension_bytes (0x0033, be16 grp @ be16 (length key) @ key) @ r"
  have m: "msg = pre @ be16 t @ be16 (length xs) @ xs @ ?tail"
    using Cons(3) e by (simp add: extension_bytes_def [of "(t, xs)"])
  have a: "at16 msg (base + eoff) = Some t" by (rule at16_at [OF m]) (use Cons(5) x in simp_all)
  have b: "at16 msg (base + eoff + 2) = Some (length xs)"
    by (rule at16_at [where pre = "pre @ be16 t"]) (use Cons(5) x m in simp_all)
  have "share_extensions msg base ext_len (eoff + 4 + length xs) = Some (Some key)"
    by (rule Cons.IH [where pre = "pre @ be16 t @ be16 (length xs) @ xs"])
      (use x Cons(4,5,6) m e in \<open>simp_all add: extension_bytes_def [of "(t, xs)"]\<close>)
  then show ?case
    using a b x Cons(6) e by (subst share_extensions.simps) (simp add: extension_bytes_def)
qed

lemma server_hello_found:
  assumes "length head = 34" "length sid \<le> 255" "cipher \<in> {0x1301, 0x1302, 0x1303}"
    and "extensions = concat (map extension_bytes es) @ extension_bytes (0x0033, be16 grp @ be16 (length key) @ key) @ later"
    and "list_all extension_ok es" "share_group_ok grp (length key)" "length extensions < 65536"
  shows "parse_server_hello_for_keyshare (server_hello head sid cipher compression extensions) = Some (Some (cipher, key))"
proof -
  define n where "n = 40 + length sid + length extensions"
  define msg where "msg = server_hello head sid cipher compression extensions"
  have m: "msg = 2 # be24 n @ head @ [of_nat (length sid)] @ sid @ be16 cipher @ [compression] @ be16 (length extensions) @ extensions"
    using assms(1) by (simp add: msg_def server_hello_def n_def add.assoc add.commute add.left_commute)
  have len: "length msg = 4 + n" using assms(1) by (simp add: m n_def)
  have a: "byte_at msg 0 = Some 2" by (simp add: m byte_at_def)
  have b: "at24 msg 1 = Some n" by (rule at24_drop) (use assms(2,7) in \<open>simp_all add: m n_def\<close>)
  have c: "byte_at msg 38 = Some (of_nat (length sid))"
    by (rule byte_at_drop) (use assms(1) in \<open>simp add: m\<close>)
  have u: "unat (of_nat (length sid) :: byte) = length sid" using assms(2) by (simp add: wire_simps)
  have d: "at16 msg (39 + length sid) = Some cipher"
    by (rule at16_at [where pre = "2 # be24 n @ head @ [of_nat (length sid)] @ sid"]) (use assms(1,3) in \<open>auto simp: m\<close>)
  have e: "at16 msg (39 + length sid + 3) = Some (length extensions)"
    by (rule at16_at [where pre = "2 # be24 n @ head @ [of_nat (length sid)] @ sid @ be16 cipher @ [compression]"])
      (use assms(1,7) in \<open>auto simp: m\<close>)
  have f: "share_extensions msg (39 + length sid + 5) (length extensions) 0 = Some (Some key)"
    by (rule share_extensions_skip [OF assms(5) _ assms(6), where r = later and extra = "length later" and
      pre = "2 # be24 n @ head @ [of_nat (length sid)] @ sid @ be16 cipher @ [compression] @ be16 (length extensions)"])
      (use assms(1) in \<open>simp_all add: m, simp_all add: assms(4) extension_bytes_def\<close>)
  have "cipher = 0x1301 \<or> cipher = 0x1302 \<or> cipher = 0x1303" using assms(3) by simp
  then show ?thesis
    using a b c d e f u len unfolding msg_def [symmetric]
    by (simp add: parse_server_hello_for_keyshare_def Let_def n_def)
qed

text \<open>
  Property C27.  Reading the key share of a ServerHello never reads outside the message or writes outside the array for
  the share, whatever the message is; and a ServerHello with one of the three cipher suites, any
  session identifier, any other extensions and a key share of a supported group gives that suite and that share.
\<close>

theorem server_hello_keyshare:
  "parse_server_hello_for_keyshare msg \<noteq> None \<and>
   (length head = 34 \<and> length sid \<le> 255 \<and> cipher \<in> {0x1301, 0x1302, 0x1303} \<and>
    extensions = concat (map extension_bytes es) @ extension_bytes (0x0033, be16 grp @ be16 (length key) @ key) @ later \<and>
    list_all extension_ok es \<and> share_group_ok grp (length key) \<and> length extensions < 65536 \<longrightarrow>
    parse_server_hello_for_keyshare (server_hello head sid cipher compression extensions) = Some (Some (cipher, key)))"
  using server_hello_never_faults server_hello_found by blast

theorem server_hello_keyshare_witness:
  "parse_server_hello_for_keyshare
     (server_hello (replicate 34 3) [9, 9] 0x1303 0
        (extension_bytes (43, [3, 4]) @ extension_bytes (51, be16 29 @ be16 32 @ replicate 32 5))) = Some (Some (0x1303, replicate 32 5))"
  using server_hello_keyshare [where head = "replicate 34 3" and sid = "[9, 9]" and cipher = "0x1303" and es = "[(43, [3, 4])]"
      and extensions = "extension_bytes (43, [3, 4]) @ extension_bytes (51, be16 29 @ be16 32 @ replicate 32 5)"
      and grp = 29 and key = "replicate 32 5" and later = "[]" and compression = 0]
  by (simp add: extension_ok_def share_group_ok_def extension_bytes_def)

end
