(* ===== verification/Tls_Record.thy ===== *)
theory Tls_Record
  imports Tls_Keys Tls_Buffers
begin

text \<open>
  The record layer of TLS 1.3 in \<^verbatim>\<open>src/src/tls_records.c\<close>: nonces, sealing and opening of records, key
  updates, messages after the handshake, and the writing and reading of application data.  The connection is one of
  TLS 1.3 (\<^verbatim>\<open>tls12_suite\<close> is null) with \<^verbatim>\<open>crypto_reuse\<close> set, as every connection is created; the
  parameter \<open>room\<close> answers each request for the storage of a record or for the growth of a buffer.
  The cipher contexts are set up anew for every record and carry nothing over.  In the results the outer
  \<open>None\<close> is an access outside an array or a loop that does not end; an integer is the result of the C function.
\<close>

section \<open>Records\<close>

definition TLS_POST_HANDSHAKE_LIMIT :: nat where "TLS_POST_HANDSHAKE_LIMIT = 256 * 1024"
definition TLS_RECORD_REKEY_LIMIT :: nat where "TLS_RECORD_REKEY_LIMIT = 2 ^ 20"
definition TLS_RECORD_HARD_LIMIT :: nat where "TLS_RECORD_HARD_LIMIT = 2 ^ 24"

definition xor_seq_nonce :: "bytes \<Rightarrow> nat \<Rightarrow> bytes" where
  "xor_seq_nonce iv seq = fold (\<lambda>i nonce. nonce[11 - i := xor (nonce ! (11 - i)) (of_nat (seq div 256 ^ i))]) [0..<8] iv"

text \<open>The record and the next sequence number.\<close>

definition encrypt_record_into ::
  "openssl \<Rightarrow> tls13_conn \<Rightarrow> bytes \<Rightarrow> bytes \<Rightarrow> nat \<Rightarrow> byte \<Rightarrow> bytes \<Rightarrow> nat \<Rightarrow> (bytes \<times> nat) option" where
  "encrypt_record_into lib c key iv seq inner_type data capacity =
     (if length data > 16384 \<or> seq \<ge> TLS_RECORD_HARD_LIMIT \<or>
         (tls_send_record_limit c \<noteq> 0 \<and> length data + 1 > tls_send_record_limit c) \<or>
         (inner_type \<noteq> 21 \<and> inner_type \<noteq> 22 \<and> inner_type \<noteq> 23) then None
      else
        let inner_len = length data + 1; c_len = inner_len + 16
        in case record_cipher_for_conn c of
             None \<Rightarrow> None
           | Some cipher \<Rightarrow>
               if capacity < 5 + c_len then None
               else
                 let header = [23, 3, 3] @ be16 c_len
                 in case ssl_seal lib cipher key (xor_seq_nonce iv seq) header (data @ [inner_type]) of
                      None \<Rightarrow> None
                    | Some (ctext, tag) \<Rightarrow>
                        if length ctext = inner_len then Some (header @ ctext @ tag, seq + 1) else None)"

text \<open>The padding of zeros is dropped: the position after the last byte that is not zero.\<close>

fun last_nonzero :: "bytes \<Rightarrow> nat \<Rightarrow> nat" where
  "last_nonzero data 0 = 0"
| "last_nonzero data (Suc n) = (if data ! n = 0 then last_nonzero data n else Suc n)"

text \<open>The plaintext, its type and the next sequence number.\<close>

definition decrypt_record_into ::
  "openssl \<Rightarrow> tls13_conn \<Rightarrow> bytes \<Rightarrow> bytes \<Rightarrow> nat \<Rightarrow> byte \<Rightarrow> bytes \<Rightarrow> nat \<Rightarrow> (bytes \<times> byte \<times> nat) option" where
  "decrypt_record_into lib c key iv seq rtype payload capacity =
     (if rtype \<noteq> 23 \<or> length payload < 17 \<or> length payload > 16640 \<or> seq \<ge> TLS_RECORD_HARD_LIMIT \<or>
         (tls_receive_record_limit c \<noteq> 0 \<and> length payload - 16 > tls_receive_record_limit c) then None
      else
        let ct_len = length payload - 16
        in case record_cipher_for_conn c of
             None \<Rightarrow> None
           | Some cipher \<Rightarrow>
               if capacity < ct_len then None
               else
                 let header = [rtype, 3, 3] @ be16 (length payload)
                 in case ssl_unseal lib cipher key (xor_seq_nonce iv seq) header (take ct_len payload) (drop ct_len payload) of
                      None \<Rightarrow> None
                    | Some data \<Rightarrow>
                        if length data \<noteq> ct_len then None
                        else
                          let n = last_nonzero data ct_len
                          in if n = 0 \<or> n - 1 > 16384 \<or>
                                (data ! (n - 1) \<noteq> 21 \<and> data ! (n - 1) \<noteq> 22 \<and> data ! (n - 1) \<noteq> 23) then None
                             else Some (take (n - 1) data, data ! (n - 1), seq + 1))"

text \<open>The variants with storage and sequence numbers of their own, which the handshake uses.\<close>

definition encrypt_record ::
  "openssl \<Rightarrow> (nat \<Rightarrow> bool) \<Rightarrow> tls13_conn \<Rightarrow> bytes \<Rightarrow> bytes \<Rightarrow> nat \<Rightarrow> byte \<Rightarrow> bytes \<Rightarrow> (bytes \<times> nat) option" where
  "encrypt_record lib room c key iv seq inner_type data =
     (if length data > 16384 then None
      else let capacity = length data + 22
           in if \<not> room capacity then None else encrypt_record_into lib c key iv seq inner_type data capacity)"

definition decrypt_record ::
  "openssl \<Rightarrow> (nat \<Rightarrow> bool) \<Rightarrow> tls13_conn \<Rightarrow> bytes \<Rightarrow> bytes \<Rightarrow> nat \<Rightarrow> byte \<Rightarrow> bytes \<Rightarrow> (bytes \<times> byte \<times> nat) option" where
  "decrypt_record lib room c key iv seq rtype payload =
     (if length payload > 18432 then None
      else let capacity = (if length payload = 0 then 1 else length payload)
           in if \<not> room capacity then None else decrypt_record_into lib c key iv seq rtype payload capacity)"

text \<open>
  The storage of a record: \<open>authenticated\<close> is \<^verbatim>\<open>tls_auth_state == 4\<close>, \<open>configured\<close> that a cipher suite is
  set, \<open>own\<close> the connection's own budget and \<open>memory\<close> the budget that pays: that of the direction if there is
  one, else \<open>own\<close>.
\<close>

definition tls_record_buffer ::
  "(nat \<Rightarrow> bool) \<Rightarrow> tls_pool \<Rightarrow> budget_state \<Rightarrow> bool \<Rightarrow> bool \<Rightarrow> nat \<Rightarrow> nat \<Rightarrow> nat \<Rightarrow> dynbuf \<Rightarrow> nat \<Rightarrow>
   bool \<times> dynbuf \<times> tls_pool \<times> budget_state" where
  "tls_record_buffer got pool s authenticated configured owner own memory b needed =
     (case (if d_tls_budget b \<and> authenticated then db_free pool s b else (b, pool, s)) of (b0, pool0, s0) \<Rightarrow>
        let b1 = b0\<lparr>d_data := []\<rparr>
        in case (if d_memory b1 = None \<and> \<not> d_tls_budget b1 then
                   if \<not> authenticated \<and> configured then
                     (case tls_buffer_init pool0 b1 18944 (Some owner) of (ok, b2, pool1) \<Rightarrow> (ok, b2, pool1, s0))
                   else
                     (case core_buffer_budget_init s0 own CORE_BUFFER_RELAY 0 of (e, s1) \<Rightarrow>
                        if e \<noteq> None then (False, b1, pool0, s1)
                        else (True, b1\<lparr>d_memory := Some memory, d_limit := 18944\<rparr>, pool0, s1))
                 else (True, b1, pool0, s0)) of (ok, b2, pool2, s2) \<Rightarrow>
             if ok then db_reserve got pool2 s2 b2 (if needed = 0 then 1 else needed) else (False, b2, pool2, s2))"

definition tls_record_seal_owned ::
  "openssl \<Rightarrow> (nat \<Rightarrow> bool) \<Rightarrow> tls13_conn \<Rightarrow> byte \<Rightarrow> bytes \<Rightarrow> (bytes \<times> tls13_conn) option" where
  "tls_record_seal_owned lib room c inner_type data =
     (if length data > 16384 then None
      else let needed = length data + 22
           in if \<not> room needed then None
              else case encrypt_record_into lib c (c_app_key c) (c_app_iv c) (c_app_seq c) inner_type data needed of
                     None \<Rightarrow> None
                   | Some (output, seq) \<Rightarrow> Some (output, c\<lparr>c_app_seq := seq\<rparr>))"

definition tls_record_open_owned ::
  "openssl \<Rightarrow> (nat \<Rightarrow> bool) \<Rightarrow> tls13_conn \<Rightarrow> byte \<Rightarrow> bytes \<Rightarrow> (bytes \<times> byte \<times> tls13_conn) option" where
  "tls_record_open_owned lib room c rtype payload =
     (if length payload > 18432 then None
      else let needed = (if length payload = 0 then 1 else length payload)
           in if \<not> room needed then None
              else case decrypt_record_into lib c (s_app_key c) (s_app_iv c) (s_app_seq c) rtype payload needed of
                     None \<Rightarrow> None
                   | Some (data, inner, seq) \<Rightarrow> Some (data, inner, c\<lparr>s_app_seq := seq\<rparr>))"

section \<open>Writing\<close>

text \<open>\<^verbatim>\<open>db_append\<close> to a buffer of which only the content and the limit matter (zero is none).\<close>

definition cache_append :: "(nat \<Rightarrow> bool) \<Rightarrow> nat \<Rightarrow> bytes \<Rightarrow> bytes \<Rightarrow> bytes option" where
  "cache_append room limit cache data =
     (if data = [] then Some cache
      else if limit \<noteq> 0 \<and> length cache + length data > limit then None
      else if room (length cache + length data) then Some (cache @ data)
      else None)"

definition append_transcript :: "(nat \<Rightarrow> bool) \<Rightarrow> tls13_conn \<Rightarrow> bytes \<Rightarrow> bool \<times> tls13_conn" where
  "append_transcript room c msg =
     (case cache_append room TLS_HANDSHAKE_LIMIT (transcript c) msg of
        None \<Rightarrow> (False, c)
      | Some all_messages \<Rightarrow> (True, c\<lparr>transcript := all_messages\<rparr>))"

definition wire_append :: "(nat \<Rightarrow> bool) \<Rightarrow> tls13_conn \<Rightarrow> bytes \<Rightarrow> bool \<times> tls13_conn" where
  "wire_append room c data =
     (if length data > szsub (256 * 1024) (length (xmux_wire_output c)) then (False, c)
      else case cache_append room 0 (xmux_wire_output c) data of
             None \<Rightarrow> (False, c)
           | Some output \<Rightarrow> (True, c\<lparr>xmux_wire_output := output\<rparr>))"

definition relay_write_wire :: "(nat \<Rightarrow> bool) \<Rightarrow> tls13_conn \<Rightarrow> bytes \<Rightarrow> bool \<times> tls13_conn" where
  "relay_write_wire room c data =
     (if \<not> relay_async c then (case write_exact (fd c) data of (ok, k) \<Rightarrow> (ok, c\<lparr>fd := k\<rparr>))
      else wire_append room c data)"

definition tls_update_keys :: "openssl \<Rightarrow> tls13_conn \<Rightarrow> bool \<Rightarrow> (bool \<times> tls13_conn) option" where
  "tls_update_keys lib c sending =
     (let secret = (if sending then c_app_traffic c else s_app_traffic c)
      in attempt (hkdf_expand_label_md lib (tls_md c) secret ''traffic upd'' [] (tls_hash_len c)) c (\<lambda>next_secret.
         attempt (derive_key_iv_md lib (tls_md c) next_secret (tls_key_len c)) c (\<lambda>(key, iv).
         Some (True,
           if sending then c\<lparr>c_app_traffic := next_secret, c_app_key := key, c_app_iv := iv, c_app_seq := 0\<rparr>
           else c\<lparr>s_app_traffic := next_secret, s_app_key := key, s_app_iv := iv, s_app_seq := 0,
                  tls_receive_update_requested := False\<rparr>))))"

definition tls_key_update_send :: "openssl \<Rightarrow> (nat \<Rightarrow> bool) \<Rightarrow> tls13_conn \<Rightarrow> byte \<Rightarrow> (bool \<times> tls13_conn) option" where
  "tls_key_update_send lib room c request =
     (if send_closed c then Some (False, c)
      else case tls_record_seal_owned lib room c 22 [24, 0, 0, 1, request] of
             None \<Rightarrow> Some (False, c)
           | Some (output, c1) \<Rightarrow>
               (case (if xmux_async c1 then wire_append room c1 output else relay_write_wire room c1 output) of (ok, c2) \<Rightarrow>
                  if ok then tls_update_keys lib c2 True else Some (False, c2)))"

definition tls_prepare_app_record :: "openssl \<Rightarrow> (nat \<Rightarrow> bool) \<Rightarrow> tls13_conn \<Rightarrow> (bool \<times> tls13_conn) option" where
  "tls_prepare_app_record lib room c =
     (if c_app_seq c \<ge> TLS_RECORD_REKEY_LIMIT then tls_key_update_send lib room c 0 else Some (True, c))"

text \<open>The size of the next record, and one round of the loop of \<^verbatim>\<open>reality_write_app_records\<close>.\<close>

definition record_chunk :: "tls13_conn \<Rightarrow> nat \<Rightarrow> nat" where
  "record_chunk c left =
     (let dynamic_limit = (if c_app_record_bytes c < 128 * 1024 then 1186 else 16384);
          chunk = min (min left dynamic_limit) 16384
      in if tls_send_record_limit c \<noteq> 0 \<and> chunk \<ge> tls_send_record_limit c then tls_send_record_limit c - 1 else chunk)"

definition write_app_record :: "openssl \<Rightarrow> (nat \<Rightarrow> bool) \<Rightarrow> tls13_conn \<Rightarrow> bytes \<Rightarrow> (bool \<times> tls13_conn) option" where
  "write_app_record lib room c data =
     (case tls_record_seal_owned lib room c 23 data of
        None \<Rightarrow> Some (False, c)
      | Some (output, c1) \<Rightarrow>
          (case relay_write_wire room c1 output of (ok, c2) \<Rightarrow>
             Some (ok, if ok then c2\<lparr>c_app_record_bytes := c_app_record_bytes c2 + length output\<rparr> else c2)))"

partial_function (option) reality_write_app_records ::
  "openssl \<Rightarrow> (nat \<Rightarrow> bool) \<Rightarrow> tls13_conn \<Rightarrow> bytes \<Rightarrow> (bool \<times> tls13_conn) option" where
  "reality_write_app_records lib room c buf =
     (if buf = [] then Some (True, c)
      else do { (prepared, c1) \<leftarrow> tls_prepare_app_record lib room c;
                (if \<not> prepared then Some (False, c1)
                 else do { (ok, c2) \<leftarrow> write_app_record lib room c1 (take (record_chunk c1 (length buf)) buf);
                           (if \<not> ok then Some (False, c2)
                            else reality_write_app_records lib room c2 (drop (record_chunk c1 (length buf)) buf)) }) })"

section \<open>Messages after the handshake\<close>

text \<open>The extensions of a session ticket, with the types seen so far; the C array for them has 256 places.\<close>

function ticket_extensions :: "bytes \<Rightarrow> nat \<Rightarrow> nat list \<Rightarrow> bool option" where
  "ticket_extensions body offset seen =
     (if offset < length body then
        if length body - offset < 4 \<or> length seen = 256 then Some False
        else do { kind \<leftarrow> at16 body offset;
                  n \<leftarrow> at16 body (offset + 2);
                  (if n > length body - (offset + 4) \<or> (kind = 42 \<and> n \<noteq> 4) then Some False
                   else if kind \<in> set seen then Some False
                   else ticket_extensions body (offset + 4 + n) (seen @ [kind])) }
      else Some True)"
  by auto
termination
  by (relation "measure (\<lambda>(body, offset, seen). length body - offset)") auto

declare ticket_extensions.simps [simp del]

definition tls_session_ticket :: "bytes \<Rightarrow> bool option" where
  "tls_session_ticket body =
     (if length body < 13 then Some False
      else do { a \<leftarrow> at16 body 0; b \<leftarrow> at16 body 2;
        (if a * 65536 + b > 604800 then Some False
         else do { nonce \<leftarrow> byte_at body 8;
           (let offset = 9 + unat nonce
            in if offset + 2 > length body then Some False
               else do { ticket \<leftarrow> at16 body offset;
                 (if ticket = 0 \<or> ticket > length body - (offset + 2) then Some False
                  else let offset1 = offset + 2 + ticket
                       in if length body - offset1 < 2 then Some False
                          else do { n \<leftarrow> at16 body offset1;
                                    (if n \<noteq> length body - offset1 - 2 then Some False
                                     else ticket_extensions body (offset1 + 2) []) }) }) }) })"

text \<open>
  The loop of \<^verbatim>\<open>tls_post_handshake\<close> over the collected bytes \<open>buf\<close>, which the code keeps in the
  connection.
\<close>

function post_handshake_loop :: "openssl \<Rightarrow> (nat \<Rightarrow> bool) \<Rightarrow> tls13_conn \<Rightarrow> bytes \<Rightarrow> (bool \<times> tls13_conn) option" where
  "post_handshake_loop lib room c buf =
     (if length buf < 4 then Some (True, c\<lparr>tls_post_handshake := buf\<rparr>)
      else do { kind \<leftarrow> byte_at buf 0;
                n \<leftarrow> at24 buf 1;
        (if n > 256 * 1024 - 4 \<or> (kind = 24 \<and> n \<noteq> 1) \<or> (kind \<noteq> 4 \<and> kind \<noteq> 24) then Some (False, c\<lparr>tls_post_handshake := buf\<rparr>)
         else if length buf < n + 4 then Some (True, c\<lparr>tls_post_handshake := buf\<rparr>)
         else if kind = 24 then
           do { request \<leftarrow> byte_at buf 4;
                (if unat request > 1 \<or> length buf \<noteq> n + 4 then Some (False, c\<lparr>tls_post_handshake := buf\<rparr>)
                 else do { (updated, c1) \<leftarrow> tls_update_keys lib c False;
                           (answered, c2) \<leftarrow> (if updated \<and> request \<noteq> 0 then tls_key_update_send lib room c1 0 else Some (updated, c1));
                           (if answered then post_handshake_loop lib room c2 (drop (n + 4) buf)
                            else Some (False, c2\<lparr>tls_post_handshake := buf\<rparr>)) }) }
         else do { body \<leftarrow> slice_at buf 4 n;
                   fine \<leftarrow> tls_session_ticket body;
                   (if fine then post_handshake_loop lib room c (drop (n + 4) buf)
                    else Some (False, c\<lparr>tls_post_handshake := buf\<rparr>)) }) })"
  by auto
termination
  by (relation "measure (\<lambda>(lib, room, c, buf). length buf)") auto

declare post_handshake_loop.simps [simp del]

definition tls_post_handshake_msg :: "openssl \<Rightarrow> (nat \<Rightarrow> bool) \<Rightarrow> tls13_conn \<Rightarrow> bytes \<Rightarrow> (bool \<times> tls13_conn) option" where
  "tls_post_handshake_msg lib room c data =
     (if data = [] \<or> tls_auth_state c \<noteq> 4 \<or>
         length data > szsub TLS_POST_HANDSHAKE_LIMIT (length (tls_post_handshake c)) then Some (False, c)
      else case cache_append room TLS_POST_HANDSHAKE_LIMIT (tls_post_handshake c) data of
             None \<Rightarrow> Some (False, c)
           | Some buf \<Rightarrow> post_handshake_loop lib room c buf)"

text \<open>A decrypted record: the result, the connection and the buffer for application data.\<close>

type_synonym received_plain = "int \<times> tls13_conn \<times> bytes"

definition request_update :: "openssl \<Rightarrow> (nat \<Rightarrow> bool) \<Rightarrow> tls13_conn \<Rightarrow> bytes \<Rightarrow> received_plain option" where
  "request_update lib room c cache =
     (if tls_post_handshake c = [] \<and> s_app_seq c \<ge> TLS_RECORD_REKEY_LIMIT \<and> \<not> tls_receive_update_requested c \<and> \<not> send_closed c then
        do { (ok, c1) \<leftarrow> tls_key_update_send lib room c 1;
             Some (if ok then (0, c1\<lparr>tls_receive_update_requested := True\<rparr>, cache) else (-1, c1, cache)) }
      else Some (0, c, cache))"

definition tls_application_plain ::
  "openssl \<Rightarrow> (nat \<Rightarrow> bool) \<Rightarrow> nat \<Rightarrow> tls13_conn \<Rightarrow> byte \<Rightarrow> bytes \<Rightarrow> bytes \<Rightarrow> received_plain option" where
  "tls_application_plain lib room limit c inner data cache =
     (if receive_closed c then Some (-1, c, cache)
      else if inner = 22 then
        do { (ok, c1) \<leftarrow> tls_post_handshake_msg lib room c data;
             (if ok then request_update lib room c1 cache else Some (-1, c1, cache)) }
      else if tls_post_handshake c \<noteq> [] then Some (-1, c, cache)
      else if inner = 23 then
        (case cache_append room limit cache data of
           None \<Rightarrow> Some (-1, c, cache)
         | Some cache1 \<Rightarrow> request_update lib room c cache1)
      else if inner = 21 \<and> length data = 2 \<and> data ! 1 = 0 then Some (1, c\<lparr>receive_closed := True\<rparr>, cache)
      else Some (-1, c, cache))"

section \<open>Reading\<close>

text \<open>
  A record from the socket.  The C functions tell the end of the stream before a record (1) from an error (-1);
  their callers treat both as an error, and a script of a socket does not tell them apart.  A
  socket that would block answers a read without waiting with \<open>Record_Again\<close> (the code's 2).
\<close>

datatype record_result = Record_Failed | Record_Again | Record byte bytes

definition read_record_header :: "sock \<Rightarrow> (byte \<times> nat) option \<times> sock" where
  "read_record_header k =
     (case read_exact k 5 of
        (None, k1) \<Rightarrow> (None, k1)
      | (Some hdr, k1) \<Rightarrow>
          let n = word16 (hdr ! 3) (hdr ! 4)
          in if hdr ! 1 \<noteq> 3 \<or> (hdr ! 2 \<noteq> 3 \<and> \<not> (hdr ! 0 = 22 \<and> hdr ! 2 = 1)) \<or> n > (if hdr ! 0 = 23 then 16640 else 16384)
             then (None, k1) else (Some (hdr ! 0, n), k1))"

definition read_record_bounded :: "(nat \<Rightarrow> bool) \<Rightarrow> sock \<Rightarrow> record_result \<times> sock" where
  "read_record_bounded room k =
     (case read_record_header k of
        (None, k1) \<Rightarrow> (Record_Failed, k1)
      | (Some (rtype, n), k1) \<Rightarrow>
          if \<not> room (if n = 0 then 1 else n) then (Record_Failed, k1)
          else (case read_exact k1 n of
                  (None, k2) \<Rightarrow> (Record_Failed, k2)
                | (Some payload, k2) \<Rightarrow> (Record rtype payload, k2)))"

text \<open>A complete record in the buffer of a \<^verbatim>\<open>relay_async\<close> connection: \<open>None\<close> if bytes are missing.\<close>

definition buffered_record :: "(nat \<Rightarrow> bool) \<Rightarrow> bytes \<Rightarrow> (record_result \<times> bytes) option" where
  "buffered_record room raw =
     (if length raw < 5 then None
      else let n = word16 (raw ! 3) (raw ! 4)
           in if raw ! 0 \<noteq> 23 \<or> raw ! 1 \<noteq> 3 \<or> raw ! 2 \<noteq> 3 \<or> n > 16640 then Some (Record_Failed, raw)
              else if length raw < n + 5 then None
              else if \<not> room (if n = 0 then 1 else n) then Some (Record_Failed, raw)
              else Some (Record (raw ! 0) (take n (drop 5 raw)), drop (n + 5) raw))"

text \<open>
  \<^verbatim>\<open>recv\<close> without waiting: the pieces of the script are what has arrived, an empty one is the end of the stream,
  and an exhausted script would block.
\<close>

function relay_read_loop :: "(nat \<Rightarrow> bool) \<Rightarrow> sock \<Rightarrow> bytes \<Rightarrow> record_result \<times> sock \<times> bytes" where
  "relay_read_loop room k raw =
     (case buffered_record room raw of
        Some (r, raw1) \<Rightarrow> (r, k, raw1)
      | None \<Rightarrow>
          (case inbox k of
             [] \<Rightarrow> (Record_Again, k, raw)
           | piece # pieces \<Rightarrow>
               if piece = [] then (Record_Failed, k\<lparr>inbox := pieces\<rparr>, raw)
               else let received = take 16384 piece;
                        k1 = k\<lparr>inbox := (if length piece \<le> 16384 then pieces else drop 16384 piece # pieces)\<rparr>
                    in case cache_append room 0 raw received of
                         None \<Rightarrow> (Record_Failed, k1, raw)
                       | Some raw1 \<Rightarrow> relay_read_loop room k1 raw1))"
  by auto
termination
  by (relation "measure (\<lambda>(room, k, raw). length (inbox k) + length (concat (inbox k)))") auto

declare relay_read_loop.simps [simp del]

definition relay_read_record :: "(nat \<Rightarrow> bool) \<Rightarrow> tls13_conn \<Rightarrow> record_result \<times> tls13_conn" where
  "relay_read_record room c =
     (case relay_read_loop room (fd c) (xmux_raw_input c) of (r, k, raw) \<Rightarrow> (r, c\<lparr>fd := k, xmux_raw_input := raw\<rparr>))"

definition next_record :: "(nat \<Rightarrow> bool) \<Rightarrow> tls13_conn \<Rightarrow> record_result \<times> tls13_conn" where
  "next_record room c =
     (if relay_async c then relay_read_record room c
      else (case read_record_bounded room (fd c) of (r, k) \<Rightarrow> (r, c\<lparr>fd := k\<rparr>)))"

text \<open>The loop of \<^verbatim>\<open>fill_reality_plain_cache\<close>.\<close>

partial_function (option) fill_loop ::
  "openssl \<Rightarrow> (nat \<Rightarrow> bool) \<Rightarrow> nat \<Rightarrow> tls13_conn \<Rightarrow> bytes \<Rightarrow> received_plain option" where
  "fill_loop lib room limit c cache =
     (case next_record room c of (r, c1) \<Rightarrow>
       (case r of
          Record_Again \<Rightarrow> Some (1, c1, cache)
        | Record_Failed \<Rightarrow> Some (-1, c1, cache)
        | Record rtype payload \<Rightarrow>
            if rtype \<noteq> 0x17 then Some (-1, c1, cache)
            else (case tls_record_open_owned lib room c1 rtype payload of
                    None \<Rightarrow> Some (-1, c1, cache)
                  | Some (data, inner, c2) \<Rightarrow>
                      do { (result, c3, cache1) \<leftarrow> tls_application_plain lib room limit c2 inner data cache;
                           (if result < 0 then Some (-1, c3, cache1)
                            else if result > 0 \<or> cache1 \<noteq> [] then Some (0, c3, cache1)
                            else fill_loop lib room limit c3 cache1) })))"

definition fill_reality_plain_cache ::
  "openssl \<Rightarrow> (nat \<Rightarrow> bool) \<Rightarrow> nat \<Rightarrow> tls13_conn \<Rightarrow> bytes \<Rightarrow> received_plain option" where
  "fill_reality_plain_cache lib room limit c cache =
     (if receive_closed c then Some (0, c, cache) else fill_loop lib room limit c cache)"

definition manual_stream_read :: "openssl \<Rightarrow> (nat \<Rightarrow> bool) \<Rightarrow> tls13_conn \<Rightarrow> nat \<Rightarrow> (int \<times> bytes \<times> tls13_conn) option" where
  "manual_stream_read lib room c capacity =
     (if capacity = 0 then Some (0, [], c)
      else do { (result, c1, cache) \<leftarrow>
                  (if tls_stream_input c = [] then fill_reality_plain_cache lib room 16384 c [] else Some (0, c, tls_stream_input c));
                (if result \<noteq> 0 then Some (result, [], c1\<lparr>tls_stream_input := cache\<rparr>)
                 else Some (0, take capacity cache, c1\<lparr>tls_stream_input := drop capacity cache\<rparr>)) })"

section \<open>Nonces\<close>

lemma xor_seq_nonce_length [simp]: "length (xor_seq_nonce iv seq) = length iv"
proof -
  have "length (fold (\<lambda>i nonce. nonce[11 - i := xor (nonce ! (11 - i)) (of_nat (seq div 256 ^ i))]) is xs) = length xs" for "is" xs
    by (induction "is" arbitrary: xs) simp_all
  then show ?thesis by (simp add: xor_seq_nonce_def)
qed

lemma nonce_fold:
  "fold (\<lambda>i nonce. nonce[11 - i := xor (nonce ! (11 - i)) (x i)]) [0..<8] [a, b, c, d, e, f, g, h, i, j, k, l] =
     [a, b, c, d, xor e (x 7), xor f (x 6), xor g (x 5), xor h (x 4), xor i (x 3), xor j (x 2), xor k (x 1), xor l (x 0)]"
  by (simp add: eval_nat_numeral upt_rec)

lemma xor_byte_cancel: "xor (b :: byte) x = xor b y \<longleftrightarrow> x = y"
  by (metis xor.assoc xor_self_eq xor.left_neutral)

lemma digits_eq:
  fixes a b :: nat
  assumes "\<And>i. i < k \<Longrightarrow> a div 256 ^ i mod 256 = b div 256 ^ i mod 256" "a < 256 ^ k" "b < 256 ^ k"
  shows "a = b"
  using assms
proof (induction k arbitrary: a b)
  case (Suc k)
  have "a div 256 = b div 256"
  proof (rule Suc.IH)
    show "a div 256 div 256 ^ i mod 256 = b div 256 div 256 ^ i mod 256" if "i < k" for i
      using Suc.prems(1) [of "Suc i"] that by (simp add: div_mult2_eq)
    show "a div 256 < 256 ^ k" "b div 256 < 256 ^ k" using Suc.prems(2,3) by (simp_all add: less_mult_imp_div_less mult.commute)
  qed
  moreover have "a mod 256 = b mod 256" using Suc.prems(1) [of 0] by simp
  ultimately show ?case using div_mult_mod_eq [of a 256] div_mult_mod_eq [of b 256] by metis
qed simp

lemma xor_seq_nonce_inj:
  assumes "length iv = 12" "a < 2 ^ 64" "b < 2 ^ 64" "xor_seq_nonce iv a = xor_seq_nonce iv b"
  shows "a = b"
proof -
  obtain v0 v1 v2 v3 v4 v5 v6 v7 v8 v9 v10 v11 where iv: "iv = [v0, v1, v2, v3, v4, v5, v6, v7, v8, v9, v10, v11]"
    using assms(1) by (auto simp: length_Suc_conv eval_nat_numeral)
  have e: "(of_nat (a div 256 ^ i) :: byte) = of_nat (b div 256 ^ i)" if "i \<in> set [0, 1, 2, 3, 4, 5, 6, 7]" for i
    using assms(4) that unfolding iv xor_seq_nonce_def nonce_fold by (auto simp: xor_byte_cancel)
  have "a div 256 ^ i mod 256 = b div 256 ^ i mod 256" if "i < 8" for i
  proof -
    have "i \<in> set [0, 1, 2, 3, 4, 5, 6, 7]" using that by (simp, presburger)
    from arg_cong [OF e [OF this], of unat] show ?thesis by (simp only: unat_of_nat_byte)
  qed
  then show ?thesis by (rule digits_eq [of 8]) (use assms(2,3) in simp_all)
qed

section \<open>One record\<close>

text \<open>
  The documented behaviour of the ciphers: with a key and a nonce of the right length sealing works, the
  ciphertext has the length of the plaintext, the tag has 16 bytes, and opening what was sealed
  gives the plaintext back.
\<close>

definition aead_ok :: "openssl \<Rightarrow> bool" where
  "aead_ok lib \<longleftrightarrow>
     (\<forall>a key nonce aad xs. length key = aead_key_size a \<longrightarrow> length nonce = 12 \<longrightarrow>
        (\<exists>ctext tag. ssl_seal lib a key nonce aad xs = Some (ctext, tag) \<and> length ctext = length xs \<and> length tag = 16 \<and>
           ssl_unseal lib a key nonce aad ctext tag = Some xs))"

lemma aead_okE:
  assumes "aead_ok lib" "length key = aead_key_size a" "length nonce = 12"
  obtains ctext tag where "ssl_seal lib a key nonce aad xs = Some (ctext, tag)" "length ctext = length xs" "length tag = 16"
    "ssl_unseal lib a key nonce aad ctext tag = Some xs"
  using assms unfolding aead_ok_def by blast

definition fits_limit :: "nat \<Rightarrow> nat \<Rightarrow> bool" where
  "fits_limit limit n \<longleftrightarrow> limit = 0 \<or> n + 1 \<le> limit"

lemma seal_open:
  assumes "aead_ok lib" "record_cipher_for_conn c = Some a" "record_cipher_for_conn s = Some a"
    and "length key = aead_key_size a" "length iv = 12" "length data \<le> 16384" "seq < TLS_RECORD_HARD_LIMIT"
    and "fits_limit (tls_send_record_limit c) (length data)" "fits_limit (tls_receive_record_limit s) (length data)"
    and "inner = 21 \<or> inner = 22 \<or> inner = 23"
  obtains payload where
    "encrypt_record_into lib c key iv seq inner data (length data + 22) = Some ([23, 3, 3] @ be16 (length payload) @ payload, seq + 1)"
    "length payload = length data + 17"
    "decrypt_record_into lib s key iv seq 23 payload (length payload) = Some (data, inner, seq + 1)"
proof -
  define m where "m = length data + 17"
  let ?aad = "[23, 3, 3] @ be16 m"
  obtain ctext tag where t: "ssl_seal lib a key (xor_seq_nonce iv seq) ?aad (data @ [inner]) = Some (ctext, tag)"
    "length ctext = length data + 1" "length tag = 16"
    "ssl_unseal lib a key (xor_seq_nonce iv seq) ?aad ctext tag = Some (data @ [inner])"
    using aead_okE [OF assms(1,4), of "xor_seq_nonce iv seq" ?aad "data @ [inner]"] assms(5) by auto
  have i: "inner \<noteq> 0" using assms(10) by auto
  have n: "last_nonzero (data @ [inner]) (length data + 1) = length data + 1" using i by simp
  have l: "length (ctext @ tag) = m" "length data + 1 + 16 = m" "m - 16 = length data + 1" using t by (simp_all add: m_def)
  have k: "take (length data + 1) (ctext @ tag) = ctext" "drop (length data + 1) (ctext @ tag) = tag" using t(2) by simp_all
  have b: "17 \<le> m" "m \<le> 16640" "5 + m \<le> length data + 22" using assms(6) by (simp_all add: m_def)
  show thesis
  proof (rule that [of "ctext @ tag"])
    show "encrypt_record_into lib c key iv seq inner data (length data + 22) =
        Some ([23, 3, 3] @ be16 (length (ctext @ tag)) @ ctext @ tag, seq + 1)"
      unfolding l encrypt_record_into_def Let_def using t b assms(2,6,7,8,10) by (auto simp: fits_limit_def)
    show "decrypt_record_into lib s key iv seq 23 (ctext @ tag) (length (ctext @ tag)) = Some (data, inner, seq + 1)"
      unfolding decrypt_record_into_def Let_def l k
      using t n b l(3) assms(3,6,7,9,10) by (auto simp: fits_limit_def nth_append)
    show "length (ctext @ tag) = length data + 17" using l(1) by (simp add: m_def)
  qed
qed

section \<open>The two ends of the wire\<close>

text \<open>
  What a connection has put on the wire, how much more it can put there, and what has come in.  A
  connection writes to its socket or, in the relay, to a buffer of at most 256 KiB.
\<close>

definition wire_out :: "tls13_conn \<Rightarrow> bytes" where
  "wire_out c = (if relay_async c then xmux_wire_output c else sent (fd c))"

definition wire_room :: "nat \<Rightarrow> tls13_conn \<Rightarrow> bool" where
  "wire_room n c \<longleftrightarrow>
     \<not> xmux_async c \<and>
     (if relay_async c then length (xmux_wire_output c) + n \<le> 256 * 1024 else 0 \<notin> set (accepts (fd c)) \<and> n \<le> length (accepts (fd c)))"

definition wire_in :: "tls13_conn \<Rightarrow> bytes" where
  "wire_in c = (if relay_async c then xmux_raw_input c else []) @ pending (fd c)"

text \<open>The fields that sending and receiving records leave alone, and the keys of the two directions.\<close>

definition same_link :: "tls13_conn \<Rightarrow> tls13_conn \<Rightarrow> bool" where
  "same_link c d \<longleftrightarrow>
     relay_async d = relay_async c \<and> xmux_async d = xmux_async c \<and> tls_cipher_suite d = tls_cipher_suite c \<and> tls_md d = tls_md c \<and>
     tls_hash_len d = tls_hash_len c \<and> tls_key_len d = tls_key_len c \<and> tls_auth_state d = tls_auth_state c \<and>
     tls_receive_record_limit d = tls_receive_record_limit c \<and> tls_send_record_limit d = tls_send_record_limit c \<and>
     tls_post_handshake d = tls_post_handshake c \<and> send_closed d = send_closed c \<and> receive_closed d = receive_closed c"

definition same_send :: "tls13_conn \<Rightarrow> tls13_conn \<Rightarrow> bool" where
  "same_send c d \<longleftrightarrow>
     c_app_traffic d = c_app_traffic c \<and> c_app_key d = c_app_key c \<and> c_app_iv d = c_app_iv c \<and> c_app_seq d = c_app_seq c"

definition same_receive :: "tls13_conn \<Rightarrow> tls13_conn \<Rightarrow> bool" where
  "same_receive c d \<longleftrightarrow>
     s_app_traffic d = s_app_traffic c \<and> s_app_key d = s_app_key c \<and> s_app_iv d = s_app_iv c \<and> s_app_seq d = s_app_seq c \<and>
     tls_receive_update_requested d = tls_receive_update_requested c"

lemmas same_defs = same_link_def same_send_def same_receive_def

lemma same_link_trans: "same_link c d \<Longrightarrow> same_link d e \<Longrightarrow> same_link c e"
  by (simp add: same_link_def)

lemma wire_update [simp]:
  "wire_room n (c\<lparr>c_app_traffic := v_c_app_traffic\<rparr>) = wire_room n c"
  "wire_room n (c\<lparr>c_app_key := v_c_app_key\<rparr>) = wire_room n c"
  "wire_room n (c\<lparr>c_app_iv := v_c_app_iv\<rparr>) = wire_room n c"
  "wire_room n (c\<lparr>c_app_seq := v_c_app_seq\<rparr>) = wire_room n c"
  "wire_room n (c\<lparr>s_app_traffic := v_s_app_traffic\<rparr>) = wire_room n c"
  "wire_room n (c\<lparr>s_app_key := v_s_app_key\<rparr>) = wire_room n c"
  "wire_room n (c\<lparr>s_app_iv := v_s_app_iv\<rparr>) = wire_room n c"
  "wire_room n (c\<lparr>s_app_seq := v_s_app_seq\<rparr>) = wire_room n c"
  "wire_room n (c\<lparr>tls_receive_update_requested := v_tls_receive_update_requested\<rparr>) = wire_room n c"
  "wire_room n (c\<lparr>c_app_record_bytes := v_c_app_record_bytes\<rparr>) = wire_room n c"
  by (simp_all add: wire_room_def)

lemma wire_out_update [simp]:
  "wire_out (c\<lparr>c_app_traffic := v_c_app_traffic\<rparr>) = wire_out c"
  "wire_out (c\<lparr>c_app_key := v_c_app_key\<rparr>) = wire_out c"
  "wire_out (c\<lparr>c_app_iv := v_c_app_iv\<rparr>) = wire_out c"
  "wire_out (c\<lparr>c_app_seq := v_c_app_seq\<rparr>) = wire_out c"
  "wire_out (c\<lparr>s_app_traffic := v_s_app_traffic\<rparr>) = wire_out c"
  "wire_out (c\<lparr>s_app_key := v_s_app_key\<rparr>) = wire_out c"
  "wire_out (c\<lparr>s_app_iv := v_s_app_iv\<rparr>) = wire_out c"
  "wire_out (c\<lparr>s_app_seq := v_s_app_seq\<rparr>) = wire_out c"
  "wire_out (c\<lparr>tls_receive_update_requested := v_tls_receive_update_requested\<rparr>) = wire_out c"
  "wire_out (c\<lparr>c_app_record_bytes := v_c_app_record_bytes\<rparr>) = wire_out c"
  by (simp_all add: wire_out_def)

lemma wire_in_update [simp]:
  "wire_in (c\<lparr>c_app_traffic := v_c_app_traffic\<rparr>) = wire_in c"
  "wire_in (c\<lparr>c_app_key := v_c_app_key\<rparr>) = wire_in c"
  "wire_in (c\<lparr>c_app_iv := v_c_app_iv\<rparr>) = wire_in c"
  "wire_in (c\<lparr>c_app_seq := v_c_app_seq\<rparr>) = wire_in c"
  "wire_in (c\<lparr>s_app_traffic := v_s_app_traffic\<rparr>) = wire_in c"
  "wire_in (c\<lparr>s_app_key := v_s_app_key\<rparr>) = wire_in c"
  "wire_in (c\<lparr>s_app_iv := v_s_app_iv\<rparr>) = wire_in c"
  "wire_in (c\<lparr>s_app_seq := v_s_app_seq\<rparr>) = wire_in c"
  "wire_in (c\<lparr>tls_receive_update_requested := v_tls_receive_update_requested\<rparr>) = wire_in c"
  "wire_in (c\<lparr>c_app_record_bytes := v_c_app_record_bytes\<rparr>) = wire_in c"
  by (simp_all add: wire_in_def)

lemma wire_room_mono: "wire_room n c \<Longrightarrow> m \<le> n \<Longrightarrow> wire_room m c"
  by (auto simp: wire_room_def split: if_splits)

lemma put_wire:
  assumes "wire_room (length data + n) c" "\<And>m. room m"
  obtains c1 where "relay_write_wire room c data = (True, c1)" "wire_out c1 = wire_out c @ data" "wire_room n c1"
    "wire_in c1 = wire_in c" "inbox (fd c1) = inbox (fd c)" "same_link c c1" "same_send c c1" "same_receive c c1"
proof (cases "relay_async c")
  case True
  have f: "length data + length (xmux_wire_output c) \<le> 262144" using assms(1) True by (simp add: wire_room_def)
  then have "szsub 262144 (length (xmux_wire_output c)) = 262144 - length (xmux_wire_output c)"
    by (intro szsub_exact) (simp_all add: SIZE_MAX_def)
  then have "relay_write_wire room c data = (True, c\<lparr>xmux_wire_output := xmux_wire_output c @ data\<rparr>)"
    using assms(2) True f by (auto simp: relay_write_wire_def wire_append_def cache_append_def)
  then show thesis
    using that [of "c\<lparr>xmux_wire_output := xmux_wire_output c @ data\<rparr>"] assms(1) True
    by (simp add: wire_out_def wire_room_def wire_in_def same_defs)
next
  case False
  then obtain k where k: "write_exact (fd c) data = (True, k)" "sent k = sent (fd c) @ data" "inbox k = inbox (fd c)"
    "0 \<notin> set (accepts k)" "length (accepts (fd c)) \<le> length data + length (accepts k)"
    using write_exact_accepted [of "fd c" data] assms(1) by (auto simp: wire_room_def)
  show thesis
    using that [of "c\<lparr>fd := k\<rparr>"] k assms(1) False
    by (simp add: relay_write_wire_def wire_out_def wire_room_def wire_in_def pending_def same_defs)
qed

lemma buffered_record_head:
  assumes "\<And>m. room m" "raw = [23, 3, 3] @ be16 (length payload) @ payload @ r" "length payload \<le> 16640"
  shows "buffered_record room raw = Some (Record 23 payload, r)"
proof -
  have "word16 (raw ! 3) (raw ! 4) = length payload" using assms(2,3) word16_be16 [of "length payload"] by (simp add: be16_def)
  moreover have "raw ! 0 = 23" "raw ! 1 = 3" "raw ! 2 = 3" "length raw = 5 + length payload + length r" "drop 5 raw = payload @ r"
    using assms(2) by (simp_all add: be16_def)
  moreover have "drop (length payload + 5) raw = drop (length payload) (drop 5 raw)" by simp
  ultimately show ?thesis using assms(1,3) by (simp add: buffered_record_def Let_def del: drop_drop)
qed

text \<open>Before a record is complete no error is seen.\<close>

lemma buffered_record_prefix:
  assumes "raw @ later = [23, 3, 3] @ be16 (length payload) @ payload @ r" "length payload \<le> 16640" "length raw < 5 + length payload"
  shows "buffered_record room raw = None"
proof (cases "length raw < 5")
  case False
  let ?w = "[23, 3, 3] @ be16 (length payload) @ payload @ r"
  have n: "raw ! i = ?w ! i" if "i < 5" for i
    using arg_cong [OF assms(1), of "\<lambda>xs. xs ! i"] that False by (simp add: nth_append)
  have "word16 (?w ! 3) (?w ! 4) = length payload" using assms(2) word16_be16 [of "length payload"] by (simp add: be16_def)
  then have "word16 (raw ! 3) (raw ! 4) = length payload" using n [of 3] n [of 4] by simp
  moreover have "raw ! 0 = 23" "raw ! 1 = 3" "raw ! 2 = 3" using n [of 0] n [of 1] n [of 2] by simp_all
  ultimately show ?thesis using False assms(2,3) by (simp add: buffered_record_def Let_def)
qed (simp add: buffered_record_def)

lemma append_longer: "xs @ ys = zs @ ts \<Longrightarrow> length zs \<le> length xs \<Longrightarrow> \<exists>us. xs = zs @ us \<and> us @ ys = ts"
  by (auto simp: append_eq_append_conv2)

lemma relay_read_loop_record:
  assumes "\<And>m. room m" "length payload \<le> 16640" "sock_open k"
    and "raw @ pending k = [23, 3, 3] @ be16 (length payload) @ payload @ r"
  shows "\<exists>k1 raw1. relay_read_loop room k raw = (Record 23 payload, k1, raw1) \<and> raw1 @ pending k1 = r \<and>
    sock_open k1 \<and> accepts k1 = accepts k \<and> sent k1 = sent k"
  using assms(1,3,4)
proof (induction room k raw rule: relay_read_loop.induct)
  case (1 room k raw)
  show ?case
  proof (cases "length raw < 5 + length payload")
    case False
    then obtain r1 where r1: "raw = ([23, 3, 3] @ be16 (length payload) @ payload) @ r1" "r1 @ pending k = r"
      using append_longer [of raw "pending k" "[23, 3, 3] @ be16 (length payload) @ payload" r] "1.prems"(3) by auto
    then have "raw = [23, 3, 3] @ be16 (length payload) @ payload @ r1" by simp
    note h = buffered_record_head [where room = room, OF "1.prems"(1) this assms(2)]
    then show ?thesis
      using "1.prems"(2) r1(2) by (subst relay_read_loop.simps) (simp only: h option.case prod.case, blast)
  next
    case True
    then have b: "buffered_record room raw = None" by (rule buffered_record_prefix [OF "1.prems"(3) assms(2)])
    have "pending k \<noteq> []"
    proof
      assume "pending k = []"
      then have "length raw = 5 + length payload + length r" using arg_cong [OF "1.prems"(3), of length] by simp
      then show False using True by simp
    qed
    then obtain piece pieces where p: "inbox k = piece # pieces" by (cases "inbox k") (auto simp: pending_def)
    then have q: "piece \<noteq> []" "[] \<notin> set pieces" using "1.prems"(2) by (auto simp: sock_open_def)
    define k1 where "k1 = k\<lparr>inbox := (if length piece \<le> 16384 then pieces else drop 16384 piece # pieces)\<rparr>"
    have a: "cache_append room 0 raw (take 16384 piece) = Some (raw @ take 16384 piece)"
      using "1.prems"(1) q(1) by (simp add: cache_append_def)
    have s: "relay_read_loop room k raw = relay_read_loop room k1 (raw @ take 16384 piece)"
      using b p q(1) a by (subst relay_read_loop.simps) (simp add: k1_def Let_def)
    have o1: "sock_open k1" "(raw @ take 16384 piece) @ pending k1 = raw @ pending k" "accepts k1 = accepts k" "sent k1 = sent k"
      using q p by (auto simp: k1_def sock_open_def pending_def)
    show ?thesis
      unfolding s using 1(1) [OF b p q(1) refl k1_def a "1.prems"(1) o1(1)] o1 "1.prems"(3) by simp
  qed
qed

lemma get_wire:
  assumes "\<And>m. room m" "length payload \<le> 16640" "sock_open (fd s)" "wire_in s = [23, 3, 3] @ be16 (length payload) @ payload @ r"
  obtains s1 where "next_record room s = (Record 23 payload, s1)" "wire_in s1 = r" "sock_open (fd s1)"
    "wire_out s1 = wire_out s" "\<And>n. wire_room n s1 = wire_room n s" "same_link s s1" "same_send s s1" "same_receive s s1"
proof (cases "relay_async s")
  case True
  obtain k raw where k: "relay_read_loop room (fd s) (xmux_raw_input s) = (Record 23 payload, k, raw)" "raw @ pending k = r" "sock_open k"
    using relay_read_loop_record [where room = room, OF assms(1-3), of "xmux_raw_input s" r] assms(4) True by (auto simp: wire_in_def)
  show thesis
    using that [of "s\<lparr>fd := k, xmux_raw_input := raw\<rparr>"] k True
    by (simp add: next_record_def relay_read_record_def wire_in_def wire_out_def wire_room_def same_defs)
next
  case False
  have p: "pending (fd s) = ([23, 3, 3] @ be16 (length payload)) @ payload @ r" using assms(4) False by (simp add: wire_in_def)
  obtain k1 where k1: "read_exact (fd s) 5 = (Some ([23, 3, 3] @ be16 (length payload)), k1)" "pending k1 = payload @ r" "sock_open k1"
    "accepts k1 = accepts (fd s)" "sent k1 = sent (fd s)"
    by (rule read_exactE [OF assms(3) p, of 5]) (use that in auto)
  obtain k2 where k2: "read_exact k1 (length payload) = (Some payload, k2)" "pending k2 = r" "sock_open k2"
    "accepts k2 = accepts k1" "sent k2 = sent k1"
    by (rule read_exactE [OF k1(3,2) refl]) (use that in auto)
  have "read_record_header (fd s) = (Some (23, length payload), k1)"
    using k1(1) assms(2) word16_be16 [of "length payload"] by (simp add: read_record_header_def Let_def be16_def)
  then have "read_record_bounded room (fd s) = (Record 23 payload, k2)"
    using k2(1) assms(1) by (simp add: read_record_bounded_def)
  then show thesis
    using that [of "s\<lparr>fd := k2\<rparr>"] k1 k2 False
    by (simp add: next_record_def wire_in_def wire_out_def wire_room_def same_defs)
qed

section \<open>Key updates\<close>

definition app_record :: "bytes \<Rightarrow> bytes" where
  "app_record payload = [23, 3, 3] @ be16 (length payload) @ payload"

text \<open>\<open>payload\<close> is the body of the record that seals \<open>data\<close> with the present keys.\<close>

definition sealed :: "openssl \<Rightarrow> tls13_conn \<Rightarrow> byte \<Rightarrow> bytes \<Rightarrow> bytes \<Rightarrow> bool" where
  "sealed lib c inner data payload \<longleftrightarrow>
     encrypt_record_into lib c (c_app_key c) (c_app_iv c) (c_app_seq c) inner data (length data + 22) =
       Some (app_record payload, c_app_seq c + 1) \<and> length payload = length data + 17"

definition next_secret :: "openssl \<Rightarrow> md \<Rightarrow> bytes \<Rightarrow> bytes" where
  "next_secret lib h secret = HKDF_Expand_Label lib h secret ''traffic upd'' [] (md_size h)"

lemma next_secret_length: "hashes_ok lib \<Longrightarrow> length secret = md_size h \<Longrightarrow> length (next_secret lib h secret) = md_size h"
  by (simp add: next_secret_def label_exact)

lemma tls_update_keys_exact:
  assumes "hashes_ok lib" "suite_ok c h a"
  shows "length (c_app_traffic c) = md_size h \<Longrightarrow>
      tls_update_keys lib c True =
        (let secret = next_secret lib h (c_app_traffic c)
         in Some (True, c\<lparr>c_app_traffic := secret, c_app_key := traffic_key lib h secret (tls_key_len c),
                          c_app_iv := traffic_iv lib h secret, c_app_seq := 0\<rparr>))"
    and "length (s_app_traffic c) = md_size h \<Longrightarrow>
      tls_update_keys lib c False =
        (let secret = next_secret lib h (s_app_traffic c)
         in Some (True, c\<lparr>s_app_traffic := secret, s_app_key := traffic_key lib h secret (tls_key_len c),
                          s_app_iv := traffic_iv lib h secret, s_app_seq := 0, tls_receive_update_requested := False\<rparr>))"
  using assms suite_key_len [OF assms(2)] label_exact [OF assms(1), where n = "md_size h" and h = h and label = "''traffic upd''" and ctx = "[]"]
    next_secret_length [OF assms(1), where h = h] derive_key_iv_ok [OF assms(1), where h = h]
  by (simp_all add: tls_update_keys_def suite_ok_def Let_def next_secret_def)

text \<open>A connection that can send: it has keys, its peer accepts records of a useful size, and \<open>n\<close> more bytes fit on the wire.\<close>

definition sender_ok :: "md \<Rightarrow> aead \<Rightarrow> nat \<Rightarrow> tls13_conn \<Rightarrow> bool" where
  "sender_ok h a n c \<longleftrightarrow>
     suite_ok c h a \<and> length (c_app_traffic c) = md_size h \<and> length (c_app_key c) = aead_key_size a \<and> length (c_app_iv c) = 12 \<and>
     c_app_seq c \<le> TLS_RECORD_REKEY_LIMIT \<and> (tls_send_record_limit c = 0 \<or> tls_send_record_limit c \<ge> 6) \<and>
     \<not> send_closed c \<and> wire_room n c"

lemma sender_ok_same:
  assumes "sender_ok h a n c" "same_link c d" "same_send c d" "wire_room m d"
  shows "sender_ok h a m d"
  using assms suite_ok_same [of d c] by (simp add: sender_ok_def same_link_def same_send_def)

lemma sender_ok_mono: "sender_ok h a n c \<Longrightarrow> m \<le> n \<Longrightarrow> sender_ok h a m c"
  using wire_room_mono [of n c m] by (simp add: sender_ok_def)

lemma record_cipher_same:
  "tls_cipher_suite d = tls_cipher_suite c \<Longrightarrow> tls_key_len d = tls_key_len c \<Longrightarrow> record_cipher_for_conn d = record_cipher_for_conn c"
  by (simp add: record_cipher_for_conn_def)

lemma seals:
  assumes "aead_ok lib" "sender_ok h a n c" "length data \<le> 16384" "fits_limit (tls_send_record_limit c) (length data)"
    and "inner = 21 \<or> inner = 22 \<or> inner = 23"
  obtains payload where "sealed lib c inner data payload"
proof -
  define s where "s = c\<lparr>tls_receive_record_limit := 0\<rparr>"
  have "record_cipher_for_conn s = record_cipher_for_conn c" by (rule record_cipher_same) (simp_all add: s_def)
  then have f: "record_cipher_for_conn c = Some a" "record_cipher_for_conn s = Some a" "c_app_seq c < TLS_RECORD_HARD_LIMIT"
    "length (c_app_key c) = aead_key_size a" "length (c_app_iv c) = 12" "fits_limit (tls_receive_record_limit s) (length data)"
    using assms(2) by (simp_all add: sender_ok_def suite_ok_def s_def fits_limit_def
        TLS_RECORD_REKEY_LIMIT_def TLS_RECORD_HARD_LIMIT_def)
  obtain payload where "encrypt_record_into lib c (c_app_key c) (c_app_iv c) (c_app_seq c) inner data (length data + 22) =
      Some (app_record payload, c_app_seq c + 1)" "length payload = length data + 17"
    using seal_open [OF assms(1) f(1,2,4,5) assms(3) f(3) assms(4) f(6) assms(5)] unfolding app_record_def by blast
  then show thesis by (intro that [of payload]) (simp add: sealed_def)
qed

text \<open>What is sealed with the keys of the sender opens with the same keys at the receiver.\<close>

definition linked :: "tls13_conn \<Rightarrow> tls13_conn \<Rightarrow> bool" where
  "linked c s \<longleftrightarrow>
     tls_cipher_suite s = tls_cipher_suite c \<and> tls_md s = tls_md c \<and> tls_hash_len s = tls_hash_len c \<and> tls_key_len s = tls_key_len c \<and>
     s_app_traffic s = c_app_traffic c \<and> s_app_key s = c_app_key c \<and> s_app_iv s = c_app_iv c \<and> s_app_seq s = c_app_seq c"

lemma app_record_inj: "app_record p = app_record q \<Longrightarrow> p = q"
  by (simp add: app_record_def be16_def)

lemma opens:
  assumes "aead_ok lib" "sender_ok h a n c" "linked c s" "length data \<le> 16384"
    and "fits_limit (tls_send_record_limit c) (length data)" "fits_limit (tls_receive_record_limit s) (length data)"
    and "inner = 21 \<or> inner = 22 \<or> inner = 23" "sealed lib c inner data payload" "\<And>m. room m"
  shows "tls_record_open_owned lib room s 23 payload = Some (data, inner, s\<lparr>s_app_seq := c_app_seq c + 1\<rparr>)"
proof -
  have "record_cipher_for_conn s = record_cipher_for_conn c"
    by (rule record_cipher_same) (use assms(3) in \<open>simp_all add: linked_def\<close>)
  then have k: "record_cipher_for_conn c = Some a" "record_cipher_for_conn s = Some a" "c_app_seq c < TLS_RECORD_HARD_LIMIT"
    "length (c_app_key c) = aead_key_size a" "length (c_app_iv c) = 12"
    using assms(2,3) by (simp_all add: sender_ok_def suite_ok_def
        TLS_RECORD_REKEY_LIMIT_def TLS_RECORD_HARD_LIMIT_def)
  obtain q where q: "encrypt_record_into lib c (c_app_key c) (c_app_iv c) (c_app_seq c) inner data (length data + 22) =
      Some (app_record q, c_app_seq c + 1)" "length q = length data + 17"
    "decrypt_record_into lib s (c_app_key c) (c_app_iv c) (c_app_seq c) 23 q (length q) = Some (data, inner, c_app_seq c + 1)"
    using seal_open [OF assms(1) k(1,2,4,5) assms(4) k(3) assms(5-7)] unfolding app_record_def by blast
  have "payload = q" using app_record_inj [of payload q] assms(8) q(1) by (simp add: sealed_def)
  then show ?thesis
    using q assms(3,4,9) by (auto simp: tls_record_open_owned_def Let_def linked_def)
qed

definition updated_send :: "openssl \<Rightarrow> md \<Rightarrow> tls13_conn \<Rightarrow> tls13_conn \<Rightarrow> bool" where
  "updated_send lib h c d \<longleftrightarrow>
     (let secret = next_secret lib h (c_app_traffic c)
      in c_app_traffic d = secret \<and> c_app_key d = traffic_key lib h secret (tls_key_len c) \<and>
         c_app_iv d = traffic_iv lib h secret \<and> c_app_seq d = 0)"

lemma seal_owned:
  assumes "sealed lib c inner data payload" "\<And>m. room m" "length data \<le> 16384"
  shows "tls_record_seal_owned lib room c inner data = Some (app_record payload, c\<lparr>c_app_seq := c_app_seq c + 1\<rparr>)"
  using assms by (simp add: tls_record_seal_owned_def sealed_def Let_def)

lemma length_app_record [simp]: "length (app_record payload) = 5 + length payload"
  by (simp add: app_record_def)

text \<open>Sending a key update: the update itself goes out under the old keys, and the new keys follow.\<close>

lemma key_update_sends:
  assumes "aead_ok lib" "hashes_ok lib" "sender_ok h a (27 + n) c" "\<And>m. room m"
  obtains payload d where "tls_key_update_send lib room c request = Some (True, d)" "sealed lib c 22 [24, 0, 0, 1, request] payload"
    "wire_out d = wire_out c @ app_record payload" "wire_in d = wire_in c" "inbox (fd d) = inbox (fd c)"
    "updated_send lib h c d" "sender_ok h a n d" "same_link c d" "same_receive c d"
proof -
  obtain payload where p: "sealed lib c 22 [24, 0, 0, 1, request] payload"
    by (rule seals [OF assms(1,3), of "[24, 0, 0, 1, request]" 22]) (use assms(3) that in \<open>auto simp: sender_ok_def fits_limit_def\<close>)
  define c1 where "c1 = c\<lparr>c_app_seq := c_app_seq c + 1\<rparr>"
  have so: "tls_record_seal_owned lib room c 22 [24, 0, 0, 1, request] = Some (app_record payload, c1)"
    using seal_owned [OF p assms(4)] by (simp add: c1_def)
  have "length (app_record payload) = 27" using p by (simp add: sealed_def)
  moreover have "wire_room (27 + n) c1" using assms(3) by (simp add: sender_ok_def c1_def)
  ultimately have wr: "wire_room (length (app_record payload) + n) c1" by (simp only:)
  obtain c2 where c2: "relay_write_wire room c1 (app_record payload) = (True, c2)" "wire_out c2 = wire_out c1 @ app_record payload"
    "wire_room n c2" "wire_in c2 = wire_in c1" "inbox (fd c2) = inbox (fd c1)" "same_link c1 c2" "same_send c1 c2" "same_receive c1 c2"
    by (rule put_wire [where room = room, OF wr assms(4)], rule that)
  let ?secret = "next_secret lib h (c_app_traffic c)"
  define d where "d = c2\<lparr>c_app_traffic := ?secret, c_app_key := traffic_key lib h ?secret (tls_key_len c),
    c_app_iv := traffic_iv lib h ?secret, c_app_seq := 0\<rparr>"
  have s: "suite_ok c h a" "length (c_app_traffic c) = md_size h" using assms(3) by (simp_all add: sender_ok_def)
  have "suite_ok c2 = suite_ok c" by (rule suite_ok_same) (use c2(6) in \<open>simp_all add: same_link_def c1_def\<close>)
  then have s2: "suite_ok c2 h a" "c_app_traffic c2 = c_app_traffic c" "tls_key_len c2 = tls_key_len c"
    using s c2(6,7) by (simp_all add: same_defs c1_def)
  have u: "tls_update_keys lib c2 True = Some (True, d)"
    using tls_update_keys_exact(1) [OF assms(2) s2(1)] s2 s by (simp add: Let_def d_def)
  have l: "same_link c d" "same_receive c d" using c2(6,8) by (simp_all add: same_defs d_def c1_def)
  have x: "\<not> send_closed c" "\<not> xmux_async c1" using assms(3) by (simp_all add: sender_ok_def wire_room_def c1_def)
  have dd: "suite_ok d h a" "length ?secret = md_size h" "tls_key_len c = aead_key_size a" "wire_room n d"
    using suite_ok_same [of d c] l(1) s next_secret_length [OF assms(2) s(2)] c2(3)
    by (simp_all add: same_link_def suite_ok_def d_def)
  have "sender_ok h a n d"
    using assms(3) l(1) dd derive_key_iv_ok [OF assms(2) dd(2)] suite_key_len [OF s(1)]
    by (simp add: sender_ok_def same_link_def) (simp add: d_def)
  moreover have "updated_send lib h c d" by (simp add: updated_send_def d_def)
  moreover have "wire_out d = wire_out c @ app_record payload" "wire_in d = wire_in c" "inbox (fd d) = inbox (fd c)"
    using c2(2,4,5) by (simp_all add: d_def c1_def)
  moreover have "tls_key_update_send lib room c request = Some (True, d)"
    using x so c2(1) u by (simp add: tls_key_update_send_def)
  ultimately show thesis using that p l by blast
qed

section \<open>Receiving\<close>

text \<open>A connection that can receive, and a limit that covers what the sender may send.\<close>

definition receiver_ok :: "tls13_conn \<Rightarrow> bool" where
  "receiver_ok s \<longleftrightarrow> \<not> receive_closed s \<and> tls_post_handshake s = [] \<and> tls_auth_state s = 4 \<and> sock_open (fd s)"

definition limits_ok :: "tls13_conn \<Rightarrow> tls13_conn \<Rightarrow> bool" where
  "limits_ok c s \<longleftrightarrow>
     tls_receive_record_limit s = 0 \<or> tls_receive_record_limit s \<ge> 16385 \<or>
     (tls_send_record_limit c \<noteq> 0 \<and> tls_send_record_limit c \<le> tls_receive_record_limit s)"

lemma limits_fit:
  "limits_ok c s \<Longrightarrow> fits_limit (tls_send_record_limit c) n \<Longrightarrow> n \<le> 16384 \<Longrightarrow> fits_limit (tls_receive_record_limit s) n"
  by (auto simp: limits_ok_def fits_limit_def)

lemma key_update_handled:
  assumes "hashes_ok lib" "suite_ok s h a" "length (s_app_traffic s) = md_size h" "receiver_ok s" "\<And>m. room m"
  shows "tls_application_plain lib room limit s 22 [24, 0, 0, 1, 0] [] =
    (let secret = next_secret lib h (s_app_traffic s)
     in Some (0, s\<lparr>s_app_traffic := secret, s_app_key := traffic_key lib h secret (tls_key_len s),
                   s_app_iv := traffic_iv lib h secret, s_app_seq := 0, tls_receive_update_requested := False\<rparr>, []))"
proof -
  define t where "t = s\<lparr>s_app_traffic := next_secret lib h (s_app_traffic s),
      s_app_key := traffic_key lib h (next_secret lib h (s_app_traffic s)) (tls_key_len s),
      s_app_iv := traffic_iv lib h (next_secret lib h (s_app_traffic s)), s_app_seq := 0, tls_receive_update_requested := False\<rparr>"
  have u: "tls_update_keys lib s False = Some (True, t)"
    using tls_update_keys_exact(2) [OF assms(1,2,3)] by (simp add: Let_def t_def)
  have e: "post_handshake_loop lib room t [] = Some (True, t)"
    using assms(4) by (subst post_handshake_loop.simps) (simp add: t_def receiver_ok_def)
  have w: "at24 [24, 0, 0, 1, 0] (Suc 0) = Some 1" "byte_at [24, 0, 0, 1, 0] 4 = Some 0" "byte_at [24, 0, 0, 1, 0] 0 = Some 24"
    by (simp_all add: at24_def byte_at_def word24_def)
  have "post_handshake_loop lib room s [24, 0, 0, 1, 0] = Some (True, t)"
    by (subst post_handshake_loop.simps) (simp add: w u e)
  moreover have "cache_append room TLS_POST_HANDSHAKE_LIMIT (tls_post_handshake s) [24, 0, 0, 1, 0] = Some [24, 0, 0, 1, 0]"
    using assms(4,5) by (simp add: cache_append_def receiver_ok_def TLS_POST_HANDSHAKE_LIMIT_def)
  moreover have "szsub TLS_POST_HANDSHAKE_LIMIT 0 = 262144" by (simp add: szsub_def TLS_POST_HANDSHAKE_LIMIT_def)
  ultimately have "tls_post_handshake_msg lib room s [24, 0, 0, 1, 0] = Some (True, t)"
    using assms(4) by (simp add: tls_post_handshake_msg_def receiver_ok_def)
  moreover have "request_update lib room t [] = Some (0, t, [])"
    by (simp add: request_update_def t_def TLS_RECORD_REKEY_LIMIT_def)
  ultimately show ?thesis
    using assms(4) by (simp add: tls_application_plain_def receiver_ok_def Let_def t_def)
qed

lemma fill_loop_record:
  "next_record room s = (Record 23 payload, s1) \<Longrightarrow> tls_record_open_owned lib room s1 23 payload = Some (data, inner, s2) \<Longrightarrow>
   fill_loop lib room limit s cache =
     do { (result, c3, cache1) \<leftarrow> tls_application_plain lib room limit s2 inner data cache;
          (if result < 0 then Some (-1, c3, cache1)
           else if result > 0 \<or> cache1 \<noteq> [] then Some (0, c3, cache1)
           else fill_loop lib room limit c3 cache1) }"
  by (subst fill_loop.simps) simp

text \<open>
  A sender and a receiver that agree: \<open>m\<close> more bytes fit on the wire of the receiver, which
  answers key updates.
\<close>

definition agree :: "md \<Rightarrow> aead \<Rightarrow> nat \<Rightarrow> tls13_conn \<Rightarrow> tls13_conn \<Rightarrow> bool" where
  "agree h a m c s \<longleftrightarrow> sender_ok h a m s \<and> linked c s \<and> receiver_ok s \<and> limits_ok c s"

lemma record_arrives:
  assumes "aead_ok lib" "sender_ok h a n c" "agree h a m c s" "length data \<le> 16384"
    and "fits_limit (tls_send_record_limit c) (length data)" "inner = 21 \<or> inner = 22 \<or> inner = 23"
    and "sealed lib c inner data payload" "wire_in s = app_record payload @ r" "\<And>k. room k"
  obtains t where "next_record room s = (Record 23 payload, t)"
    "tls_record_open_owned lib room t 23 payload = Some (data, inner, t\<lparr>s_app_seq := c_app_seq c + 1\<rparr>)"
    "wire_in t = r" "agree h a m c t" "tls_receive_update_requested t = tls_receive_update_requested s"
proof -
  have p: "length payload \<le> 16640" using assms(4,7) by (simp add: sealed_def)
  have o: "sock_open (fd s)" using assms(3) by (simp add: agree_def receiver_ok_def)
  have "wire_in s = [23, 3, 3] @ be16 (length payload) @ payload @ r" using assms(8) by (simp add: app_record_def)
  then obtain t where t: "next_record room s = (Record 23 payload, t)" "wire_in t = r" "sock_open (fd t)"
    "\<And>k. wire_room k t = wire_room k s" "same_link s t" "same_send s t" "same_receive s t"
    using get_wire [where room = room, OF assms(9) p o] by metis
  have g: "agree h a m c t"
    using assms(3) t(3-7) sender_ok_same [of h a m s t m]
    by (simp add: agree_def receiver_ok_def linked_def limits_ok_def same_defs) (simp add: sender_ok_def)
  have "fits_limit (tls_receive_record_limit t) (length data)"
    using limits_fit [OF _ assms(5,4)] g by (simp add: agree_def)
  then have "tls_record_open_owned lib room t 23 payload = Some (data, inner, t\<lparr>s_app_seq := c_app_seq c + 1\<rparr>)"
    using opens [where room = room, OF assms(1,2) _ assms(4,5) _ assms(6,7,9)] g by (simp add: agree_def)
  then show thesis using that t(1,2,7) g by (simp add: same_receive_def)
qed

lemma update_received:
  assumes "aead_ok lib" "hashes_ok lib" "sender_ok h a n c" "agree h a m c s" "sealed lib c 22 [24, 0, 0, 1, 0] payload"
    and "wire_in s = app_record payload @ r" "\<And>k. room k" "updated_send lib h c d" "same_link c d"
  obtains t where "fill_loop lib room limit s [] = fill_loop lib room limit t []" "wire_in t = r" "agree h a m d t"
proof -
  have "fits_limit (tls_send_record_limit c) (length [24, 0, 0, 1, 0 :: byte])"
    using assms(3) by (simp add: sender_ok_def fits_limit_def eval_nat_numeral)
  then obtain t where t: "next_record room s = (Record 23 payload, t)"
    "tls_record_open_owned lib room t 23 payload = Some ([24, 0, 0, 1, 0], 22, t\<lparr>s_app_seq := c_app_seq c + 1\<rparr>)"
    "wire_in t = r" "agree h a m c t"
    using record_arrives [where room = room, OF assms(1,3,4) _ _ _ assms(5,6,7)] by auto
  let ?secret = "next_secret lib h (c_app_traffic c)"
  define u where "u = t\<lparr>s_app_traffic := ?secret, s_app_key := traffic_key lib h ?secret (tls_key_len t),
      s_app_iv := traffic_iv lib h ?secret, s_app_seq := 0, tls_receive_update_requested := False\<rparr>"
  have f: "suite_ok t h a" "s_app_traffic t = c_app_traffic c" "length (s_app_traffic t) = md_size h" "receiver_ok t" "tls_key_len t = tls_key_len c"
    using t(4) assms(3) by (simp_all add: agree_def sender_ok_def linked_def)
  have "tls_application_plain lib room limit (t\<lparr>s_app_seq := c_app_seq c + 1\<rparr>) 22 [24, 0, 0, 1, 0] [] = Some (0, u, [])"
    using key_update_handled [where room = room, OF assms(2) _ _ _ assms(7), of "t\<lparr>s_app_seq := c_app_seq c + 1\<rparr>" h a limit]
      suite_ok_same [of "t\<lparr>s_app_seq := c_app_seq c + 1\<rparr>" t] f
    by (simp add: receiver_ok_def Let_def u_def)
  then have "fill_loop lib room limit s [] = fill_loop lib room limit u []" by (simp add: fill_loop_record [OF t(1,2)])
  moreover have "wire_in u = r" using t(3) by (simp add: u_def)
  moreover have "sender_ok h a m u"
    using t(4) suite_ok_same [of u t] by (simp add: agree_def sender_ok_def u_def)
  moreover have "linked d u" using assms(8,9) t(4) f by (simp add: linked_def agree_def u_def updated_send_def Let_def same_link_def)
  moreover have "receiver_ok u" "limits_ok d u"
    using t(4) assms(9) by (simp_all add: agree_def receiver_ok_def limits_ok_def u_def same_link_def)
  ultimately show thesis using that by (simp add: agree_def)
qed

lemma data_received:
  assumes "aead_ok lib" "hashes_ok lib" "sender_ok h a n c" "agree h a (27 + m) c s" "sealed lib c 23 data payload"
    and "wire_in s = app_record payload @ r" "\<And>k. room k" "data \<noteq> []" "length data \<le> 16384"
    and "fits_limit (tls_send_record_limit c) (length data)" "limit = 0 \<or> 16384 \<le> limit"
    and "same_link c d" "same_send (c\<lparr>c_app_seq := c_app_seq c + 1\<rparr>) d"
  obtains t where "fill_loop lib room limit s [] = Some (0, t, data)" "wire_in t = r" "agree h a m d t"
proof -
  obtain t where t: "next_record room s = (Record 23 payload, t)"
    "tls_record_open_owned lib room t 23 payload = Some (data, 23, t\<lparr>s_app_seq := c_app_seq c + 1\<rparr>)"
    "wire_in t = r" "agree h a (27 + m) c t"
    using record_arrives [where room = room, OF assms(1,3,4,9,10) _ assms(5,6,7)] by auto
  define u where "u = t\<lparr>s_app_seq := c_app_seq c + 1\<rparr>"
  have so: "sender_ok h a (27 + m) u"
    by (rule sender_ok_same [of h a "27 + m" t]) (use t(4) in \<open>simp_all add: u_def agree_def sender_ok_def same_defs\<close>)
  have lu: "linked d u" "receiver_ok u" "limits_ok d u"
    using t(4) assms(12,13) by (simp_all add: u_def agree_def linked_def receiver_ok_def limits_ok_def same_defs)
  have "cache_append room limit [] data = Some data" using assms(7,9,11) by (auto simp: cache_append_def)
  then have a: "tls_application_plain lib room limit u 23 data [] = request_update lib room u data"
    using lu(2) by (simp add: tls_application_plain_def receiver_ok_def)
  have "\<exists>v. request_update lib room u data = Some (0, v, data) \<and> wire_in v = r \<and> agree h a m d v"
  proof (cases "tls_post_handshake u = [] \<and> s_app_seq u \<ge> TLS_RECORD_REKEY_LIMIT \<and> \<not> tls_receive_update_requested u \<and> \<not> send_closed u")
    case True
    obtain p v where v: "tls_key_update_send lib room u 1 = Some (True, v)" "wire_in v = wire_in u" "inbox (fd v) = inbox (fd u)"
      "sender_ok h a m v" "same_link u v" "same_receive u v"
      using key_update_sends [where room = room, OF assms(1,2) so assms(7), of 1] by metis
    let ?v = "v\<lparr>tls_receive_update_requested := True\<rparr>"
    have "sender_ok h a m ?v" using v(4) suite_ok_same [of ?v v] by (simp add: sender_ok_def)
    then have "agree h a m d ?v"
      using lu v(3,5,6) by (simp add: agree_def linked_def receiver_ok_def limits_ok_def same_defs sock_open_def)
    then show ?thesis
      using True v(1,2) t(3) by (simp add: request_update_def u_def)
  next
    case False
    then show ?thesis
      using lu sender_ok_mono [OF so, of m] t(3) by (auto simp: request_update_def agree_def u_def)
  qed
  then obtain v where v: "request_update lib room u data = Some (0, v, data)" "wire_in v = r" "agree h a m d v" by blast
  then have "fill_loop lib room limit s [] = Some (0, v, data)"
    using a assms(8) by (simp add: fill_loop_record [OF t(1,2)] u_def)
  then show thesis using that v(2,3) by blast
qed

section \<open>Application data from end to end\<close>

lemma write_sends:
  assumes "aead_ok lib" "sender_ok h a (22 + length data + n) c" "c_app_seq c < TLS_RECORD_REKEY_LIMIT" "\<And>k. room k"
    and "length data \<le> 16384" "fits_limit (tls_send_record_limit c) (length data)"
  obtains payload d where "write_app_record lib room c data = Some (True, d)" "sealed lib c 23 data payload"
    "wire_out d = wire_out c @ app_record payload" "sender_ok h a n d" "same_link c d" "same_send (c\<lparr>c_app_seq := c_app_seq c + 1\<rparr>) d"
proof -
  obtain payload where p: "sealed lib c 23 data payload" using seals [OF assms(1,2,5,6), of 23] by auto
  define c1 where "c1 = c\<lparr>c_app_seq := c_app_seq c + 1\<rparr>"
  have so: "tls_record_seal_owned lib room c 23 data = Some (app_record payload, c1)"
    using seal_owned [where room = room, OF p assms(4,5)] by (simp add: c1_def)
  have "length (app_record payload) + n = 22 + length data + n" using p by (simp add: sealed_def)
  moreover have "wire_room (22 + length data + n) c1" using assms(2) by (simp add: sender_ok_def c1_def)
  ultimately have wr: "wire_room (length (app_record payload) + n) c1" by (simp only:)
  obtain c2 where c2: "relay_write_wire room c1 (app_record payload) = (True, c2)" "wire_out c2 = wire_out c1 @ app_record payload"
    "wire_room n c2" "wire_in c2 = wire_in c1" "inbox (fd c2) = inbox (fd c1)" "same_link c1 c2" "same_send c1 c2" "same_receive c1 c2"
    by (rule put_wire [where room = room, OF wr assms(4)], rule that)
  define d where "d = c2\<lparr>c_app_record_bytes := c_app_record_bytes c2 + length (app_record payload)\<rparr>"
  have s1: "sender_ok h a 0 c1"
    using assms(2,3) suite_ok_same [of c1 c] wire_room_mono [of "22 + length data + n" c 0] by (simp add: sender_ok_def c1_def)
  have l: "same_link c1 d" "same_send c1 d" using c2(6,7) by (simp_all add: d_def same_defs)
  have "sender_ok h a n d" by (rule sender_ok_same [OF s1 l]) (use c2(3) in \<open>simp add: d_def\<close>)
  moreover have "write_app_record lib room c data = Some (True, d)" using so c2(1) by (simp add: write_app_record_def d_def)
  moreover have "wire_out d = wire_out c @ app_record payload" using c2(2) by (simp add: d_def c1_def)
  moreover have "same_link c d" using l(1) by (simp add: c1_def same_link_def)
  ultimately show thesis using that p l(2) by (simp add: c1_def)
qed

lemma record_chunk_ok:
  assumes "left \<noteq> 0" "tls_send_record_limit c = 0 \<or> tls_send_record_limit c \<ge> 6"
  shows "0 < record_chunk c left" "record_chunk c left \<le> left" "record_chunk c left \<le> 16384"
    "fits_limit (tls_send_record_limit c) (record_chunk c left)"
  using assms by (auto simp: record_chunk_def fits_limit_def Let_def)

text \<open>One round of the writer: a key update if one is due, and a record.\<close>

definition write_round :: "openssl \<Rightarrow> (nat \<Rightarrow> bool) \<Rightarrow> tls13_conn \<Rightarrow> bytes \<Rightarrow> (bool \<times> tls13_conn) option" where
  "write_round lib room c data =
     do { (prepared, c1) \<leftarrow> tls_prepare_app_record lib room c;
          (if prepared then write_app_record lib room c1 data else Some (False, c1)) }"

lemma round_arrives:
  assumes "aead_ok lib" "hashes_ok lib" "sender_ok h a (50 * length data + n) c" "\<And>k. room k" "limit = 0 \<or> 16384 \<le> limit"
    and "data \<noteq> []" "length data \<le> 16384" "fits_limit (tls_send_record_limit c) (length data)"
  obtains d w where "write_round lib room c data = Some (True, d)" "wire_out d = wire_out c @ w" "sender_ok h a n d"
    "\<And>s m r. agree h a (27 + m) c s \<Longrightarrow> wire_in s = w @ r \<Longrightarrow>
       \<exists>t. fill_loop lib room limit s [] = Some (0, t, data) \<and> wire_in t = r \<and> agree h a m d t"
proof -
  obtain k where k: "length data = Suc k" using assms(6) by (cases data) auto
  show thesis
  proof (cases "c_app_seq c \<ge> TLS_RECORD_REKEY_LIMIT")
    case False
    have so: "sender_ok h a (22 + length data + n) c" using sender_ok_mono [OF assms(3)] k by simp
    obtain p d where d: "write_app_record lib room c data = Some (True, d)" "sealed lib c 23 data p"
      "wire_out d = wire_out c @ app_record p" "sender_ok h a n d" "same_link c d" "same_send (c\<lparr>c_app_seq := c_app_seq c + 1\<rparr>) d"
      by (rule write_sends [where room = room, OF assms(1) so _ assms(4,7,8)]) (use False that in auto)
    show thesis
    proof (rule that [of d "app_record p"])
      show "\<exists>t. fill_loop lib room limit s [] = Some (0, t, data) \<and> wire_in t = r \<and> agree h a m d t"
        if "agree h a (27 + m) c s" "wire_in s = app_record p @ r" for s m r
        using data_received [where room = room, OF assms(1,2) so that(1) d(2) that(2) assms(4,6,7,8,5) d(5,6)] by metis
    qed (use False d in \<open>simp_all add: write_round_def tls_prepare_app_record_def\<close>)
  next
    case True
    have so: "sender_ok h a (27 + (22 + length data + n)) c" using sender_ok_mono [OF assms(3)] k by simp
    obtain q c1 where u: "tls_key_update_send lib room c 0 = Some (True, c1)" "sealed lib c 22 [24, 0, 0, 1, 0] q"
      "wire_out c1 = wire_out c @ app_record q" "wire_in c1 = wire_in c" "inbox (fd c1) = inbox (fd c)" "updated_send lib h c c1"
      "sender_ok h a (22 + length data + n) c1" "same_link c c1" "same_receive c c1"
      by (rule key_update_sends [where room = room, OF assms(1,2) so assms(4)], rule that)
    have z: "c_app_seq c1 < TLS_RECORD_REKEY_LIMIT" using u(6) by (simp add: updated_send_def Let_def TLS_RECORD_REKEY_LIMIT_def)
    have f: "fits_limit (tls_send_record_limit c1) (length data)" using assms(8) u(8) by (simp add: same_link_def)
    obtain p d where d: "write_app_record lib room c1 data = Some (True, d)" "sealed lib c1 23 data p"
      "wire_out d = wire_out c1 @ app_record p" "sender_ok h a n d" "same_link c1 d" "same_send (c1\<lparr>c_app_seq := c_app_seq c1 + 1\<rparr>) d"
      by (rule write_sends [where room = room, OF assms(1) u(7) z assms(4,7) f], rule that)
    show thesis
    proof (rule that [of d "app_record q @ app_record p"])
      show "\<exists>t. fill_loop lib room limit s [] = Some (0, t, data) \<and> wire_in t = r \<and> agree h a m d t"
        if g: "agree h a (27 + m) c s" "wire_in s = (app_record q @ app_record p) @ r" for s m r
      proof -
        have g2: "wire_in s = app_record q @ app_record p @ r" using g(2) by simp
        obtain t where t: "fill_loop lib room limit s [] = fill_loop lib room limit t []" "wire_in t = app_record p @ r" "agree h a (27 + m) c1 t"
          by (rule update_received [where room = room, OF assms(1,2) so g(1) u(2) g2 assms(4) u(6,8)], rule that)
        show ?thesis
          unfolding t(1) using data_received [where room = room, OF assms(1,2) u(7) t(3) d(2) t(2) assms(4,6,7) f assms(5) d(5,6)] by metis
      qed
    qed (use True u d in \<open>simp_all add: write_round_def tls_prepare_app_record_def\<close>)
  qed
qed

text \<open>Successive calls of the reader, each with an empty buffer.\<close>

fun fills :: "openssl \<Rightarrow> (nat \<Rightarrow> bool) \<Rightarrow> nat \<Rightarrow> nat \<Rightarrow> tls13_conn \<Rightarrow> (bytes \<times> tls13_conn) option" where
  "fills lib room limit 0 s = Some ([], s)"
| "fills lib room limit (Suc n) s =
     do { (result, t, data) \<leftarrow> fill_reality_plain_cache lib room limit s [];
          (if result = 0 then do { (more_data, u) \<leftarrow> fills lib room limit n t; Some (data @ more_data, u) } else None) }"

lemma prepares:
  assumes "aead_ok lib" "hashes_ok lib" "sender_ok h a (27 + n) c" "\<And>k. room k"
  obtains d where "tls_prepare_app_record lib room c = Some (True, d)" "tls_send_record_limit d = tls_send_record_limit c"
proof (cases "c_app_seq c \<ge> TLS_RECORD_REKEY_LIMIT")
  case True
  obtain d where "tls_key_update_send lib room c 0 = Some (True, d)" "same_link c d"
    by (rule key_update_sends [where room = room, OF assms]) (use that in blast)
  then show thesis using True that by (simp add: tls_prepare_app_record_def same_link_def)
qed (use that in \<open>simp add: tls_prepare_app_record_def\<close>)

lemma agree_mono: "agree h a n c s \<Longrightarrow> m \<le> n \<Longrightarrow> agree h a m c s"
  using sender_ok_mono by (auto simp: agree_def)

text \<open>What a receiver gets when it reads what was written.\<close>

definition delivers ::
  "openssl \<Rightarrow> (nat \<Rightarrow> bool) \<Rightarrow> nat \<Rightarrow> md \<Rightarrow> aead \<Rightarrow> tls13_conn \<Rightarrow> tls13_conn \<Rightarrow> bytes \<Rightarrow> bytes \<Rightarrow> nat \<Rightarrow> bool" where
  "delivers lib room limit h a c d w buf k \<longleftrightarrow>
     (\<forall>s m r. agree h a (27 * length buf + m) c s \<longrightarrow> wire_in s = w @ r \<longrightarrow>
        (\<exists>t. fills lib room limit k s = Some (buf, t) \<and> wire_in t = r \<and> agree h a m d t))"

lemma delivers_Cons:
  assumes "\<And>s m r. agree h a (27 + m) c s \<Longrightarrow> wire_in s = w @ r \<Longrightarrow>
       \<exists>t. fill_loop lib room limit s [] = Some (0, t, data) \<and> wire_in t = r \<and> agree h a m d t"
    and "delivers lib room limit h a d e v later k" "data \<noteq> []"
  shows "delivers lib room limit h a c e (w @ v) (data @ later) (Suc k)"
  unfolding delivers_def
proof (intro allI impI)
  fix s m r
  assume g: "agree h a (27 * length (data @ later) + m) c s" and i: "wire_in s = (w @ v) @ r"
  have "27 + (27 * length later + m) \<le> 27 * length (data @ later) + m" using assms(3) by (cases data) simp_all
  then have g1: "agree h a (27 + (27 * length later + m)) c s" by (rule agree_mono [OF g])
  have i1: "wire_in s = w @ v @ r" using i by simp
  obtain t where t: "fill_loop lib room limit s [] = Some (0, t, data)" "wire_in t = v @ r" "agree h a (27 * length later + m) d t"
    using assms(1) [OF g1 i1] by blast
  then obtain u where u: "fills lib room limit k t = Some (later, u)" "wire_in u = r" "agree h a m e u"
    using assms(2) unfolding delivers_def by blast
  have "\<not> receive_closed s" using g by (simp add: agree_def receiver_ok_def)
  then have "fills lib room limit (Suc k) s = Some (data @ later, u)"
    using t(1) u(1) by (simp add: fill_reality_plain_cache_def)
  then show "\<exists>t. fills lib room limit (Suc k) s = Some (data @ later, t) \<and> wire_in t = r \<and> agree h a m e t" using u(2,3) by blast
qed

lemma write_delivers:
  assumes "aead_ok lib" "hashes_ok lib" "\<And>k. room k" "limit = 0 \<or> 16384 \<le> limit"
  shows "sender_ok h a (50 * length buf + n) c \<Longrightarrow>
    \<exists>d w k. reality_write_app_records lib room c buf = Some (True, d) \<and> wire_out d = wire_out c @ w \<and> sender_ok h a n d \<and>
      delivers lib room limit h a c d w buf k"
proof (induction buf arbitrary: c rule: length_induct)
  case (1 buf)
  show ?case
  proof (cases "buf = []")
    case True
    then show ?thesis
      using 1(2) by (intro exI [of _ c] exI [of _ "[]"] exI [of _ 0]) (simp add: reality_write_app_records.simps delivers_def)
  next
    case False
    have "27 + 0 \<le> 50 * length buf + n" using False by (cases buf) simp_all
    then obtain c1 where c1: "tls_prepare_app_record lib room c = Some (True, c1)" "tls_send_record_limit c1 = tls_send_record_limit c"
      using prepares [where room = room, OF assms(1,2) sender_ok_mono [OF 1(2)] assms(3)] by metis
    define i where "i = record_chunk c1 (length buf)"
    have lim: "tls_send_record_limit c1 = 0 \<or> tls_send_record_limit c1 \<ge> 6" using 1(2) c1(2) by (simp add: sender_ok_def)
    have i: "0 < i" "i \<le> length buf" "i \<le> 16384" "fits_limit (tls_send_record_limit c) i"
      using record_chunk_ok [of "length buf" c1] lim False c1(2) by (simp_all add: i_def)
    let ?data = "take i buf" and ?later = "drop i buf"
    have l: "length ?data = i" "50 * length ?data + (50 * length ?later + n) = 50 * length buf + n" "?data \<noteq> []"
      using i False by (simp_all add: diff_mult_distrib2)
    have so: "sender_ok h a (50 * length ?data + (50 * length ?later + n)) c" using 1(2) unfolding l(2) .
    have fits: "length ?data \<le> 16384" "fits_limit (tls_send_record_limit c) (length ?data)" using i l(1) by simp_all
    obtain d w where d: "write_round lib room c ?data = Some (True, d)" "wire_out d = wire_out c @ w" "sender_ok h a (50 * length ?later + n) d"
      "\<And>s m r. agree h a (27 + m) c s \<Longrightarrow> wire_in s = w @ r \<Longrightarrow>
         \<exists>t. fill_loop lib room limit s [] = Some (0, t, ?data) \<and> wire_in t = r \<and> agree h a m d t"
      by (rule round_arrives [where room = room, OF assms(1,2) so assms(3,4) l(3) fits], rule that)
    have "length ?later < length buf" using i False by simp
    then obtain e v k where e: "reality_write_app_records lib room d ?later = Some (True, e)" "wire_out e = wire_out d @ v"
      "sender_ok h a n e" "delivers lib room limit h a d e v ?later k"
      using 1(1) d(3) by blast
    have "write_app_record lib room c1 ?data = Some (True, d)" using d(1) c1(1) by (simp add: write_round_def)
    then have "reality_write_app_records lib room c buf = Some (True, e)"
      using False c1(1) e(1) by (subst reality_write_app_records.simps) (simp add: i_def)
    moreover have "delivers lib room limit h a c e (w @ v) (?data @ ?later) (Suc k)" by (rule delivers_Cons [OF d(4) e(4) l(3)])
    ultimately show ?thesis
      using d(2) e(2,3) by (intro exI [of _ e] exI [of _ "w @ v"] exI [of _ "Suc k"]) simp
  qed
qed

text \<open>
  Property C4.  Application data survive the record layer.  When storage is to be had and the wire has room, writing any bytes
  succeeds, and a receiver with the keys of the sender that finds what was written, cut into any pieces, reads exactly these
  bytes with a number of calls that each return data, leaves what follows, and agrees with the
  sender on the keys again.  This includes the key updates the sender makes every \<open>2 ^ 20\<close> records, the updates the
  receiver asks for, and the sizes of records: small at first, and never above the limit of the peer.
\<close>

theorem app_data_roundtrip:
  assumes "aead_ok lib" "hashes_ok lib" "\<forall>n. room n" "limit = 0 \<or> 16384 \<le> limit" "sender_ok h a (50 * length buf + n) c"
  shows "\<exists>c1 w k. reality_write_app_records lib room c buf = Some (True, c1) \<and> wire_out c1 = wire_out c @ w \<and> sender_ok h a n c1 \<and>
    (\<forall>s m r. agree h a (27 * length buf + m) c s \<and> wire_in s = w @ r \<longrightarrow>
      (\<exists>s1. fills lib room limit k s = Some (buf, s1) \<and> wire_in s1 = r \<and> agree h a m c1 s1))"
  using write_delivers [where room = room and limit = limit, OF assms(1,2) _ assms(4,5)] assms(3) unfolding delivers_def by blast

text \<open>A sender and a receiver that are about to change keys, and that move three bytes.\<close>

definition sample_sender :: tls13_conn where
  "sample_sender = sample_conn\<lparr>relay_async := True, tls_auth_state := 4, c_app_traffic := replicate 32 1, c_app_key := replicate 16 2,
     c_app_iv := replicate 12 3, c_app_seq := TLS_RECORD_REKEY_LIMIT\<rparr>"

definition sample_receiver :: "bytes \<Rightarrow> tls13_conn" where
  "sample_receiver w = sample_sender\<lparr>xmux_raw_input := w, s_app_traffic := replicate 32 1, s_app_key := replicate 16 2,
     s_app_iv := replicate 12 3, s_app_seq := TLS_RECORD_REKEY_LIMIT\<rparr>"

lemma sample_aead_ok: "aead_ok sample_ssl"
  by (simp add: aead_ok_def sample_ssl_def)

lemma sample_sender_ok: "sender_ok SHA256 AES_128_GCM 150 sample_sender"
  by (simp add: sender_ok_def suite_ok_def record_cipher_for_conn_def wire_room_def sample_sender_def sample_conn_def blank_conn_def)

lemma sample_agree: "agree SHA256 AES_128_GCM 81 sample_sender (sample_receiver w)" "wire_in (sample_receiver w) = w"
  by (simp_all add: agree_def sender_ok_def suite_ok_def record_cipher_for_conn_def wire_room_def linked_def receiver_ok_def limits_ok_def
      sock_open_def wire_in_def pending_def sample_receiver_def sample_sender_def sample_conn_def blank_conn_def)

theorem app_data_roundtrip_witness:
  "\<exists>c1 w k s1. reality_write_app_records sample_ssl (\<lambda>n. True) sample_sender [7, 8, 9] = Some (True, c1) \<and>
     wire_out c1 = w \<and> fills sample_ssl (\<lambda>n. True) 0 k (sample_receiver w) = Some ([7, 8, 9], s1) \<and>
     agree SHA256 AES_128_GCM 0 c1 s1"
proof -
  have e: "wire_out sample_sender = []" by (simp add: wire_out_def sample_sender_def sample_conn_def blank_conn_def)
  obtain c1 w k where r: "reality_write_app_records sample_ssl (\<lambda>n. True) sample_sender [7, 8, 9] = Some (True, c1)" "wire_out c1 = w"
    "\<forall>s m r. agree SHA256 AES_128_GCM (27 * length [7, 8, 9 :: byte] + m) sample_sender s \<and> wire_in s = w @ r \<longrightarrow>
       (\<exists>s1. fills sample_ssl (\<lambda>n. True) 0 k s = Some ([7, 8, 9], s1) \<and> wire_in s1 = r \<and> agree SHA256 AES_128_GCM m c1 s1)"
    using app_data_roundtrip [OF sample_aead_ok sample_hashes_ok, of "\<lambda>n. True" 0 SHA256 AES_128_GCM "[7, 8, 9]" 0 sample_sender]
      sample_sender_ok e by auto
  have "agree SHA256 AES_128_GCM (27 * length [7, 8, 9 :: byte] + 0) sample_sender (sample_receiver w) \<and> wire_in (sample_receiver w) = w @ []"
    using sample_agree [of w] by simp
  then show ?thesis using r by blast
qed

section \<open>No nonce twice\<close>

lemma expand_loop_length: "expand_loop lib h prk info t counter left = Some out \<Longrightarrow> length out = left"
proof (induction lib h prk info t counter left arbitrary: out rule: expand_loop.induct)
  case (1 lib h prk info t counter left)
  show ?case
  proof (cases "left = 0")
    case False
    then obtain u v where u: "hmac_digest_segments lib (Some h) prk t info [counter] (md_size h) = Some u"
      "expand_loop lib h prk info u (counter + 1) (left - min left (md_size h)) = Some v" "out = take (min left (md_size h)) u @ v"
      using "1.prems" by (subst (asm) expand_loop.simps) (auto split: option.splits)
    then show ?thesis using "1.IH" [OF False u(1,2)] hmac_segments_length [OF u(1)] by simp
  qed (use "1.prems" in \<open>simp add: expand_loop.simps\<close>)
qed

lemma label_length: "hkdf_expand_label_md lib md secret label ctx n = Some (Some out) \<Longrightarrow> length out = n"
  by (auto simp: hkdf_expand_label_md_def hkdf_expand_md_def Let_def split: if_splits option.splits dest: expand_loop_length)

lemma derive_iv_length: "derive_key_iv_md lib md secret n = Some (Some (key, iv)) \<Longrightarrow> length iv = 12"
  by (auto simp: derive_key_iv_md_def split: option.splits bind_splits dest: label_length)

lemma update_send_fresh:
  "tls_update_keys lib c True = Some (True, d) \<Longrightarrow> length (c_app_iv d) = 12 \<and> c_app_seq d = 0"
  by (auto simp: tls_update_keys_def attempt_def Let_def split: option.splits bind_splits dest: derive_iv_length)

lemma app_keys_fresh:
  "derive_app_keys lib c = Some (True, d) \<Longrightarrow> length (c_app_iv d) = 12 \<and> c_app_seq d = 0"
  by (auto simp: derive_app_keys_def attempt_def Let_def split: option.splits bind_splits)
    (blast dest: derive_iv_length)

text \<open>
  What the sending half of a connection can do, with the number of times it got new keys and the nonces it used so far, each
  with the number of the keys it was used with.  Anything else in the program leaves the vector and the sequence number alone.
\<close>

inductive sealing :: "openssl \<Rightarrow> (nat \<Rightarrow> bool) \<Rightarrow> tls13_conn \<Rightarrow> nat \<Rightarrow> (nat \<times> bytes) list \<Rightarrow> bool" for lib room where
  start: "length (c_app_iv c) = 12 \<Longrightarrow> sealing lib room c 0 []"
| seal: "sealing lib room c e used \<Longrightarrow> tls_record_seal_owned lib room c inner data = Some (output, d) \<Longrightarrow>
    sealing lib room d e ((e, xor_seq_nonce (c_app_iv c) (c_app_seq c)) # used)"
| update: "sealing lib room c e used \<Longrightarrow> tls_update_keys lib c True = Some (True, d) \<Longrightarrow> sealing lib room d (Suc e) used"
| derive: "sealing lib room c e used \<Longrightarrow> derive_app_keys lib c = Some (True, d) \<Longrightarrow> sealing lib room d (Suc e) used"
| other: "sealing lib room c e used \<Longrightarrow> c_app_key d = c_app_key c \<Longrightarrow> c_app_iv d = c_app_iv c \<Longrightarrow> c_app_seq d = c_app_seq c \<Longrightarrow>
    sealing lib room d e used"

lemma seal_owned_seq:
  "tls_record_seal_owned lib room c inner data = Some (output, d) \<Longrightarrow>
   c_app_seq c < TLS_RECORD_HARD_LIMIT \<and> c_app_seq d = c_app_seq c + 1 \<and> c_app_iv d = c_app_iv c"
  by (auto simp: tls_record_seal_owned_def encrypt_record_into_def Let_def split: if_splits option.splits)

definition uses :: "nat \<Rightarrow> (nat \<times> bytes) list \<Rightarrow> nat" where
  "uses e used = length (filter (\<lambda>u. fst u = e) used)"

definition nonce_inv :: "tls13_conn \<Rightarrow> nat \<Rightarrow> (nat \<times> bytes) list \<Rightarrow> bool" where
  "nonce_inv c e used \<longleftrightarrow>
     length (c_app_iv c) = 12 \<and> distinct used \<and> uses e used \<le> c_app_seq c \<and> (\<forall>k. uses k used \<le> TLS_RECORD_HARD_LIMIT) \<and>
     (\<forall>u \<in> set used. fst u \<le> e \<and> (fst u = e \<longrightarrow> (\<exists>i < c_app_seq c. snd u = xor_seq_nonce (c_app_iv c) i)))"

lemma nonce_inv_seal:
  assumes "nonce_inv c e used" "tls_record_seal_owned lib room c inner data = Some (output, d)"
  shows "nonce_inv d e ((e, xor_seq_nonce (c_app_iv c) (c_app_seq c)) # used)"
proof -
  note q = seal_owned_seq [OF assms(2)]
  have iv: "length (c_app_iv c) = 12" using assms(1) by (simp add: nonce_inv_def)
  have lt: "i < c_app_seq c \<Longrightarrow> i < 2 ^ 64" "c_app_seq c < 2 ^ 64" for i using q by (simp_all add: TLS_RECORD_HARD_LIMIT_def)
  have "(e, xor_seq_nonce (c_app_iv c) (c_app_seq c)) \<notin> set used"
  proof
    assume "(e, xor_seq_nonce (c_app_iv c) (c_app_seq c)) \<in> set used"
    then obtain i where i: "i < c_app_seq c" "xor_seq_nonce (c_app_iv c) (c_app_seq c) = xor_seq_nonce (c_app_iv c) i"
      using assms(1) by (fastforce simp: nonce_inv_def)
    then show False using xor_seq_nonce_inj [OF iv lt(2) lt(1) [OF i(1)] i(2)] by simp
  qed
  moreover have "uses k ((e, x) # used) = uses k used + (if k = e then 1 else 0)" for k x by (simp add: uses_def)
  ultimately show ?thesis
    using assms(1) q by (auto simp: nonce_inv_def less_Suc_eq)
qed

lemma nonce_inv_fresh:
  assumes "nonce_inv c e used" "length (c_app_iv d) = 12 \<and> c_app_seq d = 0"
  shows "nonce_inv d (Suc e) used"
proof -
  have "uses (Suc e) used = 0" using assms(1) by (fastforce simp: nonce_inv_def uses_def filter_empty_conv)
  then show ?thesis using assms by (fastforce simp: nonce_inv_def)
qed

lemma sealing_nonce_inv: "sealing lib room c e used \<Longrightarrow> nonce_inv c e used"
proof (induction rule: sealing.induct)
  case (start c)
  then show ?case by (simp add: nonce_inv_def uses_def)
next
  case (seal c e used inner data rec d)
  then show ?case using nonce_inv_seal by blast
next
  case (update c e used d)
  then show ?case using nonce_inv_fresh update_send_fresh by blast
next
  case (derive c e used d)
  then show ?case using nonce_inv_fresh app_keys_fresh by blast
next
  case (other c e used d)
  then show ?case by (simp add: nonce_inv_def)
qed


lemma sample_sealing:
  "\<exists>d used. sealing sample_ssl (\<lambda>n. True) d 1 used \<and> uses 0 used = 1"
proof -
  obtain payload where "sealed sample_ssl sample_sender 23 [7] payload"
    using seals [OF sample_aead_ok sample_sender_ok, of "[7]" 23] by (auto simp: fits_limit_def sample_sender_def sample_conn_def blank_conn_def)
  then obtain rec d where s: "tls_record_seal_owned sample_ssl (\<lambda>n. True) sample_sender 23 [7] = Some (rec, d)"
    "d = sample_sender\<lparr>c_app_seq := c_app_seq sample_sender + 1\<rparr>"
    using seal_owned [of sample_ssl sample_sender 23 "[7]" payload "\<lambda>n. True"] by auto
  have "sealing sample_ssl (\<lambda>n. True) sample_sender 0 []"
    by (rule sealing.start) (simp add: sample_sender_def)
  from sealing.seal [OF this s(1)]
  have r: "sealing sample_ssl (\<lambda>n. True) d 0 [(0, xor_seq_nonce (c_app_iv sample_sender) (c_app_seq sample_sender))]" by simp
  have k: "suite_ok d SHA256 AES_128_GCM" "length (c_app_traffic d) = md_size SHA256"
    using sample_sender_ok suite_ok_same [of d sample_sender] s(2) by (simp_all add: sender_ok_def)
  show ?thesis
    using sealing.update [OF r] tls_update_keys_exact(1) [OF sample_hashes_ok k] by (fastforce simp: Let_def uses_def)
qed


section \<open>Every call returns\<close>

text \<open>What reading and updating keys does not touch: the bytes that have come in, and the limits.\<close>

definition inputs :: "tls13_conn \<Rightarrow> bool \<times> bytes list \<times> bytes \<times> nat" where
  "inputs c = (relay_async c, inbox (fd c), xmux_raw_input c, tls_send_record_limit c)"

lemma write_exact_inbox: "write_exact k data = (ok, k1) \<Longrightarrow> inbox k1 = inbox k"
proof (induction k data arbitrary: ok k1 rule: write_exact.induct)
  case (1 k data)
  obtain n k0 where s: "core_send k data = (n, k0)" by (cases "core_send k data")
  then have "inbox k0 = inbox k" by (auto simp: core_send_def split: list.splits)
  moreover have "write_exact k data = (if data = [] then (True, k) else if n = 0 then (False, k0) else write_exact k0 (drop n data))"
    by (subst write_exact.simps) (simp only: s prod.case)
  ultimately show ?case using "1.IH" [OF _ s [symmetric], of ok k1] "1.prems" by (auto split: if_splits)
qed

lemma relay_write_inputs: "relay_write_wire room c data = (ok, d) \<Longrightarrow> inputs d = inputs c"
  by (auto simp: relay_write_wire_def wire_append_def inputs_def split: if_splits prod.splits option.splits dest: write_exact_inbox)

lemma wire_append_inputs: "wire_append room c data = (ok, d) \<Longrightarrow> inputs d = inputs c"
  by (auto simp: wire_append_def inputs_def split: if_splits option.splits)

lemma seal_owned_inputs: "tls_record_seal_owned lib room c inner data = Some (rec, d) \<Longrightarrow> inputs d = inputs c"
  by (auto simp: tls_record_seal_owned_def Let_def inputs_def split: if_splits option.splits)

lemma label_total: "length label \<le> 64 \<Longrightarrow> \<exists>r. hkdf_expand_label_md lib md secret label [] n = Some r"
  by (simp add: hkdf_expand_label_md_def hkdf_label_def Let_def)

lemma derive_key_iv_total: "\<exists>r. derive_key_iv_md lib md secret n = Some r"
  using label_total [of "''key''" lib md secret n] label_total [of "''iv''" lib md secret 12]
  by (auto simp: derive_key_iv_md_def split: option.splits)

lemma update_keys_total: "\<exists>ok d. tls_update_keys lib c sending = Some (ok, d) \<and> inputs d = inputs c"
proof -
  obtain r where r: "hkdf_expand_label_md lib (tls_md c) (if sending then c_app_traffic c else s_app_traffic c) ''traffic upd'' [] (tls_hash_len c) = Some r"
    using label_total [of "''traffic upd''" lib "tls_md c" "if sending then c_app_traffic c else s_app_traffic c" "tls_hash_len c"] by auto
  show ?thesis
  proof (cases r)
    case (Some secret)
    obtain q where "derive_key_iv_md lib (tls_md c) secret (tls_key_len c) = Some q" using derive_key_iv_total by blast
    then show ?thesis
      using r Some by (cases q) (auto simp: tls_update_keys_def Let_def inputs_def)
  qed (use r in \<open>auto simp: tls_update_keys_def Let_def\<close>)
qed

lemma key_update_total: "\<exists>ok d. tls_key_update_send lib room c request = Some (ok, d) \<and> inputs d = inputs c"
proof (cases "send_closed c \<or> tls_record_seal_owned lib room c 22 [24, 0, 0, 1, request] = None")
  case True
  then show ?thesis by (auto simp: tls_key_update_send_def)
next
  case False
  then obtain rec c1 where s: "tls_record_seal_owned lib room c 22 [24, 0, 0, 1, request] = Some (rec, c1)" by auto
  obtain ok c2 where w: "(if xmux_async c1 then wire_append room c1 rec else relay_write_wire room c1 rec) = (ok, c2)" by fastforce
  have "inputs c2 = inputs c"
    using w seal_owned_inputs [OF s] by (auto split: if_splits dest: wire_append_inputs relay_write_inputs)
  then show ?thesis
    using False s w update_keys_total [of lib c2 True] by (cases ok) (auto simp: tls_key_update_send_def)
qed

lemma prepare_total: "\<exists>ok d. tls_prepare_app_record lib room c = Some (ok, d) \<and> inputs d = inputs c"
  using key_update_total [of lib room c 0] by (auto simp: tls_prepare_app_record_def)

lemma at16_some: "i + 2 \<le> length buf \<Longrightarrow> \<exists>n. at16 buf i = Some n"
  by (simp add: at16_def byte_at_def)

lemma ticket_extensions_total: "\<exists>r. ticket_extensions body offset seen = Some r"
proof (induction body offset seen rule: ticket_extensions.induct)
  case (1 body offset seen)
  show ?case
  proof (cases "offset < length body \<and> \<not> (length body - offset < 4 \<or> length seen = 256)")
    case True
    then obtain kind n where "at16 body offset = Some kind" "at16 body (offset + 2) = Some n"
      using at16_some [of offset body] at16_some [of "offset + 2" body] by auto
    then show ?thesis using 1 True by (subst ticket_extensions.simps) auto
  next
    case False
    then show ?thesis by (subst ticket_extensions.simps) auto
  qed
qed

lemma session_ticket_total: "\<exists>r. tls_session_ticket body = Some r"
proof (cases "length body < 13")
  case False
  then obtain a b where ab: "at16 body 0 = Some a" "at16 body 2 = Some b" using at16_some [of 0 body] at16_some [of 2 body] by auto
  have n: "byte_at body 8 = Some (body ! 8)" using False by (simp add: byte_at_def)
  let ?o = "9 + unat (body ! 8)"
  show ?thesis
  proof (cases "?o + 2 > length body")
    case True
    then show ?thesis using False ab n by (auto simp: tls_session_ticket_def Let_def)
  next
    case ok: False
    then obtain ticket where t: "at16 body ?o = Some ticket" using at16_some [of ?o body] by auto
    show ?thesis
    proof (cases "ticket = 0 \<or> ticket > length body - (?o + 2) \<or> length body - (?o + 2 + ticket) < 2")
      case True
      then show ?thesis using False ab n ok t by (auto simp: tls_session_ticket_def Let_def)
    next
      case more: False
      then obtain m where "at16 body (?o + 2 + ticket) = Some m" using at16_some [of "?o + 2 + ticket" body] by auto
      then show ?thesis
        using False ab n ok t more ticket_extensions_total [of body "?o + 2 + ticket + 2" "[]"]
        by (auto simp: tls_session_ticket_def Let_def)
    qed
  qed
qed (auto simp: tls_session_ticket_def)

lemma post_handshake_loop_total: "\<exists>ok d. post_handshake_loop lib room c buf = Some (ok, d) \<and> inputs d = inputs c"
proof (induction lib room c buf rule: post_handshake_loop.induct)
  case (1 lib room c buf)
  have keep: "inputs (d\<lparr>tls_post_handshake := buf\<rparr>) = inputs d" for d by (simp add: inputs_def)
  show ?case
  proof (cases "length buf < 4")
    case True
    then show ?thesis by (subst post_handshake_loop.simps) (auto simp: keep)
  next
    case long: False
    then obtain kind where k0: "byte_at buf 0 = Some kind" by (cases buf) (auto simp: byte_at_def)
    obtain n where k1: "at24 buf 1 = Some n" using long by (auto simp: byte_at_def at24_def)
    note k = k0 k1
    show ?thesis
    proof (cases "(n > 256 * 1024 - 4 \<or> (kind = 24 \<and> n \<noteq> 1) \<or> (kind \<noteq> 4 \<and> kind \<noteq> 24)) \<or> length buf < n + 4")
      case True
      then show ?thesis using long k by (subst post_handshake_loop.simps) (auto simp: keep)
    next
      case whole: False
      then have w: "\<not> (n > 256 * 1024 - 4 \<or> (kind = 24 \<and> n \<noteq> 1) \<or> (kind \<noteq> 4 \<and> kind \<noteq> 24))" "\<not> length buf < n + 4" by auto
      show ?thesis
      proof (cases "kind = 24")
        case True
        have r: "byte_at buf 4 = Some (buf ! 4)" using w True by (simp add: byte_at_def)
        obtain up c1 where u: "tls_update_keys lib c False = Some (up, c1)" "inputs c1 = inputs c" using update_keys_total by blast
        obtain an c2 where a: "(if up \<and> buf ! 4 \<noteq> 0 then tls_key_update_send lib room c1 0 else Some (up, c1)) = Some (an, c2)" "inputs c2 = inputs c"
          using key_update_total [of lib room c1 0] u(2) by (cases "up \<and> buf ! 4 \<noteq> 0") auto
        show ?thesis
        proof (cases "unat (buf ! 4) > 1 \<or> length buf \<noteq> n + 4")
          case bad: True
          then show ?thesis
            using long k w True r by (subst post_handshake_loop.simps) (auto simp: keep)
        next
          case fine: False
          have "an \<Longrightarrow> \<exists>ok d. post_handshake_loop lib room c2 (drop (n + 4) buf) = Some (ok, d) \<and> inputs d = inputs c2"
            using 1(1) [OF long k w True r fine u(1) refl a(1) refl] by blast
          moreover have "post_handshake_loop lib room c buf =
              (if an then post_handshake_loop lib room c2 (drop (n + 4) buf) else Some (False, c2\<lparr>tls_post_handshake := buf\<rparr>))"
            using long k w True r fine u(1) a(1) by (subst post_handshake_loop.simps) (simp only: if_False if_True bind.bind_lunit prod.case simp_thms)
          ultimately show ?thesis using a(2) keep [of c2] by auto
        qed
      next
        case False
        obtain body where b: "slice_at buf 4 n = Some body" using w(2) by (auto simp: slice_at_def)
        obtain fine where f: "tls_session_ticket body = Some fine" using session_ticket_total by blast
        have "fine \<Longrightarrow> \<exists>ok d. post_handshake_loop lib room c (drop (n + 4) buf) = Some (ok, d) \<and> inputs d = inputs c"
          using 1(2) [OF long k w False b f] by blast
        moreover have "post_handshake_loop lib room c buf =
            (if fine then post_handshake_loop lib room c (drop (n + 4) buf) else Some (False, c\<lparr>tls_post_handshake := buf\<rparr>))"
          using long k w False b f by (subst post_handshake_loop.simps) (simp only: if_False if_True bind.bind_lunit simp_thms)
        ultimately show ?thesis using keep [of c] by auto
      qed
    qed
  qed
qed

lemma post_handshake_total: "\<exists>ok d. tls_post_handshake_msg lib room c data = Some (ok, d) \<and> inputs d = inputs c"
  using post_handshake_loop_total [of lib room c] by (auto simp: tls_post_handshake_msg_def split: option.splits)

lemma request_update_total: "\<exists>r d cache1. request_update lib room c cache = Some (r, d, cache1) \<and> inputs d = inputs c"
  using key_update_total [of lib room c 1] by (fastforce simp: request_update_def inputs_def)

lemma application_plain_total:
  "\<exists>r d cache1. tls_application_plain lib room limit c inner data cache = Some (r, d, cache1) \<and> inputs d = inputs c"
proof (cases "\<not> receive_closed c \<and> inner = 22")
  case True
  obtain ok d where d: "tls_post_handshake_msg lib room c data = Some (ok, d)" "inputs d = inputs c" using post_handshake_total by blast
  then show ?thesis
    using True request_update_total [of lib room d cache] by (cases ok) (auto simp: tls_application_plain_def)
next
  case False
  have "inputs (c\<lparr>receive_closed := True\<rparr>) = inputs c" by (simp add: inputs_def)
  then show ?thesis
    using False request_update_total [of lib room c] by (auto simp: tls_application_plain_def split: option.splits)
qed

text \<open>Reading a record uses up bytes that have come in.\<close>

definition sock_size :: "sock \<Rightarrow> nat" where
  "sock_size k = length (inbox k) + length (concat (inbox k))"

lemma read_exact_size: "read_exact k n = (Some xs, k1) \<Longrightarrow> length xs = n \<and> sock_size k1 + n \<le> sock_size k"
proof (induction k n arbitrary: xs k1 rule: read_exact.induct)
  case (1 k n)
  show ?case
  proof (cases "n = 0")
    case True
    then show ?thesis using "1.prems" by (simp add: read_exact.simps)
  next
    case False
    obtain p k0 where r: "core_recv k n = (p, k0)" by (cases "core_recv k n")
    have step: "read_exact k n = (case p of None \<Rightarrow> (None, k0)
        | Some ys \<Rightarrow> (case read_exact k0 (n - length ys) of (q, k2) \<Rightarrow> (map_option ((@) ys) q, k2)))"
      using False r by (subst read_exact.simps) simp
    then obtain ys where p: "p = Some ys" using "1.prems" by (cases p) auto
    then obtain zs where z: "read_exact k0 (n - length ys) = (Some zs, k1)" "xs = ys @ zs"
      using "1.prems" step by (auto split: prod.splits)
    have "length ys \<le> n \<and> sock_size k0 + length ys \<le> sock_size k"
      using r p by (auto simp: core_recv_def sock_size_def split: list.splits if_splits)
    moreover have "length zs = n - length ys" "sock_size k1 + (n - length ys) \<le> sock_size k0"
      using "1.IH" [OF False r [symmetric] p z(1)] by simp_all
    ultimately have "length (ys @ zs) = n" "sock_size k1 + n \<le> sock_size k" by (simp, linarith)
    then show ?thesis using z(2) by simp
  qed
qed

lemma buffered_record_size: "buffered_record room raw = Some (Record t p, raw1) \<Longrightarrow> length raw1 + 5 \<le> length raw"
  by (auto simp: buffered_record_def Let_def split: if_splits)

lemma relay_read_loop_size:
  "relay_read_loop room k raw = (Record t p, k1, raw1) \<Longrightarrow> sock_size k1 + length raw1 + 5 \<le> sock_size k + length raw"
proof (induction room k raw rule: relay_read_loop.induct)
  case (1 room k raw)
  show ?case
  proof (cases "buffered_record room raw")
    case (Some r)
    then show ?thesis using "1.prems" buffered_record_size [of room raw]
      by (subst (asm) relay_read_loop.simps) (auto split: prod.splits)
  next
    case None
    then obtain piece pieces where p: "inbox k = piece # pieces" "piece \<noteq> []"
      using "1.prems" by (subst (asm) relay_read_loop.simps) (auto split: list.splits if_splits)
    define k0 where "k0 = k\<lparr>inbox := (if length piece \<le> 16384 then pieces else drop 16384 piece # pieces)\<rparr>"
    have s: "relay_read_loop room k raw = (case cache_append room 0 raw (take 16384 piece) of
        None \<Rightarrow> (Record_Failed, k0, raw) | Some raw0 \<Rightarrow> relay_read_loop room k0 raw0)"
      using None p unfolding k0_def by (subst relay_read_loop.simps) (simp add: Let_def)
    then obtain raw0 where c: "cache_append room 0 raw (take 16384 piece) = Some raw0" using "1.prems" by (auto split: option.splits)
    have "length raw0 = length raw + length (take 16384 piece)" using c p(2) by (auto simp: cache_append_def split: if_splits)
    moreover have "sock_size k0 + length (take 16384 piece) \<le> sock_size k" using p by (auto simp: sock_size_def k0_def)
    ultimately show ?thesis using "1.IH" [OF None p refl k0_def c] "1.prems" s c by simp
  qed
qed

definition input_size :: "tls13_conn \<Rightarrow> nat" where
  "input_size c = (case inputs c of (async, pieces, raw, n) \<Rightarrow> length pieces + length (concat pieces) + length raw)"

lemma input_size_sock: "input_size c = sock_size (fd c) + length (xmux_raw_input c)"
  by (simp add: input_size_def inputs_def sock_size_def)

lemma next_record_size:
  assumes "next_record room c = (Record t p, d)"
  shows "input_size d < input_size c"
proof (cases "relay_async c")
  case True
  obtain r k raw where l: "relay_read_loop room (fd c) (xmux_raw_input c) = (r, k, raw)" using prod_cases3 by blast
  then have "r = Record t p" "d = c\<lparr>fd := k, xmux_raw_input := raw\<rparr>"
    using assms True by (simp_all add: next_record_def relay_read_record_def)
  then show ?thesis using relay_read_loop_size [of room "fd c" "xmux_raw_input c" t p k raw] l by (simp add: input_size_sock)
next
  case False
  obtain r k where b: "read_record_bounded room (fd c) = (r, k)" by (cases "read_record_bounded room (fd c)")
  then have r: "r = Record t p" "d = c\<lparr>fd := k\<rparr>" using assms False by (simp_all add: next_record_def)
  obtain hdr k0 n where h: "read_exact (fd c) 5 = (Some hdr, k0)" "read_exact k0 n = (Some p, k)"
    using b r(1) by (auto simp: read_record_bounded_def read_record_header_def Let_def split: prod.splits option.splits if_splits)
  show ?thesis using read_exact_size [OF h(1)] read_exact_size [OF h(2)] r(2) by (simp add: input_size_sock)
qed

lemma open_owned_inputs: "tls_record_open_owned lib room c rtype payload = Some (data, inner, d) \<Longrightarrow> inputs d = inputs c"
  by (auto simp: tls_record_open_owned_def Let_def inputs_def split: if_splits option.splits)

lemma fill_loop_total: "\<exists>r. fill_loop lib room limit c cache = Some r"
proof (induction "input_size c" arbitrary: c cache rule: less_induct)
  case less
  obtain r c1 where n: "next_record room c = (r, c1)" by (cases "next_record room c")
  show ?case
  proof (cases r)
    case (Record rtype payload)
    show ?thesis
    proof (cases "rtype \<noteq> 0x17 \<or> tls_record_open_owned lib room c1 rtype payload = None")
      case True
      then show ?thesis using n Record by (subst fill_loop.simps) auto
    next
      case False
      then obtain data inner c2 where o: "tls_record_open_owned lib room c1 rtype payload = Some (data, inner, c2)" by auto
      obtain q c3 cache1 where a: "tls_application_plain lib room limit c2 inner data cache = Some (q, c3, cache1)" "inputs c3 = inputs c2"
        using application_plain_total by blast
      have "input_size c3 < input_size c"
        using next_record_size [of room c rtype payload c1] n Record a(2) open_owned_inputs [OF o] by (simp add: input_size_def)
      then obtain s where "fill_loop lib room limit c3 cache1 = Some s" using less by blast
      then show ?thesis using n Record False o a(1) by (cases s) (subst fill_loop.simps, auto)
    qed
  qed (use n in \<open>simp_all add: fill_loop.simps\<close>)
qed

lemma write_record_total: "\<exists>ok d. write_app_record lib room c data = Some (ok, d) \<and> tls_send_record_limit d = tls_send_record_limit c"
proof (cases "tls_record_seal_owned lib room c 23 data")
  case (Some r)
  obtain rec c1 where r: "r = (rec, c1)" by (cases r)
  obtain ok c2 where w: "relay_write_wire room c1 rec = (ok, c2)" by (cases "relay_write_wire room c1 rec")
  have "inputs c2 = inputs c" using relay_write_inputs [OF w] seal_owned_inputs Some r by auto
  then show ?thesis using Some r w by (simp add: write_app_record_def inputs_def)
qed (auto simp: write_app_record_def)

lemma write_total: "tls_send_record_limit c \<noteq> 1 \<Longrightarrow> \<exists>r. reality_write_app_records lib room c buf = Some r"
proof (induction buf arbitrary: c rule: length_induct)
  case (1 buf)
  show ?case
  proof (cases "buf = []")
    case False
    obtain ok c1 where c1: "tls_prepare_app_record lib room c = Some (ok, c1)" "tls_send_record_limit c1 = tls_send_record_limit c"
      using prepare_total [of lib room c] by (auto simp: inputs_def)
    let ?i = "record_chunk c1 (length buf)"
    have i: "0 < ?i" using 1(2) c1(2) False by (auto simp: record_chunk_def Let_def)
    obtain fine c2 where c2: "write_app_record lib room c1 (take ?i buf) = Some (fine, c2)" "tls_send_record_limit c2 = tls_send_record_limit c1"
      using write_record_total by blast
    have "length (drop ?i buf) < length buf" "tls_send_record_limit c2 \<noteq> 1" using i False 1(2) c1(2) c2(2) by simp_all
    then obtain s where "reality_write_app_records lib room c2 (drop ?i buf) = Some s" using 1(1) by blast
    then show ?thesis using False c1(1) c2(1) by (subst reality_write_app_records.simps) (cases ok; cases fine; auto)
  qed (auto simp: reality_write_app_records.simps)
qed

text \<open>
  Property C25.  Whatever bytes come in, whatever the ciphers and hashes answer and whatever storage is to be had, reading
  application data returns and never reads or writes outside an array; and writing returns unless the peer's limit for records
  leaves no room for data, a limit that the handshake refuses.
\<close>

theorem record_layer_returns:
  "(\<exists>r. fill_reality_plain_cache lib room limit c cache = Some r) \<and> (\<exists>r. manual_stream_read lib room c capacity = Some r) \<and>
   (tls_send_record_limit c \<noteq> 1 \<longrightarrow> (\<exists>r. reality_write_app_records lib room c buf = Some r))"
proof -
  have f: "\<exists>r. fill_reality_plain_cache lib room limit c cache = Some r" for limit cache
    using fill_loop_total by (simp add: fill_reality_plain_cache_def)
  obtain r d xs where "fill_reality_plain_cache lib room 16384 c [] = Some (r, d, xs)" using f [of 16384 "[]"] by auto
  then have "\<exists>r. manual_stream_read lib room c capacity = Some r" by (simp add: manual_stream_read_def)
  then show ?thesis using f write_total by blast
qed

theorem record_layer_returns_witness:
  "tls_send_record_limit sample_sender \<noteq> 1 \<and> (\<exists>r. reality_write_app_records sample_ssl (\<lambda>n. n < 100) sample_sender [7, 8] = Some r)"
  using record_layer_returns [of sample_ssl "\<lambda>n. n < 100" 0 sample_sender "[]" 5 "[7, 8]"]
  by (simp add: sample_sender_def sample_conn_def blank_conn_def)

section \<open>The buffers behind the caches\<close>

lemma db_reserve_content:
  assumes "db_reserve got pool s b n = (ok, b1, pool1, s1)" "length (d_data b) + n \<le> SIZE_MAX"
  shows "d_data b1 = d_data b" "ok \<Longrightarrow> d_limit b = 0 \<or> length (d_data b) + n \<le> d_limit b"
  using assms by (auto simp: db_reserve_def Let_def split: if_splits option.splits prod.splits)

text \<open>
  \<open>cache_append\<close> is what \<^verbatim>\<open>db_append\<close> does to the content of a buffer, for some answer to the request for storage.
\<close>

lemma cache_append_refines_db_append:
  assumes "db_append got pool s b xs = (ok, b1, pool1, s1)" "length (d_data b) + length xs \<le> SIZE_MAX"
  shows "cache_append (\<lambda>n. ok) (d_limit b) (d_data b) xs = (if ok then Some (d_data b1) else None)"
proof (cases "xs = []")
  case False
  obtain ok0 b0 pool0 s0 where r: "db_reserve got pool s b (length xs) = (ok0, b0, pool0, s0)" using prod_cases4 by blast
  then show ?thesis
    using assms False db_reserve_content [OF r assms(2)] by (auto simp: db_append_def cache_append_def split: if_splits)
qed (use assms in \<open>simp add: db_append_def cache_append_def\<close>)

text \<open>Storage that is granted for a record is large enough, which is what \<open>room\<close> stands for.\<close>

lemma db_reserve_capacity:
  assumes "db_reserve got pool s b n = (True, b1, pool1, s1)"
  shows "length (d_data b) + n \<le> d_cap b1"
proof -
  have "\<not> (d_limit b \<noteq> 0 \<and> length (d_data b) + n > d_limit b)"
    using assms by (auto simp: db_reserve_def Let_def split: if_splits)
  from db_capacity_ge [OF this] show ?thesis
    using assms by (auto simp: db_reserve_unfold Let_def split: if_splits option.splits prod.splits)
qed

lemma record_buffer_room:
  assumes "tls_record_buffer got pool s authenticated configured owner own memory b needed = (True, b1, pool1, s1)"
  shows "needed \<le> d_cap b1"
proof -
  obtain b2 pool2 s2 where "db_reserve got pool2 s2 b2 (if needed = 0 then 1 else needed) = (True, b1, pool1, s1)"
    using assms by (auto simp: tls_record_buffer_def Let_def split: prod.splits if_splits)
  from db_reserve_capacity [OF this] show ?thesis by (auto split: if_splits)
qed

text \<open>The records of the handshake open with the keys they were sealed with.\<close>

lemma handshake_record_roundtrip:
  assumes "aead_ok lib" "suite_ok c h a" "suite_ok s h a" "tls_send_record_limit c = 0" "tls_receive_record_limit s = 0"
    and "length key = aead_key_size a" "length iv = 12" "length data \<le> 16384" "seq < TLS_RECORD_HARD_LIMIT"
    and "inner = 21 \<or> inner = 22 \<or> inner = 23" "\<And>n. room n"
  shows "\<exists>payload. encrypt_record lib room c key iv seq inner data = Some (app_record payload, seq + 1) \<and>
    decrypt_record lib room s key iv seq 23 payload = Some (data, inner, seq + 1)"
proof -
  have f: "record_cipher_for_conn c = Some a" "record_cipher_for_conn s = Some a" "fits_limit (tls_send_record_limit c) (length data)"
    "fits_limit (tls_receive_record_limit s) (length data)"
    using assms(2-5) by (simp_all add: suite_ok_def fits_limit_def)
  obtain payload where "encrypt_record_into lib c key iv seq inner data (length data + 22) = Some (app_record payload, seq + 1)"
    "length payload = length data + 17" "decrypt_record_into lib s key iv seq 23 payload (length payload) = Some (data, inner, seq + 1)"
    using seal_open [OF assms(1) f(1,2) assms(6,7,8,9) f(3,4) assms(10)] unfolding app_record_def by blast
  then show ?thesis
    using assms(8,11) by (intro exI [of _ payload]) (auto simp: encrypt_record_def decrypt_record_def Let_def)
qed

end
