(* ===== verification/Spec2Isabelle.thy ===== *)
theory Spec2Isabelle
  imports Buffer_Budget Routing Relay_Memory Core_Random Vision Tls_Buffers Utils Requests Deadline Socks5 Hpack Http2 Websocket Http2_Queue Grpc
    Client_Relay Tls_Record
begin

text \<open>
  \<^bold>\<open>Verification of vless-core-cli.\<close>

  The program is a proxy client in C.  A local application speaks SOCKS5 to it; the program picks a route,
  opens a connection to a server (TLS, REALITY, WebSocket, gRPC, XHTTP or plain), sends the header of the
  protocol (VLESS, Trojan, VMess, Shadowsocks) and relays bytes both ways, for VLESS with the Vision padding.
  The theories follow the files under \<^verbatim>\<open>src/src\<close> and \<^verbatim>\<open>src/include\<close>; a definition has the name of
  the C function it models, a loop or a branch of a function that is a definition of its own has a name that
  says what it does, and records and datatypes are the structs and enumerations of the headers.

  \<^bold>\<open>The parts and their theories.\<close>

  \<^item> \<open>Prelude\<close>, \<open>C_Text\<close>: bytes, big-endian fields, \<^verbatim>\<open>size_t\<close> arithmetic with its wrap-around, error
    numbers; the character classes, \<^verbatim>\<open>strtol\<close> and \<^verbatim>\<open>strtok_r\<close> of the C library.
  \<^item> \<open>Buffer_Budget\<close> (\<^verbatim>\<open>buffer_budget.c\<close>): budgets charged against the limit of a direction, as a state
    machine over all budgets; every locked section is one step.  The charge is exact and within the limit in every
    reachable state, a reserved minimum can always be held, releases wake the waiters.
  \<^item> \<open>Relay_Memory\<close> (\<^verbatim>\<open>relay_memory.c\<close>): growable buffers over the budgets, through the locale
    \<open>byte_buffer\<close>; appends are exact, a closed relay leaves no charge.
  \<^item> \<open>Tls_Buffers\<close> (the buffers of \<^verbatim>\<open>tls_records.c\<close>): the handshake pool counts exactly its buffers.
  \<^item> \<open>Tls_Keys\<close> (the key schedule in \<^verbatim>\<open>tls_records.c\<close>): HKDF, labels, secrets and keys are those of RFC 5869 and
    RFC 8446; the key share of a ServerHello is read within the message.
  \<^item> \<open>Tls_Record\<close> (the records in \<^verbatim>\<open>tls_records.c\<close>): sealing and opening, key updates, messages after the
    handshake, writing and reading of application data.  What is written is read back through every key update, no nonce
    is used twice with one generation of keys, and every call returns.
  \<^item> \<open>Http2_Queue\<close> (\<^verbatim>\<open>http2_queue.c\<close>): stream queues in cached blocks or flat; they refine a queue of
    bytes (locale \<open>byte_queue\<close>).
  \<^item> \<open>Core_Random\<close> (\<^verbatim>\<open>core_random.c\<close>): rejection sampling is in range and unbiased.
  \<^item> \<open>Deadline\<close> (\<^verbatim>\<open>deadline.c\<close>): scopes, pauses and limits.
  \<^item> \<open>Utils\<close> (\<^verbatim>\<open>utils.c\<close>): hexadecimal, UUID, base64url and percent decoding are exact inverses of
    reference encoders; request targets and paths are safe.
  \<^item> \<open>Routing\<close> (\<^verbatim>\<open>routing.c\<close>): the rule parser, the decision, prefix matching, and the exchange with the
    route controller.
  \<^item> \<open>Vision_Observer\<close>, \<open>Vision\<close> (\<^verbatim>\<open>vision.c\<close>): the TLS observer, wrapping and unwrapping.  The
    chunk-wise unwrapper refines a byte-at-a-time reader, and wrapping and unwrapping are inverse.
  \<^item> \<open>Requests\<close> (\<^verbatim>\<open>vless.c\<close>, \<^verbatim>\<open>trojan.c\<close>): request encoders read back by strict readers; the
    incremental reader of the response is the blocking one.
  \<^item> \<open>Socks5\<close> (\<^verbatim>\<open>socks5.c\<close>): the negotiation with the local client, however its bytes arrive.
  \<^item> \<open>Hpack\<close> (\<^verbatim>\<open>hpack.c\<close>), \<open>Http2\<close> (\<^verbatim>\<open>http2.c\<close>), \<open>Http1\<close> (\<^verbatim>\<open>http1.c\<close>),
    \<open>Websocket\<close> (\<^verbatim>\<open>websocket.c\<close>), \<open>Grpc\<close> (\<^verbatim>\<open>grpc.c\<close>): the decoders of the transports, with
    their limits, their termination and their round trips.
  \<^item> \<open>Sniff\<close> (\<^verbatim>\<open>main.c\<close>, from \<^verbatim>\<open>read_with_timeout\<close> to \<^verbatim>\<open>sniff_domain\<close>): the first payload and
    the domain in it.
  \<^item> \<open>Client_Relay\<close> (\<^verbatim>\<open>main.c\<close>, the room functions and the data path of \<^verbatim>\<open>client_worker_run\<close>): the
    first packet, upload and download, composed of the parts above, as the inductive relation \<open>relay_run\<close>.

  This theory holds what spans the parts: a connection is transparent in both directions in every state it
  can reach, and the target a SOCKS5 client asks for is the target the server is asked for.

  \<^bold>\<open>Parameters.\<close>  Code outside the repository is an argument: the allocator (\<open>got n\<close>, its answer to a request
  for \<open>n\<close> bytes), \<^verbatim>\<open>inet_pton\<close> and \<^verbatim>\<open>inet_ntop\<close> (with their result sizes, and that they are
  inverse, as named hypotheses), the random source, the hashes and the ciphers of OpenSSL (that they compute, with
  results of the documented lengths, and that opening inverts sealing, as the named hypotheses \<open>hashes_ok\<close> and
  \<open>aead_ok\<close>), SHA-224, the clock, the environment, and what
  peers send and sockets accept (scripts).  Wiping of secrets has no observable effect and is left out.

  \<^bold>\<open>Loops.\<close>  Loops are recursive functions with termination proofs.  The decoders of \<open>Http1\<close>,
  \<open>Websocket\<close> and \<open>Grpc\<close> loop while the states they pass through allow it, and are partial functions in
  the option type, as are the loops that read and write records; that they return is part of their properties.  Fuel is used where every iteration consumes
  input: the unwrapping loop and the observer get the length of their input, which their lemmas show to be enough.

  \<^bold>\<open>Not modelled.\<close>  The messages of the TLS handshake, certificates, TLS 1.2 (also its branches in the record layer), REALITY, VLESS
  encryption, VMess and Shadowsocks are computations over OpenSSL; the HTTP/2 pool and the transports over it, the resolver, the
  dialer and the sockets are threads and system calls; the link and header settings parsers, JSON, XHTTP
  settings, command line, logging and tracing are not modelled yet.  Of \<^verbatim>\<open>client_worker_run\<close> the polling, the
  deadlines, the tracing and the protocols other than VLESS are left out.
\<close>


text \<open>
  The documented agreement of \<^verbatim>\<open>inet_ntop\<close> and \<^verbatim>\<open>inet_pton\<close>: the text of an
  address reads back as that address, and the text of an IPv6 address is not one of IPv4.
\<close>

definition inet_inverse :: "ntop \<Rightarrow> inet \<Rightarrow> bool" where
  "inet_inverse nt net \<longleftrightarrow>
     (\<forall>a. length a = 4 \<longrightarrow> pton4 net (ntop4 nt a) = Some a) \<and>
     (\<forall>a. length a = 16 \<longrightarrow> pton4 net (ntop6 nt a) = None \<and> pton6 net (ntop6 nt a) = Some a)"

text \<open>A domain name that spells an address is that address for the encoders.\<close>

definition asked_target :: "inet \<Rightarrow> target \<Rightarrow> target" where
  "asked_target net t = (case t of Target_Domain d \<Rightarrow> host_target net d | _ \<Rightarrow> t)"

lemma target_round:
  assumes "inet_inverse nt net" and "socks5_target_ok t"
  shows "host_target net (target_text nt t) = asked_target net t"
  using assms by (cases t) (auto simp: inet_inverse_def socks5_target_ok_def host_target_def target_text_def asked_target_def)

text \<open>
  Property C1: a connection is transparent.  In every state it can reach, whatever is uploaded,
  downloaded and sent in whatever order and pieces, a server that reads the request off the front of what
  was written finds the user, the flow, the port and the target, and behind it exactly the bytes read from
  the client; only when the server has stopped receiving, after which the connection goes on without
  uploads, may the end of the last read be missing.  When no single read from the client was longer than a
  Vision block, this also holds for a server that reads the request and the padded stream through the
  protocol stack and, from the end of the block with the direct command on, only the raw channel of the
  configuration: the relay switches exactly there.  And when the server answers with a response header and a
  body, the client has been sent exactly what the body carries, up to the bytes that still wait in the
  output buffer.
\<close>

theorem connection_transparent:
  assumes "relay_run got rnd net cfg env uuid flow host port st t"
    and "length uuid = 16" and "random_ok rnd" and "vless cfg" and "inet_sizes net"
  shows "(\<exists>body. vless_reader (wire_bytes (up_wire t)) = Some (uuid, flow, unat port, host_target net host, body) \<and>
      delivered (up_stopped t) (peer_reads cfg uuid body) (up_plain t)) \<and>
    (up_largest t \<le> 65535 \<longrightarrow>
      (\<exists>read_plain. server_reads cfg (up_wire t) = Some (uuid, flow, unat port, host_target net host, read_plain) \<and>
        delivered (up_stopped t) read_plain (up_plain t))) \<and>
    (\<forall>n addons body. down_wire t = [0, n] @ addons @ body \<and> length addons = unat n \<and>
        (use_vision cfg \<longrightarrow> fst (pad_run uuid (Matching 0) body) \<noteq> Lost) \<longrightarrow>
       down_plain t @ outd st = peer_reads cfg uuid body)"
  by (intro conjI allI impI, rule relay_run_up(1) [OF assms], rule relay_run_up(2) [OF assms], assumption)
    (use relay_run_down [OF assms(1-4)] in blast)

theorem connection_transparent_witness:
  "vless_reader (request_bytes sample_uuid [] 443 (Target_Domain ''a.b'') @ [7]) = Some (sample_uuid, [], 443, Target_Domain ''a.b'', [7]) \<and>
   server_reads sample_config [(Upstream, request_bytes sample_uuid [] 443 (Target_Domain ''a.b'')), (Upstream, [7])] =
     Some (sample_uuid, [], 443, Target_Domain ''a.b'', [7])"
proof -
  let ?net = "\<lparr>pton4 = (\<lambda>_. None), pton6 = (\<lambda>_. None)\<rparr>"
  have "length sample_uuid = 16" "vless sample_config" "inet_sizes ?net" "host_target ?net ''a.b'' = Target_Domain ''a.b''"
    by (simp_all add: sample_uuid_def sample_config_def inet_sizes_def host_target_def)
  with connection_transparent [OF sample_relay_run _ sample_random_ok]
  show ?thesis by (auto simp: peer_reads_def sample_config_def wire_bytes_def delivered_def)
qed

text \<open>
  Property C2: what a client asks for is what the server is asked for.  However the bytes of a SOCKS5
  client arrive, when it offers the method without authentication and asks to connect to a target, every
  VLESS connection run for the negotiated host and port has sent a request whose target and port are the
  ones of the client, and a Trojan request for them, if there is one, names them too.
\<close>

theorem client_target_reaches_server:
  assumes "ntop_sizes nt" and "inet_inverse nt net" and "inet_sizes net" and "sock_open k" and "0 \<notin> set (accepts k)" and "2 \<le> length (accepts k)"
    and "pending k = [5, of_nat (length methods)] @ methods @ [5, 1, 0] @ address_bytes 1 3 4 t @ be16 port @ rest"
    and "0 \<in> set methods" and "length methods < 256" and "socks5_target_ok t" and "0 < port" and "port < 65536"
    and "length uuid = 16" and "random_ok rnd" and "vless cfg" and "length hash = 28"
  shows "\<exists>host k'. negotiate_target nt 512 k = (Inr (host, port), k') \<and> pending k' = rest \<and>
    (\<forall>got env flow st tr. relay_run got rnd net cfg env uuid flow host (of_nat port) st tr \<longrightarrow>
       (\<exists>body. vless_reader (wire_bytes (up_wire tr)) = Some (uuid, flow, port, asked_target net t, body))) \<and>
    (\<forall>p. core_trojan_request net 320 hash host (of_nat port) = Inr p \<longrightarrow>
       (\<exists>body. trojan_reader p = Some (hash, asked_target net t, port, body)))"
proof -
  let ?host = "target_text nt t"
  have tgt: "host_target net ?host = asked_target net t" by (rule target_round [OF assms(2,10)])
  have p: "unat (of_nat port :: 16 word) = port" using assms(12) by (simp add: unat_of_nat)
  obtain k' where "negotiate_target nt 512 k = (Inr (?host, port), k')" "pending k' = rest"
    using negotiate_connect [OF assms(1,4-9) _ assms(10-12), of 512] by auto
  moreover have "\<exists>body. vless_reader (wire_bytes (up_wire tr)) = Some (uuid, flow, port, asked_target net t, body)"
    if "relay_run got rnd net cfg env uuid flow ?host (of_nat port) st tr" for got env flow st tr
    using relay_run_up(1) [OF that assms(13-15,3)] tgt p by auto
  moreover have "\<exists>body. trojan_reader q = Some (hash, asked_target net t, port, body)"
    if "core_trojan_request net 320 hash ?host (of_nat port) = Inr q" for q
  proof -
    have "core_trojan_request net 320 hash ?host (of_nat port) = Inl EINVAL" if "?host = [] \<or> of_nat port = (0 :: 16 word)"
      using that by (simp add: core_trojan_request_def)
    then have "?host \<noteq> []" "of_nat port \<noteq> (0 :: 16 word)" using that by auto
    then have "trojan_host_ok (host_target net ?host)" "q = trojan_bytes hash (of_nat port) (host_target net ?host)"
      using that core_trojan_request_bytes [OF assms(3,16), of ?host "of_nat port" 320] by (simp_all split: if_split_asm)
    then show ?thesis using trojan_reader_request [OF assms(3,16), of ?host "of_nat port" "[]"] tgt p by auto
  qed
  ultimately show ?thesis by blast
qed

definition sample_ntop :: ntop where
  "sample_ntop = \<lparr>ntop4 = (\<lambda>a. bytes_text (take 4 a)), ntop6 = (\<lambda>a. bytes_text (take 16 a))\<rparr>"

definition sample_inet :: inet where
  "sample_inet = \<lparr>pton4 = (\<lambda>s. if length s = 4 then Some (text_bytes s) else None),
     pton6 = (\<lambda>s. if length s = 16 then Some (text_bytes s) else None)\<rparr>"

theorem client_target_reaches_server_witness:
  "let k = \<lparr>inbox = [[5], [1, 0, 5], [1, 0, 1, 65, 66], [67, 68, 0, 80, 7]], accepts = [1, 9], sent = []\<rparr>
   in \<exists>host k'. negotiate_target sample_ntop 512 k = (Inr (host, 80), k') \<and> pending k' = [7] \<and>
        (\<forall>got env flow st tr. relay_run got sample_random sample_inet sample_config env sample_uuid flow host 80 st tr \<longrightarrow>
           (\<exists>body. vless_reader (wire_bytes (up_wire tr)) = Some (sample_uuid, flow, 80, Target4 [65, 66, 67, 68], body)))"
proof -
  let ?k = "\<lparr>inbox = [[5], [1, 0, 5], [1, 0, 1, 65, 66], [67, 68, 0, 80, 7]], accepts = [1, 9], sent = []\<rparr>"
  let ?t = "Target4 [65, 66, 67, 68]"
  have net: "ntop_sizes sample_ntop" "inet_inverse sample_ntop sample_inet" "inet_sizes sample_inet"
    by (auto simp: ntop_sizes_def inet_inverse_def inet_sizes_def sample_ntop_def sample_inet_def)
  have k: "sock_open ?k" "0 \<notin> set (accepts ?k)" "2 \<le> length (accepts ?k)"
    "pending ?k = [5, of_nat (length [0])] @ [0] @ [5, 1, 0] @ address_bytes 1 3 4 ?t @ be16 80 @ [7]"
    by (simp_all add: sock_open_def pending_def address_bytes_def be16_def)
  have ok: "socks5_target_ok ?t" "length sample_uuid = 16" "vless sample_config" "asked_target sample_inet ?t = ?t"
    by (simp_all add: socks5_target_ok_def sample_uuid_def sample_config_def asked_target_def)
  from client_target_reaches_server [OF net k _ _ ok(1) _ _ ok(2) sample_random_ok ok(3), of "replicate 28 0"] ok(4)
  show ?thesis by (simp add: Let_def) blast
qed

end
